(* ===== verification/Prelude.thy ===== *)
theory Prelude
  imports Main "HOL-Library.Multiset" "HOL-Library.While_Combinator" "HOL-Library.Monad_Syntax"
begin

section \<open>Prelude: shared types, table operations and lemmas\<close>

text \<open>
  Everything the component theories share: the names of the model's base types, the
  relational-table operations the SQL statements of the source are translated to, and the
  generic facts on lists, maps and numbers the component proofs use.

  A UUID is modelled by the natural number its 128 bits denote. The code only compares UUIDs for
  equality and for order, and both orders it uses (PostgreSQL's byte order in \<open>least\<close> /
  \<open>greatest\<close>, Go's order on the fixed-length lower-case hexadecimal text) are the order of
  these numbers. \<open>uuid.Nil\<close> is 0. A time is an integer number of nanoseconds.
\<close>

type_synonym uuid = nat
type_synonym gotime = int

definition uuid_Nil :: uuid where
  "uuid_Nil = 0"

named_theorems table_simps \<open>what a table holds after an update, insert or delete\<close>
named_theorems frame_simps \<open>fields and tables an operation leaves alone\<close>

subsection \<open>Tables\<close>

text \<open>
  A table is the list of its rows. \<open>UPDATE t SET f WHERE P\<close> is \<open>update_where P f t\<close>,
  \<open>DELETE FROM t WHERE P\<close> is \<open>delete_where P t\<close>, a single-row \<open>SELECT\<close> by key is
  \<open>List.find\<close>.
\<close>

definition update_where :: "('r \<Rightarrow> bool) \<Rightarrow> ('r \<Rightarrow> 'r) \<Rightarrow> 'r list \<Rightarrow> 'r list" where
  "update_where P f t = map (\<lambda>r. if P r then f r else r) t"

definition delete_where :: "('r \<Rightarrow> bool) \<Rightarrow> 'r list \<Rightarrow> 'r list" where
  "delete_where P t = filter (\<lambda>r. \<not> P r) t"

lemma update_where_Nil [table_simps]: "update_where P f [] = []"
  by (simp add: update_where_def)

lemma update_where_Cons [table_simps]:
  "update_where P f (r # t) = (if P r then f r else r) # update_where P f t"
  by (simp add: update_where_def)

lemma length_update_where [simp]: "length (update_where P f t) = length t"
  by (simp add: update_where_def)

lemma set_update_where: "set (update_where P f t) = (\<lambda>r. if P r then f r else r) ` set t"
  by (simp add: update_where_def)

lemma set_delete_where [simp]: "set (delete_where P t) = {r \<in> set t. \<not> P r}"
  by (auto simp: delete_where_def)

lemma update_where_none: "(\<And>r. r \<in> set t \<Longrightarrow> \<not> P r) \<Longrightarrow> update_where P f t = t"
  unfolding update_where_def by (rule map_idI) auto

lemma map_update_where:
  assumes "\<And>r. g (f r) = g r"
  shows "map g (update_where P f t) = map g t"
  using assms by (simp add: update_where_def)

lemma filter_update_where_indep:
  assumes "\<And>r. Q (f r) = Q r"
  shows "filter Q (update_where P f t) = update_where P f (filter Q t)"
  using assms by (induction t) (auto simp: update_where_def)

lemma find_Some_in: "List.find P t = Some r \<Longrightarrow> r \<in> set t \<and> P r"
  by (induction t) (auto split: if_splits)

lemma find_None_iff_all: "List.find P t = None \<longleftrightarrow> (\<forall>r \<in> set t. \<not> P r)"
  by (induction t) auto

lemma find_by_key:
  assumes "distinct (map key t)" and "r \<in> set t"
  shows "List.find (\<lambda>x. key x = key r) t = Some r"
  using assms by (induction t) (auto simp: image_iff)

lemma find_update_where:
  assumes "\<And>r. Q (f r) = Q r"
  shows "List.find Q (update_where P f t)
       = map_option (\<lambda>r. if P r then f r else r) (List.find Q t)"
  using assms by (induction t) (auto simp: update_where_def)

text \<open>A loop whose body may fail: the first error ends it.\<close>

fun forM :: "('a \<Rightarrow> 's \<Rightarrow> 'e + 's) \<Rightarrow> 'a list \<Rightarrow> 's \<Rightarrow> 'e + 's" where
  "forM f [] s = Inr s"
| "forM f (x # xs) s = (case f x s of Inl e \<Rightarrow> Inl e | Inr s' \<Rightarrow> forM f xs s')"

lemma forM_append:
  "forM f (xs @ ys) s = (case forM f xs s of Inl e \<Rightarrow> Inl e | Inr s' \<Rightarrow> forM f ys s')"
  by (induction xs arbitrary: s) (auto split: sum.split)

lemma forM_total: "(\<And>x s. x \<in> set xs \<Longrightarrow> f x s = Inr (g x s)) \<Longrightarrow> forM f xs s = Inr (fold g xs s)"
  by (induction xs arbitrary: s) auto

lemma forM_invariant:
  assumes "forM f xs s = Inr s'" and "I s"
    and "\<And>x s s'. x \<in> set xs \<Longrightarrow> I s \<Longrightarrow> f x s = Inr s' \<Longrightarrow> I s'"
  shows "I s'"
  using assms
proof (induction xs arbitrary: s)
  case (Cons x xs)
  then obtain s1 where s1: "f x s = Inr s1" "forM f xs s1 = Inr s'" by (auto split: sum.splits)
  have "I s1" using Cons.prems(2,3) s1(1) by (meson list.set_intros(1))
  with s1(2) show ?case by (rule Cons.IH) (use Cons.prems(3) in \<open>meson list.set_intros(2)\<close>)
qed simp

text \<open>Several updates in a row.\<close>

lemma fold_update_where:
  "fold (\<lambda>x t. update_where (P x) (f x) t) xs t
   = map (\<lambda>r. fold (\<lambda>x r. if P x r then f x r else r) xs r) t"
  by (induction xs arbitrary: t) (simp_all add: update_where_def)

lemma fold_by_key:
  assumes "distinct (map k xs)" and "\<And>x r. key (f x r) = key r"
  shows "fold (\<lambda>x r. if key r = k x then f x r else r) xs r
    = (case List.find (\<lambda>x. k x = key r) xs of Some x \<Rightarrow> f x r | None \<Rightarrow> r)"
  using assms(1)
proof (induction xs arbitrary: r)
  case (Cons x xs)
  show ?case
  proof (cases "key r = k x")
    case True
    then have "List.find (\<lambda>y. k y = key (f x r)) xs = None"
      using Cons.prems assms(2) unfolding find_None_iff_all by (metis distinct.simps(2) image_eqI list.set_map list.simps(9))
    then show ?thesis using True Cons by simp
  next
    case False
    then show ?thesis using Cons by (auto simp: eq_commute)
  qed
qed simp

lemma find_nth_key:
  assumes "distinct (map k xs)" and "i < length xs"
  shows "List.find (\<lambda>x. k x = k (xs ! i)) xs = Some (xs ! i)"
  using assms by (intro find_by_key) simp_all

lemma find_map: "List.find P (map f xs) = map_option f (List.find (\<lambda>x. P (f x)) xs)"
  by (induction xs) auto

lemma find_cong': "(\<And>x. x \<in> set xs \<Longrightarrow> P x = Q x) \<Longrightarrow> List.find P xs = List.find Q xs"
  by (induction xs) auto

lemma enumerate_0: "enumerate 0 xs = map (\<lambda>i. (i, xs ! i)) [0..<length xs]"
  by (rule nth_equalityI) (auto simp: nth_enumerate_eq)

subsection \<open>Lists\<close>

lemma nth_fold_update:
  assumes "\<forall>i \<in> set is. g i \<noteq> j"
  shows "fold (\<lambda>i xs. xs[g i := h i (xs ! g i)]) is xs ! j = xs ! j"
  using assms by (induction "is" arbitrary: xs) auto

lemma nth_fold_update_at:
  assumes "distinct is" and "inj_on g (set is)" and "i \<in> set is" and "g i < length xs"
  shows "fold (\<lambda>i xs. xs[g i := h i (xs ! g i)]) is xs ! g i = h i (xs ! g i)"
  using assms
proof (induction "is" arbitrary: xs)
  case (Cons k "is")
  show ?case
  proof (cases "i = k")
    case True
    with Cons.prems have "\<forall>l \<in> set is. g l \<noteq> g i" by (auto simp: inj_on_def)
    then show ?thesis using True Cons.prems(4) by (simp add: nth_fold_update)
  next
    case False
    with Cons.prems have "i \<in> set is" "g k \<noteq> g i" "inj_on g (set is)"
      by (auto simp: inj_on_def)
    then show ?thesis using Cons.IH [of "xs[g k := h k (xs ! g k)]"] Cons.prems by simp
  qed
qed simp

lemma length_fold_update [simp]:
  "length (fold (\<lambda>i xs. xs[g i := h i (xs ! g i)]) is xs) = length xs"
  by (induction "is" arbitrary: xs) auto

lemma distinct_concat_map_pair:
  "distinct (concat (map (\<lambda>x. [f x, g x]) xs))
   \<longleftrightarrow> distinct (map f xs) \<and> distinct (map g xs) \<and> f ` set xs \<inter> g ` set xs = {}"
  by (induction xs) auto

lemma length_concat_pair [simp]: "length (concat (map (\<lambda>x. [f x, g x]) xs)) = 2 * length xs"
  by (induction xs) auto

lemma nth_concat_pair:
  "i < length xs \<Longrightarrow> concat (map (\<lambda>x. [f x, g x]) xs) ! (2 * i) = f (xs ! i)"
  "i < length xs \<Longrightarrow> concat (map (\<lambda>x. [f x, g x]) xs) ! (2 * i + 1) = g (xs ! i)"
proof (induction xs arbitrary: i)
  case (Cons x xs)
  { case 1 then show ?case using Cons.IH(1) [of "i - 1"] by (cases i) auto }
  { case 2 then show ?case using Cons.IH(2) [of "i - 1"] by (cases i) auto }
qed simp_all

lemma concat_consecutive_pairs:
  "length xs = 2 * n \<Longrightarrow> concat (map (\<lambda>i. [xs ! (i * 2), xs ! (i * 2 + 1)]) [0..<n]) = xs"
proof (induction n arbitrary: xs)
  case (Suc n)
  then obtain ys a b where xs: "xs = ys @ [a, b]" "length ys = 2 * n"
    by (cases xs rule: rev_cases; cases "butlast xs" rule: rev_cases) auto
  have "concat (map (\<lambda>i. [xs ! (i * 2), xs ! (i * 2 + 1)]) [0..<n])
      = concat (map (\<lambda>i. [ys ! (i * 2), ys ! (i * 2 + 1)]) [0..<n])"
    using xs by (intro arg_cong [where f = concat] map_cong) (auto simp: nth_append)
  moreover have "xs ! (n * 2) = a" "xs ! (n * 2 + 1) = b" using xs by (auto simp: nth_append)
  ultimately show ?case using Suc.IH [OF xs(2)] xs(1) by simp
qed simp

lemma filter_concat_key:
  assumes "distinct rs" and "\<And>r x. x \<in> set (f r) \<Longrightarrow> key x = r"
  shows "filter (\<lambda>x. key x = k) (concat (map f rs)) = (if k \<in> set rs then f k else [])"
  using assms(1)
proof (induction rs)
  case (Cons r rs)
  have "filter (\<lambda>x. key x = k) (f r) = (if r = k then f r else [])"
    using assms(2) by (auto simp: filter_empty_conv intro: filter_True)
  then show ?case using Cons by auto
qed simp

lemma filter_concat_key_inj:
  assumes "distinct rs" and "inj h" and "\<And>r x. x \<in> set (f r) \<Longrightarrow> key x = h r"
  shows "filter (\<lambda>x. key x = h k) (concat (map f rs)) = (if k \<in> set rs then f k else [])"
  using assms(1)
proof (induction rs)
  case (Cons r rs)
  have "filter (\<lambda>x. key x = h k) (f r) = (if r = k then f r else [])"
    using assms(2,3) by (auto simp: filter_empty_conv inj_eq intro: filter_True)
  then show ?case using Cons by auto
qed simp

lemma mset_concat_update:
  "i < length xss \<Longrightarrow> mset (concat (xss[i := xss ! i @ [x]])) = add_mset x (mset (concat xss))"
proof (induction xss arbitrary: i)
  case (Cons xs xss)
  then show ?case by (cases i) auto
qed simp

lemma concat_single_index:
  "i < n \<Longrightarrow> concat (map (\<lambda>j. if j = i then f j else []) [0..<n]) = f i"
proof (induction n)
  case (Suc n)
  have "i = n \<Longrightarrow> concat (map (\<lambda>j. if j = i then f j else []) [0..<n]) = []" by (induction n) auto
  then show ?case using Suc by (cases "i = n") auto
qed simp

subsection \<open>Powers of two\<close>

lemma pow2_div2: "0 < k \<Longrightarrow> (2::nat) ^ k div 2 = 2 ^ (k - 1)"
  by (cases k) auto

subsection \<open>Text\<close>

text \<open>
  A Go string is the list of its bytes. \<open>utf8 c\<close> is \<open>string(rune(c))\<close>: the UTF-8 encoding of the
  code point, or of U+FFFD when \<open>c\<close> is none. \<open>dec i\<close> is the verb \<open>%d\<close> of \<open>fmt.Sprintf\<close>.
\<close>

definition utf8_valid :: "int \<Rightarrow> bool" where
  "utf8_valid c \<longleftrightarrow> 0 \<le> c \<and> c \<le> 1114111 \<and> \<not> (55296 \<le> c \<and> c \<le> 57343)"

definition utf8 :: "int \<Rightarrow> string" where
  "utf8 i =
     (let c = (if utf8_valid i then nat i else 65533);
          tail = (\<lambda>k. char_of (128 + (c div 64 ^ k) mod 64))
      in if c < 128 then [char_of c]
         else if c < 2048 then [char_of (192 + c div 64), tail 0]
         else if c < 65536 then [char_of (224 + c div 4096), tail 1, tail 0]
         else [char_of (240 + c div 262144), tail 2, tail 1, tail 0])"

fun dec_nat :: "nat \<Rightarrow> string" where
  "dec_nat n = (if n < 10 then [char_of (48 + n)]
                else dec_nat (n div 10) @ [char_of (48 + n mod 10)])"

declare dec_nat.simps [simp del]

definition dec :: "int \<Rightarrow> string" where
  "dec i = (if i < 0 then CHR ''-'' # dec_nat (nat (- i)) else dec_nat (nat i))"

fun dec_value :: "string \<Rightarrow> nat \<Rightarrow> nat" where
  "dec_value [] acc = acc"
| "dec_value (c # cs) acc = dec_value cs (10 * acc + (of_char c - 48))"

lemma dec_value_append: "dec_value (xs @ ys) acc = dec_value ys (dec_value xs acc)"
  by (induction xs arbitrary: acc) auto

lemma dec_value_dec_nat: "dec_value (dec_nat n) 0 = n"
proof (induction n rule: dec_nat.induct)
  case (1 n)
  have d: "of_char (char_of (48 + k) :: char) - 48 = k" if "k < 10" for k :: nat
    using that by (simp add: of_char_of)
  show ?case
    using 1 d [of n] d [of "n mod 10"]
    by (subst dec_nat.simps) (simp add: dec_value_append)
qed

lemma inj_dec_nat: "dec_nat m = dec_nat n \<Longrightarrow> m = n"
  by (metis dec_value_dec_nat)

subsection \<open>Invariants of operations\<close>

text \<open>
  The interface between a step relation and the invariant its operations keep: what one step
  preserves holds after any run of steps.
\<close>

locale transitions =
  fixes step :: "'s \<Rightarrow> 's \<Rightarrow> bool" and inv :: "'s \<Rightarrow> bool"
  assumes preserved: "step s t \<Longrightarrow> inv s \<Longrightarrow> inv t"
begin

lemma run_inv: "step\<^sup>*\<^sup>* s t \<Longrightarrow> inv s \<Longrightarrow> inv t"
  by (induction rule: rtranclp_induct) (auto intro: preserved)

end

end
