(* ===== verification/Bracket.thy ===== *)
theory Bracket
  imports Prelude
begin

section \<open>Single-elimination brackets (internal/draw/single_elim.go)\<close>

subsection \<open>Data\<close>

record entry =
  ParticipantID :: uuid
  Seed :: int

record slot =
  SlotParticipant :: "uuid option"
  IsBye :: bool
  SourceLabel :: string
  SourceGroupIdx :: int
  SourceRank :: int

record dmatch =
  Round :: nat
  MatchInRound :: nat
  Slot1 :: slot
  Slot2 :: slot
  NextMatchIdx :: int
  NextSlot :: nat
  GroupIndex :: int

text \<open>Go's zero values of the two structs.\<close>

definition slot_zero :: slot where
  "slot_zero = \<lparr>SlotParticipant = None, IsBye = False, SourceLabel = [], SourceGroupIdx = 0,
     SourceRank = 0\<rparr>"

definition match_zero :: dmatch where
  "match_zero = \<lparr>Round = 0, MatchInRound = 0, Slot1 = slot_zero, Slot2 = slot_zero,
     NextMatchIdx = 0, NextSlot = 0, GroupIndex = 0\<rparr>"

definition bye_slot :: slot where
  "bye_slot = slot_zero\<lparr>IsBye := True\<rparr>"

subsection \<open>Operations\<close>

definition nextPowerOfTwo :: "nat \<Rightarrow> nat" where
  "nextPowerOfTwo n = while (\<lambda>p. p < n) (\<lambda>p. p * 2) 1"

fun log2_loop :: "nat \<Rightarrow> nat \<Rightarrow> nat" where
  "log2_loop n r = (if n > 1 then log2_loop (n div 2) (r + 1) else r)"

declare log2_loop.simps [simp del]

definition log2 :: "nat \<Rightarrow> nat" where
  "log2 n = log2_loop n 0"

definition seedExpand :: "int list \<Rightarrow> int list" where
  "seedExpand seeds =
     (let rounds = int (length seeds) * 2
      in concat (map (\<lambda>s. [s, rounds + 1 - s]) seeds))"

definition seedPositions :: "nat \<Rightarrow> int list" where
  "seedPositions sz = while (\<lambda>seeds. length seeds < sz) seedExpand [1, 2]"

definition entryToSlot :: "entry option \<Rightarrow> slot" where
  "entryToSlot e = (case e of None \<Rightarrow> bye_slot
     | Some e \<Rightarrow> slot_zero\<lparr>SlotParticipant := Some (ParticipantID e)\<rparr>)"

definition bySeed :: "entry list \<Rightarrow> int \<rightharpoonup> entry" where
  "bySeed entries = fold (\<lambda>e m. if Seed e > 0 then m(Seed e \<mapsto> e) else m) entries Map.empty"

definition unseeded :: "entry list \<Rightarrow> entry list" where
  "unseeded entries = filter (\<lambda>e. \<not> Seed e > 0) entries"

fun placeLoop :: "(int \<rightharpoonup> entry) \<Rightarrow> entry list \<Rightarrow> int list \<Rightarrow> entry option list" where
  "placeLoop m us [] = []"
| "placeLoop m us (seedRank # order) =
     (case m seedRank of
        Some e \<Rightarrow> Some e # placeLoop m us order
      | None \<Rightarrow> (case us of
            u # us' \<Rightarrow> Some u # placeLoop m us' order
          | [] \<Rightarrow> None # placeLoop m [] order))"

definition placeEntries :: "entry list \<Rightarrow> int list \<Rightarrow> entry option list" where
  "placeEntries entries order = placeLoop (bySeed entries) (unseeded entries) order"

text \<open>
  One pass of the round loop: append the \<open>roundCount\<close> matches of round \<open>r\<close>, then point every
  match of the previous round at the match its winner feeds. The state is the flat match slice
  with the start and the length of the previous round.
\<close>

definition feedRound :: "nat \<Rightarrow> dmatch list \<times> nat \<times> nat \<Rightarrow> dmatch list \<times> nat \<times> nat" where
  "feedRound r st = (case st of (matches, prevRoundStart, prevRoundCount) \<Rightarrow>
     let roundCount = prevRoundCount div 2;
         roundStart = length matches;
         matches = matches @ map (\<lambda>i. match_zero\<lparr>Round := r, MatchInRound := i\<rparr>) [0..<roundCount];
         matches = fold (\<lambda>i ms. ms[prevRoundStart + i := (ms ! (prevRoundStart + i))
                      \<lparr>NextMatchIdx := int (roundStart + i div 2), NextSlot := i mod 2 + 1\<rparr>])
                    [0..<prevRoundCount] matches
     in (matches, roundStart, roundCount))"

definition feedRounds :: "dmatch list \<Rightarrow> nat \<Rightarrow> nat \<Rightarrow> dmatch list" where
  "feedRounds matches firstRoundCount rounds =
     fst (fold feedRound [2..<rounds + 1] (matches, 0, firstRoundCount))"

definition wireFedRounds :: "dmatch list \<Rightarrow> nat \<Rightarrow> dmatch list" where
  "wireFedRounds matches firstRoundCount =
     (let ms = feedRounds matches firstRoundCount (log2 (firstRoundCount * 2));
          ms = (if length ms > 0
                then ms[length ms - 1 := (last ms)\<lparr>NextMatchIdx := -1, NextSlot := 0\<rparr>]
                else ms)
      in map (\<lambda>m. m\<lparr>GroupIndex := -1\<rparr>) ms)"

definition GenerateSingleElimination :: "entry list \<Rightarrow> dmatch list" where
  "GenerateSingleElimination entries =
     (let n = length entries in
      if n < 2 then []
      else
        let sz = nextPowerOfTwo n;
            ordered = seedPositions sz;
            placed = placeEntries entries ordered;
            firstRoundCount = sz div 2;
            matches = map (\<lambda>i. match_zero\<lparr>Round := 1, MatchInRound := i,
                Slot1 := entryToSlot (placed ! (i * 2)),
                Slot2 := entryToSlot (placed ! (i * 2 + 1))\<rparr>) [0..<firstRoundCount]
        in wireFedRounds matches firstRoundCount)"

subsection \<open>The bracket size\<close>

lemma nextPowerOfTwo_spec:
  "\<exists>k. nextPowerOfTwo n = 2 ^ k \<and> n \<le> 2 ^ k \<and> (k = 0 \<or> 2 ^ (k - 1) < n)"
  unfolding nextPowerOfTwo_def
proof (rule while_rule [where P = "\<lambda>p. \<exists>k. p = 2 ^ k \<and> (k = 0 \<or> 2 ^ (k - 1) < n)"
      and r = "measure (\<lambda>p. n - p)"])
  show "\<exists>k. (1::nat) = 2 ^ k \<and> (k = 0 \<or> 2 ^ (k - 1) < n)"
    by (rule exI [of _ 0]) simp
next
  fix p :: nat
  assume "\<exists>k. p = 2 ^ k \<and> (k = 0 \<or> 2 ^ (k - 1) < n)" and "p < n"
  then obtain k where "p = 2 ^ k" by blast
  with \<open>p < n\<close> show "\<exists>k. p * 2 = 2 ^ k \<and> (k = 0 \<or> 2 ^ (k - 1) < n)"
    by (intro exI [of _ "Suc k"]) simp
qed (auto simp: not_less intro!: diff_less_mono2)

lemma log2_loop_pow: "log2_loop (2 ^ k) r = r + k"
proof (induction k arbitrary: r)
  case 0
  show ?case by (simp add: log2_loop.simps)
next
  case (Suc k)
  have "1 < (2::nat) ^ Suc k" by (rule one_less_power) auto
  then show ?case by (subst log2_loop.simps) (simp add: Suc)
qed

lemma log2_pow [simp]: "log2 (2 ^ k) = k"
  by (simp add: log2_def log2_loop_pow)

subsection \<open>Seed positions\<close>

text \<open>\<open>seeding k\<close> is the state of the loop after \<open>k\<close> passes: the order for \<open>2 ^ (k + 1)\<close> slots.\<close>

fun seeding :: "nat \<Rightarrow> int list" where
  "seeding 0 = [1, 2]"
| "seeding (Suc k) = seedExpand (seeding k)"

lemma length_seedExpand [simp]: "length (seedExpand s) = 2 * length s"
  by (simp add: seedExpand_def Let_def)

lemma length_seeding [simp]: "length (seeding k) = 2 ^ Suc k"
  by (induction k) auto

lemma seedPositions_eq: "seedPositions (2 ^ Suc k) = seeding k"
  unfolding seedPositions_def
proof (rule while_rule [where P = "\<lambda>s. \<exists>j \<le> k. s = seeding j"
      and r = "measure (\<lambda>s. 2 ^ Suc k - length s)"])
  show "\<exists>j \<le> k. [1, 2] = seeding j" by (rule exI [of _ 0]) simp
next
  fix s
  assume "\<exists>j \<le> k. s = seeding j" and "length s < 2 ^ Suc k"
  then obtain j where "j \<le> k" "s = seeding j" by blast
  moreover from this \<open>length s < 2 ^ Suc k\<close> have "j < k"
    by (simp add: le_less)
  ultimately show "\<exists>j \<le> k. seedExpand s = seeding j"
    by (intro exI [of _ "Suc j"]) simp
next
  fix s
  assume "\<exists>j \<le> k. s = seeding j" and "\<not> length s < 2 ^ Suc k"
  then obtain j where j: "j \<le> k" "s = seeding j" by blast
  with \<open>\<not> length s < 2 ^ Suc k\<close> have "(2::nat) ^ k \<le> 2 ^ j" by simp
  with j show "s = seeding k" by (simp add: le_antisym)
next
  fix s
  assume "\<exists>j \<le> k. s = seeding j" and "length s < 2 ^ Suc k"
  then show "(seedExpand s, s) \<in> measure (\<lambda>s. 2 ^ Suc k - length s)"
    by (auto intro!: diff_less_mono2)
qed simp

lemma seeding_even: "i < 2 ^ Suc k \<Longrightarrow> seeding (Suc k) ! (2 * i) = seeding k ! i"
  and seeding_odd: "i < 2 ^ Suc k \<Longrightarrow>
     seeding (Suc k) ! (2 * i + 1) = 2 ^ (k + 2) + 1 - seeding k ! i"
  using nth_concat_pair [of i "seeding k" id "\<lambda>s. int (length (seeding k)) * 2 + 1 - s"]
  by (auto simp: seedExpand_def Let_def mult.commute)

lemma set_seeding: "set (seeding k) = {1..2 ^ Suc k} \<and> distinct (seeding k)"
proof (induction k)
  case 0
  show ?case by auto
next
  case (Suc k)
  let ?s = "seeding k" and ?f = "\<lambda>s. 2 ^ (k + 2) + 1 - (s::int)"
  have eq: "seeding (Suc k) = concat (map (\<lambda>s. [s, ?f s]) ?s)"
    by (simp add: seedExpand_def Let_def mult.commute)
  have img: "?f ` {1..2 ^ Suc k} = {2 ^ Suc k + 1..2 ^ (k + 2)}"
  proof (intro set_eqI iffI)
    fix x assume "x \<in> {2 ^ Suc k + 1..2 ^ (k + 2) :: int}"
    then show "x \<in> ?f ` {1..2 ^ Suc k}" by (intro image_eqI [of _ _ "?f x"]) auto
  qed auto
  have "set (seeding (Suc k)) = set ?s \<union> ?f ` set ?s"
    unfolding eq by auto
  also have "\<dots> = {1..2 ^ Suc k} \<union> {2 ^ Suc k + 1..2 ^ (k + 2)}"
    using Suc img by simp
  also have "\<dots> = {1..2 ^ Suc (Suc k)}" by auto
  finally have "set (seeding (Suc k)) = {1..2 ^ Suc (Suc k)}" .
  moreover have "distinct (seeding (Suc k))"
    unfolding eq distinct_concat_map_pair using Suc img
    by (auto simp: distinct_map inj_on_def)
  ultimately show ?case by simp
qed

subsection \<open>The progression graph\<close>

text \<open>
  The closed form of the wiring: with \<open>M\<close> first-round matches the winner of match \<open>j\<close> goes to
  match \<open>M + j div 2\<close>, slot \<open>j mod 2 + 1\<close>. \<open>bracket_wired\<close> is the abstract specification of a
  wired bracket the builders are proved against.
\<close>

definition feeds_next :: "nat \<Rightarrow> nat \<Rightarrow> dmatch \<Rightarrow> bool" where
  "feeds_next M j m \<longleftrightarrow> NextMatchIdx m = int (M + j div 2) \<and> NextSlot m = j mod 2 + 1"

definition bracket_wired :: "nat \<Rightarrow> dmatch list \<Rightarrow> bool" where
  "bracket_wired M ms \<longleftrightarrow>
     length ms = 2 * M - 1
   \<and> (\<forall>j < 2 * M - 2. feeds_next M j (ms ! j)
        \<and> Round (ms ! (M + j div 2)) = Suc (Round (ms ! j)))
   \<and> NextMatchIdx (ms ! (2 * M - 2)) = -1 \<and> Round (ms ! (2 * M - 2)) = log2 (2 * M)
   \<and> (\<forall>j < M. Round (ms ! j) = 1 \<and> MatchInRound (ms ! j) = j)
   \<and> (\<forall>j. M \<le> j \<longrightarrow> j < 2 * M - 1 \<longrightarrow> Slot1 (ms ! j) = slot_zero \<and> Slot2 (ms ! j) = slot_zero)"

text \<open>
  The loop invariant: \<open>a\<close> is the length of the last round built, so that round starts at
  \<open>2 * (M - a)\<close>; everything before it is wired.
\<close>

definition feed_inv :: "nat \<Rightarrow> dmatch list \<Rightarrow> nat \<Rightarrow> nat \<Rightarrow> dmatch list \<times> nat \<times> nat \<Rightarrow> bool" where
  "feed_inv M ms0 r a st \<longleftrightarrow> (case st of (ms, s, c) \<Rightarrow>
     s = 2 * (M - a) \<and> c = a \<and> a \<le> M \<and> length ms = 2 * M - a
   \<and> (\<forall>j < s. feeds_next M j (ms ! j) \<and> Round (ms ! (M + j div 2)) = Suc (Round (ms ! j)))
   \<and> (\<forall>j. s \<le> j \<longrightarrow> j < s + c \<longrightarrow> Round (ms ! j) = r \<and> MatchInRound (ms ! j) = j - s)
   \<and> (\<forall>j < M. Round (ms ! j) = Round (ms0 ! j) \<and> MatchInRound (ms ! j) = MatchInRound (ms0 ! j)
        \<and> Slot1 (ms ! j) = Slot1 (ms0 ! j) \<and> Slot2 (ms ! j) = Slot2 (ms0 ! j))
   \<and> (\<forall>j. M \<le> j \<longrightarrow> j < length ms \<longrightarrow> Slot1 (ms ! j) = slot_zero \<and> Slot2 (ms ! j) = slot_zero))"

lemma feedRound_nth:
  fixes ms :: "dmatch list" and s c r :: nat
  defines "ms' \<equiv> fst (feedRound r (ms, s, c))"
  assumes "s + c = length ms"
  shows "length ms' = length ms + c div 2"
    and "j < s \<Longrightarrow> ms' ! j = ms ! j"
    and "s \<le> j \<Longrightarrow> j < s + c \<Longrightarrow> ms' ! j = (ms ! j)
           \<lparr>NextMatchIdx := int (length ms + (j - s) div 2), NextSlot := (j - s) mod 2 + 1\<rparr>"
    and "s + c \<le> j \<Longrightarrow> j < s + c + c div 2 \<Longrightarrow>
           ms' ! j = match_zero\<lparr>Round := r, MatchInRound := j - (s + c)\<rparr>"
proof -
  define h where "h = (\<lambda>i (m::dmatch). m\<lparr>NextMatchIdx := int (length ms + i div 2),
                                        NextSlot := i mod 2 + 1\<rparr>)"
  define ms1 where "ms1 = ms @ map (\<lambda>i. match_zero\<lparr>Round := r, MatchInRound := i\<rparr>) [0..<c div 2]"
  have ms': "ms' = fold (\<lambda>i xs. xs[s + i := h i (xs ! (s + i))]) [0..<c] ms1"
    by (simp add: ms'_def feedRound_def Let_def ms1_def h_def)
  have len1: "length ms1 = length ms + c div 2" by (simp add: ms1_def)
  show "length ms' = length ms + c div 2" by (simp add: ms' len1)
  have out: "ms' ! j = ms1 ! j" if "j < s \<or> s + c \<le> j" for j
    unfolding ms' using that by (intro nth_fold_update) auto
  show "ms' ! j = ms ! j" if "j < s"
    using out [of j] that assms(2) by (simp add: ms1_def nth_append)
  show "ms' ! j = (ms ! j)\<lparr>NextMatchIdx := int (length ms + (j - s) div 2),
                           NextSlot := (j - s) mod 2 + 1\<rparr>" if "s \<le> j" "j < s + c"
  proof -
    have "ms' ! (s + (j - s)) = h (j - s) (ms1 ! (s + (j - s)))"
      unfolding ms' using that assms(2) len1
      by (intro nth_fold_update_at [where g = "\<lambda>i. s + i"]) (auto simp: inj_on_def)
    then show ?thesis using that assms(2) by (simp add: h_def ms1_def nth_append)
  qed
  show "ms' ! j = match_zero\<lparr>Round := r, MatchInRound := j - (s + c)\<rparr>"
    if "s + c \<le> j" "j < s + c + c div 2"
    using out [of j] that assms(2) by (simp add: ms1_def nth_append)
qed

lemma snd_feedRound: "snd (feedRound r (ms, s, c)) = (length ms, c div 2)"
  by (simp add: feedRound_def Let_def)

lemma feed_inv_step:
  assumes inv: "feed_inv M ms0 r (2 * a) st" and "0 < a"
  shows "feed_inv M ms0 (Suc r) a (feedRound (Suc r) st)"
proof -
  obtain ms s c where st: "st = (ms, s, c)" by (cases st)
  have I: "s = 2 * (M - 2 * a)" "c = 2 * a" "2 * a \<le> M" "length ms = 2 * M - 2 * a"
    "\<And>j. j < s \<Longrightarrow> feeds_next M j (ms ! j) \<and> Round (ms ! (M + j div 2)) = Suc (Round (ms ! j))"
    "\<And>j. s \<le> j \<Longrightarrow> j < s + c \<Longrightarrow> Round (ms ! j) = r \<and> MatchInRound (ms ! j) = j - s"
    "\<And>j. j < M \<Longrightarrow> Round (ms ! j) = Round (ms0 ! j) \<and> MatchInRound (ms ! j) = MatchInRound (ms0 ! j)
        \<and> Slot1 (ms ! j) = Slot1 (ms0 ! j) \<and> Slot2 (ms ! j) = Slot2 (ms0 ! j)"
    "\<And>j. M \<le> j \<Longrightarrow> j < length ms \<Longrightarrow> Slot1 (ms ! j) = slot_zero \<and> Slot2 (ms ! j) = slot_zero"
    using inv by (auto simp: feed_inv_def st)
  define ms' where "ms' = fst (feedRound (Suc r) (ms, s, c))"
  have snd: "snd (feedRound (Suc r) (ms, s, c)) = (2 * (M - a), a)"
    unfolding snd_feedRound I(4) using I(2) by (simp add: diff_mult_distrib2)
  have new: "feedRound (Suc r) st = (ms', 2 * (M - a), a)"
    unfolding st ms'_def using snd by (metis prod.collapse)
  have sc: "s + c = length ms" using I(1-4) by simp
  note nth = feedRound_nth [OF sc, where r = "Suc r", folded ms'_def]
  have len: "length ms' = 2 * M - a" using nth(1) I(2-4) by simp
  have keep: "Round (ms' ! j) = Round (ms ! j) \<and> MatchInRound (ms' ! j) = MatchInRound (ms ! j)
      \<and> Slot1 (ms' ! j) = Slot1 (ms ! j) \<and> Slot2 (ms' ! j) = Slot2 (ms ! j)" if "j < length ms" for j
    using nth(2,3) [where j = j] that sc by (cases "j < s") auto
  have fresh: "Round (ms' ! j) = Suc r \<and> MatchInRound (ms' ! j) = j - length ms
      \<and> Slot1 (ms' ! j) = slot_zero \<and> Slot2 (ms' ! j) = slot_zero"
    if "length ms \<le> j" "j < length ms'" for j
    using nth(4) [where j = j] that sc I(2-4) len by (simp add: match_zero_def)
  have next': "feeds_next M j (ms' ! j)" if "j < 2 * (M - a)" for j
  proof (cases "j < s")
    case True
    then show ?thesis using nth(2) I(5) by simp
  next
    case False
    then have j: "s \<le> j" "j < s + c" using that sc I(1-4) by auto
    obtain i where i: "j = s + i" using j(1) le_Suc_ex by blast
    obtain b where b: "M = 2 * a + b" using I(3) le_Suc_ex by blast
    have "s = 2 * b" "length ms = 2 * b + 2 * a" using I(1,4) b by simp_all
    then have "length ms + (j - s) div 2 = M + j div 2" "(j - s) mod 2 = j mod 2"
      using i b by simp_all
    then show ?thesis unfolding feeds_next_def nth(3) [OF j] by simp
  qed
  have up: "Round (ms' ! (M + j div 2)) = Suc (Round (ms' ! j))" if "j < 2 * (M - a)" for j
  proof (cases "j < s")
    case True
    then have "M + j div 2 < length ms" "j < length ms" using I(1,3,4) by auto
    then show ?thesis using I(5) [OF True] keep by simp
  next
    case False
    have "length ms \<le> M + j div 2" "M + j div 2 < length ms'" "j < length ms"
      using False that I(1-4) len by auto
    then show ?thesis using fresh [of "M + j div 2"] keep [of j] I(6) [of j] False sc by simp
  qed
  have zero: "Slot1 (ms' ! j) = slot_zero \<and> Slot2 (ms' ! j) = slot_zero"
    if "M \<le> j" "j < length ms'" for j
    using fresh [of j] keep [of j] I(8) [of j] that by (cases "j < length ms") auto
  have low: "Round (ms' ! j) = Round (ms0 ! j) \<and> MatchInRound (ms' ! j) = MatchInRound (ms0 ! j)
      \<and> Slot1 (ms' ! j) = Slot1 (ms0 ! j) \<and> Slot2 (ms' ! j) = Slot2 (ms0 ! j)" if "j < M" for j
    using keep [of j] I(3,4) I(7) [OF that] that by simp
  have last: "Round (ms' ! j) = Suc r \<and> MatchInRound (ms' ! j) = j - 2 * (M - a)"
    if "2 * (M - a) \<le> j" "j < 2 * (M - a) + a" for j
    using fresh [of j] that I(3,4) len by (simp add: diff_mult_distrib2)
  show ?thesis
    unfolding feed_inv_def new prod.case
  proof (intro conjI allI impI)
    show "a \<le> M" using I(3) by simp
  qed (use len next' up zero low last in auto)
qed

lemma feed_inv_rounds:
  assumes "feed_inv (2 ^ k) ms0 1 (2 ^ k) (ms0, 0, 2 ^ k)" and "t \<le> k"
  shows "feed_inv (2 ^ k) ms0 (Suc t) (2 ^ (k - t)) (fold feedRound [2..<t + 2] (ms0, 0, 2 ^ k))"
  using assms(2)
proof (induction t)
  case 0
  then show ?case using assms(1) by simp
next
  case (Suc t)
  have "(2::nat) ^ (k - t) = 2 * 2 ^ (k - Suc t)"
    using Suc.prems by (simp add: Suc_diff_Suc flip: power_Suc)
  with Suc have "feed_inv (2 ^ k) ms0 (Suc (Suc t)) (2 ^ (k - Suc t))
      (feedRound (Suc (Suc t)) (fold feedRound [2..<t + 2] (ms0, 0, 2 ^ k)))"
    by (intro feed_inv_step) simp_all
  then show ?case by (simp add: eval_nat_numeral)
qed

lemma feedRounds_inv:
  assumes "length ms0 = 2 ^ k"
    and "\<And>j. j < 2 ^ k \<Longrightarrow> Round (ms0 ! j) = 1 \<and> MatchInRound (ms0 ! j) = j"
  shows "feed_inv (2 ^ k) ms0 (Suc k) 1 (feedRounds ms0 (2 ^ k) (k + 1), 2 * (2 ^ k - 1), 1)"
proof -
  have "feed_inv (2 ^ k) ms0 1 (2 ^ k) (ms0, 0, 2 ^ k)"
    using assms by (simp add: feed_inv_def)
  from feed_inv_rounds [OF this, of k]
  have inv: "feed_inv (2 ^ k) ms0 (Suc k) 1 (fold feedRound [2..<k + 2] (ms0, 0, 2 ^ k))" by simp
  then obtain ms where "fold feedRound [2..<k + 2] (ms0, 0, 2 ^ k) = (ms, 2 * (2 ^ k - 1), 1)"
    by (auto simp: feed_inv_def split: prod.splits)
  with inv show ?thesis by (simp add: feedRounds_def)
qed

text \<open>
  A match slice is wired when it agrees with the result of \<open>feedRounds\<close> on the rounds, the slots
  and, except in the last match, on the progression.
\<close>

lemma feedRounds_wired:
  assumes "length ms0 = 2 ^ k"
    and "\<And>j. j < 2 ^ k \<Longrightarrow> Round (ms0 ! j) = 1 \<and> MatchInRound (ms0 ! j) = j"
    and ms: "ms = feedRounds ms0 (2 ^ k) (k + 1)"
    and len: "length W = length ms"
    and keep: "\<And>j. j < length ms \<Longrightarrow> Round (W ! j) = Round (ms ! j)
      \<and> MatchInRound (W ! j) = MatchInRound (ms ! j)
      \<and> Slot1 (W ! j) = Slot1 (ms ! j) \<and> Slot2 (W ! j) = Slot2 (ms ! j)"
    and feeds: "\<And>j. j < length ms - 1 \<Longrightarrow> NextMatchIdx (W ! j) = NextMatchIdx (ms ! j)
      \<and> NextSlot (W ! j) = NextSlot (ms ! j)"
    and last: "NextMatchIdx (W ! (length ms - 1)) = -1"
  shows "length ms = 2 * 2 ^ k - 1"
    and "bracket_wired (2 ^ k) W"
    and "j < 2 ^ k \<Longrightarrow> Slot1 (W ! j) = Slot1 (ms0 ! j) \<and> Slot2 (W ! j) = Slot2 (ms0 ! j)"
proof -
  define M where "M = (2::nat) ^ k"
  have M: "1 \<le> M" by (simp add: M_def)
  have inv: "feed_inv M ms0 (Suc k) 1 (ms, 2 * (M - 1), 1)"
    using feedRounds_inv [OF assms(1,2)] by (simp add: ms M_def)
  then have lm: "length ms = 2 * M - 1" using M by (simp add: feed_inv_def)
  then show "length ms = 2 * 2 ^ k - 1" by (simp add: M_def)
  have lg: "log2 (2 * M) = k + 1" using log2_pow [of "Suc k"] by (simp add: M_def)
  have "bracket_wired M W"
    unfolding bracket_wired_def
  proof (intro conjI allI impI)
    fix j assume j: "j < 2 * M - 2"
    show "feeds_next M j (W ! j)"
      using inv j feeds [of j] lm by (simp add: feed_inv_def feeds_next_def)
    have "M + j div 2 < 2 * M - 1" using j by simp
    with j keep [of j] keep [of "M + j div 2"] inv lm
    show "Round (W ! (M + j div 2)) = Suc (Round (W ! j))" by (simp add: feed_inv_def)
  next
    fix j assume "j < M"
    with keep [of j] inv assms(2) [of j] M lm
    show "Round (W ! j) = 1" and "MatchInRound (W ! j) = j" by (auto simp: feed_inv_def M_def)
  next
    fix j assume "M \<le> j" "j < 2 * M - 1"
    with keep [of j] inv lm
    show "Slot1 (W ! j) = slot_zero" and "Slot2 (W ! j) = slot_zero" by (auto simp: feed_inv_def)
  next
    show "NextMatchIdx (W ! (2 * M - 2)) = -1"
      using last lm by (simp add: numeral_2_eq_2)
    have "2 * M - 2 < length ms" using lm M by simp
    with keep [of "2 * M - 2"] inv lg
    show "Round (W ! (2 * M - 2)) = log2 (2 * M)" by (simp add: feed_inv_def)
  qed (use len lm in simp)
  then show "bracket_wired (2 ^ k) W" by (simp only: M_def)
  show "Slot1 (W ! j) = Slot1 (ms0 ! j) \<and> Slot2 (W ! j) = Slot2 (ms0 ! j)" if "j < 2 ^ k"
    using keep [of j] inv that M lm by (simp add: feed_inv_def M_def)
qed

lemma wireFedRounds_wired:
  assumes "length ms0 = 2 ^ k"
    and "\<And>j. j < 2 ^ k \<Longrightarrow> Round (ms0 ! j) = 1 \<and> MatchInRound (ms0 ! j) = j"
  shows "bracket_wired (2 ^ k) (wireFedRounds ms0 (2 ^ k))"
    and "j < 2 ^ k \<Longrightarrow> Slot1 (wireFedRounds ms0 (2 ^ k) ! j) = Slot1 (ms0 ! j)
          \<and> Slot2 (wireFedRounds ms0 (2 ^ k) ! j) = Slot2 (ms0 ! j)"
    and "m \<in> set (wireFedRounds ms0 (2 ^ k)) \<Longrightarrow> GroupIndex m = -1"
proof -
  define ms where "ms = feedRounds ms0 (2 ^ k) (k + 1)"
  define W where "W = wireFedRounds ms0 (2 ^ k)"
  have len: "length ms = 2 * 2 ^ k - 1"
    using feedRounds_inv [OF assms] by (simp add: feed_inv_def ms_def)
  moreover have "1 \<le> (2::nat) ^ k" by simp
  ultimately have ne: "ms \<noteq> []" by fastforce
  have lg: "log2 (2 ^ k * 2) = k + 1" using log2_pow [of "Suc k"] by (simp add: mult.commute)
  have w: "W = map (\<lambda>m. m\<lparr>GroupIndex := -1\<rparr>)
      (ms[length ms - 1 := (last ms)\<lparr>NextMatchIdx := -1, NextSlot := 0\<rparr>])"
    unfolding W_def wireFedRounds_def lg Let_def ms_def [symmetric] using ne by simp
  have lw: "length W = length ms" by (simp add: w)
  have last: "last ms = ms ! (length ms - 1)" by (rule last_conv_nth [OF ne])
  have keep: "Round (W ! j) = Round (ms ! j) \<and> MatchInRound (W ! j) = MatchInRound (ms ! j)
      \<and> Slot1 (W ! j) = Slot1 (ms ! j) \<and> Slot2 (W ! j) = Slot2 (ms ! j)" if "j < length ms" for j
    using that unfolding w last by (simp add: nth_list_update)
  have feeds: "NextMatchIdx (W ! j) = NextMatchIdx (ms ! j) \<and> NextSlot (W ! j) = NextSlot (ms ! j)"
    if "j < length ms - 1" for j
    using that unfolding w by (simp add: nth_list_update)
  have fin: "NextMatchIdx (W ! (length ms - 1)) = -1" using ne unfolding w by simp
  show "bracket_wired (2 ^ k) (wireFedRounds ms0 (2 ^ k))"
    unfolding W_def [symmetric] by (rule feedRounds_wired(2) [OF assms ms_def lw keep feeds fin])
  show "Slot1 (wireFedRounds ms0 (2 ^ k) ! j) = Slot1 (ms0 ! j)
      \<and> Slot2 (wireFedRounds ms0 (2 ^ k) ! j) = Slot2 (ms0 ! j)" if "j < 2 ^ k"
    unfolding W_def [symmetric] by (rule feedRounds_wired(3) [OF assms ms_def lw keep feeds fin that])
  show "GroupIndex m = -1" if "m \<in> set (wireFedRounds ms0 (2 ^ k))"
    using that unfolding W_def [symmetric] by (auto simp: w)
qed

subsection \<open>What every bracket builder promises\<close>

text \<open>
  The interface between the builders and the code that persists and plays a bracket: a builder
  turns an accepted input into a wired bracket whose first round holds the given pairs of slots.
  Everything the rest of the program needs of the progression graph follows from these laws.
\<close>

definition winner_goes_to :: "dmatch list \<Rightarrow> nat \<Rightarrow> nat" where
  "winner_goes_to ms j = (if NextMatchIdx (ms ! j) < 0 then j else nat (NextMatchIdx (ms ! j)))"

text \<open>
  The abstract specification: every match but the last feeds a later match of the next round, in
  slot 1 or 2; following the feeds from any match ends in the last one, the final; each slot of a
  match after round 1 has exactly one feeder, and no match feeds round 1.
\<close>

definition progression_ok :: "dmatch list \<Rightarrow> bool" where
  "progression_ok ms \<longleftrightarrow> (\<forall>j < length ms.
     (NextMatchIdx (ms ! j) = -1 \<longleftrightarrow> j = length ms - 1)
   \<and> (j \<noteq> length ms - 1 \<longrightarrow>
        int j < NextMatchIdx (ms ! j) \<and> NextMatchIdx (ms ! j) < int (length ms)
      \<and> NextSlot (ms ! j) \<in> {1, 2}
      \<and> Round (ms ! nat (NextMatchIdx (ms ! j))) = Suc (Round (ms ! j)))
   \<and> (\<exists>n. (winner_goes_to ms ^^ n) j = length ms - 1)
   \<and> (Round (ms ! j) \<noteq> 1 \<longrightarrow> (\<forall>sl \<in> {1, 2}.
        \<exists>!i. i < length ms \<and> NextMatchIdx (ms ! i) = int j \<and> NextSlot (ms ! i) = sl))
   \<and> (Round (ms ! j) = 1 \<longrightarrow> (\<forall>i < length ms. NextMatchIdx (ms ! i) \<noteq> int j)))"

lemma progression_next:
  assumes "progression_ok ms" and "j < length ms"
  shows "NextMatchIdx (ms ! j) = -1 \<longleftrightarrow> j = length ms - 1"
    and "j \<noteq> length ms - 1 \<Longrightarrow> int j < NextMatchIdx (ms ! j) \<and> NextMatchIdx (ms ! j) < int (length ms)"
  using assms unfolding progression_ok_def by blast+

lemma progression_ok_map:
  assumes "progression_ok ms"
    and "\<And>m. NextMatchIdx (f m) = NextMatchIdx m \<and> NextSlot (f m) = NextSlot m \<and> Round (f m) = Round m"
  shows "progression_ok (map f ms)"
proof -
  have in_range: "winner_goes_to ms j < length ms" if "j < length ms" for j
  proof (cases "j = length ms - 1")
    case True
    then show ?thesis using progression_next(1) [OF assms(1) that] that
      by (simp add: winner_goes_to_def)
  next
    case False
    then show ?thesis using progression_next(2) [OF assms(1) that]
      by (simp add: winner_goes_to_def nat_less_iff)
  qed
  have step: "winner_goes_to (map f ms) j = winner_goes_to ms j" if "j < length ms" for j
    using that assms(2) by (simp add: winner_goes_to_def)
  have iter: "(winner_goes_to (map f ms) ^^ n) j = (winner_goes_to ms ^^ n) j
      \<and> (winner_goes_to ms ^^ n) j < length ms" if "j < length ms" for n j
    using that by (induction n) (auto simp: step in_range)
  show ?thesis
    unfolding progression_ok_def
  proof (intro allI impI)
    fix j assume "j < length (map f ms)"
    then have j: "j < length ms" by simp
    have next': "nat (NextMatchIdx (ms ! j)) < length ms" if "j \<noteq> length ms - 1"
      using progression_next(2) [OF assms(1) j that] by (simp add: nat_less_iff)
    let ?P = "\<lambda>ns. (NextMatchIdx (ns ! j) = -1 \<longleftrightarrow> j = length ns - 1)"
    let ?Q = "\<lambda>ns. (j \<noteq> length ns - 1 \<longrightarrow> int j < NextMatchIdx (ns ! j) \<and> NextMatchIdx (ns ! j) < int (length ns)
        \<and> NextSlot (ns ! j) \<in> {1, 2} \<and> Round (ns ! nat (NextMatchIdx (ns ! j))) = Suc (Round (ns ! j)))"
    let ?R = "\<lambda>ns. (\<exists>n. (winner_goes_to ns ^^ n) j = length ns - 1)"
    let ?S = "\<lambda>ns. (Round (ns ! j) \<noteq> 1 \<longrightarrow> (\<forall>sl \<in> {1, 2}.
          \<exists>!i. i < length ns \<and> NextMatchIdx (ns ! i) = int j \<and> NextSlot (ns ! i) = sl))"
    let ?T = "\<lambda>ns. (Round (ns ! j) = 1 \<longrightarrow> (\<forall>i < length ns. NextMatchIdx (ns ! i) \<noteq> int j))"
    from assms(1) j have all: "?P ms" "?Q ms" "?R ms" "?S ms" "?T ms"
      unfolding progression_ok_def by blast+
    have nth: "NextMatchIdx (map f ms ! i) = NextMatchIdx (ms ! i)"
      "NextSlot (map f ms ! i) = NextSlot (ms ! i)" "Round (map f ms ! i) = Round (ms ! i)"
      if "i < length ms" for i using that assms(2) by simp_all
    have "?P (map f ms)" using all(1) by (simp only: nth [OF j] length_map)
    moreover have "?Q (map f ms)"
    proof
      assume "j \<noteq> length (map f ms) - 1"
      then have ne: "j \<noteq> length ms - 1" by simp
      from mp [OF all(2) ne] nth(3) [OF next' [OF ne]] show "int j < NextMatchIdx (map f ms ! j)
          \<and> NextMatchIdx (map f ms ! j) < int (length (map f ms))
          \<and> NextSlot (map f ms ! j) \<in> {1, 2}
          \<and> Round (map f ms ! nat (NextMatchIdx (map f ms ! j))) = Suc (Round (map f ms ! j))"
        by (simp only: nth [OF j] length_map)
    qed
    moreover have "?R (map f ms)" using all(3) iter [OF j] by simp
    moreover have "?S (map f ms)"
      using all(4) unfolding nth [OF j] length_map by (simp only: nth cong: conj_cong)
    moreover have "?T (map f ms)"
    proof (intro impI allI)
      fix i assume r: "Round (map f ms ! j) = 1" and "i < length (map f ms)"
      then have i: "i < length ms" by simp
      from all(5) r i show "NextMatchIdx (map f ms ! i) \<noteq> int j"
        unfolding nth [OF j] nth [OF i] by blast
    qed
    ultimately show "?P (map f ms) \<and> ?Q (map f ms) \<and> ?R (map f ms) \<and> ?S (map f ms) \<and> ?T (map f ms)"
      by blast
  qed
qed

lemma progression_feeds:
  assumes "progression_ok ms" and "m \<in> set ms"
  shows "-1 \<le> NextMatchIdx m"
proof -
  from assms(2) obtain j where j: "j < length ms" "m = ms ! j" by (auto simp: in_set_conv_nth)
  with assms(1) have "NextMatchIdx m = -1 \<or> int j < NextMatchIdx m"
    unfolding progression_ok_def by blast
  then show ?thesis by auto
qed

locale bracket_builder =
  fixes build :: "'a \<Rightarrow> dmatch list"
    and ok :: "'a \<Rightarrow> bool"
    and leaves :: "'a \<Rightarrow> (slot \<times> slot) list"
  assumes leaves_ne: "ok x \<Longrightarrow> leaves x \<noteq> []"
    and wired: "ok x \<Longrightarrow> bracket_wired (length (leaves x)) (build x)"
    and first_round: "ok x \<Longrightarrow> j < length (leaves x) \<Longrightarrow>
      (Slot1 (build x ! j), Slot2 (build x ! j)) = leaves x ! j"
begin

lemma match_count: "ok x \<Longrightarrow> length (build x) = 2 * length (leaves x) - 1"
  using wired by (simp add: bracket_wired_def)

lemma final_unfed:
  assumes "ok x" and "j < length (build x)"
  shows "NextMatchIdx (build x ! j) = -1 \<longleftrightarrow> j = length (build x) - 1"
proof -
  have "leaves x \<noteq> []" using leaves_ne [OF assms(1)] .
  then show ?thesis
    using wired [OF assms(1)] assms(2) unfolding bracket_wired_def feeds_next_def
    by (cases "j < 2 * length (leaves x) - 2") (auto simp: numeral_2_eq_2 le_less_Suc_eq not_less)
qed

lemma feeds_later:
  assumes "ok x" and "j < length (build x) - 1"
  shows "int j < NextMatchIdx (build x ! j) \<and> NextMatchIdx (build x ! j) < int (length (build x))
    \<and> int (length (leaves x)) \<le> NextMatchIdx (build x ! j)
    \<and> NextSlot (build x ! j) \<in> {1, 2}
    \<and> Round (build x ! nat (NextMatchIdx (build x ! j))) = Suc (Round (build x ! j))"
proof -
  let ?M = "length (leaves x)"
  have W: "length (build x) = 2 * ?M - 1" "j < 2 * ?M - 2"
    using wired [OF assms(1)] assms(2) by (auto simp: bracket_wired_def)
  then have next': "NextMatchIdx (build x ! j) = int (?M + j div 2)"
    and rest: "NextSlot (build x ! j) = j mod 2 + 1"
      "Round (build x ! (?M + j div 2)) = Suc (Round (build x ! j))"
    using wired [OF assms(1)] by (auto simp: bracket_wired_def feeds_next_def)
  have "nat (NextMatchIdx (build x ! j)) = ?M + j div 2" unfolding next' by (rule nat_int)
  moreover have "j < ?M + j div 2" "?M + j div 2 < length (build x)" "?M \<le> ?M + j div 2"
    using W by auto
  ultimately show ?thesis unfolding next' rest(1) using rest(2) by (simp only: of_nat_less_iff) auto
qed

lemma two_feeders:
  assumes "ok x" and "length (leaves x) \<le> j" and "j < length (build x)" and "sl \<in> {1, 2}"
  shows "{i. i < length (build x) \<and> NextMatchIdx (build x ! i) = int j \<and> NextSlot (build x ! i) = sl}
       = {2 * (j - length (leaves x)) + (sl - 1)}" (is "?L = {?i}")
proof -
  let ?M = "length (leaves x)"
  have W: "length (build x) = 2 * ?M - 1" "NextMatchIdx (build x ! (2 * ?M - 2)) = -1"
    "\<And>i. i < 2 * ?M - 2 \<Longrightarrow>
        NextMatchIdx (build x ! i) = int (?M + i div 2) \<and> NextSlot (build x ! i) = i mod 2 + 1"
    using wired [OF assms(1)] by (auto simp: bracket_wired_def feeds_next_def)
  have lt: "?i < 2 * ?M - 2" using assms(2-4) W(1) by auto
  have "?i \<in> ?L" using W(1) W(3) [OF lt] lt assms(2-4) by auto
  moreover have "i = ?i" if i: "i \<in> ?L" for i
  proof -
    have "i < 2 * ?M - 2"
      using i W(1,2) by (cases "i = 2 * ?M - 2") auto
    then have "?M + i div 2 = j" "i mod 2 + 1 = sl" using i W(3) [of i] by auto
    then show ?thesis by presburger
  qed
  ultimately show ?thesis by blast
qed

lemma reaches_final:
  assumes "ok x" and "j < length (build x)"
  shows "\<exists>n. (winner_goes_to (build x) ^^ n) j = length (build x) - 1
     \<and> Round (build x ! j) + n = log2 (2 * length (leaves x))"
  using assms(2)
proof (induction "length (build x) - j" arbitrary: j rule: less_induct)
  case less
  show ?case
  proof (cases "j = length (build x) - 1")
    case True
    then show ?thesis using wired [OF assms(1)]
      by (intro exI [of _ 0]) (simp add: bracket_wired_def numeral_2_eq_2)
  next
    case False
    let ?n = "nat (NextMatchIdx (build x ! j))"
    have j: "j < length (build x) - 1" using False less.prems by simp
    note f = feeds_later [OF assms(1) j]
    have "?n < length (build x)" "length (build x) - ?n < length (build x) - j"
      using f less.prems by linarith+
    from less.hyps [OF this(2,1)] obtain n where
      "(winner_goes_to (build x) ^^ n) ?n = length (build x) - 1"
      "Round (build x ! ?n) + n = log2 (2 * length (leaves x))" by blast
    moreover have "winner_goes_to (build x) j = ?n" using f by (simp add: winner_goes_to_def)
    ultimately show ?thesis
      using f by (intro exI [of _ "Suc n"]) (simp add: funpow_swap1)
  qed
qed

lemma later_rounds:
  assumes "ok x" and "length (leaves x) \<le> j" and "j < length (build x)"
  shows "2 \<le> Round (build x ! j)"
proof -
  let ?M = "length (leaves x)"
  have W: "length (build x) = 2 * ?M - 1"
    "\<And>i. i < 2 * ?M - 2 \<Longrightarrow> Round (build x ! (?M + i div 2)) = Suc (Round (build x ! i))"
    "\<And>i. i < ?M \<Longrightarrow> Round (build x ! i) = 1"
    using wired [OF assms(1)] by (auto simp: bracket_wired_def)
  have suc: "\<exists>i < j. Round (build x ! j) = Suc (Round (build x ! i))"
    if "?M \<le> j" "j < 2 * ?M - 1" for j
    using W(2) [of "2 * (j - ?M)"] that by (intro exI [of _ "2 * (j - ?M)"]) auto
  from suc [of j] assms(2,3) W(1) obtain i where
    i: "i < j" "Round (build x ! j) = Suc (Round (build x ! i))" by auto
  have "1 \<le> Round (build x ! i)"
    using W(3) [of i] suc [of i] i(1) assms(3) W(1) by (cases "i < ?M") auto
  with i show ?thesis by simp
qed

lemma first_round_slots:
  assumes "ok x"
  shows "map (\<lambda>m. (Slot1 m, Slot2 m)) (filter (\<lambda>m. Round m = 1) (build x)) = leaves x"
proof -
  let ?M = "length (leaves x)"
  have W: "length (build x) = 2 * ?M - 1" "\<And>i. i < ?M \<Longrightarrow> Round (build x ! i) = 1"
    using wired [OF assms] by (auto simp: bracket_wired_def)
  have M: "?M \<le> length (build x)" using leaves_ne [OF assms] W(1) by (cases "leaves x") auto
  have "filter (\<lambda>m. Round m = 1) (take ?M (build x)) = take ?M (build x)"
    using W(2) M by (intro filter_True) (auto simp: in_set_conv_nth)
  moreover have "Round m \<noteq> 1" if m: "m \<in> set (drop ?M (build x))" for m
  proof -
    obtain i where "i < length (build x) - ?M" "m = build x ! (?M + i)"
      using m M by (auto simp: in_set_conv_nth)
    moreover from this(1) have "?M + i < length (build x)" by linarith
    ultimately show ?thesis using later_rounds [OF assms, of "?M + i"] by simp
  qed
  then have "filter (\<lambda>m. Round m = 1) (drop ?M (build x)) = []"
    by (simp add: filter_empty_conv)
  ultimately have "filter (\<lambda>m. Round m = 1) (build x) = take ?M (build x)"
    by (metis append_Nil2 append_take_drop_id filter_append)
  moreover have "map (\<lambda>m. (Slot1 m, Slot2 m)) (take ?M (build x)) = leaves x"
    using M first_round [OF assms] by (intro nth_equalityI) auto
  ultimately show ?thesis by simp
qed

lemma round_one:
  assumes "ok x" and "j < length (build x)"
  shows "Round (build x ! j) = 1 \<longleftrightarrow> j < length (leaves x)"
  using wired [OF assms(1)] later_rounds [OF assms(1) _ assms(2)]
  by (cases "j < length (leaves x)") (auto simp: bracket_wired_def)

lemma round_pos: "ok x \<Longrightarrow> j < length (build x) \<Longrightarrow> 1 \<le> Round (build x ! j)"
  using round_one [of x j] later_rounds [of x j] by (cases "j < length (leaves x)") auto

lemma progression: "ok x \<Longrightarrow> progression_ok (build x)"
  unfolding progression_ok_def
proof (intro allI impI conjI)
  fix j assume ok: "ok x" and j: "j < length (build x)"
  show "NextMatchIdx (build x ! j) = -1 \<longleftrightarrow> j = length (build x) - 1"
    by (rule final_unfed [OF ok j])
  show "\<exists>n. (winner_goes_to (build x) ^^ n) j = length (build x) - 1"
    using reaches_final [OF ok j] by blast
  { assume "j \<noteq> length (build x) - 1"
    with j have "j < length (build x) - 1" by simp
    note f = feeds_later [OF ok this]
    show "int j < NextMatchIdx (build x ! j)" "NextMatchIdx (build x ! j) < int (length (build x))"
      "NextSlot (build x ! j) \<in> {1, 2}"
      "Round (build x ! nat (NextMatchIdx (build x ! j))) = Suc (Round (build x ! j))"
      using f by blast+ }
  { assume "Round (build x ! j) \<noteq> 1"
    then have le: "length (leaves x) \<le> j" using round_one [OF ok j] by simp
    show "\<forall>sl \<in> {1, 2}. \<exists>!i. i < length (build x) \<and> NextMatchIdx (build x ! i) = int j
        \<and> NextSlot (build x ! i) = sl"
    proof
      fix sl :: nat assume "sl \<in> {1, 2}"
      from two_feeders [OF ok le j this]
      show "\<exists>!i. i < length (build x) \<and> NextMatchIdx (build x ! i) = int j
          \<and> NextSlot (build x ! i) = sl"
        by (auto simp: set_eq_iff)
    qed }
  { fix i assume r: "Round (build x ! j) = 1" and i: "i < length (build x)"
    show "NextMatchIdx (build x ! i) \<noteq> int j"
    proof (cases "i = length (build x) - 1")
      case True
      then show ?thesis using final_unfed [OF ok i] by simp
    next
      case False
      with i have "i < length (build x) - 1" by simp
      then show ?thesis using feeds_later [OF ok, of i] round_pos [OF ok i] r by auto
    qed }
qed

lemma round_bounds:
  assumes "ok x" and "j < length (build x)"
  shows "Round (build x ! j) \<le> log2 (2 * length (leaves x))"
  using reaches_final [OF assms] by auto

end

subsection \<open>The seeded builder meets the interface\<close>

definition se_placed :: "entry list \<Rightarrow> entry option list" where
  "se_placed entries = placeEntries entries (seedPositions (nextPowerOfTwo (length entries)))"

definition se_leaves :: "entry list \<Rightarrow> (slot \<times> slot) list" where
  "se_leaves entries = map (\<lambda>i. (entryToSlot (se_placed entries ! (i * 2)),
       entryToSlot (se_placed entries ! (i * 2 + 1)))) [0..<nextPowerOfTwo (length entries) div 2]"

lemma nextPowerOfTwo_ge2:
  assumes "2 \<le> n"
  obtains k where "nextPowerOfTwo n = 2 ^ Suc k" and "n \<le> 2 ^ Suc k" and "2 ^ k < n"
proof -
  obtain j where j: "nextPowerOfTwo n = 2 ^ j" "n \<le> 2 ^ j" "j = 0 \<or> 2 ^ (j - 1) < n"
    using nextPowerOfTwo_spec by blast
  with assms have "j \<noteq> 0" by (cases j) auto
  then obtain k where "j = Suc k" by (cases j) auto
  with j that show ?thesis by auto
qed

lemma GenerateSingleElimination_eq:
  assumes "2 \<le> length entries"
  obtains k ms0 where "nextPowerOfTwo (length entries) = 2 ^ Suc k"
    and "length entries \<le> 2 ^ Suc k" and "2 ^ k < length entries"
    and "GenerateSingleElimination entries = wireFedRounds ms0 (2 ^ k)"
    and "length ms0 = 2 ^ k"
    and "\<And>j. j < 2 ^ k \<Longrightarrow> Round (ms0 ! j) = 1 \<and> MatchInRound (ms0 ! j) = j"
    and "\<And>j. j < 2 ^ k \<Longrightarrow> (Slot1 (ms0 ! j), Slot2 (ms0 ! j)) = se_leaves entries ! j"
    and "length (se_leaves entries) = 2 ^ k"
proof -
  obtain k where k: "nextPowerOfTwo (length entries) = 2 ^ Suc k" "length entries \<le> 2 ^ Suc k"
    "2 ^ k < length entries" using nextPowerOfTwo_ge2 [OF assms] by metis
  define ms0 where "ms0 = map (\<lambda>i. match_zero\<lparr>Round := 1, MatchInRound := i,
      Slot1 := entryToSlot (se_placed entries ! (i * 2)),
      Slot2 := entryToSlot (se_placed entries ! (i * 2 + 1))\<rparr>) [0..<(2::nat) ^ k]"
  have "GenerateSingleElimination entries = wireFedRounds ms0 (2 ^ k)"
    using assms k by (simp add: GenerateSingleElimination_def Let_def ms0_def se_placed_def)
  then show ?thesis
    using k by (intro that [of k ms0]) (auto simp: ms0_def se_leaves_def)
qed

interpretation single_elim: bracket_builder GenerateSingleElimination "\<lambda>es. 2 \<le> length es" se_leaves
proof unfold_locales
  fix es :: "entry list" and j
  assume es: "2 \<le> length es"
  show "se_leaves es \<noteq> []"
    by (rule GenerateSingleElimination_eq [OF es]) (metis length_0_conv power_not_zero zero_neq_numeral)
  show "bracket_wired (length (se_leaves es)) (GenerateSingleElimination es)"
    by (rule GenerateSingleElimination_eq [OF es]) (metis wireFedRounds_wired(1))
  assume "j < length (se_leaves es)"
  then show "(Slot1 (GenerateSingleElimination es ! j), Slot2 (GenerateSingleElimination es ! j))
      = se_leaves es ! j"
    by (rule_tac GenerateSingleElimination_eq [OF es]) (metis wireFedRounds_wired(2))
qed

subsection \<open>Placing the entries\<close>

lemma length_placeLoop [simp]: "length (placeLoop m us order) = length order"
  by (induction m us order rule: placeLoop.induct) (auto split: option.split list.split)

lemma mset_placeLoop:
  "mset (placeLoop m us order) =
     mset (map m (filter (\<lambda>r. m r \<noteq> None) order))
   + image_mset Some (mset (take (length (filter (\<lambda>r. m r = None) order)) us))
   + replicate_mset (length (filter (\<lambda>r. m r = None) order) - length us) None"
  by (induction m us order rule: placeLoop.induct) (auto split: option.split list.split)

definition seeded :: "entry list \<Rightarrow> entry list" where
  "seeded entries = filter (\<lambda>e. Seed e > 0) entries"

lemma bySeed_notin: "bySeed es r = None" if "r \<notin> Seed ` set (seeded es)"
proof -
  have "fold (\<lambda>e m. if Seed e > 0 then m(Seed e \<mapsto> e) else m) es m r = m r" for m :: "int \<rightharpoonup> entry"
    using that by (induction es arbitrary: m) (auto simp: seeded_def)
  then show ?thesis by (simp add: bySeed_def)
qed

lemma bySeed_in: "bySeed es (Seed e) = Some e"
  if "distinct (map Seed (seeded es))" and "e \<in> set (seeded es)"
proof -
  let ?f = "\<lambda>e m. if Seed e > 0 then m(Seed e \<mapsto> e) else (m :: int \<rightharpoonup> entry)"
  have keep: "fold ?f es m r = m r" if "r \<notin> Seed ` set (seeded es)" for m r es
    using that by (induction es arbitrary: m) (auto simp: seeded_def)
  have "fold ?f es m (Seed e) = Some e" for m
    using that
  proof (induction es arbitrary: m)
    case (Cons x es)
    show ?case
    proof (cases "e = x \<and> Seed x > 0")
      case True
      with Cons.prems have "Seed e \<notin> Seed ` set (seeded es)" by (auto simp: seeded_def)
      then show ?thesis using True keep [of "Seed e" es "m(Seed e \<mapsto> e)"] by simp
    next
      case False
      with Cons.prems have "e \<in> set (seeded es)" "distinct (map Seed (seeded es))"
        by (auto simp: seeded_def split: if_splits)
      then show ?thesis using Cons.IH by simp
    qed
  qed (simp add: seeded_def)
  then show ?thesis by (simp add: bySeed_def)
qed

lemma bySeed_dom:
  assumes "distinct (map Seed (seeded es))"
  shows "bySeed es r \<noteq> None \<longleftrightarrow> r \<in> Seed ` set (seeded es)"
  using bySeed_notin [of r es] bySeed_in [OF assms] by (cases "r \<in> Seed ` set (seeded es)") auto

text \<open>Seeds that name each slot at most once lose nobody: the bracket holds every entry once.\<close>

lemma mset_placeEntries:
  assumes dist: "distinct (map Seed (seeded es))" and ord: "distinct order"
    and sub: "Seed ` set (seeded es) \<subseteq> set order" and len: "length es \<le> length order"
  shows "mset (placeEntries es order) =
     image_mset Some (mset es) + replicate_mset (length order - length es) None"
proof -
  let ?m = "bySeed es" and ?S = "seeded es"
  let ?in = "filter (\<lambda>r. ?m r \<noteq> None) order" and ?out = "filter (\<lambda>r. ?m r = None) order"
  have set_in: "set ?in = Seed ` set ?S" using sub bySeed_dom [OF dist] by auto
  have perm: "mset ?in = mset (map Seed ?S)"
    using set_in dist ord by (intro set_eq_iff_mset_eq_distinct [THEN iffD1]) auto
  then have "mset (map ?m ?in) = mset (map ?m (map Seed ?S))" by (metis mset_map)
  also have "map ?m (map Seed ?S) = map Some ?S" using bySeed_in [OF dist] by simp
  finally have top: "mset (map ?m ?in) = image_mset Some (mset ?S)" by simp
  have "length ?in = length ?S" using perm by (metis length_map mset_eq_length)
  moreover have "length ?in + length ?out = length order"
    using sum_length_filter_compl [of "\<lambda>r. ?m r \<noteq> None" order] by simp
  moreover have es: "length ?S + length (unseeded es) = length es"
    using sum_length_filter_compl [of "\<lambda>e. Seed e > 0" es] by (simp add: seeded_def unseeded_def)
  ultimately have out: "length ?out - length (unseeded es) = length order - length es"
    and "length (unseeded es) \<le> length ?out" using len by auto
  have "mset es = mset ?S + mset (unseeded es)"
    by (simp add: seeded_def unseeded_def)
  then show ?thesis
    using \<open>length (unseeded es) \<le> length ?out\<close>
    unfolding placeEntries_def mset_placeLoop top out by simp
qed

lemma seeds_meet_late_aux:
  assumes "d \<le> Suc k" and "i < 2 ^ Suc k" and "seeding k ! i \<le> 2 ^ (Suc k - d)"
  shows "2 ^ d dvd i"
  using assms
proof (induction k arbitrary: i d)
  case 0
  then consider "i = 0" | "i = 1" "d = 0" by (cases d) (auto simp: less_Suc_eq numeral_2_eq_2)
  then show ?case by cases auto
next
  case (Suc k)
  show ?case
  proof (cases d)
    case (Suc d')
    note d = Suc
    show ?thesis
    proof (cases "even i")
      case True
      then obtain b where b: "i = 2 * b" by blast
      then have "b < 2 ^ Suc k" using Suc.prems by simp
      then have "2 ^ d' dvd b"
        using Suc.prems Suc.IH [of d' b] seeding_even [of b k] b d by simp
      then show ?thesis by (simp add: b d)
    next
      case False
      then obtain b where b: "i = 2 * b + 1" by (blast elim: oddE)
      then have lt: "b < 2 ^ Suc k" using Suc.prems by simp
      then have "seeding k ! b \<in> {1..2 ^ Suc k}" using set_seeding [of k] nth_mem by auto
      then have "2 ^ Suc k < seeding (Suc k) ! i"
        unfolding b seeding_odd [OF lt] by simp
      moreover have "(2::int) ^ (Suc (Suc k) - d) \<le> 2 ^ Suc k"
        using d by (intro power_increasing) auto
      ultimately show ?thesis using Suc.prems(3) by linarith
    qed
  qed simp
qed

lemma seeds_meet_late:
  assumes "d \<le> Suc k" and "i < 2 ^ Suc k" and "j < 2 ^ Suc k" and "i \<noteq> j"
    and "seedPositions (2 ^ Suc k) ! i \<le> 2 ^ (Suc k - d)"
    and "seedPositions (2 ^ Suc k) ! j \<le> 2 ^ (Suc k - d)"
  shows "i div 2 ^ d \<noteq> j div 2 ^ d"
  using seeds_meet_late_aux [OF assms(1,2)] seeds_meet_late_aux [OF assms(1,3)] assms(4-6)
  unfolding seedPositions_eq by (metis dvd_div_mult_self)

lemma seeding_pair:
  assumes "i < 2 ^ k"
  shows "seeding k ! (2 * i) + seeding k ! (2 * i + 1) = 2 ^ Suc k + 1"
proof (cases k)
  case 0
  then show ?thesis using assms by simp
next
  case (Suc k')
  with assms show ?thesis using seeding_even [of i k'] seeding_odd [of i k'] by simp
qed

text \<open>With seeds \<open>1..n\<close> the entry with seed \<open>r\<close> stands wherever rank \<open>r\<close> does; the rest are byes.\<close>

lemma placeLoop_seeded_only: "placeLoop m [] order = map m order"
  by (induction order) (auto split: option.split)

lemma placed_none_iff:
  assumes seeds: "mset (map Seed es) = mset (map int [1..<length es + 1])"
    and "i < length order" and "0 < order ! i"
  shows "placeEntries es order ! i = None \<longleftrightarrow> int (length es) < order ! i"
proof -
  have S: "Seed ` set es = int ` {1..<length es + 1}" "distinct (map Seed es)"
    using seeds mset_eq_setD [OF seeds] mset_eq_imp_distinct_iff [OF seeds]
    by (auto simp: distinct_map)
  have pos: "\<forall>e \<in> set es. 0 < Seed e" using S(1) by force
  then have sd: "seeded es = es" "unseeded es = []"
    by (auto simp: seeded_def unseeded_def filter_empty_conv)
  have "placeEntries es order ! i = bySeed es (order ! i)"
    using assms(2) by (simp add: placeEntries_def sd placeLoop_seeded_only)
  moreover have "bySeed es (order ! i) = None \<longleftrightarrow> order ! i \<notin> int ` {1..<length es + 1}"
    using bySeed_dom [of es "order ! i"] S by (auto simp: sd)
  moreover have "order ! i \<in> int ` {1..<length es + 1} \<longleftrightarrow> order ! i \<le> int (length es)"
    using assms(3) by (auto intro!: image_eqI [of _ _ "nat (order ! i)"])
  ultimately show ?thesis by auto
qed

subsection \<open>Properties\<close>

lemma single_elim_leaves: "length (se_leaves es) = nextPowerOfTwo (length es) div 2"
  by (simp add: se_leaves_def)

lemma even_nextPowerOfTwo: "2 \<le> n \<Longrightarrow> 2 * (nextPowerOfTwo n div 2) = nextPowerOfTwo n"
  by (rule nextPowerOfTwo_ge2) auto

text \<open>C1. \<open>GenerateSingleElimination\<close> builds a sound bracket from two or more entries: the padded
  size minus one matches, every winner feeds a slot of a later match of the next round, each such
  slot has exactly one feeder, and from every match the winner's path ends in the final.\<close>

theorem single_elim_progression:
  assumes "2 \<le> length es"
  shows "length (GenerateSingleElimination es) = nextPowerOfTwo (length es) - 1
    \<and> progression_ok (GenerateSingleElimination es)"
  using single_elim.match_count [OF assms] single_elim.progression [OF assms]
    even_nextPowerOfTwo [OF assms] by (simp add: single_elim_leaves)

definition sample_entries :: "nat \<Rightarrow> entry list" where
  "sample_entries n = map (\<lambda>i. \<lparr>ParticipantID = 100 + i, Seed = int i\<rparr>) [1..<n + 1]"

theorem single_elim_progression_witness:
  "2 \<le> length (sample_entries 3)
   \<and> length (GenerateSingleElimination (sample_entries 3)) = 3
   \<and> progression_ok (GenerateSingleElimination (sample_entries 3))"
proof -
  have "2 \<le> length (sample_entries 3)" by (simp add: sample_entries_def)
  moreover have "nextPowerOfTwo (length (sample_entries 3)) = 4"
    by (simp add: sample_entries_def nextPowerOfTwo_def while_unfold)
  ultimately show ?thesis using single_elim_progression [of "sample_entries 3"] by simp
qed

text \<open>C2. \<open>seedPositions\<close> keeps top seeds apart: with \<open>2 ^ Suc k\<close> slots, two different slots that
  hold seeds among the best \<open>2 ^ (Suc k - d)\<close> never lie in the same block of \<open>2 ^ d\<close> first-round
  slots, so these seeds cannot meet before round \<open>d + 1\<close>; and the order is a permutation of
  \<open>1..2 ^ Suc k\<close> whose first-round pairs sum to the size plus one.\<close>

theorem seedPositions_separates:
  assumes "d \<le> Suc k" and "i < 2 ^ Suc k" and "j < 2 ^ Suc k" and "i \<noteq> j"
    and "seedPositions (2 ^ Suc k) ! i \<le> 2 ^ (Suc k - d)"
    and "seedPositions (2 ^ Suc k) ! j \<le> 2 ^ (Suc k - d)"
  shows "i div 2 ^ d \<noteq> j div 2 ^ d
    \<and> set (seedPositions (2 ^ Suc k)) = {1..2 ^ Suc k} \<and> distinct (seedPositions (2 ^ Suc k))
    \<and> (\<forall>p < 2 ^ k. seedPositions (2 ^ Suc k) ! (2 * p) + seedPositions (2 ^ Suc k) ! (2 * p + 1)
          = 2 ^ Suc k + 1)"
  using seeds_meet_late [OF assms] set_seeding [of k] seeding_pair [of _ k]
  unfolding seedPositions_eq by blast

theorem seedPositions_separates_witness:
  "seedPositions 4 ! 0 = 1 \<and> seedPositions 4 ! 2 = 2 \<and> (0::nat) div 2 ^ 1 \<noteq> 2 div 2 ^ 1"
proof -
  have e: "seedPositions (2 ^ Suc 1) = [1, 4, 2, 3]"
    unfolding seedPositions_eq by (simp add: seedExpand_def)
  have "(0::nat) div 2 ^ 1 \<noteq> 2 div 2 ^ 1"
    using seedPositions_separates [of 1 1 0 2] unfolding e by simp
  then show ?thesis using e by simp
qed

text \<open>C3. When the positive seeds are different and at most the bracket size, round 1 of
  \<open>GenerateSingleElimination\<close> holds every entry exactly once and fills the other slots with
  byes, no more of them than the padding needs.\<close>

theorem single_elim_places_everyone:
  assumes "2 \<le> length es" and "distinct (map Seed (seeded es))"
    and "\<forall>e \<in> set (seeded es). Seed e \<le> int (nextPowerOfTwo (length es))"
  shows "mset (concat (map (\<lambda>m. [Slot1 m, Slot2 m])
           (filter (\<lambda>m. Round m = 1) (GenerateSingleElimination es))))
     = mset (map (\<lambda>e. slot_zero\<lparr>SlotParticipant := Some (ParticipantID e)\<rparr>) es)
     + replicate_mset (nextPowerOfTwo (length es) - length es) bye_slot"
proof -
  obtain k where k: "nextPowerOfTwo (length es) = 2 ^ Suc k" "length es \<le> 2 ^ Suc k"
    using nextPowerOfTwo_ge2 [OF assms(1)] by metis
  let ?P = "se_placed es"
  have P: "?P = placeEntries es (seeding k)" by (simp only: se_placed_def k(1) seedPositions_eq)
  have lenP: "length ?P = 2 * 2 ^ k" by (simp add: P placeEntries_def)
  have "mset ?P = image_mset Some (mset es) + replicate_mset (length (seeding k) - length es) None"
    unfolding P using assms(2,3) set_seeding [of k] k
    by (intro mset_placeEntries) (auto simp: seeded_def)
  then have m: "mset (map entryToSlot ?P) =
      mset (map (\<lambda>e. slot_zero\<lparr>SlotParticipant := Some (ParticipantID e)\<rparr>) es)
      + replicate_mset (nextPowerOfTwo (length es) - length es) bye_slot"
    by (simp add: k(1) entryToSlot_def image_mset.compositionality comp_def)
  have "concat (map (\<lambda>m. [Slot1 m, Slot2 m])
           (filter (\<lambda>m. Round m = 1) (GenerateSingleElimination es)))
      = concat (map (\<lambda>(a, b). [a, b]) (se_leaves es))"
    unfolding single_elim.first_round_slots [OF assms(1), symmetric] by (simp add: comp_def)
  also have "\<dots> = map entryToSlot ?P"
  proof -
    have "concat (map (\<lambda>i. [entryToSlot (?P ! (i * 2)), entryToSlot (?P ! (i * 2 + 1))]) [0..<2 ^ k])
        = concat (map (\<lambda>i. [map entryToSlot ?P ! (i * 2), map entryToSlot ?P ! (i * 2 + 1)]) [0..<2 ^ k])"
      using lenP by (intro arg_cong [where f = concat] map_cong) auto
    with concat_consecutive_pairs [of "map entryToSlot ?P" "2 ^ k"] lenP show ?thesis
      by (simp add: se_leaves_def k(1) comp_def)
  qed
  finally show ?thesis using m by simp
qed

theorem single_elim_places_everyone_witness:
  "mset (concat (map (\<lambda>m. [Slot1 m, Slot2 m])
           (filter (\<lambda>m. Round m = 1) (GenerateSingleElimination (sample_entries 3)))))
     = {#slot_zero\<lparr>SlotParticipant := Some 101\<rparr>, slot_zero\<lparr>SlotParticipant := Some 102\<rparr>,
         slot_zero\<lparr>SlotParticipant := Some 103\<rparr>, bye_slot#}"
proof -
  have e: "sample_entries 3 = [\<lparr>ParticipantID = 101, Seed = 1\<rparr>, \<lparr>ParticipantID = 102, Seed = 2\<rparr>,
      \<lparr>ParticipantID = 103, Seed = 3\<rparr>]" by (simp add: sample_entries_def upt_rec)
  have "nextPowerOfTwo (length (sample_entries 3)) = 4"
    by (simp add: sample_entries_def nextPowerOfTwo_def while_unfold)
  then show ?thesis using single_elim_places_everyone [of "sample_entries 3"]
    unfolding e by (simp add: seeded_def)
qed

end
