(* ===== verification/RoundRobin.thy ===== *)
theory RoundRobin
  imports Bracket
begin

section \<open>Round-robin schedules (internal/draw/round_robin.go)\<close>

text \<open>
  \<open>GenerateRoundRobin\<close> by the circle method: the slice \<open>idx\<close> of entry indices, padded with the
  bye index -1 to an even length, keeps its first element and rotates the others by one place per
  round; round \<open>r\<close> pairs position \<open>i\<close> with position \<open>size - 1 - i\<close>. The lemmas give the closed
  form of the rotation and show that every pair of entries meets exactly once.
\<close>

subsection \<open>Operations\<close>

definition slotFor :: "entry list \<Rightarrow> int \<Rightarrow> slot" where
  "slotFor entries i = slot_zero\<lparr>SlotParticipant := Some (ParticipantID (entries ! nat i))\<rparr>"

text \<open>The loop over \<open>i\<close>: the state is the match slice and \<open>matchInRound[r]\<close>.\<close>

definition rrStep :: "entry list \<Rightarrow> nat \<Rightarrow> int list \<Rightarrow> nat \<Rightarrow> dmatch list \<times> nat \<Rightarrow> dmatch list \<times> nat" where
  "rrStep entries r idx i st =
     (let a = idx ! i; b = idx ! (length idx - 1 - i) in
      if a = -1 \<or> b = -1 then st
      else (fst st @ [match_zero\<lparr>Round := r + 1, MatchInRound := snd st,
              Slot1 := slotFor entries a, Slot2 := slotFor entries b,
              NextMatchIdx := -1, NextSlot := 0\<rparr>], snd st + 1))"

text \<open>\<open>last := idx[size-1]; copy(idx[2:], idx[1:size-1]); idx[1] = last\<close>\<close>

definition rrRotate :: "'a list \<Rightarrow> 'a list" where
  "rrRotate idx = (take 2 idx @ take (length idx - 2) (drop 1 idx))[1 := idx ! (length idx - 1)]"

definition rrRound :: "entry list \<Rightarrow> nat \<Rightarrow> dmatch list \<times> int list \<Rightarrow> dmatch list \<times> int list" where
  "rrRound entries r st = (case st of (matches, idx) \<Rightarrow>
     (fst (fold (rrStep entries r idx) [0..<length idx div 2] (matches, 0)), rrRotate idx))"

definition GenerateRoundRobin :: "entry list \<Rightarrow> dmatch list" where
  "GenerateRoundRobin entries =
     (let n = length entries in
      if n < 2 then []
      else
        let idx = map int [0..<n];
            idx = (if n mod 2 = 1 then idx @ [-1] else idx);
            rounds = length idx - 1;
            matches = fst (fold (rrRound entries) [0..<rounds] ([], idx))
        in map (\<lambda>m. m\<lparr>GroupIndex := -1\<rparr>) matches)"

subsection \<open>The rotation in closed form\<close>

definition rrSize :: "nat \<Rightarrow> nat" where
  "rrSize n = n + n mod 2"

text \<open>Position labels: label \<open>p\<close> stands for entry \<open>p\<close>, or for the bye when \<open>p = n\<close>.\<close>

definition rrLabel :: "nat \<Rightarrow> nat \<Rightarrow> int" where
  "rrLabel n p = (if p < n then int p else -1)"

definition rrPerm :: "nat \<Rightarrow> nat \<Rightarrow> nat list" where
  "rrPerm m r = 0 # map (\<lambda>j. Suc ((j + r * (m - 1)) mod m)) [0..<m]"

lemma length_rrPerm [simp]: "length (rrPerm m r) = Suc m"
  by (simp add: rrPerm_def)

lemma rrPerm_0: "rrPerm m 0 = [0..<Suc m]"
  by (rule nth_equalityI) (auto simp: rrPerm_def nth_Cons simp del: upt_Suc split: nat.splits)

lemma rrPerm_nth: "rrPerm m r ! 0 = 0"
  "j < m \<Longrightarrow> rrPerm m r ! Suc j = Suc ((j + r * (m - 1)) mod m)"
  by (simp_all add: rrPerm_def)

lemma length_rrRotate [simp]: "2 \<le> length idx \<Longrightarrow> length (rrRotate idx) = length idx"
  by (simp add: rrRotate_def)

lemma rrRotate_nth:
  assumes "2 \<le> length idx" and "p < length idx"
  shows "rrRotate idx ! p = (if p = 0 then idx ! 0 else if p = 1 then last idx else idx ! (p - 1))"
  using assms
  by (cases idx) (auto simp: rrRotate_def nth_append nth_list_update last_conv_nth nth_Cons'
      not_less numeral_2_eq_2 split: if_splits)

lemma rrRotate_map: "2 \<le> length idx \<Longrightarrow> rrRotate (map f idx) = map f (rrRotate idx)"
  by (cases idx; rule nth_equalityI) (auto simp: rrRotate_nth last_conv_nth)

lemma rrRotate_perm:
  assumes "1 \<le> m"
  shows "rrRotate (rrPerm m r) = rrPerm m (Suc r)"
proof (rule nth_equalityI)
  fix p assume p: "p < length (rrRotate (rrPerm m r))"
  then have p: "p < Suc m" using assms by simp
  have last: "last (rrPerm m r) = rrPerm m r ! Suc (m - 1)"
    using assms by (simp add: last_conv_nth rrPerm_def)
  consider "p = 0" | "p = 1" | j where "p = Suc (Suc j)" "Suc j < m"
    using p by (cases p; cases "p - 1") auto
  then show "rrRotate (rrPerm m r) ! p = rrPerm m (Suc r) ! p"
  proof cases
    case 3
    have "(j + r * (m - 1)) mod m = (j + r * (m - 1) + m) mod m" by simp
    also have "j + r * (m - 1) + m = Suc j + Suc r * (m - 1)" using assms by simp
    finally show ?thesis using 3 assms p rrPerm_nth(2) [of j m r] rrPerm_nth(2) [of "Suc j" m "Suc r"]
      by (simp add: rrRotate_nth)
  next
    case 2
    then show ?thesis using assms last rrPerm_nth(2) [of "m - 1" m r] rrPerm_nth(2) [of 0 m "Suc r"]
      by (cases m) (auto simp: rrRotate_nth algebra_simps)
  qed (use assms in \<open>simp add: rrRotate_nth rrPerm_nth\<close>)
qed (use assms in simp)

text \<open>The pair of labels that position \<open>i\<close> of round \<open>r\<close> holds.\<close>

definition rrPair :: "nat \<Rightarrow> nat \<times> nat \<Rightarrow> nat set" where
  "rrPair m ri = (case ri of (r, i) \<Rightarrow> {rrPerm m r ! i, rrPerm m r ! (m - i)})"

lemma set_rrPerm: "1 \<le> m \<Longrightarrow> distinct (rrPerm m r) \<and> set (rrPerm m r) = {..m}"
proof (induction r)
  case 0
  then show ?case by (auto simp: rrPerm_0 simp del: upt_Suc)
next
  case (Suc r)
  let ?p = "rrPerm m r"
  have len: "2 \<le> length ?p" using Suc.prems by simp
  obtain a xs b where p: "?p = a # xs @ [b]"
    using len by (cases ?p; cases "tl ?p" rule: rev_cases) auto
  have "rrRotate (a # xs @ [b]) = a # b # xs"
    by (cases xs) (simp_all add: rrRotate_def nth_append)
  then have q: "rrPerm m (Suc r) = a # b # xs"
    using p rrRotate_perm [OF Suc.prems, of r] by simp
  have "distinct (a # xs @ [b])" "set (a # xs @ [b]) = {..m}"
    using Suc.IH [OF Suc.prems] unfolding p by auto
  then show ?case unfolding q by auto
qed

subsection \<open>Every pair of labels meets exactly once\<close>

text \<open>
  In round \<open>r\<close> the labels of a pair sum to \<open>-2 - 2 * r\<close> modulo the odd \<open>m\<close> (after subtracting one
  from each, and counting the partner of the fixed label 0 twice), so the pair determines the round.
\<close>

definition pairSum :: "nat \<Rightarrow> nat \<Rightarrow> int" where
  "pairSum a b = (if a = 0 then 2 * (int b - 1) else if b = 0 then 2 * (int a - 1)
     else (int a - 1) + (int b - 1))"

lemma pairSum_sym: "pairSum a b = pairSum b a"
  by (simp add: pairSum_def)

lemma mod_shifted_sum:
  fixes a b c r m :: int
  assumes "c mod m = (- r) mod m"
  shows "((a + c) mod m + (b + c) mod m) mod m = (a + b - 2 * r) mod m"
proof -
  have "((a + c) mod m + (b + c) mod m) mod m = (a + b + 2 * c) mod m"
    unfolding mod_add_eq by (rule arg_cong [where f = "\<lambda>x. x mod m"]) simp
  also have "\<dots> = (a + b + 2 * (- r)) mod m"
    using assms by (metis mod_add_right_eq mod_mult_right_eq)
  finally show ?thesis by simp
qed

lemma pairSum_round:
  assumes "odd m" and "i < Suc m div 2"
  shows "pairSum (rrPerm m r ! i) (rrPerm m r ! (m - i)) mod int m = (- 2 - 2 * int r) mod int m"
proof -
  have m: "1 \<le> m" using assms(1) by (cases m) auto
  let ?c = "r * (m - 1)"
  have c: "int ?c mod int m = (- int r) mod int m"
  proof -
    have "int ?c = int r * (int m - 1)" using m by (simp add: of_nat_diff)
    also have "\<dots> = - int r + int r * int m" by (simp add: algebra_simps)
    finally have "int ?c mod int m = (- int r + int r * int m) mod int m" by (simp only:)
    then show ?thesis by (simp only: mod_mult_self1)
  qed
  have val: "int (rrPerm m r ! Suc j) - 1 = int (j + ?c) mod int m" if "j < m" for j
    using that by (simp add: rrPerm_nth zmod_int)
  have pos: "0 < rrPerm m r ! Suc j" if "j < m" for j
    using that by (simp add: rrPerm_nth)
  have last: "int (rrPerm m r ! m) - 1 = int (m - 1 + ?c) mod int m"
    using val [of "m - 1"] m by simp
  have red: "(int (a + ?c) mod int m + int (b + ?c) mod int m) mod int m = (int a + int b - 2 * int r) mod int m"
    for a b :: nat
    using mod_shifted_sum [OF c, of "int a" "int b"] by (simp only: of_nat_add)
  show ?thesis
  proof (cases i)
    case 0
    have "pairSum (rrPerm m r ! 0) (rrPerm m r ! m) = 2 * (int (m - 1 + ?c) mod int m)"
      using last by (simp add: pairSum_def rrPerm_nth)
    then have "pairSum (rrPerm m r ! 0) (rrPerm m r ! m) mod int m
        = (int (m - 1) + int (m - 1) - 2 * int r) mod int m"
      using red [of "m - 1" "m - 1"] by (simp only: mult_2)
    also have "\<dots> = (- 2 - 2 * int r + 2 * int m) mod int m"
      using m by (simp add: of_nat_diff algebra_simps)
    also have "\<dots> = (- 2 - 2 * int r) mod int m" by simp
    finally show ?thesis using 0 by simp
  next
    case (Suc j)
    then have ij: "j < m" "m - i = Suc (m - i - 1)" "m - i - 1 < m" "int j + int (m - i - 1) = int m - 2"
      using assms by auto
    have "pairSum (rrPerm m r ! i) (rrPerm m r ! (m - i))
        = int (j + ?c) mod int m + int (m - i - 1 + ?c) mod int m"
      using val [OF ij(1)] pos [OF ij(1)] val [OF ij(3)] pos [OF ij(3)] ij(2) Suc
      by (simp add: pairSum_def)
    then have "pairSum (rrPerm m r ! i) (rrPerm m r ! (m - i)) mod int m = (int m - 2 - 2 * int r) mod int m"
      using red [of j "m - i - 1"] ij(4) by simp
    also have "\<dots> = (- 2 - 2 * int r + int m) mod int m" by (simp add: algebra_simps)
    also have "\<dots> = (- 2 - 2 * int r) mod int m" by simp
    finally show ?thesis .
  qed
qed

lemma round_determined:
  assumes "odd m" and "r < m" and "r' < m"
    and "(- 2 - 2 * int r) mod int m = (- 2 - 2 * int r') mod int m"
  shows "r = r'"
proof -
  have "int m dvd (- 2 - 2 * int r) - (- 2 - 2 * int r')"
    using assms(4) by (simp only: mod_eq_dvd_iff)
  then have "int m dvd 2 * (int r' - int r)" by (simp add: algebra_simps)
  moreover have "coprime (int m) 2" using assms(1) by simp
  ultimately have "int m dvd int r' - int r" 
    by (metis coprime_dvd_mult_right_iff)
  then have "int r' mod int m = int r mod int m" by (simp only: mod_eq_dvd_iff)
  with assms(2,3) show ?thesis by simp
qed

lemma inj_rrPair:
  assumes "odd m"
  shows "inj_on (rrPair m) ({..<m} \<times> {..<Suc m div 2})"
proof (rule inj_onI)
  fix x y
  assume "x \<in> {..<m} \<times> {..<Suc m div 2}" "y \<in> {..<m} \<times> {..<Suc m div 2}"
    and xy: "rrPair m x = rrPair m y"
  then obtain r i r' i' where e: "x = (r, i)" "y = (r', i')"
    and b: "r \<in> {..<m}" "i \<in> {..<Suc m div 2}" "r' \<in> {..<m}" "i' \<in> {..<Suc m div 2}"
    by blast
  have eq: "rrPair m (r, i) = rrPair m (r', i')" using xy e by simp
  from eq have "pairSum (rrPerm m r ! i) (rrPerm m r ! (m - i))
      = pairSum (rrPerm m r' ! i') (rrPerm m r' ! (m - i'))"
    by (auto simp: rrPair_def doubleton_eq_iff pairSum_sym)
  then have "(- 2 - 2 * int r) mod int m = (- 2 - 2 * int r') mod int m"
    using pairSum_round [OF assms, of i r] pairSum_round [OF assms, of i' r'] b by simp
  then have r: "r = r'" using round_determined [OF assms] b by simp
  have "distinct (rrPerm m r)" using set_rrPerm [of m r] b by (cases m) auto
  moreover have "i < Suc m" "i' < Suc m" using b by auto
  ultimately have "rrPerm m r ! i = rrPerm m r ! i' \<longleftrightarrow> i = i'"
    "rrPerm m r ! i = rrPerm m r ! (m - i') \<longleftrightarrow> i = m - i'"
    by (simp_all add: nth_eq_iff_index_eq)
  with eq r e show "x = y"
    using b by (auto simp: rrPair_def doubleton_eq_iff)
qed

lemma rrPair_image:
  assumes "odd m"
  shows "rrPair m ` ({..<m} \<times> {..<Suc m div 2}) = {S. S \<subseteq> {..m} \<and> card S = 2}"
proof (rule card_subset_eq)
  let ?D = "{..<m} \<times> {..<Suc m div 2}"
  have m: "1 \<le> m" using assms by (cases m) auto
  show "finite {S. S \<subseteq> {..m} \<and> card S = 2}"
    by (rule finite_subset [of _ "Pow {..m}"]) auto
  show "rrPair m ` ?D \<subseteq> {S. S \<subseteq> {..m} \<and> card S = 2}"
  proof (rule image_subsetI)
    fix x assume "x \<in> ?D"
    then obtain r i where x: "x = (r, i)" and "i \<in> {..<Suc m div 2}" by blast
    then have i: "i < Suc m" "m - i < Suc m" "i \<noteq> m - i" using assms by (auto elim!: oddE)
    have P: "distinct (rrPerm m r)" "set (rrPerm m r) = {..m}" using set_rrPerm [OF m] by auto
    have "rrPerm m r ! i \<in> {..m}" "rrPerm m r ! (m - i) \<in> {..m}"
      unfolding P(2) [symmetric] using i by (auto intro: nth_mem)
    moreover have "rrPerm m r ! i \<noteq> rrPerm m r ! (m - i)"
      using P(1) i by (simp add: nth_eq_iff_index_eq)
    ultimately show "rrPair m x \<in> {S. S \<subseteq> {..m} \<and> card S = 2}"
      by (simp add: rrPair_def x)
  qed
  have "card (rrPair m ` ?D) = m * (Suc m div 2)"
    using card_image [OF inj_rrPair [OF assms]] by (simp add: card_cartesian_product)
  also have "\<dots> = Suc m choose 2"
    using assms by (auto simp: choose_two elim!: oddE)
  also have "\<dots> = card {S. S \<subseteq> {..m} \<and> card S = 2}"
    using n_subsets [of "{..m}" 2] by simp
  finally show "card (rrPair m ` ?D) = card {S. S \<subseteq> {..m} \<and> card S = 2}" .
qed

subsection \<open>The generated matches\<close>

definition rrOk :: "nat \<Rightarrow> nat \<Rightarrow> nat \<times> nat \<Rightarrow> bool" where
  "rrOk n m ri = (case ri of (r, i) \<Rightarrow> rrPerm m r ! i < n \<and> rrPerm m r ! (m - i) < n)"

definition rrMatch :: "entry list \<Rightarrow> nat \<Rightarrow> nat \<Rightarrow> nat \<times> nat \<Rightarrow> dmatch" where
  "rrMatch es m k ri = (case ri of (r, i) \<Rightarrow>
     match_zero\<lparr>Round := r + 1, MatchInRound := k, Slot1 := slotFor es (int (rrPerm m r ! i)),
       Slot2 := slotFor es (int (rrPerm m r ! (m - i))), NextMatchIdx := -1, NextSlot := 0,
       GroupIndex := -1\<rparr>)"

definition rrRoundMatches :: "entry list \<Rightarrow> nat \<Rightarrow> nat \<Rightarrow> dmatch list" where
  "rrRoundMatches es m r =
     map (\<lambda>(k, ri). rrMatch es m k ri)
       (enumerate 0 (filter (rrOk (length es) m) (map (Pair r) [0..<Suc m div 2])))"

lemma rrStep_fold:
  assumes "\<forall>i \<in> set is. i < Suc m"
  shows "map (GroupIndex_update (\<lambda>_. -1))
      (fst (fold (rrStep es r (map (rrLabel (length es)) (rrPerm m r))) is (ms, k)))
    = map (GroupIndex_update (\<lambda>_. -1)) ms
      @ map (\<lambda>(k, ri). rrMatch es m k ri)
          (enumerate k (filter (rrOk (length es) m) (map (Pair r) is)))"
  using assms
proof (induction "is" arbitrary: ms k)
  case (Cons i "is")
  let ?idx = "map (rrLabel (length es)) (rrPerm m r)"
  have i: "?idx ! i = rrLabel (length es) (rrPerm m r ! i)"
    "?idx ! (length ?idx - 1 - i) = rrLabel (length es) (rrPerm m r ! (m - i))"
    using Cons.prems by simp_all
  show ?case
  proof (cases "rrOk (length es) m (r, i)")
    case True
    then have "rrStep es r ?idx i (ms, k) =
        (ms @ [match_zero\<lparr>Round := r + 1, MatchInRound := k,
            Slot1 := slotFor es (int (rrPerm m r ! i)),
            Slot2 := slotFor es (int (rrPerm m r ! (m - i))), NextMatchIdx := -1,
            NextSlot := 0\<rparr>], k + 1)"
      unfolding rrStep_def i Let_def by (simp add: rrOk_def rrLabel_def)
    then show ?thesis using Cons True by (simp add: rrMatch_def)
  next
    case False
    then have "rrStep es r ?idx i (ms, k) = (ms, k)"
      unfolding rrStep_def i Let_def by (auto simp: rrOk_def rrLabel_def)
    then show ?thesis using Cons False by simp
  qed
qed simp

lemma rrRound_fold:
  assumes "1 \<le> m"
  shows "snd (fold (rrRound es) [0..<R] ([], map (rrLabel (length es)) (rrPerm m 0)))
      = map (rrLabel (length es)) (rrPerm m R)"
    and "map (GroupIndex_update (\<lambda>_. -1))
           (fst (fold (rrRound es) [0..<R] ([], map (rrLabel (length es)) (rrPerm m 0))))
      = concat (map (rrRoundMatches es m) [0..<R])"
proof (induction R)
  case (Suc R)
  let ?st = "fold (rrRound es) [0..<R] ([], map (rrLabel (length es)) (rrPerm m 0))"
  have st: "?st = (fst ?st, map (rrLabel (length es)) (rrPerm m R))"
    using Suc(1) by (metis prod.collapse)
  { case 1
    have "snd (rrRound es R ?st) = rrRotate (map (rrLabel (length es)) (rrPerm m R))"
      by (subst st) (simp add: rrRound_def)
    then show ?case using assms by (simp add: rrRotate_map rrRotate_perm) }
  { case 2
    have "fst (rrRound es R ?st) = fst (fold (rrStep es R (map (rrLabel (length es)) (rrPerm m R)))
        [0..<Suc m div 2] (fst ?st, 0))"
      by (subst st) (simp add: rrRound_def)
    moreover have "\<forall>i \<in> set [0..<Suc m div 2]. i < Suc m" by auto
    ultimately show ?case using Suc(2) rrStep_fold [of "[0..<Suc m div 2]" m es R "fst ?st" 0]
      by (simp add: rrRoundMatches_def) }
qed simp_all

lemma GenerateRoundRobin_rounds:
  assumes "2 \<le> length es"
  shows "GenerateRoundRobin es
    = concat (map (rrRoundMatches es (rrSize (length es) - 1)) [0..<rrSize (length es) - 1])"
proof -
  let ?n = "length es"
  let ?m = "rrSize ?n - 1"
  have "map int [0..<?n] = map (rrLabel ?n) [0..<?n]" by (simp add: rrLabel_def)
  then have "(if ?n mod 2 = 1 then map int [0..<?n] @ [-1] else map int [0..<?n])
      = map (rrLabel ?n) [0..<rrSize ?n]"
    by (auto simp: rrSize_def rrLabel_def mod_2_eq_odd)
  also have "\<dots> = map (rrLabel ?n) (rrPerm ?m 0)"
  proof -
    have "rrSize ?n = Suc ?m" using assms by (simp add: rrSize_def)
    then show ?thesis unfolding rrPerm_0 by (simp only:)
  qed
  finally have idx: "(if ?n mod 2 = 1 then map int [0..<?n] @ [-1] else map int [0..<?n])
      = map (rrLabel ?n) (rrPerm ?m 0)" .
  have "1 \<le> ?m" using assms by (simp add: rrSize_def)
  from rrRound_fold(2) [OF this, of es ?m] show ?thesis
    using assms unfolding GenerateRoundRobin_def Let_def idx by (simp add: comp_def)
qed

subsection \<open>Correctness\<close>

definition pairing :: "dmatch \<Rightarrow> uuid option set" where
  "pairing m = {SlotParticipant (Slot1 m), SlotParticipant (Slot2 m)}"

lemma odd_rrSize: "2 \<le> n \<Longrightarrow> odd (rrSize n - 1) \<and> 1 \<le> rrSize n - 1"
  by (auto simp: rrSize_def mod_2_eq_odd)

lemma rrOk_iff:
  assumes "i \<in> {..<Suc m div 2}" and "Suc m = rrSize n"
  shows "rrOk n m (r, i) \<longleftrightarrow> rrPair m (r, i) \<subseteq> {..<n}"
  by (simp add: rrOk_def rrPair_def)

text \<open>The pairs of entry numbers the generated matches hold, in order.\<close>

definition rrPairs :: "nat \<Rightarrow> nat set list" where
  "rrPairs n = (let m = rrSize n - 1 in
     map (rrPair m) (filter (rrOk n m) (List.product [0..<m] [0..<Suc m div 2])))"

lemma rrPairs_all:
  assumes "2 \<le> n"
  shows "distinct (rrPairs n) \<and> set (rrPairs n) = {S. S \<subseteq> {..<n} \<and> card S = 2}"
proof
  obtain m where m: "rrSize n = Suc m" "odd m"
    using odd_rrSize [OF assms] by (cases "rrSize n") auto
  have n: "{..<n} \<subseteq> {..m}" using m(1) by (auto simp: rrSize_def)
  let ?D = "{..<m} \<times> {..<Suc m div 2}"
  have D: "set (List.product [0..<m] [0..<Suc m div 2]) = ?D" by auto
  have eq: "rrPairs n = map (rrPair m) (filter (rrOk n m) (List.product [0..<m] [0..<Suc m div 2]))"
    by (simp add: rrPairs_def m(1))
  have "inj_on (rrPair m) (set (filter (rrOk n m) (List.product [0..<m] [0..<Suc m div 2])))"
    unfolding set_filter D by (rule inj_on_subset [OF inj_rrPair [OF m(2)]]) blast
  then show "distinct (rrPairs n)"
    unfolding eq distinct_map by (intro conjI distinct_filter distinct_product) auto
  have "rrOk n m x \<longleftrightarrow> rrPair m x \<subseteq> {..<n}" if "x \<in> ?D" for x
    using that m(1) by (cases x) (simp add: rrOk_iff)
  then have "set (rrPairs n) = {S \<in> rrPair m ` ?D. S \<subseteq> {..<n}}"
    unfolding eq set_map set_filter D by blast
  also have "\<dots> = {S. S \<subseteq> {..<n} \<and> card S = 2}"
    unfolding rrPair_image [OF m(2)] using n by blast
  finally show "set (rrPairs n) = {S. S \<subseteq> {..<n} \<and> card S = 2}" .
qed

lemma pairing_rrMatch:
  "pairing (rrMatch es m k ri) = (\<lambda>p. Some (ParticipantID (es ! p))) ` rrPair m ri"
  by (cases ri) (simp add: pairing_def rrMatch_def slotFor_def rrPair_def)

lemma map_snd_enumerate: "map (\<lambda>x. f (snd x)) (enumerate n xs) = map f xs"
  by (induction xs arbitrary: n) auto

lemma pairing_rounds:
  "map pairing (rrRoundMatches es m r)
   = map (\<lambda>ri. (\<lambda>p. Some (ParticipantID (es ! p))) ` rrPair m ri)
       (filter (rrOk (length es) m) (map (Pair r) [0..<Suc m div 2]))"
  by (simp add: rrRoundMatches_def pairing_rrMatch comp_def case_prod_unfold
      map_snd_enumerate [where f = "\<lambda>ri. (\<lambda>p. Some (ParticipantID (es ! p))) ` rrPair m ri"])

lemma pairing_GenerateRoundRobin:
  assumes "2 \<le> length es"
  shows "map pairing (GenerateRoundRobin es)
     = map ((`) (\<lambda>p. Some (ParticipantID (es ! p)))) (rrPairs (length es))"
proof -
  have "List.product xs ys = concat (map (\<lambda>x. map (Pair x) ys) xs)" for xs ys :: "nat list"
    by (induction xs) auto
  then show ?thesis
    unfolding GenerateRoundRobin_rounds [OF assms] rrPairs_def Let_def
    by (simp add: map_concat filter_concat comp_def pairing_rounds)
qed

text \<open>C4. \<open>GenerateRoundRobin\<close> lets every pair of entries play exactly once: with different
  participants no two matches hold the same pair, the pairs played are all the two-element
  sets of participants (so nobody plays himself, and there are n * (n - 1) / 2 matches).\<close>

theorem round_robin_every_pair_once:
  assumes "distinct (map ParticipantID es)"
  shows "distinct (map pairing (GenerateRoundRobin es))
    \<and> set (map pairing (GenerateRoundRobin es))
      = {S. S \<subseteq> Some ` set (map ParticipantID es) \<and> card S = 2}
    \<and> length (GenerateRoundRobin es) = length es choose 2"
proof (cases "2 \<le> length es")
  case True
  let ?n = "length es" and ?f = "\<lambda>p. Some (ParticipantID (es ! p))"
  have inj: "inj_on ?f {..<?n}"
    using assms by (auto simp: inj_on_def nth_eq_iff_index_eq distinct_conv_nth)
  have img: "?f ` {..<?n} = Some ` set (map ParticipantID es)"
  proof -
    have "(!) es ` {..<?n} = set es" by (auto simp: set_conv_nth)
    then show ?thesis by (metis image_image set_map)
  qed
  let ?P = "{S. S \<subseteq> {..<?n} \<and> card S = 2}"
  have "inj_on ((`) ?f) ?P"
    using inj by (auto simp: inj_on_def inj_on_image_eq_iff)
  then have d: "distinct (map pairing (GenerateRoundRobin es))"
    using rrPairs_all [OF True] by (simp add: pairing_GenerateRoundRobin [OF True] distinct_map)
  have s: "set (map pairing (GenerateRoundRobin es)) = (`) ?f ` ?P"
    using rrPairs_all [OF True] by (simp add: pairing_GenerateRoundRobin [OF True])
  also have "\<dots> = {S. S \<subseteq> ?f ` {..<?n} \<and> card S = 2}"
  proof (intro set_eqI iffI)
    fix S assume "S \<in> {S. S \<subseteq> ?f ` {..<?n} \<and> card S = 2}"
    then obtain T where "T \<subseteq> {..<?n}" "S = ?f ` T" "card S = 2" by (auto simp: subset_image_iff)
    moreover from this have "card T = 2" using card_image [OF inj_on_subset [OF inj]] by metis
    ultimately show "S \<in> (`) ?f ` ?P" by blast
  qed (auto simp: card_image inj_on_subset [OF inj])
  finally have s: "set (map pairing (GenerateRoundRobin es)) = {S. S \<subseteq> ?f ` {..<?n} \<and> card S = 2}" .
  have "length (GenerateRoundRobin es) = card (set (map pairing (GenerateRoundRobin es)))"
    using distinct_card [OF d] by simp
  also have "\<dots> = ?n choose 2"
    using s n_subsets [of "?f ` {..<?n}" 2] card_image [OF inj] by simp
  finally show ?thesis using d s img by simp
next
  case False
  then consider "es = []" | e where "es = [e]" by (cases es; cases "tl es") auto
  then show ?thesis
    by cases (auto simp: GenerateRoundRobin_def card_2_iff)
qed

theorem round_robin_every_pair_once_witness:
  "length (GenerateRoundRobin (sample_entries 3)) = 3
   \<and> distinct (map pairing (GenerateRoundRobin (sample_entries 3)))"
proof -
  have e: "sample_entries 3 = [\<lparr>ParticipantID = 101, Seed = 1\<rparr>, \<lparr>ParticipantID = 102, Seed = 2\<rparr>,
      \<lparr>ParticipantID = 103, Seed = 3\<rparr>]" by (simp add: sample_entries_def upt_rec)
  have "distinct (map ParticipantID (sample_entries 3))" by (simp add: e)
  from round_robin_every_pair_once [OF this] show ?thesis by (simp add: e choose_two)
qed

lemma Round_rrMatch [simp]: "Round (rrMatch es m k ri) = Suc (fst ri)"
  "MatchInRound (rrMatch es m k ri) = k" "NextMatchIdx (rrMatch es m k ri) = -1"
  "NextSlot (rrMatch es m k ri) = 0" "GroupIndex (rrMatch es m k ri) = -1"
  by (auto simp: rrMatch_def split: prod.splits)

lemma rrRoundMatches_round: "x \<in> set (rrRoundMatches es m r) \<Longrightarrow> Round x - 1 = r \<and> 0 < Round x
    \<and> NextMatchIdx x = -1 \<and> NextSlot x = 0 \<and> GroupIndex x = -1"
  by (auto simp: rrRoundMatches_def enumerate_eq_zip dest!: set_zip_rightD)

lemma filter_round:
  "filter (\<lambda>x. Round x = Suc r) (concat (map (rrRoundMatches es m) [0..<m]))
   = (if r < m then rrRoundMatches es m r else [])"
proof -
  have "filter (\<lambda>x. Round x = Suc r) (concat (map (rrRoundMatches es m) [0..<m]))
      = filter (\<lambda>x. Round x - 1 = r) (concat (map (rrRoundMatches es m) [0..<m]))"
    by (rule filter_cong) (auto dest!: rrRoundMatches_round)
  also have "\<dots> = (if r < m then rrRoundMatches es m r else [])"
    by (subst filter_concat_key) (auto dest: rrRoundMatches_round)
  finally show ?thesis .
qed

definition opponents :: "dmatch \<Rightarrow> uuid option list" where
  "opponents m = [SlotParticipant (Slot1 m), SlotParticipant (Slot2 m)]"

lemma round_positions_distinct:
  assumes "odd m"
  shows "distinct (concat (map (\<lambda>i. [rrPerm m r ! i, rrPerm m r ! (m - i)])
           (filter P [0..<Suc m div 2])))"
proof -
  have P: "distinct (rrPerm m r)" using assms set_rrPerm [of m r] by (cases m) auto
  have "inj_on (\<lambda>i. rrPerm m r ! i) {..<Suc m div 2}"
    "inj_on (\<lambda>i. rrPerm m r ! (m - i)) {..<Suc m div 2}"
    using P by (auto intro!: inj_onI simp: nth_eq_iff_index_eq)
  moreover have "rrPerm m r ! i \<noteq> rrPerm m r ! (m - j)" if "i < Suc m div 2" "j < Suc m div 2" for i j
    using that P assms by (auto simp: nth_eq_iff_index_eq elim!: oddE)
  ultimately show ?thesis
    unfolding distinct_concat_map_pair distinct_map
    by (auto intro: inj_on_subset)
qed

lemma opponents_round:
  "concat (map opponents (rrRoundMatches es m r))
   = map (\<lambda>p. Some (ParticipantID (es ! p))) (concat (map (\<lambda>i. [rrPerm m r ! i, rrPerm m r ! (m - i)])
       (filter (\<lambda>i. rrOk (length es) m (r, i)) [0..<Suc m div 2])))"
proof -
  have o: "opponents (rrMatch es m k ri) = (case ri of (r, i) \<Rightarrow>
      map (\<lambda>p. Some (ParticipantID (es ! p))) [rrPerm m r ! i, rrPerm m r ! (m - i)])" for k ri
    by (cases ri) (simp add: opponents_def rrMatch_def slotFor_def)
  show ?thesis
    unfolding rrRoundMatches_def
    by (simp add: o comp_def case_prod_unfold filter_map map_concat
        map_snd_enumerate [where f = "\<lambda>ri. [Some (ParticipantID (es ! (rrPerm m (fst ri) ! snd ri))),
          Some (ParticipantID (es ! (rrPerm m (fst ri) ! (m - snd ri))))]"])
qed

text \<open>The rounds of \<open>GenerateRoundRobin\<close>: there are n - 1 of them for an even number of
  entries and n for an odd one; within a round nobody plays twice and the matches are numbered
  0, 1, 2, ... without gaps; no match feeds another one.\<close>

theorem round_robin_rounds:
  assumes "distinct (map ParticipantID es)" and "2 \<le> length es"
  defines "ms \<equiv> GenerateRoundRobin es"
    and "rounds \<equiv> (if even (length es) then length es - 1 else length es)"
  shows "(\<forall>m \<in> set ms. Round m \<in> {1..rounds} \<and> NextMatchIdx m = -1 \<and> GroupIndex m = -1)
    \<and> (\<forall>r. distinct (concat (map opponents (filter (\<lambda>m. Round m = r) ms))))
    \<and> (\<forall>r. map MatchInRound (filter (\<lambda>m. Round m = r) ms)
          = [0..<length (filter (\<lambda>m. Round m = r) ms)])"
proof -
  let ?n = "length es" and ?m = "rrSize (length es) - 1"
  have ms: "ms = concat (map (rrRoundMatches es ?m) [0..<?m])"
    unfolding ms_def by (rule GenerateRoundRobin_rounds [OF assms(2)])
  have o: "odd ?m" and r: "rounds = ?m"
    using odd_rrSize [OF assms(2)] by (auto simp: rounds_def rrSize_def mod_2_eq_odd)
  have A: "\<forall>m \<in> set ms. Round m \<in> {1..rounds} \<and> NextMatchIdx m = -1 \<and> GroupIndex m = -1"
    unfolding ms r by (auto dest!: rrRoundMatches_round)
  have pos: "filter (\<lambda>m. Round m = 0) ms = []" using A by (auto simp: filter_empty_conv)
  have round: "filter (\<lambda>m. Round m = k) ms
      = (if 0 < k \<and> k - 1 < ?m then rrRoundMatches es ?m (k - 1) else [])" for k
    using pos filter_round [of "k - 1" es ?m] unfolding ms by (cases k) auto
  have inj: "inj_on (\<lambda>p. Some (ParticipantID (es ! p))) {..<?n}"
    using assms(1) by (auto simp: inj_on_def nth_eq_iff_index_eq distinct_conv_nth)
  have "distinct (concat (map opponents (rrRoundMatches es ?m k)))" for k
  proof -
    let ?L = "concat (map (\<lambda>i. [rrPerm ?m k ! i, rrPerm ?m k ! (?m - i)])
       (filter (\<lambda>i. rrOk (length es) ?m (k, i)) [0..<Suc ?m div 2]))"
    have "set ?L \<subseteq> {..<?n}" by (auto simp: rrOk_def)
    then show ?thesis unfolding opponents_round distinct_map
      using round_positions_distinct [OF o] inj_on_subset [OF inj] by blast
  qed
  moreover have "map MatchInRound (rrRoundMatches es ?m k) = [0..<length (rrRoundMatches es ?m k)]" for k
    by (simp add: rrRoundMatches_def comp_def case_prod_unfold enumerate_map_upt map_fst_zip enumerate_eq_zip)
  ultimately show ?thesis using A unfolding round by simp
qed

theorem round_robin_rounds_witness:
  "Round ` set (GenerateRoundRobin (sample_entries 4)) \<subseteq> {1..3}"
proof -
  have e: "sample_entries 4 = [\<lparr>ParticipantID = 101, Seed = 1\<rparr>, \<lparr>ParticipantID = 102, Seed = 2\<rparr>,
      \<lparr>ParticipantID = 103, Seed = 3\<rparr>, \<lparr>ParticipantID = 104, Seed = 4\<rparr>]"
    by (simp add: sample_entries_def upt_rec)
  have "distinct (map ParticipantID (sample_entries 4))" "2 \<le> length (sample_entries 4)"
    by (simp_all add: e)
  note r = round_robin_rounds [OF this]
  have "length (sample_entries 4) = 4" by (simp add: e)
  with r show ?thesis by (simp add: image_subset_iff)
qed

end
