(* ===== verification/Knockout.thy ===== *)
theory Knockout
  imports RoundRobin
begin

section \<open>Manual pairings and group-knockout draws\<close>

text \<open>
  internal/draw/manual.go (\<open>GenerateFromPairs\<close>), group_knockout.go and the pure part of
  manual_setup.go (\<open>groupKnockoutFromAssignment\<close>, \<open>advancerSlots\<close>). The two bracket builders here
  meet the interface \<open>bracket_builder\<close> of theory Bracket.
\<close>

subsection \<open>Brackets from explicit pairs (manual.go)\<close>

record pair =
  PairA :: "uuid option"
  PairB :: "uuid option"

definition pairSlot :: "uuid option \<Rightarrow> slot" where
  "pairSlot i = (case i of None \<Rightarrow> slot_zero\<lparr>IsBye := True\<rparr>
     | Some v \<Rightarrow> slot_zero\<lparr>SlotParticipant := Some v\<rparr>)"

definition cleanPairs :: "pair list \<Rightarrow> pair list" where
  "cleanPairs pairs = filter (\<lambda>p. \<not> (PairA p = None \<and> PairB p = None)) pairs"

definition GenerateFromPairs :: "pair list \<Rightarrow> dmatch list" where
  "GenerateFromPairs pairs =
     (let cleaned = cleanPairs pairs in
      if length cleaned = 0 then []
      else
        let firstRoundCount = nextPowerOfTwo (length cleaned);
            matches = map (\<lambda>i.
              let p = (if i < length cleaned then cleaned ! i else \<lparr>PairA = None, PairB = None\<rparr>)
              in match_zero\<lparr>Round := 1, MatchInRound := i,
                   Slot1 := pairSlot (PairA p), Slot2 := pairSlot (PairB p)\<rparr>) [0..<firstRoundCount]
        in wireFedRounds matches firstRoundCount)"

subsection \<open>Group-knockout generation (group_knockout.go)\<close>

record group_knockout_config =
  Groups :: int
  Advance :: int

definition seedKey :: "entry \<Rightarrow> int" where
  "seedKey e = (if Seed e = 0 then 2 ^ 30 else Seed e)"

text \<open>The inner loop of the insertion sort, moving element \<open>j\<close> down.\<close>

fun sinkSeed :: "entry list \<Rightarrow> nat \<Rightarrow> entry list" where
  "sinkSeed es 0 = es"
| "sinkSeed es (Suc j) =
     (if seedKey (es ! Suc j) < seedKey (es ! j)
      then sinkSeed (es[Suc j := es ! j, j := es ! Suc j]) j else es)"

definition sortBySeed :: "entry list \<Rightarrow> entry list" where
  "sortBySeed es = fold (\<lambda>i es. sinkSeed es i) [1..<length es] es"

definition labelSlot :: "string \<Rightarrow> slot" where
  "labelSlot label = (if label = [] then slot_zero\<lparr>IsBye := True\<rparr>
     else slot_zero\<lparr>SourceLabel := label\<rparr>)"

definition posName :: "int \<Rightarrow> string" where
  "posName p = (if p = 0 then ''Winner'' else if p = 1 then ''Runner-up''
     else ''#'' @ dec (p + 1))"

definition letters :: "int \<Rightarrow> string" where
  "letters i = utf8 (65 + i)"

definition knockoutSeedLabels :: "int \<Rightarrow> int \<Rightarrow> string list" where
  "knockoutSeedLabels numGroups advance =
     concat (map (\<lambda>g. [posName 0 @ '' Group '' @ letters (int g)] @
        (if advance > 1 then
           [posName 1 @ '' Group '' @ letters ((int g + 1) mod numGroups)] else []))
       [0..<nat numGroups])"

definition padByes :: "slot list \<Rightarrow> slot list" where
  "padByes entries =
     while (\<lambda>es. length es < nextPowerOfTwo (length entries)) (\<lambda>es. es @ [bye_slot]) entries"

definition buildKnockoutFromSlots :: "slot list \<Rightarrow> dmatch list" where
  "buildKnockoutFromSlots entries0 =
     (let sz = nextPowerOfTwo (length entries0);
          entries = padByes entries0;
          rounds = log2 sz;
          firstRoundCount = sz div 2;
          matches = map (\<lambda>i. match_zero\<lparr>Round := 1, MatchInRound := i,
             Slot1 := entries ! (i * 2), Slot2 := entries ! (i * 2 + 1)\<rparr>) [0..<firstRoundCount];
          matches = feedRounds matches firstRoundCount rounds
      in if length matches > 0
         then matches[length matches - 1 := (last matches)\<lparr>NextMatchIdx := -1\<rparr>] else matches)"

definition buildKnockoutFromLabels :: "string list \<Rightarrow> dmatch list" where
  "buildKnockoutFromLabels labels = buildKnockoutFromSlots (map labelSlot labels)"

text \<open>The append of the knockout after the group matches: \<open>koStart\<close> is added to the feeds.\<close>

definition offsetKnockout :: "nat \<Rightarrow> dmatch list \<Rightarrow> dmatch list" where
  "offsetKnockout koStart ko = map (\<lambda>m.
     (if NextMatchIdx m \<ge> 0 then m\<lparr>NextMatchIdx := NextMatchIdx m + int koStart\<rparr> else m)
       \<lparr>GroupIndex := -1\<rparr>) ko"

definition snakeGroups :: "nat \<Rightarrow> entry list \<Rightarrow> entry list list" where
  "snakeGroups n order =
     fold (\<lambda>i groups.
        let round = i div n;
            pos = i mod n;
            pos = (if round mod 2 = 1 then n - 1 - pos else pos)
        in groups[pos := groups ! pos @ [order ! i]])
       [0..<length order] (replicate n [])"

text \<open>The matches of group \<open>gi\<close> (the same loop in both group-knockout builders).\<close>

definition groupMatches :: "nat \<Rightarrow> entry list \<Rightarrow> dmatch list" where
  "groupMatches gi g = map (\<lambda>m. m\<lparr>GroupIndex := int gi, NextMatchIdx := -1\<rparr>) (GenerateRoundRobin g)"

definition GenerateGroupKnockout :: "entry list \<Rightarrow> group_knockout_config \<Rightarrow> dmatch list" where
  "GenerateGroupKnockout entries cfg =
     (let n = int (length entries) in
      if n < 4 \<or> Groups cfg < 2 \<or> Advance cfg < 1 then []
      else
        let totalAdvance = Groups cfg * Advance cfg in
        if totalAdvance < 2 \<or> totalAdvance > n then []
        else
          let order = sortBySeed entries;
              groups = snakeGroups (nat (Groups cfg)) order;
              matches = concat (map (\<lambda>gi. groupMatches gi (groups ! gi)) [0..<length groups]);
              advancers = knockoutSeedLabels (Groups cfg) (Advance cfg);
              koStart = length matches;
              koMatches = buildKnockoutFromLabels advancers
          in matches @ offsetKnockout koStart koMatches)"

subsection \<open>Group-knockout from a manual assignment (manual_setup.go)\<close>

record group_spec =
  SpecName :: string
  TeamIDs :: "uuid list"
  AdvanceCount :: int

definition placement :: "group_spec list \<Rightarrow> nat \<Rightarrow> int \<Rightarrow> slot" where
  "placement specs g rank = slot_zero\<lparr>
     SourceLabel := posName (rank - 1) @ '' '' @ SpecName (specs ! g),
     SourceGroupIdx := int g, SourceRank := rank\<rparr>"

definition advancerSlots :: "group_spec list \<Rightarrow> slot list" where
  "advancerSlots specs =
     (let n = length specs in
      concat (map (\<lambda>g.
        [placement specs g 1]
        @ (if AdvanceCount (specs ! g) > 1 then
             let other = (g + 1) mod n in [placement specs other 2] else [])
        @ map (\<lambda>p. placement specs g (p + 1)) [2..AdvanceCount (specs ! g) - 1]) [0..<n]))"

definition groupKnockoutFromAssignment :: "group_spec list \<Rightarrow> dmatch list" where
  "groupKnockoutFromAssignment specs =
     (let matches = concat (map (\<lambda>gi.
            groupMatches gi (map (\<lambda>i. \<lparr>ParticipantID = i, Seed = 0\<rparr>) (TeamIDs (specs ! gi))))
            [0..<length specs]);
          koStart = length matches;
          ko = buildKnockoutFromSlots (advancerSlots specs)
      in matches @ offsetKnockout koStart ko)"

subsection \<open>The pair builder meets the interface\<close>

definition fp_leaves :: "pair list \<Rightarrow> (slot \<times> slot) list" where
  "fp_leaves pairs = map (\<lambda>p. (pairSlot (PairA p), pairSlot (PairB p))) (cleanPairs pairs)
     @ replicate (nextPowerOfTwo (length (cleanPairs pairs)) - length (cleanPairs pairs)) (bye_slot, bye_slot)"

lemma length_fp_leaves: "length (fp_leaves pairs) = nextPowerOfTwo (length (cleanPairs pairs))"
  using nextPowerOfTwo_spec [of "length (cleanPairs pairs)"] by (auto simp: fp_leaves_def)

lemma GenerateFromPairs_eq:
  assumes "cleanPairs pairs \<noteq> []"
  obtains k ms0 where "length (fp_leaves pairs) = 2 ^ k"
    and "GenerateFromPairs pairs = wireFedRounds ms0 (2 ^ k)"
    and "length ms0 = 2 ^ k"
    and "\<And>j. j < 2 ^ k \<Longrightarrow> Round (ms0 ! j) = 1 \<and> MatchInRound (ms0 ! j) = j"
    and "\<And>j. j < 2 ^ k \<Longrightarrow> (Slot1 (ms0 ! j), Slot2 (ms0 ! j)) = fp_leaves pairs ! j"
proof -
  let ?c = "cleanPairs pairs"
  obtain k where k: "nextPowerOfTwo (length ?c) = 2 ^ k" using nextPowerOfTwo_spec by blast
  define ms0 where "ms0 = map (\<lambda>i.
      let p = (if i < length ?c then ?c ! i else \<lparr>PairA = None, PairB = None\<rparr>)
      in match_zero\<lparr>Round := 1, MatchInRound := i,
           Slot1 := pairSlot (PairA p), Slot2 := pairSlot (PairB p)\<rparr>) [0..<(2::nat) ^ k]"
  show ?thesis
  proof (rule that [of k ms0])
    show "length (fp_leaves pairs) = 2 ^ k" using k by (simp add: length_fp_leaves)
    show "GenerateFromPairs pairs = wireFedRounds ms0 (2 ^ k)"
      using assms k by (simp add: GenerateFromPairs_def Let_def ms0_def)
    fix j :: nat assume j: "j < 2 ^ k"
    show "Round (ms0 ! j) = 1 \<and> MatchInRound (ms0 ! j) = j"
      using j by (simp add: ms0_def Let_def)
    show "(Slot1 (ms0 ! j), Slot2 (ms0 ! j)) = fp_leaves pairs ! j"
      using j k by (auto simp: ms0_def Let_def fp_leaves_def nth_append pairSlot_def bye_slot_def)
  qed (simp add: ms0_def)
qed

interpretation from_pairs: bracket_builder GenerateFromPairs "\<lambda>pairs. cleanPairs pairs \<noteq> []" fp_leaves
proof unfold_locales
  fix pairs :: "pair list" and j
  assume ne: "cleanPairs pairs \<noteq> []"
  show "fp_leaves pairs \<noteq> []" using ne by (auto simp: fp_leaves_def)
  show "bracket_wired (length (fp_leaves pairs)) (GenerateFromPairs pairs)"
    by (rule GenerateFromPairs_eq [OF ne]) (metis wireFedRounds_wired(1))
  assume "j < length (fp_leaves pairs)"
  then show "(Slot1 (GenerateFromPairs pairs ! j), Slot2 (GenerateFromPairs pairs ! j))
      = fp_leaves pairs ! j"
    by (rule_tac GenerateFromPairs_eq [OF ne]) (metis wireFedRounds_wired(2))
qed

text \<open>\<open>GenerateFromPairs\<close> with at least one non-empty pair builds a sound bracket whose round 1
  is exactly the given pairs in their order (empty pairs dropped), padded with all-bye matches
  to a power of two: with \<open>p\<close> pairs there are \<open>2 * nextPowerOfTwo p - 1\<close> matches.\<close>

theorem from_pairs_bracket:
  assumes "cleanPairs pairs \<noteq> []"
  shows "length (GenerateFromPairs pairs) = 2 * nextPowerOfTwo (length (cleanPairs pairs)) - 1
    \<and> progression_ok (GenerateFromPairs pairs)
    \<and> map (\<lambda>m. (Slot1 m, Slot2 m)) (filter (\<lambda>m. Round m = 1) (GenerateFromPairs pairs))
      = map (\<lambda>p. (pairSlot (PairA p), pairSlot (PairB p))) (cleanPairs pairs)
        @ replicate (nextPowerOfTwo (length (cleanPairs pairs)) - length (cleanPairs pairs))
            (bye_slot, bye_slot)"
  using from_pairs.match_count [OF assms] from_pairs.progression [OF assms]
    from_pairs.first_round_slots [OF assms]
  by (simp add: length_fp_leaves) (simp add: fp_leaves_def)

theorem from_pairs_bracket_witness:
  "length (GenerateFromPairs [\<lparr>PairA = Some 1, PairB = Some 2\<rparr>, \<lparr>PairA = None, PairB = None\<rparr>,
      \<lparr>PairA = Some 3, PairB = Some 4\<rparr>]) = 3
   \<and> progression_ok (GenerateFromPairs [\<lparr>PairA = Some 1, PairB = Some 2\<rparr>, \<lparr>PairA = None, PairB = None\<rparr>,
      \<lparr>PairA = Some 3, PairB = Some 4\<rparr>])"
  (is "length (GenerateFromPairs ?ps) = 3 \<and> _")
proof -
  have c: "cleanPairs ?ps = [\<lparr>PairA = Some 1, PairB = Some 2\<rparr>, \<lparr>PairA = Some 3, PairB = Some 4\<rparr>]"
    by (simp add: cleanPairs_def)
  have n: "nextPowerOfTwo (Suc (Suc 0)) = 2" by (simp add: nextPowerOfTwo_def while_unfold)
  from c have "cleanPairs ?ps \<noteq> []" by simp
  from from_pairs_bracket [OF this] show ?thesis unfolding c using n by simp
qed

subsection \<open>The knockout builder meets the interface\<close>

lemma padByes_eq:
  "padByes es = es @ replicate (nextPowerOfTwo (length es) - length es) bye_slot"
  unfolding padByes_def
proof (rule while_rule [where P = "\<lambda>ys. \<exists>i \<le> nextPowerOfTwo (length es) - length es.
      ys = es @ replicate i bye_slot" and r = "measure (\<lambda>ys. nextPowerOfTwo (length es) - length ys)"])
  fix ys assume "\<exists>i \<le> nextPowerOfTwo (length es) - length es. ys = es @ replicate i bye_slot"
    and less: "length ys < nextPowerOfTwo (length es)"
  then obtain i where i: "i \<le> nextPowerOfTwo (length es) - length es" "ys = es @ replicate i bye_slot"
    by blast
  with less show "\<exists>i \<le> nextPowerOfTwo (length es) - length es. ys @ [bye_slot] = es @ replicate i bye_slot"
    by (intro exI [of _ "Suc i"]) (auto simp: replicate_append_same)
  show "(ys @ [bye_slot], ys) \<in> measure (\<lambda>ys. nextPowerOfTwo (length es) - length ys)"
    using less by simp
qed auto

lemma length_padByes: "length (padByes es) = nextPowerOfTwo (length es)"
  using nextPowerOfTwo_spec [of "length es"] by (auto simp: padByes_eq)

definition ko_leaves :: "slot list \<Rightarrow> (slot \<times> slot) list" where
  "ko_leaves es = map (\<lambda>i. (padByes es ! (i * 2), padByes es ! (i * 2 + 1)))
     [0..<nextPowerOfTwo (length es) div 2]"

lemma ko_wired:
  assumes "2 \<le> length es"
  shows "ko_leaves es \<noteq> []"
    and "bracket_wired (length (ko_leaves es)) (buildKnockoutFromSlots es)"
    and "j < length (ko_leaves es) \<Longrightarrow>
      (Slot1 (buildKnockoutFromSlots es ! j), Slot2 (buildKnockoutFromSlots es ! j)) = ko_leaves es ! j"
proof -
  obtain k where k: "nextPowerOfTwo (length es) = 2 ^ Suc k"
    using nextPowerOfTwo_ge2 [OF assms] by metis
  have lk: "length (ko_leaves es) = 2 ^ k" by (simp add: ko_leaves_def k)
  then show "ko_leaves es \<noteq> []" by auto
  define ms0 where "ms0 = map (\<lambda>i. match_zero\<lparr>Round := 1, MatchInRound := i,
     Slot1 := padByes es ! (i * 2), Slot2 := padByes es ! (i * 2 + 1)\<rparr>) [0..<(2::nat) ^ k]"
  define ms where "ms = feedRounds ms0 (2 ^ k) (k + 1)"
  define W where "W = ms[length ms - 1 := (last ms)\<lparr>NextMatchIdx := -1\<rparr>]"
  have len0: "length ms0 = 2 ^ k" by (simp add: ms0_def)
  have one: "Round (ms0 ! j) = 1 \<and> MatchInRound (ms0 ! j) = j" if "j < 2 ^ k" for j
    using that by (simp add: ms0_def)
  have "length ms = 2 * 2 ^ k - 1"
    using feedRounds_inv [OF len0 one] by (simp add: feed_inv_def ms_def)
  moreover have "1 \<le> (2::nat) ^ k" by simp
  ultimately have ne: "ms \<noteq> []" by fastforce
  have log: "log2 (2 ^ Suc k) = k + 1" using log2_pow [of "Suc k"] by simp
  have b: "buildKnockoutFromSlots es = W"
    unfolding buildKnockoutFromSlots_def Let_def k log W_def using ne by (simp add: ms_def ms0_def)
  have last: "last ms = ms ! (length ms - 1)" by (rule last_conv_nth [OF ne])
  have keep: "Round (W ! j) = Round (ms ! j) \<and> MatchInRound (W ! j) = MatchInRound (ms ! j)
      \<and> Slot1 (W ! j) = Slot1 (ms ! j) \<and> Slot2 (W ! j) = Slot2 (ms ! j)" if "j < length ms" for j
    using that unfolding W_def last by (simp add: nth_list_update)
  have feeds: "NextMatchIdx (W ! j) = NextMatchIdx (ms ! j) \<and> NextSlot (W ! j) = NextSlot (ms ! j)"
    if "j < length ms - 1" for j
    using that unfolding W_def by (simp add: nth_list_update)
  have fin: "NextMatchIdx (W ! (length ms - 1)) = -1" using ne unfolding W_def by simp
  have lw: "length W = length ms" by (simp add: W_def)
  show "bracket_wired (length (ko_leaves es)) (buildKnockoutFromSlots es)"
    unfolding lk b by (rule feedRounds_wired(2) [OF len0 one ms_def lw keep feeds fin])
  show "(Slot1 (buildKnockoutFromSlots es ! j), Slot2 (buildKnockoutFromSlots es ! j)) = ko_leaves es ! j"
    if "j < length (ko_leaves es)"
  proof -
    have j: "j < 2 ^ k" using that lk by simp
    show ?thesis using feedRounds_wired(3) [OF len0 one ms_def lw keep feeds fin j] j
      unfolding b by (simp add: ko_leaves_def k ms0_def)
  qed
qed

interpretation knockout: bracket_builder buildKnockoutFromSlots "\<lambda>es. 2 \<le> length es" ko_leaves
  by unfold_locales (use ko_wired in blast)+

subsection \<open>The seed sort is a stable sort\<close>

lemma sinkSeed_insert:
  assumes "sorted (map seedKey xs)"
  shows "sinkSeed (xs @ e # zs) (length xs)
    = takeWhile (\<lambda>x. seedKey x \<le> seedKey e) xs @ e # dropWhile (\<lambda>x. seedKey x \<le> seedKey e) xs @ zs"
  using assms
proof (induction xs arbitrary: zs rule: rev_induct)
  case (snoc x xs)
  have nth: "((xs @ [x]) @ e # zs) ! Suc (length xs) = e" "((xs @ [x]) @ e # zs) ! length xs = x"
    by (simp_all add: nth_append)
  have swap: "((xs @ [x]) @ e # zs)[Suc (length xs) := x, length xs := e] = xs @ e # x # zs"
    by (simp add: list_update_append)
  show ?case
  proof (cases "seedKey e < seedKey x")
    case True
    have "sinkSeed ((xs @ [x]) @ e # zs) (length (xs @ [x])) = sinkSeed (xs @ e # x # zs) (length xs)"
      unfolding length_append using True by (simp only: nth swap sinkSeed.simps list.size add_Suc_right add_0_right if_True)
    also have "\<dots> = takeWhile (\<lambda>y. seedKey y \<le> seedKey e) xs @ e
        # dropWhile (\<lambda>y. seedKey y \<le> seedKey e) xs @ x # zs"
      using snoc by (simp add: sorted_append)
    finally show ?thesis using True
      by (cases "\<forall>y \<in> set xs. seedKey y \<le> seedKey e")
         (auto simp: takeWhile_append dropWhile_append)
  next
    case False
    then have all: "\<forall>y \<in> set (xs @ [x]). seedKey y \<le> seedKey e"
      using snoc.prems by (auto simp: sorted_append)
    have "sinkSeed ((xs @ [x]) @ e # zs) (length (xs @ [x])) = (xs @ [x]) @ e # zs"
      unfolding length_append using False
      by (simp only: nth sinkSeed.simps list.size add_Suc_right add_0_right if_False)
    then show ?thesis using all by (simp add: takeWhile_append dropWhile_append)
  qed
qed simp

lemma sorted_insertion:
  fixes f :: "'a \<Rightarrow> 'b::linorder" and e :: 'a
  assumes "sorted (map f xs)"
  defines "ys \<equiv> takeWhile (\<lambda>x. f x \<le> f e) xs @ e # dropWhile (\<lambda>x. f x \<le> f e) xs"
  shows "sorted (map f ys) \<and> mset ys = mset (xs @ [e])
    \<and> filter (\<lambda>x. f x = k) ys = filter (\<lambda>x. f x = k) (xs @ [e])"
proof -
  define A where "A = takeWhile (\<lambda>x. f x \<le> f e) xs"
  define B where "B = dropWhile (\<lambda>x. f x \<le> f e) xs"
  have AB: "xs = A @ B" by (simp add: A_def B_def)
  have ys: "ys = A @ e # B" by (simp add: ys_def A_def B_def)
  have A: "\<forall>x \<in> set A. f x \<le> f e" by (auto simp: A_def dest: set_takeWhileD)
  have sB: "sorted (map f B)" and sA: "sorted (map f A)"
    using assms(1) unfolding AB by (simp_all add: sorted_append)
  have B: "\<forall>x \<in> set B. f e < f x"
  proof (cases B)
    case (Cons b B')
    then have "\<not> f b \<le> f e" using hd_dropWhile [of "\<lambda>x. f x \<le> f e" xs] by (simp add: B_def)
    then show ?thesis using sB Cons by auto
  qed simp
  have "sorted (map f ys)" unfolding ys using A B sA sB by (fastforce simp: sorted_append)
  moreover have "filter (\<lambda>x. f x = k) ys = filter (\<lambda>x. f x = k) (xs @ [e])"
  proof (cases "f e = k")
    case True
    then have "filter (\<lambda>x. f x = k) B = []" using B by (auto simp: filter_empty_conv)
    then show ?thesis by (simp add: ys AB)
  qed (simp add: ys AB)
  ultimately show ?thesis by (simp add: ys AB)
qed

lemma sortBySeed_prefix:
  assumes "i \<le> length es" and "1 \<le> i"
  shows "\<exists>ys. fold (\<lambda>i es. sinkSeed es i) [1..<i] es = ys @ drop i es
    \<and> length ys = i \<and> sorted (map seedKey ys) \<and> mset ys = mset (take i es)
    \<and> (\<forall>k. filter (\<lambda>x. seedKey x = k) ys = filter (\<lambda>x. seedKey x = k) (take i es))"
  using assms
proof (induction i)
  case (Suc i)
  show ?case
  proof (cases i)
    case 0
    then show ?thesis using Suc.prems by (cases es) auto
  next
    case (Suc i')
    with Suc.IH Suc.prems obtain ys where ys: "fold (\<lambda>i es. sinkSeed es i) [1..<i] es = ys @ drop i es"
      "length ys = i" "sorted (map seedKey ys)" "mset ys = mset (take i es)"
      "\<And>k. filter (\<lambda>x. seedKey x = k) ys = filter (\<lambda>x. seedKey x = k) (take i es)" by auto
    have d: "drop i es = es ! i # drop (Suc i) es" using Suc.prems by (simp add: Cons_nth_drop_Suc)
    define zs where "zs = takeWhile (\<lambda>x. seedKey x \<le> seedKey (es ! i)) ys @ es ! i
      # dropWhile (\<lambda>x. seedKey x \<le> seedKey (es ! i)) ys"
    have "fold (\<lambda>i es. sinkSeed es i) [1..<Suc i] es = sinkSeed (ys @ drop i es) i"
      using Suc ys(1) by simp
    also have "\<dots> = zs @ drop (Suc i) es"
      unfolding d zs_def using sinkSeed_insert [OF ys(3), of "es ! i" "drop (Suc i) es"] ys(2) by simp
    finally have f: "fold (\<lambda>i es. sinkSeed es i) [1..<Suc i] es = zs @ drop (Suc i) es" .
    have t: "take (Suc i) es = take i es @ [es ! i]"
      using Suc.prems by (simp add: take_Suc_conv_app_nth)
    have z: "sorted (map seedKey zs)" "mset zs = mset (ys @ [es ! i])"
      "\<And>k. filter (\<lambda>x. seedKey x = k) zs = filter (\<lambda>x. seedKey x = k) (ys @ [es ! i])"
      using sorted_insertion [OF ys(3), of "es ! i"] unfolding zs_def by auto
    have "length zs = Suc i" using z(2) ys(2) by (metis length_append_singleton size_mset)
    then show ?thesis using f z ys(4,5) unfolding t by (intro exI [of _ zs]) simp
  qed
qed simp

text \<open>\<open>sortBySeed\<close> is the stable sort by seed with the unseeded entries last: it returns the
  same list as the library's \<open>sort_key\<close> for the key of the source (a permutation of the input,
  ordered by the key, entries with equal keys in their original order).\<close>

theorem sortBySeed_sort_key: "sortBySeed es = sort_key seedKey es"
proof (cases "es = []")
  case False
  then have "1 \<le> length es" by (simp add: Suc_le_eq)
  from sortBySeed_prefix [OF order_refl this] have
    "mset (sortBySeed es) = mset es" "sorted (map seedKey (sortBySeed es))"
    "\<And>k. filter (\<lambda>x. seedKey x = k) (sortBySeed es) = filter (\<lambda>x. seedKey x = k) es"
    unfolding sortBySeed_def by auto
  then show ?thesis by (intro properties_for_sort_key [symmetric]) (simp_all add: eq_commute)
qed (simp add: sortBySeed_def)

subsection \<open>Snake distribution\<close>

text \<open>Group \<open>g\<close> has received an entry of the pass that deals entry number \<open>t\<close>.\<close>

definition snakeDealt :: "nat \<Rightarrow> nat \<Rightarrow> nat \<Rightarrow> bool" where
  "snakeDealt n t g \<longleftrightarrow> (if even (t div n) then g < t mod n else n - 1 - g < t mod n)"

definition snakeStep :: "nat \<Rightarrow> entry list \<Rightarrow> nat \<Rightarrow> entry list list \<Rightarrow> entry list list" where
  "snakeStep n order i groups =
     (let pos = (if i div n mod 2 = 1 then n - 1 - i mod n else i mod n)
      in groups[pos := groups ! pos @ [order ! i]])"

lemma snakeGroups_fold:
  "snakeGroups n order = fold (snakeStep n order) [0..<length order] (replicate n [])"
  unfolding snakeGroups_def snakeStep_def by (simp add: Let_def)

lemma mirror_dealt:
  assumes "i < (n::nat)" and "g < n"
  shows "n - Suc g < Suc i \<longleftrightarrow> n - Suc g < i \<or> g = n - Suc i"
    and "\<not> n - Suc (n - Suc i) < i"
  using assms by arith+

lemma snake_prefix:
  assumes "0 < n" and "t \<le> length order"
  defines "gs \<equiv> fold (snakeStep n order) [0..<t] (replicate n [])"
  shows "length gs = n \<and> mset (concat gs) = mset (take t order)
    \<and> (\<forall>g < n. length (gs ! g) = t div n + (if snakeDealt n t g then 1 else 0))"
  unfolding gs_def using assms(2)
proof (induction t)
  case 0
  have "concat (replicate n []) = []" by (induction n) auto
  then show ?case by (simp add: snakeDealt_def)
next
  case (Suc t)
  let ?gs = "fold (snakeStep n order) [0..<t] (replicate n [])"
  define pos where "pos = (if t div n mod 2 = 1 then n - 1 - t mod n else t mod n)"
  have o: "t mod n < n" using assms(1) by simp
  have pos: "pos < n" using assms(1) o by (auto simp: pos_def)
  have I: "length ?gs = n" "mset (concat ?gs) = mset (take t order)"
    "\<And>g. g < n \<Longrightarrow> length (?gs ! g) = t div n + (if snakeDealt n t g then 1 else 0)"
    using Suc by auto
  have step: "snakeStep n order t ?gs = ?gs[pos := ?gs ! pos @ [order ! t]]"
    by (simp add: snakeStep_def pos_def Let_def)
  have m: "mset (concat (?gs[pos := ?gs ! pos @ [order ! t]])) = mset (take (Suc t) order)"
    using mset_concat_update [of pos ?gs "order ! t"] pos I(1,2) Suc.prems
    by (simp add: take_Suc_conv_app_nth)
  have len: "length (?gs[pos := ?gs ! pos @ [order ! t]] ! g)
      = Suc t div n + (if snakeDealt n (Suc t) g then 1 else 0)" if g: "g < n" for g
  proof (cases "Suc (t mod n) = n")
    case True
    then have "Suc t div n = Suc (t div n)" "Suc t mod n = 0" by (simp_all add: div_Suc mod_Suc)
    moreover have "snakeDealt n t g \<longleftrightarrow> g \<noteq> pos"
      using True g o by (auto simp: snakeDealt_def pos_def mod_2_eq_odd)
    ultimately show ?thesis using I(3) [OF g] I(1) pos g by (auto simp: nth_list_update snakeDealt_def)
  next
    case False
    then have "Suc t div n = t div n" "Suc t mod n = Suc (t mod n)"
      using o by (simp_all add: div_Suc mod_Suc)
    moreover from this have "snakeDealt n (Suc t) g \<longleftrightarrow> snakeDealt n t g \<or> g = pos"
      "g = pos \<Longrightarrow> \<not> snakeDealt n t g"
      using g o mirror_dealt [OF o g] by (auto simp: snakeDealt_def pos_def mod_2_eq_odd)
    ultimately show ?thesis using I(3) [OF g] I(1) pos g by (auto simp: nth_list_update)
  qed
  show ?case using m len I(1) step by simp
qed

text \<open>The snake distribution deals every entry to exactly one group and keeps the groups
  balanced: their sizes differ by at most one.\<close>

theorem snake_groups_balanced:
  assumes "0 < n"
  shows "length (snakeGroups n order) = n
    \<and> mset (concat (snakeGroups n order)) = mset order
    \<and> (\<forall>g < n. length (snakeGroups n order ! g) \<in> {length order div n, Suc (length order div n)})"
  using snake_prefix [OF assms order_refl, of order] unfolding snakeGroups_fold by auto

theorem snake_groups_balanced_witness:
  "length (snakeGroups 2 (sample_entries 5) ! 0) \<in> {2, 3} \<and> length (snakeGroups 2 (sample_entries 5) ! 1) \<in> {2, 3}"
proof -
  have "length (sample_entries 5) = 5" by (simp add: sample_entries_def)
  then show ?thesis using snake_groups_balanced [of 2 "sample_entries 5"] by simp
qed

subsection \<open>Who advances to the knockout\<close>

text \<open>The place (group, rank) a typed slot stands for.\<close>

definition place :: "slot \<Rightarrow> int \<times> int" where
  "place sl = (SourceGroupIdx sl, SourceRank sl)"

lemma place_placement [simp]: "place (placement specs g r) = (int g, r)"
  by (simp add: place_def placement_def)

lemma places_advancerSlots:
  "set (map place (advancerSlots specs)) =
     {(int g, r) | g r. g < length specs \<and> (r = 1 \<or> 3 \<le> r \<and> r \<le> AdvanceCount (specs ! g))}
   \<union> {(int ((g + 1) mod length specs), 2) | g. g < length specs \<and> 1 < AdvanceCount (specs ! g)}"
proof -
  let ?n = "length specs"
  define chunk where "chunk g = [placement specs g 1]
    @ (if AdvanceCount (specs ! g) > 1 then [placement specs ((g + 1) mod ?n) 2] else [])
    @ map (\<lambda>p. placement specs g (p + 1)) [2..AdvanceCount (specs ! g) - 1]" for g
  have img: "(\<lambda>p. (int g, p + 1)) ` {2..a - 1} = {(int g, r) | r. 3 \<le> r \<and> r \<le> a}" for g and a :: int
  proof (intro set_eqI iffI)
    fix x assume "x \<in> {(int g, r) | r. 3 \<le> r \<and> r \<le> a}"
    then obtain r where "x = (int g, r)" "3 \<le> r" "r \<le> a" by blast
    then show "x \<in> (\<lambda>p. (int g, p + 1)) ` {2..a - 1}" by (intro image_eqI [of _ _ "r - 1"]) auto
  qed auto
  have "place ` set (chunk g) = {(int g, 1)}
      \<union> (if 1 < AdvanceCount (specs ! g) then {(int ((g + 1) mod ?n), 2)} else {})
      \<union> {(int g, r) | r. 3 \<le> r \<and> r \<le> AdvanceCount (specs ! g)}" for g
    unfolding img [symmetric] by (auto simp: chunk_def image_image)
  moreover have "set (map place (advancerSlots specs)) = (\<Union>g < ?n. place ` set (chunk g))"
    unfolding advancerSlots_def chunk_def [symmetric] Let_def by (auto simp: atLeast0LessThan)
  ultimately show ?thesis by (auto split: if_splits)
qed

lemma next_mod_inj: "x < n \<Longrightarrow> y < n \<Longrightarrow> (x + 1) mod n = (y + 1) mod (n::nat) \<Longrightarrow> x = y"
  by (auto simp: mod_Suc split: if_splits)

lemma next_mod_surj:
  assumes "h < n"
  obtains g where "g < (n::nat)" and "(g + 1) mod n = h"
  using assms by (cases h) (auto intro: that [of "n - 1"] that [of "h - 1"])

lemma advancer_runner_up:
  "(int h, 2) \<in> set (map place (advancerSlots specs))
    \<longleftrightarrow> (\<exists>g < length specs. (g + 1) mod length specs = h \<and> 1 < AdvanceCount (specs ! g))"
  unfolding places_advancerSlots by auto

lemma advancer_next:
  assumes "g < length specs"
  shows "(int ((g + 1) mod length specs), 2) \<in> set (map place (advancerSlots specs))
    \<longleftrightarrow> 1 < AdvanceCount (specs ! g)"
  unfolding advancer_runner_up using assms next_mod_inj [OF _ assms] by blast

text \<open>C6. \<open>advancerSlots\<close> lists exactly the places that advance, the ranks 1 to \<open>AdvanceCount\<close> of
  every group, if and only if neighbouring groups agree on whether more than one advances. With
  mixed counts a group's runner-up is entered by the count of the group before it.\<close>

theorem advancerSlots_exact_iff:
  assumes "\<forall>s \<in> set specs. 1 \<le> AdvanceCount s"
  shows "set (map place (advancerSlots specs))
      = {(int g, r) | g r. g < length specs \<and> 1 \<le> r \<and> r \<le> AdvanceCount (specs ! g)}
    \<longleftrightarrow> (\<forall>g < length specs. 1 < AdvanceCount (specs ! g)
          \<longleftrightarrow> 1 < AdvanceCount (specs ! ((g + 1) mod length specs)))"
  (is "?L = ?R \<longleftrightarrow> ?agree")
proof -
  let ?n = "length specs" and ?c = "\<lambda>g. AdvanceCount (specs ! g)"
  have pos: "1 \<le> ?c g" if "g < ?n" for g using assms that by simp
  have two: "(int h, 2) \<in> ?L \<longleftrightarrow> (\<exists>g < ?n. (g + 1) mod ?n = h \<and> 1 < ?c g)" for h
    by (rule advancer_runner_up)
  have next_in: "(int ((g + 1) mod ?n), 2) \<in> ?L \<longleftrightarrow> 1 < ?c g" if "g < ?n" for g
    by (rule advancer_next [OF that])
  have inR: "(int h, r) \<in> ?R \<longleftrightarrow> h < ?n \<and> 1 \<le> r \<and> r \<le> ?c h" for h r by simp
  have inL: "(int h, r) \<in> ?L \<longleftrightarrow> h < ?n \<and> (r = 1 \<or> 3 \<le> r \<and> r \<le> ?c h)" if "r \<noteq> 2" for h r
    unfolding places_advancerSlots using that by simp
  have other: "(int h, r) \<in> ?L \<longleftrightarrow> (int h, r) \<in> ?R" if "r \<noteq> 2" for h r
  proof (cases "h < ?n")
    case True
    then show ?thesis unfolding inL [OF that] inR using pos [of h] that by presburger
  next
    case False
    then show ?thesis by (simp only: inL [OF that] inR simp_thms)
  qed
  have dom: "\<exists>h r. x = (int h, r)" if "x \<in> ?L \<or> x \<in> ?R" for x
    using that unfolding places_advancerSlots
    by (elim disjE UnE CollectE exE conjE) (rule exI, rule exI, assumption)+
  show ?thesis
  proof
    assume eq: "?L = ?R"
    show ?agree
    proof (intro allI impI)
      fix g assume g: "g < ?n"
      let ?h = "(g + 1) mod ?n"
      have h: "?h < ?n" using g by (intro mod_less_divisor) auto
      have "1 < ?c g \<longleftrightarrow> (int ?h, 2) \<in> ?L"
        by (rule next_in [OF g, symmetric])
      also have "\<dots> \<longleftrightarrow> (int ?h, 2) \<in> ?R" by (simp only: eq)
      also have "\<dots> \<longleftrightarrow> 1 < ?c ?h" unfolding inR using h by auto
      finally show "1 < ?c g \<longleftrightarrow> 1 < ?c ?h" .
    qed
  next
    assume ag: ?agree
    have "(int h, 2) \<in> ?L \<longleftrightarrow> (int h, 2) \<in> ?R" for h
    proof (cases "h < ?n")
      case True
      then obtain g where g: "g < ?n" "(g + 1) mod ?n = h" by (rule next_mod_surj)
      have "(int h, 2) \<in> ?L \<longleftrightarrow> 1 < ?c g"
        using next_in [OF g(1)] g(2) by simp
      then show ?thesis unfolding inR using ag g True by auto
    next
      case False
      moreover have "(g + 1) mod ?n < ?n" if "g < ?n" for g
        using that by (intro mod_less_divisor) auto
      ultimately show ?thesis unfolding two inR by auto
    qed
    with other have eq: "(int h, r) \<in> ?L \<longleftrightarrow> (int h, r) \<in> ?R" for h r by (cases "r = 2") simp_all
    show "?L = ?R"
    proof (rule set_eqI)
      fix x
      show "x \<in> ?L \<longleftrightarrow> x \<in> ?R"
      proof (cases "\<exists>h r. x = (int h, r)")
        case True
        then show ?thesis using eq by (elim exE) (simp only:)
      next
        case False
        then show ?thesis using dom by meson
      qed
    qed
  qed
qed

definition mixed_specs :: "group_spec list" where
  "mixed_specs = [\<lparr>SpecName = ''A'', TeamIDs = [1, 2], AdvanceCount = 2\<rparr>,
     \<lparr>SpecName = ''B'', TeamIDs = [3, 4], AdvanceCount = 1\<rparr>]"

theorem advancerSlots_exact_iff_witness:
  "set (map place (advancerSlots mixed_specs))
    \<noteq> {(int g, r) | g r. g < length mixed_specs \<and> 1 \<le> r \<and> r \<le> AdvanceCount (mixed_specs ! g)}"
proof -
  have "\<forall>s \<in> set mixed_specs. 1 \<le> AdvanceCount s" by (simp add: mixed_specs_def)
  note iff = advancerSlots_exact_iff [OF this]
  have "\<not> (\<forall>g < length mixed_specs. 1 < AdvanceCount (mixed_specs ! g)
      \<longleftrightarrow> 1 < AdvanceCount (mixed_specs ! ((g + 1) mod length mixed_specs)))"
    by (intro notI) (auto simp: mixed_specs_def dest: spec [of _ 0])
  with iff show ?thesis by blast
qed

lemma length_advancerSlots:
  assumes "\<forall>s \<in> set specs. 1 \<le> AdvanceCount s"
  shows "int (length (advancerSlots specs)) = sum_list (map AdvanceCount specs)"
proof -
  have "int (length (advancerSlots specs))
      = sum_list (map (\<lambda>g. AdvanceCount (specs ! g)) [0..<length specs])"
  proof -
    have "int (length (concat (map f xs))) = sum_list (map (\<lambda>x. int (length (f x))) xs)"
      for f :: "nat \<Rightarrow> slot list" and xs by (induction xs) auto
    moreover have "1 \<le> AdvanceCount (specs ! g)" if "g < length specs" for g
      using assms that by simp
    ultimately show ?thesis unfolding advancerSlots_def Let_def
      by (fastforce intro!: arg_cong [where f = sum_list] map_cong)
  qed
  also have "map (\<lambda>g. AdvanceCount (specs ! g)) [0..<length specs] = map AdvanceCount specs"
    by (rule nth_equalityI) auto
  finally show ?thesis .
qed

subsection \<open>The group-knockout draw\<close>

definition specEntries :: "group_spec \<Rightarrow> entry list" where
  "specEntries g = map (\<lambda>i. \<lparr>ParticipantID = i, Seed = 0\<rparr>) (TeamIDs g)"

lemma GroupIndex_groupMatches: "m \<in> set (groupMatches g es) \<Longrightarrow> GroupIndex m = int g \<and> NextMatchIdx m = -1"
  by (auto simp: groupMatches_def)

lemma GroupIndex_offset: "m \<in> set (offsetKnockout k ko) \<Longrightarrow> GroupIndex m = -1"
  by (auto simp: offsetKnockout_def)

text \<open>The knockout part in its own numbering: the absolute feeds moved back by \<open>k\<close>.\<close>

definition relativeFeeds :: "nat \<Rightarrow> dmatch list \<Rightarrow> dmatch list" where
  "relativeFeeds k = map (\<lambda>m. if NextMatchIdx m = -1 then m
     else m\<lparr>NextMatchIdx := NextMatchIdx m - int k\<rparr>)"

lemma relativeFeeds_offset:
  assumes "\<forall>m \<in> set ko. -1 \<le> NextMatchIdx m"
  shows "relativeFeeds k (offsetKnockout k ko) = map (\<lambda>m. m\<lparr>GroupIndex := -1\<rparr>) ko"
  using assms by (auto simp: relativeFeeds_def offsetKnockout_def)

text \<open>C5. \<open>groupKnockoutFromAssignment\<close> with at least two advancers lays the draw out as the match
  list of the groups followed by one knockout bracket: group \<open>g\<close> holds the round robin of its
  teams, no group match feeds a match, the knockout (with its feeds counted from its first match)
  is a sound bracket over the advancing places in order, padded with byes.\<close>

theorem group_knockout_assignment:
  assumes "\<forall>s \<in> set specs. 1 \<le> AdvanceCount s" and "2 \<le> sum_list (map AdvanceCount specs)"
  defines "ms \<equiv> groupKnockoutFromAssignment specs"
    and "ko \<equiv> filter (\<lambda>m. GroupIndex m = -1) (groupKnockoutFromAssignment specs)"
  shows "(\<forall>g < length specs. filter (\<lambda>m. GroupIndex m = int g) ms
        = map (\<lambda>m. m\<lparr>GroupIndex := int g, NextMatchIdx := -1\<rparr>) (GenerateRoundRobin (specEntries (specs ! g))))
    \<and> ms = filter (\<lambda>m. 0 \<le> GroupIndex m) ms @ ko
    \<and> (\<forall>m \<in> set ms. 0 \<le> GroupIndex m \<longrightarrow> NextMatchIdx m = -1)
    \<and> progression_ok (relativeFeeds (length ms - length ko) ko)
    \<and> map (\<lambda>m. (Slot1 m, Slot2 m)) (filter (\<lambda>m. Round m = 1) ko) = ko_leaves (advancerSlots specs)"
proof -
  let ?ko = "buildKnockoutFromSlots (advancerSlots specs)"
  define G where "G = concat (map (\<lambda>g. groupMatches g (specEntries (specs ! g))) [0..<length specs])"
  define K where "K = offsetKnockout (length G) ?ko"
  have ms: "ms = G @ K"
    unfolding ms_def groupKnockoutFromAssignment_def specEntries_def [symmetric] Let_def
    by (simp add: G_def K_def)
  have "int (length (advancerSlots specs)) = sum_list (map AdvanceCount specs)"
    by (rule length_advancerSlots [OF assms(1)])
  then have two: "2 \<le> length (advancerSlots specs)" using assms(2) by simp
  have prog: "progression_ok ?ko" by (rule knockout.progression [OF two])
  have gG: "0 \<le> GroupIndex m \<and> NextMatchIdx m = -1" if "m \<in> set G" for m
    using that by (auto simp: G_def dest: GroupIndex_groupMatches)
  have gK: "GroupIndex m = -1" if "m \<in> set K" for m
    using that unfolding K_def by (rule GroupIndex_offset)
  have fG: "filter (\<lambda>m. GroupIndex m = -1) G = []" "filter (\<lambda>m. 0 \<le> GroupIndex m) G = G"
    using gG by (fastforce simp: filter_empty_conv, fastforce simp: filter_id_conv)
  have fK: "filter (\<lambda>m. GroupIndex m = -1) K = K" "filter (\<lambda>m. 0 \<le> GroupIndex m) K = []"
    "filter (\<lambda>m. GroupIndex m = int g) K = []" for g
    using gK by (auto simp: filter_empty_conv filter_id_conv)
  have ko: "ko = K" unfolding ko_def ms_def [symmetric] ms by (simp add: fG fK)
  have grp: "filter (\<lambda>m. GroupIndex m = int g) ms = groupMatches g (specEntries (specs ! g))"
    if "g < length specs" for g
    using that filter_concat_key_inj [of "[0..<length specs]" int
        "\<lambda>g. groupMatches g (specEntries (specs ! g))" GroupIndex g]
    by (simp add: ms fK G_def GroupIndex_groupMatches)
  have rel: "relativeFeeds (length G) K = map (\<lambda>m. m\<lparr>GroupIndex := -1\<rparr>) ?ko"
    unfolding K_def using progression_feeds [OF prog] by (intro relativeFeeds_offset) blast
  have rounds: "map (\<lambda>m. (Slot1 m, Slot2 m)) (filter (\<lambda>m. Round m = 1) K)
      = map (\<lambda>m. (Slot1 m, Slot2 m)) (filter (\<lambda>m. Round m = 1) ?ko)"
    by (simp add: K_def offsetKnockout_def filter_map comp_def if_distrib cong: if_cong)
  show ?thesis
    unfolding ko
  proof (intro conjI)
    show "progression_ok (relativeFeeds (length ms - length K) K)"
      using progression_ok_map [OF prog, of "\<lambda>m. m\<lparr>GroupIndex := -1\<rparr>"] rel by (simp add: ms)
    show "map (\<lambda>m. (Slot1 m, Slot2 m)) (filter (\<lambda>m. Round m = 1) K) = ko_leaves (advancerSlots specs)"
      unfolding rounds by (rule knockout.first_round_slots [OF two])
    show "ms = filter (\<lambda>m. 0 \<le> GroupIndex m) ms @ K" by (simp add: ms fG fK)
    show "\<forall>m \<in> set ms. 0 \<le> GroupIndex m \<longrightarrow> NextMatchIdx m = -1"
      using gG gK by (auto simp: ms)
    show "\<forall>g < length specs. filter (\<lambda>m. GroupIndex m = int g) ms
        = map (\<lambda>m. m\<lparr>GroupIndex := int g, NextMatchIdx := -1\<rparr>) (GenerateRoundRobin (specEntries (specs ! g)))"
      using grp by (simp add: groupMatches_def)
  qed
qed

theorem group_knockout_assignment_witness:
  "filter (\<lambda>m. GroupIndex m = 1) (groupKnockoutFromAssignment mixed_specs)
    = map (\<lambda>m. m\<lparr>GroupIndex := 1, NextMatchIdx := -1\<rparr>)
        (GenerateRoundRobin [\<lparr>ParticipantID = 3, Seed = 0\<rparr>, \<lparr>ParticipantID = 4, Seed = 0\<rparr>])"
proof -
  have "\<forall>s \<in> set mixed_specs. 1 \<le> AdvanceCount s" "2 \<le> sum_list (map AdvanceCount mixed_specs)"
    by (simp_all add: mixed_specs_def)
  note r = conjunct1 [OF group_knockout_assignment [OF this]]
  have l: "1 < length mixed_specs" by (simp add: mixed_specs_def)
  have e: "specEntries (mixed_specs ! 1) = [\<lparr>ParticipantID = 3, Seed = 0\<rparr>, \<lparr>ParticipantID = 4, Seed = 0\<rparr>]"
    by (simp add: mixed_specs_def specEntries_def)
  show ?thesis using r [rule_format, OF l] unfolding e by simp
qed

subsection \<open>Group mates in the knockout\<close>

lemma advancerSlots_two:
  assumes "\<forall>s \<in> set specs. AdvanceCount s = 2"
  shows "advancerSlots specs = concat (map (\<lambda>g. [placement specs g 1,
     placement specs ((g + 1) mod length specs) 2]) [0..<length specs])"
proof -
  have "AdvanceCount (specs ! g) = 2" if "g < length specs" for g using assms that by simp
  then show ?thesis unfolding advancerSlots_def Let_def
    by (intro arg_cong [where f = concat] map_cong) auto
qed

lemma ko_leaves_two:
  assumes "\<forall>s \<in> set specs. AdvanceCount s = 2" and "g < length specs"
  shows "g < length (ko_leaves (advancerSlots specs))"
    and "ko_leaves (advancerSlots specs) ! g
      = (placement specs g 1, placement specs ((g + 1) mod length specs) 2)"
proof -
  let ?a = "advancerSlots specs" and ?n = "length specs"
  have a: "?a = concat (map (\<lambda>g. [placement specs g 1, placement specs ((g + 1) mod ?n) 2]) [0..<?n])"
    by (rule advancerSlots_two [OF assms(1)])
  have la: "length ?a = 2 * ?n" by (simp add: a)
  have "2 * ?n \<le> nextPowerOfTwo (length ?a)"
    using nextPowerOfTwo_spec [of "length ?a"] la by auto
  then have g: "g < nextPowerOfTwo (length ?a) div 2" using assms(2) by simp
  then show "g < length (ko_leaves ?a)" by (simp add: ko_leaves_def)
  have "padByes ?a ! (2 * g) = ?a ! (2 * g)" "padByes ?a ! (2 * g + 1) = ?a ! (2 * g + 1)"
    using assms(2) la by (simp_all add: padByes_eq nth_append)
  moreover have "?a ! (2 * g) = placement specs g 1"
    "?a ! (2 * g + 1) = placement specs ((g + 1) mod ?n) 2"
    unfolding a using nth_concat_pair [of g "[0..<?n]"] assms(2) by simp_all
  ultimately show "ko_leaves ?a ! g = (placement specs g 1, placement specs ((g + 1) mod ?n) 2)"
    using g by (simp add: ko_leaves_def mult.commute)
qed

text \<open>Two advancers per group: in round 1 of the knockout a group's winner meets the runner-up
  of the next group, so the opponents come from different groups when there are two groups or
  more. But for odd \<open>h\<close> the winner and the runner-up of group \<open>h\<close> sit in neighbouring matches that
  feed the same match of round 2: with four groups or more they can meet there, before the final,
  although the bracket has room to keep them apart.\<close>

theorem group_mates_in_knockout:
  assumes "\<forall>s \<in> set specs. AdvanceCount s = 2" and "2 \<le> length specs"
  defines "ko \<equiv> buildKnockoutFromSlots (advancerSlots specs)"
  shows "(\<forall>g < length specs. place (Slot1 (ko ! g)) = (int g, 1)
        \<and> place (Slot2 (ko ! g)) = (int ((g + 1) mod length specs), 2)
        \<and> g \<noteq> (g + 1) mod length specs)
    \<and> (\<forall>h < length specs. odd h \<longrightarrow> place (Slot2 (ko ! (h - 1))) = (int h, 2)
        \<and> place (Slot1 (ko ! h)) = (int h, 1)
        \<and> NextMatchIdx (ko ! h) = NextMatchIdx (ko ! (h - 1))
        \<and> Round (ko ! nat (NextMatchIdx (ko ! h))) = 2)"
proof -
  let ?a = "advancerSlots specs" and ?n = "length specs"
  let ?M = "length (ko_leaves ?a)"
  have la: "length ?a = 2 * ?n" by (simp add: advancerSlots_two [OF assms(1)])
  then have two: "2 \<le> length ?a" using assms(2) by simp
  have W: "bracket_wired ?M ko" unfolding ko_def by (rule ko_wired(2) [OF two])
  have sl: "Slot1 (ko ! g) = placement specs g 1"
    "Slot2 (ko ! g) = placement specs ((g + 1) mod ?n) 2" "g < ?M" if "g < ?n" for g
    using ko_wired(3) [OF two, of g] ko_leaves_two [OF assms(1) that] unfolding ko_def by auto
  have odd: "NextMatchIdx (ko ! h) = NextMatchIdx (ko ! (h - 1))
      \<and> Round (ko ! nat (NextMatchIdx (ko ! h))) = 2" if h: "h < ?n" "odd h" for h
  proof -
    from h have hM: "h < ?M" using sl(3) by blast
    then have b: "h < 2 * ?M - 2" "h - 1 < 2 * ?M - 2" using h(2) by (auto elim!: oddE)
    have "h div 2 = (h - 1) div 2" using h(2) by (auto elim!: oddE)
    with W b have n: "NextMatchIdx (ko ! h) = int (?M + h div 2)"
      "NextMatchIdx (ko ! (h - 1)) = int (?M + h div 2)"
      by (simp_all add: bracket_wired_def feeds_next_def)
    have "Round (ko ! (?M + h div 2)) = Suc (Round (ko ! h))" "Round (ko ! h) = 1"
      using W b(1) hM unfolding bracket_wired_def by blast+
    then show ?thesis unfolding n nat_int by simp
  qed
  have mod: "g \<noteq> (g + 1) mod ?n" if "g < ?n" for g
    using that assms(2) by (auto simp: mod_Suc)
  show ?thesis
  proof (intro conjI allI impI)
    fix h assume h: "h < ?n" "odd h"
    then have "h - 1 < ?n" "(h - 1 + 1) mod ?n = h" by (auto elim!: oddE)
    then show "place (Slot2 (ko ! (h - 1))) = (int h, 2)" using sl(2) [of "h - 1"] by simp
  next
    fix h assume "h < ?n" "odd h"
    with odd show "NextMatchIdx (ko ! h) = NextMatchIdx (ko ! (h - 1))"
      and "Round (ko ! nat (NextMatchIdx (ko ! h))) = 2" by blast+
  qed (use sl mod in auto)
qed

definition even_specs :: "group_spec list" where
  "even_specs = map (\<lambda>g. \<lparr>SpecName = ''G'', TeamIDs = [2 * g, 2 * g + 1], AdvanceCount = 2\<rparr>) [0..<4]"

theorem group_mates_in_knockout_witness:
  "place (Slot2 (buildKnockoutFromSlots (advancerSlots even_specs) ! 0)) = (1, 2)
   \<and> place (Slot1 (buildKnockoutFromSlots (advancerSlots even_specs) ! 1)) = (1, 1)"
proof -
  have "\<forall>s \<in> set even_specs. AdvanceCount s = 2" "2 \<le> length even_specs"
    by (simp_all add: even_specs_def)
  note r = conjunct2 [OF group_mates_in_knockout [OF this]]
  have "1 < length even_specs" by (simp add: even_specs_def)
  from r [rule_format, OF this] show ?thesis by simp
qed

end
