(* ===== verification/Scoring.thy ===== *)
theory Scoring
  imports Prelude
begin

section \<open>Score validation (internal/match/scoring.go)\<close>

text \<open>
  The pure tennis and padel rules: the configuration of a division, the legality of one set and of
  a whole submission, and the mapping of completion states to match statuses. A violation is
  modelled without its display message. Wire strings (completion, status) are strings, as in the
  code. Go's unstable \<open>sort.Slice\<close> by set number is \<open>sort_key\<close>: the code reads the order of sets
  only after it has checked that their numbers are \<open>1, 2, 3, ...\<close>, which has one order.
\<close>

subsection \<open>Configuration\<close>

record scoring_config =
  BestOf :: int
  DecidingSet :: string
  GoldenPoint :: bool

definition DefaultScoringConfig :: scoring_config where
  "DefaultScoringConfig = \<lparr>BestOf = 3, DecidingSet = ''full'', GoldenPoint = False\<rparr>"

record violation =
  VSet :: int
  VField :: string
  VRule :: string

definition viol :: "string \<Rightarrow> string \<Rightarrow> violation" where
  "viol field rule = \<lparr>VSet = 0, VField = field, VRule = rule\<rparr>"

text \<open>
  What \<open>encoding/json\<close> finds in a value: \<open>JInt\<close> is a number without fraction and exponent, the
  only kind it stores in a Go \<open>int\<close>. \<open>JOther\<close> covers the other numbers, arrays and objects, which
  fail to decode into any of the three field types; \<open>null\<close> decodes without error and leaves the
  zero value. A document is empty, undecodable, or an object given as its members in the order
  in which Go's map iteration happens to visit them.
\<close>

datatype json = JNull | JBool bool | JInt int | JStr string | JOther

datatype raw_config = RawEmpty | RawInvalid | RawDoc "(string \<times> json) list"

definition decodeInt :: "json \<Rightarrow> int option" where
  "decodeInt j = (case j of JInt n \<Rightarrow> Some n | JNull \<Rightarrow> Some 0 | _ \<Rightarrow> None)"

definition decodeString :: "json \<Rightarrow> string option" where
  "decodeString j = (case j of JStr s \<Rightarrow> Some s | JNull \<Rightarrow> Some [] | _ \<Rightarrow> None)"

definition decodeBool :: "json \<Rightarrow> bool option" where
  "decodeBool j = (case j of JBool b \<Rightarrow> Some b | JNull \<Rightarrow> Some False | _ \<Rightarrow> None)"

definition configKey ::
  "string \<times> json \<Rightarrow> scoring_config \<times> violation list \<Rightarrow> scoring_config \<times> violation list" where
  "configKey kv st = (case (kv, st) of ((key, val), (cfg, v)) \<Rightarrow>
     if key = ''best_of'' then
       (case decodeInt val of
          Some n \<Rightarrow> if n \<noteq> 1 \<and> n \<noteq> 3 then (cfg, v @ [viol ''best_of'' ''config.best_of''])
                    else (cfg\<lparr>BestOf := n\<rparr>, v)
        | None \<Rightarrow> (cfg, v @ [viol ''best_of'' ''config.best_of'']))
     else if key = ''deciding_set'' then
       (case decodeString val of
          Some s \<Rightarrow> if s \<noteq> ''full'' \<and> s \<noteq> ''match_tiebreak''
                    then (cfg, v @ [viol ''deciding_set'' ''config.deciding_set''])
                    else (cfg\<lparr>DecidingSet := s\<rparr>, v)
        | None \<Rightarrow> (cfg, v @ [viol ''deciding_set'' ''config.deciding_set'']))
     else if key = ''golden_point'' then
       (case decodeBool val of
          Some b \<Rightarrow> (cfg\<lparr>GoldenPoint := b\<rparr>, v)
        | None \<Rightarrow> (cfg, v @ [viol ''golden_point'' ''config.golden_point'']))
     else (cfg, v @ [viol key ''config.unknown_key'']))"

definition ParseScoringConfig :: "raw_config \<Rightarrow> scoring_config \<times> violation list" where
  "ParseScoringConfig raw = (case raw of
     RawEmpty \<Rightarrow> (DefaultScoringConfig, [])
   | RawInvalid \<Rightarrow> (DefaultScoringConfig, [viol [] ''config.invalid_json''])
   | RawDoc doc \<Rightarrow>
       (let (cfg, v) = fold configKey doc (DefaultScoringConfig, []);
            v = (if BestOf cfg = 1 \<and> DecidingSet cfg = ''match_tiebreak''
                 then v @ [viol ''deciding_set'' ''config.match_tiebreak_best_of_1''] else v)
        in if length v > 0 then (DefaultScoringConfig, v) else (cfg, [])))"

subsection \<open>Completion states\<close>

definition completions :: "string list" where
  "completions = [''incomplete'', ''normal'', ''walkover'', ''retired'', ''cancelled'']"

definition statusForCompletion :: "string \<Rightarrow> string" where
  "statusForCompletion c =
     (if c = ''normal'' then ''completed''
      else if c = ''walkover'' then ''walkover''
      else if c = ''retired'' then ''retired''
      else if c = ''cancelled'' then ''cancelled''
      else ''live'')"

definition decidedStatus :: "string \<Rightarrow> bool" where
  "decidedStatus s \<longleftrightarrow> s \<in> set [''completed'', ''walkover'', ''retired'', ''cancelled'', ''bye'']"

subsection \<open>One set\<close>

record set_score =
  SetNumber :: int
  P1Games :: int
  P2Games :: int
  P1Tiebreak :: "int option"
  P2Tiebreak :: "int option"

definition negTiebreak :: "int option \<Rightarrow> bool" where
  "negTiebreak t = (case t of Some x \<Rightarrow> x < 0 | None \<Rightarrow> False)"

definition deciderSet :: "set_score \<Rightarrow> bool \<Rightarrow> int \<times> bool \<times> violation list" where
  "deciderSet st allowPartial =
     (let a = P1Games st; b = P2Games st in
      if P1Tiebreak st \<noteq> None \<or> P2Tiebreak st \<noteq> None
      then (0, False, [viol ''tiebreak'' ''set.decider_tiebreak_fields''])
      else
        let (hi, lo) = (if b > a then (b, a) else (a, b));
            complete = (hi \<ge> 10 \<and> hi - lo \<ge> 2 \<and> (hi = 10 \<or> hi - lo = 2))
        in if complete then (if a > b then (1, True, []) else (2, True, []))
           else if allowPartial then (0, False, [])
           else (0, False, [viol ''games'' ''set.decider_illegal'']))"

definition tiebreakSet :: "set_score \<Rightarrow> int \<Rightarrow> bool \<Rightarrow> int \<times> bool \<times> violation list" where
  "tiebreakSet st hiSide allowPartial =
     (case (P1Tiebreak st, P2Tiebreak st) of
        (Some ta, Some tb) \<Rightarrow>
          let (tw, tl, twSide) = (if tb > ta then (tb, ta, 2::int) else (ta, tb, 1)) in
          if \<not> (tw \<ge> 7 \<and> tw - tl \<ge> 2 \<and> (tw = 7 \<or> tw - tl = 2))
          then (0, False, [viol ''tiebreak'' ''set.tiebreak_illegal''])
          else if twSide \<noteq> hiSide
          then (0, False, [viol ''tiebreak'' ''set.tiebreak_winner_mismatch''])
          else (hiSide, True, [])
      | _ \<Rightarrow>
          if allowPartial then (0, False, [])
          else (0, False, [viol ''tiebreak'' ''set.tiebreak_required'']))"

definition partialSet :: "int \<Rightarrow> int \<Rightarrow> bool \<Rightarrow> int \<times> bool \<times> violation list" where
  "partialSet hi lo allowPartial =
     (let partialOK = (hi \<le> 6 \<or> (hi = 7 \<and> lo = 6) \<or> (hi = 6 \<and> lo = 6));
          partialOK = (if hi \<le> 5 \<or> (hi = 6 \<and> lo \<ge> 5) then True else partialOK);
          partialOK = (if hi > 7 \<or> (hi = 7 \<and> lo < 5) then False else partialOK)
      in if allowPartial \<and> partialOK then (0, False, [])
         else (0, False, [viol ''games'' ''set.illegal'']))"

definition validateSet :: "set_score \<Rightarrow> bool \<Rightarrow> bool \<Rightarrow> int \<times> bool \<times> violation list" where
  "validateSet st isDecider allowPartial =
     (let a = P1Games st; b = P2Games st in
      if a < 0 \<or> b < 0 \<or> negTiebreak (P1Tiebreak st) \<or> negTiebreak (P2Tiebreak st)
      then (0, False, [viol ''games'' ''set.negative''])
      else if isDecider then deciderSet st allowPartial
      else
        let (hi, lo, hiSide) = (if b > a then (b, a, 2) else (a, b, 1)) in
        if (hi = 6 \<and> lo \<le> 4) \<or> (hi = 7 \<and> lo = 5) then
          (if P1Tiebreak st \<noteq> None \<or> P2Tiebreak st \<noteq> None
           then (0, False, [viol ''tiebreak'' ''set.tiebreak_unexpected''])
           else (hiSide, True, []))
        else if hi = 7 \<and> lo = 6 then tiebreakSet st hiSide allowPartial
        else partialSet hi lo allowPartial)"

subsection \<open>A whole submission\<close>

record tally =
  Violations :: "violation list"
  Won1 :: int
  Won2 :: int
  DecidedAfter :: int

definition tally0 :: "violation list \<Rightarrow> tally" where
  "tally0 v = \<lparr>Violations = v, Won1 = 0, Won2 = 0, DecidedAfter = 0\<rparr>"

text \<open>One pass of the loop over the ordered sets, for set number \<open>idx + 1\<close>.\<close>

definition scoreStep ::
  "scoring_config \<Rightarrow> string \<Rightarrow> nat \<Rightarrow> nat \<times> set_score \<Rightarrow> tally \<Rightarrow> tally" where
  "scoreStep cfg completion n ist t = (case ist of (idx, st) \<Rightarrow>
     let setsToWin = BestOf cfg div 2 + 1;
         setNo = int idx + 1;
         isDecider = (DecidingSet cfg = ''match_tiebreak'' \<and> BestOf cfg > 1 \<and> setNo = BestOf cfg);
         last' = (idx = n - 1);
         allowPartial = (last' \<and> completion \<noteq> ''normal'');
         (winner, complete, sv) = validateSet st isDecider allowPartial;
         t = t\<lparr>Violations := Violations t @ map (\<lambda>x. x\<lparr>VSet := setNo\<rparr>) sv\<rparr>
     in if DecidedAfter t > 0 \<and> (complete \<or> P1Games st > 0 \<or> P2Games st > 0)
        then t\<lparr>Violations := Violations t @ [\<lparr>VSet = setNo, VField = [], VRule = ''sets.after_decided''\<rparr>]\<rparr>
        else if complete then
          let t = (if winner = 1 then t\<lparr>Won1 := Won1 t + 1\<rparr> else t\<lparr>Won2 := Won2 t + 1\<rparr>)
          in if DecidedAfter t = 0 \<and> (Won1 t = setsToWin \<or> Won2 t = setsToWin)
             then t\<lparr>DecidedAfter := setNo\<rparr> else t
        else t)"

definition tallySets :: "scoring_config \<Rightarrow> string \<Rightarrow> set_score list \<Rightarrow> violation list \<Rightarrow> tally" where
  "tallySets cfg completion ordered v =
     fold (scoreStep cfg completion (length ordered)) (enumerate 0 ordered) (tally0 v)"

text \<open>The violations the winner field causes.\<close>

definition winnerViolations :: "string \<Rightarrow> int \<Rightarrow> violation list" where
  "winnerViolations completion winnerSlot =
     (if completion = ''walkover'' \<or> completion = ''retired''
      then (if winnerSlot \<noteq> 1 \<and> winnerSlot \<noteq> 2 then [viol ''winner_slot'' ''winner.required''] else [])
      else (if winnerSlot \<noteq> 0 then [viol ''winner_slot'' ''winner.forbidden''] else []))"

text \<open>The first set that breaks the numbering \<open>1, 2, 3, ...\<close>.\<close>

definition misnumbered :: "set_score list \<Rightarrow> (nat \<times> set_score) option" where
  "misnumbered ordered = List.find (\<lambda>(i, st). SetNumber st \<noteq> int i + 1) (enumerate 0 ordered)"

definition finishScore :: "string \<Rightarrow> nat \<Rightarrow> int \<Rightarrow> tally \<Rightarrow> int \<times> string \<times> violation list" where
  "finishScore completion n winnerSlot t =
     (if length (Violations t) > 0 then (0, [], Violations t)
      else if completion = ''normal'' then
        (if DecidedAfter t = 0 then (0, [], [viol [] ''sets.unfinished''])
         else ((if Won2 t > Won1 t then 2 else 1), statusForCompletion completion, []))
      else if DecidedAfter t > 0 \<and> DecidedAfter t < int n
      then (0, [], [viol [] ''sets.after_decided''])
      else if completion = ''incomplete'' \<and> DecidedAfter t > 0
      then (0, [], [viol [] ''completion.decided''])
      else (winnerSlot, statusForCompletion completion, []))"

definition ValidateScore ::
  "scoring_config \<Rightarrow> set_score list \<Rightarrow> string \<Rightarrow> int \<Rightarrow> int \<times> string \<times> violation list" where
  "ValidateScore cfg sets completion winnerSlot =
     (if completion \<notin> set completions then (0, [], [viol ''completion'' ''completion.invalid''])
      else
        let v = winnerViolations completion winnerSlot in
        if completion = ''walkover'' then
          let v = (if length sets > 0 then v @ [viol [] ''sets.walkover''] else v) in
          if length v > 0 then (0, [], v) else (winnerSlot, statusForCompletion completion, [])
        else if length sets = 0 \<and> completion \<noteq> ''cancelled''
        then (0, [], v @ [viol [] ''sets.required''])
        else
          let ordered = sort_key SetNumber sets in
          case misnumbered ordered of
            Some (i, st) \<Rightarrow>
              (0, [], v @ [\<lparr>VSet = SetNumber st, VField = ''set_number'', VRule = ''sets.numbering''\<rparr>])
          | None \<Rightarrow>
              if int (length ordered) > BestOf cfg then (0, [], v @ [viol [] ''sets.too_many''])
              else finishScore completion (length ordered) winnerSlot (tallySets cfg completion ordered v))"

subsection \<open>The configuration does not depend on the member order\<close>

definition keyViolations :: "string \<times> json \<Rightarrow> violation list" where
  "keyViolations kv = snd (configKey kv (DefaultScoringConfig, []))"

definition keyConfig :: "string \<times> json \<Rightarrow> scoring_config \<Rightarrow> scoring_config" where
  "keyConfig kv cfg = fst (configKey kv (cfg, []))"

lemma configKey_split: "configKey kv (cfg, v) = (keyConfig kv cfg, v @ keyViolations kv)"
  by (cases kv) (auto simp: configKey_def keyConfig_def keyViolations_def split: option.splits)

lemma configKey_fold:
  "fold configKey doc (cfg, v) = (fold keyConfig doc cfg, v @ concat (map keyViolations doc))"
  by (induction doc arbitrary: cfg v) (auto simp: configKey_split)

lemma keyConfig_best_of: "keyConfig (''best_of'', val) cfg = cfg\<lparr>BestOf :=
     (case decodeInt val of Some n \<Rightarrow> if n = 1 \<or> n = 3 then n else BestOf cfg | None \<Rightarrow> BestOf cfg)\<rparr>"
  by (simp add: keyConfig_def configKey_def split: option.split)

lemma keyConfig_deciding_set: "keyConfig (''deciding_set'', val) cfg = cfg\<lparr>DecidingSet :=
     (case decodeString val of Some t \<Rightarrow>
        if t = ''full'' \<or> t = ''match_tiebreak'' then t else DecidingSet cfg
      | None \<Rightarrow> DecidingSet cfg)\<rparr>"
  by (cases "decodeString val") (simp_all add: keyConfig_def configKey_def)

lemma keyConfig_golden_point: "keyConfig (''golden_point'', val) cfg = cfg\<lparr>GoldenPoint :=
     (case decodeBool val of Some b \<Rightarrow> b | None \<Rightarrow> GoldenPoint cfg)\<rparr>"
  by (simp add: keyConfig_def configKey_def split: option.split)

lemma keyConfig_other:
  "key \<noteq> ''best_of'' \<Longrightarrow> key \<noteq> ''deciding_set'' \<Longrightarrow> key \<noteq> ''golden_point'' \<Longrightarrow> keyConfig (key, val) cfg = cfg"
  by (simp only: keyConfig_def configKey_def prod.case if_False fst_conv)

lemmas keyConfig_simps = keyConfig_best_of keyConfig_deciding_set keyConfig_golden_point

lemma config_key_cases [case_names best_of deciding_set golden_point other]:
  fixes key :: string
  obtains "key = ''best_of''" | "key = ''deciding_set''" | "key = ''golden_point''"
    | "key \<noteq> ''best_of''" "key \<noteq> ''deciding_set''" "key \<noteq> ''golden_point''"
  by blast

lemma keyConfig_commute:
  assumes "fst x \<noteq> fst y"
  shows "keyConfig x (keyConfig y cfg) = keyConfig y (keyConfig x cfg)"
proof -
  obtain k v l w where [simp]: "x = (k, v)" "y = (l, w)" by (cases x; cases y)
  show ?thesis
    by (cases cfg; cases k rule: config_key_cases; cases l rule: config_key_cases)
       (use assms in \<open>simp_all add: keyConfig_simps keyConfig_other split: option.split\<close>)
qed

lemma keyConfig_fold_move:
  assumes "x \<in> set doc" and "distinct (map fst doc)"
  shows "fold keyConfig doc cfg = fold keyConfig (remove1 x doc) (keyConfig x cfg)"
  using assms
proof (induction doc arbitrary: cfg)
  case (Cons y doc)
  show ?case
  proof (cases "x = y")
    case False
    with Cons.prems have "x \<in> set doc" "fst x \<noteq> fst y" by (auto simp: image_iff)
    then show ?thesis using Cons False by (simp add: keyConfig_commute)
  qed simp
qed simp

lemma keyConfig_fold_perm:
  assumes "mset doc = mset doc'" and "distinct (map fst doc)"
  shows "fold keyConfig doc cfg = fold keyConfig doc' cfg"
  using assms
proof (induction doc arbitrary: doc' cfg)
  case (Cons x doc)
  from Cons.prems(1) have x: "x \<in> set doc'" by (metis list.set_intros(1) mset_eq_setD)
  have d: "distinct (map fst doc')"
    using Cons.prems by (metis mset_eq_imp_distinct_iff mset_map)
  from Cons.prems(1) have "mset doc = mset (remove1 x doc')"
    by (simp add: union_single_eq_diff)
  then have "fold keyConfig (x # doc) cfg = fold keyConfig (remove1 x doc') (keyConfig x cfg)"
    using Cons.IH [of "remove1 x doc'" "keyConfig x cfg"] Cons.prems(2) by simp
  also have "\<dots> = fold keyConfig doc' cfg" by (rule keyConfig_fold_move [OF x d, symmetric])
  finally show ?case .
qed simp

definition valid_config :: "scoring_config \<Rightarrow> bool" where
  "valid_config cfg \<longleftrightarrow> (BestOf cfg = 1 \<or> BestOf cfg = 3)
     \<and> DecidingSet cfg \<in> {''full'', ''match_tiebreak''}
     \<and> \<not> (BestOf cfg = 1 \<and> DecidingSet cfg = ''match_tiebreak'')"

definition config_fields :: "scoring_config \<Rightarrow> bool" where
  "config_fields cfg \<longleftrightarrow> BestOf cfg \<in> {1, 3} \<and> DecidingSet cfg \<in> {''full'', ''match_tiebreak''}"

lemma keyConfig_fields:
  assumes "config_fields cfg"
  shows "config_fields (keyConfig (key, val) cfg)"
  using assms
  by (cases key rule: config_key_cases)
     (auto simp: keyConfig_simps keyConfig_other config_fields_def split: option.splits)

lemma keyConfig_fold_fields: "config_fields cfg \<Longrightarrow> config_fields (fold keyConfig doc cfg)"
proof (induction doc arbitrary: cfg)
  case (Cons kv doc)
  then show ?case using keyConfig_fields [of cfg "fst kv" "snd kv"] by simp
qed simp

lemma ParseScoringConfig_doc:
  "ParseScoringConfig (RawDoc doc) =
     (let cfg = fold keyConfig doc DefaultScoringConfig;
          v = concat (map keyViolations doc) @
            (if BestOf cfg = 1 \<and> DecidingSet cfg = ''match_tiebreak''
             then [viol ''deciding_set'' ''config.match_tiebreak_best_of_1''] else [])
      in if v \<noteq> [] then (DefaultScoringConfig, v) else (cfg, []))"
  by (simp add: ParseScoringConfig_def configKey_fold Let_def)

lemma valid_default: "valid_config DefaultScoringConfig"
  by (simp add: valid_config_def DefaultScoringConfig_def)

lemma ParseScoringConfig_valid: "valid_config (fst (ParseScoringConfig raw))"
proof (cases raw)
  case (RawDoc doc)
  then show ?thesis
    using keyConfig_fold_fields [of DefaultScoringConfig doc] valid_default
    by (simp add: ParseScoringConfig_doc Let_def valid_config_def config_fields_def
        DefaultScoringConfig_def)
qed (auto simp: ParseScoringConfig_def valid_default)

text \<open>\<open>ParseScoringConfig\<close> does not depend on Go's random map iteration: for two orders of the
  members of the same document it returns the same configuration and the same violations up to
  their order; and what it returns is always one of the configurations the scoring rules are
  written for, the defaults whenever there is a violation.\<close>

theorem scoring_config_order_independent:
  assumes "mset doc = mset doc'" and "distinct (map fst doc)"
  shows "fst (ParseScoringConfig (RawDoc doc)) = fst (ParseScoringConfig (RawDoc doc'))
    \<and> mset (snd (ParseScoringConfig (RawDoc doc))) = mset (snd (ParseScoringConfig (RawDoc doc')))
    \<and> valid_config (fst (ParseScoringConfig (RawDoc doc)))
    \<and> (snd (ParseScoringConfig (RawDoc doc)) \<noteq> [] \<longrightarrow>
         fst (ParseScoringConfig (RawDoc doc)) = DefaultScoringConfig)"
proof -
  have c: "fold keyConfig doc DefaultScoringConfig = fold keyConfig doc' DefaultScoringConfig"
    by (rule keyConfig_fold_perm [OF assms])
  have v: "mset (concat (map keyViolations doc)) = mset (concat (map keyViolations doc'))"
  proof -
    have "mset (concat (map keyViolations xs)) = (\<Sum>\<^sub># (image_mset (\<lambda>x. mset (keyViolations x)) (mset xs)))" for xs
      by (induction xs) auto
    then show ?thesis using assms(1) by simp
  qed
  then have "concat (map keyViolations doc) = [] \<longleftrightarrow> concat (map keyViolations doc') = []"
    by (metis mset_zero_iff)
  then show ?thesis using c v ParseScoringConfig_valid [of "RawDoc doc"]
    by (simp add: ParseScoringConfig_doc Let_def)
qed

theorem scoring_config_order_independent_witness:
  "fst (ParseScoringConfig (RawDoc [(''best_of'', JInt 1), (''golden_point'', JBool True)]))
    = fst (ParseScoringConfig (RawDoc [(''golden_point'', JBool True), (''best_of'', JInt 1)]))"
  using scoring_config_order_independent
    [of "[(''best_of'', JInt 1), (''golden_point'', JBool True)]"
        "[(''golden_point'', JBool True), (''best_of'', JInt 1)]"]
  by simp

subsection \<open>What a won set is\<close>

text \<open>The rules of the game, for a side with \<open>g\<close> games against \<open>h\<close>.\<close>

definition swap_set :: "set_score \<Rightarrow> set_score" where
  "swap_set st = st\<lparr>P1Games := P2Games st, P2Games := P1Games st,
     P1Tiebreak := P2Tiebreak st, P2Tiebreak := P1Tiebreak st\<rparr>"

definition tiebreak_won :: "int option \<Rightarrow> int option \<Rightarrow> bool" where
  "tiebreak_won x y = (case (x, y) of (Some p, Some q) \<Rightarrow>
       0 \<le> q \<and> (p = 7 \<and> q \<le> 5 \<or> 7 < p \<and> p = q + 2) | _ \<Rightarrow> False)"

definition side1_wins :: "bool \<Rightarrow> set_score \<Rightarrow> bool" where
  "side1_wins isDecider st \<longleftrightarrow>
     (let g = P1Games st; h = P2Games st; no_tb = (P1Tiebreak st = None \<and> P2Tiebreak st = None) in
      0 \<le> h \<and> (if isDecider then no_tb \<and> (g = 10 \<and> h \<le> 8 \<or> 10 < g \<and> g = h + 2)
      else no_tb \<and> (g = 6 \<and> h \<le> 4 \<or> g = 7 \<and> h = 5)
         \<or> g = 7 \<and> h = 6 \<and> tiebreak_won (P1Tiebreak st) (P2Tiebreak st)))"

definition set_won_by :: "bool \<Rightarrow> set_score \<Rightarrow> int \<Rightarrow> bool" where
  "set_won_by isDecider st w \<longleftrightarrow> w = 1 \<and> side1_wins isDecider st \<or> w = 2 \<and> side1_wins isDecider (swap_set st)"

definition swap_side :: "int \<Rightarrow> int" where
  "swap_side w = (if w = 1 then 2 else if w = 2 then 1 else w)"

lemma swap_set_sel [simp]: "P1Games (swap_set st) = P2Games st" "P2Games (swap_set st) = P1Games st"
  "P1Tiebreak (swap_set st) = P2Tiebreak st" "P2Tiebreak (swap_set st) = P1Tiebreak st"
  "SetNumber (swap_set st) = SetNumber st" "swap_set (swap_set st) = st"
  by (simp_all add: swap_set_def)

lemma deciderSet_complete:
  assumes "0 \<le> P1Games st" and "0 \<le> P2Games st"
  shows "deciderSet st p = (w, True, v) \<longleftrightarrow> set_won_by True st w \<and> v = []"
  using assms unfolding deciderSet_def set_won_by_def side1_wins_def Let_def
  by (auto split: if_splits)

lemma tiebreakSet_complete:
  assumes "\<not> negTiebreak (P1Tiebreak st)" and "\<not> negTiebreak (P2Tiebreak st)" and "side \<in> {1, 2}"
  shows "tiebreakSet st side p = (w, True, v) \<longleftrightarrow> w = side \<and> v = []
    \<and> (if side = 1 then tiebreak_won (P1Tiebreak st) (P2Tiebreak st)
       else tiebreak_won (P2Tiebreak st) (P1Tiebreak st))"
  using assms unfolding tiebreakSet_def tiebreak_won_def negTiebreak_def Let_def
  by (auto split: if_splits option.splits)

lemma partialSet_incomplete: "partialSet hi lo p = (w, c, v) \<Longrightarrow> \<not> c \<and> w = 0"
  by (auto simp: partialSet_def split: if_splits)

text \<open>The regular set, for the winner's side of the two possible orders.\<close>

lemma side1_regular:
  "side1_wins False st \<longleftrightarrow> 0 \<le> P2Games st \<and>
     ((P1Tiebreak st = None \<and> P2Tiebreak st = None
         \<and> (P1Games st = 6 \<and> P2Games st \<le> 4 \<or> P1Games st = 7 \<and> P2Games st = 5))
      \<or> P1Games st = 7 \<and> P2Games st = 6 \<and> tiebreak_won (P1Tiebreak st) (P2Tiebreak st))"
  by (auto simp: side1_wins_def Let_def)

lemma tiebreak_won_nonneg:
  "tiebreak_won x y \<Longrightarrow> \<not> negTiebreak x \<and> \<not> negTiebreak y"
  by (auto simp: tiebreak_won_def negTiebreak_def split: option.splits)

lemma side1_wins_more: "side1_wins isDecider st \<Longrightarrow> P2Games st < P1Games st"
  by (auto simp: side1_wins_def Let_def split: if_splits)

definition set_nonneg :: "set_score \<Rightarrow> bool" where
  "set_nonneg st \<longleftrightarrow> \<not> (P1Games st < 0 \<or> P2Games st < 0
     \<or> negTiebreak (P1Tiebreak st) \<or> negTiebreak (P2Tiebreak st))"

definition regularSet :: "set_score \<Rightarrow> int \<Rightarrow> int \<Rightarrow> int \<Rightarrow> bool \<Rightarrow> int \<times> bool \<times> violation list" where
  "regularSet st hi lo side p =
     (if (hi = 6 \<and> lo \<le> 4) \<or> (hi = 7 \<and> lo = 5) then
        (if P1Tiebreak st \<noteq> None \<or> P2Tiebreak st \<noteq> None
         then (0, False, [viol ''tiebreak'' ''set.tiebreak_unexpected''])
         else (side, True, []))
      else if hi = 7 \<and> lo = 6 then tiebreakSet st side p
      else partialSet hi lo p)"

lemma validateSet_regular:
  "set_nonneg st \<Longrightarrow> validateSet st False p =
     (if P2Games st > P1Games st then regularSet st (P2Games st) (P1Games st) 2 p
      else regularSet st (P1Games st) (P2Games st) 1 p)"
  by (simp add: validateSet_def set_nonneg_def Let_def regularSet_def)

lemma side1_wins_nonneg: "side1_wins isDecider st \<Longrightarrow> set_nonneg st"
  unfolding set_nonneg_def
  by (cases isDecider)
     (auto simp: side1_wins_def Let_def negTiebreak_def dest: tiebreak_won_nonneg)

lemma set_nonneg_swap [simp]: "set_nonneg (swap_set st) = set_nonneg st"
  by (auto simp: set_nonneg_def)

lemma set_won_by_nonneg: "set_won_by isDecider st w \<Longrightarrow> set_nonneg st"
  using side1_wins_nonneg [of isDecider st] side1_wins_nonneg [of isDecider "swap_set st"]
  by (auto simp: set_won_by_def)

lemma regularSet_complete:
  assumes "set_nonneg st"
  shows "regularSet st (P1Games st) (P2Games st) 1 p = (w, True, v) \<longleftrightarrow> w = 1 \<and> side1_wins False st \<and> v = []"
    and "regularSet st (P2Games st) (P1Games st) 2 p = (w, True, v)
      \<longleftrightarrow> w = 2 \<and> side1_wins False (swap_set st) \<and> v = []"
proof -
  have t: "tiebreakSet st side p = (w, True, v) \<longleftrightarrow> w = side \<and> v = []
    \<and> (if side = 1 then tiebreak_won (P1Tiebreak st) (P2Tiebreak st)
       else tiebreak_won (P2Tiebreak st) (P1Tiebreak st))" if "side \<in> {1, 2}" for side
    using assms that by (intro tiebreakSet_complete) (simp_all add: set_nonneg_def)
  have n: "0 \<le> P1Games st" "0 \<le> P2Games st" using assms by (auto simp: set_nonneg_def)
  have q: "partialSet hi lo p \<noteq> (w, True, v)" for hi lo
    using partialSet_incomplete [of hi lo p w True v] by blast
  show "regularSet st (P1Games st) (P2Games st) 1 p = (w, True, v) \<longleftrightarrow> w = 1 \<and> side1_wins False st \<and> v = []"
    using n(2) t [of 1] q unfolding regularSet_def side1_regular
    by (cases "P1Games st = 7 \<and> P2Games st = 6") auto
  show "regularSet st (P2Games st) (P1Games st) 2 p = (w, True, v)
      \<longleftrightarrow> w = 2 \<and> side1_wins False (swap_set st) \<and> v = []"
    using n(1) t [of 2] q unfolding regularSet_def side1_regular
    by (cases "P2Games st = 7 \<and> P1Games st = 6") auto
qed

text \<open>\<open>validateSet\<close> accepts a set as complete exactly when the rules say that its winner won it.\<close>

lemma validateSet_complete:
  "validateSet st isDecider p = (w, True, v) \<longleftrightarrow> set_won_by isDecider st w \<and> v = []"
proof (cases "set_nonneg st")
  case False
  then have "\<not> set_won_by isDecider st w" using set_won_by_nonneg by blast
  then show ?thesis using False by (simp add: validateSet_def Let_def set_nonneg_def)
next
  case nonneg: True
  show ?thesis
  proof (cases isDecider)
    case True
    then show ?thesis using nonneg deciderSet_complete [of st p w v]
      by (simp add: validateSet_def Let_def set_nonneg_def)
  next
    case False
    show ?thesis
      using False regularSet_complete [OF nonneg, of p w v] side1_wins_more [of False st]
        side1_wins_more [of False "swap_set st"]
      unfolding set_won_by_def by (auto simp: validateSet_regular [OF nonneg])
  qed
qed

subsection \<open>What a won match is\<close>

definition isDecider :: "scoring_config \<Rightarrow> nat \<Rightarrow> bool" where
  "isDecider cfg idx \<longleftrightarrow> DecidingSet cfg = ''match_tiebreak'' \<and> BestOf cfg > 1 \<and> int idx + 1 = BestOf cfg"

definition setsToWin :: "scoring_config \<Rightarrow> int" where
  "setsToWin cfg = BestOf cfg div 2 + 1"

text \<open>
  The rules of a match: the sets are numbered \<open>1, 2, ...\<close>, each was won by the side \<open>ws\<close> says, \<open>w\<close>
  won the last one and with it the number of sets a match takes, the other side fewer.
\<close>

definition match_won_by :: "scoring_config \<Rightarrow> set_score list \<Rightarrow> int list \<Rightarrow> int \<Rightarrow> bool" where
  "match_won_by cfg ordered ws w \<longleftrightarrow>
     map SetNumber ordered = map (\<lambda>i. int i + 1) [0..<length ordered]
   \<and> length ws = length ordered
   \<and> (\<forall>i < length ordered. set_won_by (isDecider cfg i) (ordered ! i) (ws ! i))
   \<and> ws \<noteq> [] \<and> last ws = w \<and> int (count_list ws w) = setsToWin cfg
   \<and> int (length ws - count_list ws w) < setsToWin cfg"

definition winStep :: "int \<Rightarrow> nat \<times> int \<Rightarrow> tally \<Rightarrow> tally" where
  "winStep target iw t = (case iw of (idx, w) \<Rightarrow>
     if DecidedAfter t > 0
     then t\<lparr>Violations := Violations t
            @ [\<lparr>VSet = int idx + 1, VField = [], VRule = ''sets.after_decided''\<rparr>]\<rparr>
     else
       let t = (if w = 1 then t\<lparr>Won1 := Won1 t + 1\<rparr> else t\<lparr>Won2 := Won2 t + 1\<rparr>)
       in if DecidedAfter t = 0 \<and> (Won1 t = target \<or> Won2 t = target)
          then t\<lparr>DecidedAfter := int idx + 1\<rparr> else t)"

lemma scoreStep_won:
  assumes "set_won_by (isDecider cfg idx) st w"
  shows "scoreStep cfg completion n (idx, st) t = winStep (setsToWin cfg) (idx, w) t"
proof -
  from assms have "validateSet st (isDecider cfg idx) p = (w, True, [])" for p
    by (simp add: validateSet_complete)
  then show ?thesis
    unfolding scoreStep_def prod.case isDecider_def Let_def by (simp add: winStep_def setsToWin_def Let_def)
qed

lemma fold_scoreStep_won:
  assumes "length ws = length xs"
    and "\<forall>i < length xs. set_won_by (isDecider cfg (k + i)) (xs ! i) (ws ! i)"
  shows "fold (scoreStep cfg completion n) (enumerate k xs) t
    = fold (winStep (setsToWin cfg)) (enumerate k ws) t"
  using assms
proof (induction xs arbitrary: k ws t)
  case (Cons x xs)
  then obtain w ws' where ws: "ws = w # ws'" by (cases ws) auto
  have "set_won_by (isDecider cfg k) x w" using Cons.prems(2) [rule_format, of 0] ws by simp
  moreover have "\<forall>i < length xs. set_won_by (isDecider cfg (Suc k + i)) (xs ! i) (ws' ! i)"
  proof (intro allI impI)
    fix i assume "i < length xs"
    then show "set_won_by (isDecider cfg (Suc k + i)) (xs ! i) (ws' ! i)"
      using Cons.prems(2) [rule_format, of "Suc i"] ws by simp
  qed
  ultimately show ?case using Cons ws by (simp add: scoreStep_won)
qed simp

lemma scoreStep_violations:
  "\<exists>v. Violations (scoreStep cfg c n (idx, st) t) = Violations t
     @ map (\<lambda>x. x\<lparr>VSet := int idx + 1\<rparr>)
         (snd (snd (validateSet st (isDecider cfg idx) (idx = n - 1 \<and> c \<noteq> ''normal'')))) @ v"
  unfolding scoreStep_def prod.case Let_def isDecider_def [symmetric]
  by (auto split: prod.split)

lemma fold_scoreStep_violations:
  assumes "Violations (fold (scoreStep cfg c n) (enumerate k xs) t) = []"
  shows "Violations t = [] \<and> (\<forall>i < length xs.
    snd (snd (validateSet (xs ! i) (isDecider cfg (k + i)) (k + i = n - 1 \<and> c \<noteq> ''normal''))) = [])"
  using assms
proof (induction xs arbitrary: k t)
  case (Cons x xs)
  obtain v where v: "Violations (scoreStep cfg c n (k, x) t) = Violations t
     @ map (\<lambda>y. y\<lparr>VSet := int k + 1\<rparr>)
         (snd (snd (validateSet x (isDecider cfg k) (k = n - 1 \<and> c \<noteq> ''normal'')))) @ v"
    using scoreStep_violations by blast
  have IH: "Violations (scoreStep cfg c n (k, x) t) = [] \<and> (\<forall>i < length xs.
    snd (snd (validateSet (xs ! i) (isDecider cfg (Suc k + i)) (Suc k + i = n - 1 \<and> c \<noteq> ''normal''))) = [])"
    by (rule Cons.IH) (use Cons.prems in simp)
  show ?case
  proof (intro conjI allI impI)
    show "Violations t = []" using IH v by simp
    fix i assume "i < length (x # xs)"
    then show "snd (snd (validateSet ((x # xs) ! i) (isDecider cfg (k + i))
        (k + i = n - 1 \<and> c \<noteq> ''normal''))) = []"
      using IH v by (cases i) auto
  qed
qed simp

lemma validateSet_full:
  assumes "snd (snd (validateSet st d False)) = []"
  obtains w where "set_won_by d st w"
proof -
  have "\<not> set_nonneg st \<Longrightarrow> snd (snd (validateSet st d False)) \<noteq> []"
    by (simp add: validateSet_def set_nonneg_def Let_def)
  with assms have n: "set_nonneg st" by blast
  have p: "snd (snd (partialSet h l False)) \<noteq> []" for h l
    by (simp add: partialSet_def Let_def)
  have t: "snd (snd (tiebreakSet st side False)) = [] \<Longrightarrow> fst (snd (tiebreakSet st side False))" for side
    by (auto simp: tiebreakSet_def Let_def split: option.splits if_splits)
  have c: "snd (snd (deciderSet st False)) = [] \<Longrightarrow> fst (snd (deciderSet st False))"
    by (auto simp: deciderSet_def Let_def split: if_splits)
  have r: "snd (snd (regularSet st h l side False)) = [] \<Longrightarrow> fst (snd (regularSet st h l side False))"
    for h l side
    using p t unfolding regularSet_def by (auto split: if_splits)
  have "fst (snd (validateSet st d False))"
  proof (cases d)
    case True
    then have "validateSet st d False = deciderSet st False"
      using n by (simp add: validateSet_def set_nonneg_def Let_def)
    then show ?thesis using c assms by simp
  next
    case False
    then show ?thesis using r assms n by (simp add: validateSet_regular split: if_splits)
  qed
  then obtain w where "validateSet st d False = (w, True, [])"
    using assms by (metis (full_types) prod.collapse)
  then show ?thesis using that by (simp add: validateSet_complete)
qed

lemma set_won_by_side: "set_won_by d st w \<Longrightarrow> w = 1 \<or> w = 2"
  by (auto simp: set_won_by_def)

lemma set_won_by_unique: "set_won_by d st w \<Longrightarrow> set_won_by d st w' \<Longrightarrow> w = w'"
  using side1_wins_more [of d st] side1_wins_more [of d "swap_set st"]
  by (auto simp: set_won_by_def)

lemma find_misnumbered:
  "List.find (\<lambda>(i, st). SetNumber st \<noteq> int i + 1) (enumerate k xs) = None
   \<longleftrightarrow> map SetNumber xs = map (\<lambda>i. int i + 1) [k..<k + length xs]"
proof (induction xs arbitrary: k)
  case (Cons x xs)
  have "[k..<k + length (x # xs)] = k # [Suc k..<Suc k + length xs]"
    by (simp add: upt_conv_Cons del: upt_Suc)
  then show ?case using Cons.IH [of "Suc k"] by auto
qed simp

lemma misnumbered_None:
  "misnumbered ordered = None \<longleftrightarrow> map SetNumber ordered = map (\<lambda>i. int i + 1) [0..<length ordered]"
  using find_misnumbered [of 0 ordered] by (simp add: misnumbered_def)

subsection \<open>A normal completion is accepted exactly for a won match\<close>

definition play :: "int \<Rightarrow> int list \<Rightarrow> tally" where
  "play target ws = fold (winStep target) (enumerate 0 ws) (tally0 [])"

text \<open>Best of 1 and best of 3: every sequence of set winners the validation can meet.\<close>

lemma play_best_of_1:
  assumes "set ws \<subseteq> {1, 2}" and "length ws \<le> 1"
  shows "finishScore ''normal'' (length ws) 0 (play 1 ws) = (w, ''completed'', [])
    \<longleftrightarrow> ws \<noteq> [] \<and> last ws = w \<and> int (count_list ws w) = 1 \<and> int (length ws - count_list ws w) < 1"
proof (cases ws)
  case Nil
  then show ?thesis by (simp add: play_def tally0_def finishScore_def)
next
  case (Cons a xs)
  then have "ws = [a]" "a = 1 \<or> a = 2" using assms by auto
  then show ?thesis
    by (elim disjE) (auto simp: play_def winStep_def tally0_def finishScore_def statusForCompletion_def)
qed

lemma play_best_of_3:
  assumes "set ws \<subseteq> {1, 2}" and "length ws \<le> 3"
  shows "finishScore ''normal'' (length ws) 0 (play 2 ws) = (w, ''completed'', [])
    \<longleftrightarrow> ws \<noteq> [] \<and> last ws = w \<and> int (count_list ws w) = 2 \<and> int (length ws - count_list ws w) < 2"
proof -
  have s: "statusForCompletion ''normal'' = ''completed''" by (simp add: statusForCompletion_def)
  note defs = play_def winStep_def tally0_def finishScore_def s
  consider "ws = []" | a where "ws = [a]" | a b where "ws = [a, b]" | a b c where "ws = [a, b, c]"
    using assms(2) by (cases ws; cases "tl ws"; cases "tl (tl ws)") auto
  then show ?thesis
  proof cases
    case 1
    then show ?thesis by (simp add: defs)
  next
    case (2 a)
    then have "a = 1 \<or> a = 2" using assms(1) by auto
    with 2 show ?thesis by (elim disjE) (auto simp: defs)
  next
    case (3 a b)
    then have "a = 1 \<or> a = 2" "b = 1 \<or> b = 2" using assms(1) by auto
    with 3 show ?thesis by (elim disjE) (auto simp: defs)
  next
    case (4 a b c)
    then have "a = 1 \<or> a = 2" "b = 1 \<or> b = 2" "c = 1 \<or> c = 2" using assms(1) by auto
    with 4 show ?thesis by (elim disjE) (auto simp: defs)
  qed
qed

lemma play_decides:
  assumes "valid_config cfg" and "set ws \<subseteq> {1, 2}" and "int (length ws) \<le> BestOf cfg"
  shows "finishScore ''normal'' (length ws) 0 (play (setsToWin cfg) ws) = (w, ''completed'', [])
    \<longleftrightarrow> ws \<noteq> [] \<and> last ws = w \<and> int (count_list ws w) = setsToWin cfg
      \<and> int (length ws - count_list ws w) < setsToWin cfg"
proof -
  from assms(1) consider "BestOf cfg = 1" | "BestOf cfg = 3" by (auto simp: valid_config_def)
  then show ?thesis
  proof cases
    case 1
    then have "setsToWin cfg = 1" "length ws \<le> 1" using assms(3) by (auto simp: setsToWin_def)
    then show ?thesis using play_best_of_1 [OF assms(2)] by simp
  next
    case 2
    then have "setsToWin cfg = 2" "length ws \<le> 3" using assms(3) by (auto simp: setsToWin_def)
    then show ?thesis using play_best_of_3 [OF assms(2)] by simp
  qed
qed

lemma tallySets_won:
  assumes "length ws = length xs"
    and "\<forall>i < length xs. set_won_by (isDecider cfg i) (xs ! i) (ws ! i)"
  shows "tallySets cfg c xs [] = play (setsToWin cfg) ws"
  unfolding tallySets_def play_def using fold_scoreStep_won [of ws xs cfg 0] assms by simp

lemma tallySets_normal_won:
  assumes "Violations (tallySets cfg ''normal'' xs []) = []"
  obtains ws where "length ws = length xs"
    and "\<forall>i < length xs. set_won_by (isDecider cfg i) (xs ! i) (ws ! i)"
proof -
  have "\<forall>i < length xs. \<exists>w. set_won_by (isDecider cfg i) (xs ! i) w"
  proof (intro allI impI)
    fix i assume "i < length xs"
    then have "snd (snd (validateSet (xs ! i) (isDecider cfg i) False)) = []"
      using fold_scoreStep_violations [of cfg "''normal''" "length xs" 0 xs "tally0 []"] assms
      by (simp add: tallySets_def)
    then show "\<exists>w. set_won_by (isDecider cfg i) (xs ! i) w" by (rule validateSet_full) blast
  qed
  then obtain f where "\<forall>i < length xs. set_won_by (isDecider cfg i) (xs ! i) (f i)" by metis
  then show ?thesis by (intro that [of "map f [0..<length xs]"]) simp_all
qed

lemma ValidateScore_normal:
  "ValidateScore cfg sets ''normal'' 0 = (w, ''completed'', []) \<longleftrightarrow>
     (sets \<noteq> [] \<and> misnumbered (sort_key SetNumber sets) = None
      \<and> int (length sets) \<le> BestOf cfg
      \<and> finishScore ''normal'' (length sets) 0 (tallySets cfg ''normal'' (sort_key SetNumber sets) [])
          = (w, ''completed'', []))"
  by (auto simp: ValidateScore_def completions_def winnerViolations_def Let_def
      split: option.splits if_splits)

lemma winner_sides:
  assumes "length ws = length xs"
    and "\<forall>i < length xs. set_won_by (isDecider cfg i) (xs ! i) (ws ! i)"
  shows "set ws \<subseteq> {1, 2}"
proof
  fix w assume "w \<in> set ws"
  then obtain i where "i < length xs" "w = ws ! i" using assms(1) by (auto simp: in_set_conv_nth)
  then show "w \<in> {1, 2}" using assms(2) set_won_by_side by blast
qed

text \<open>C7. \<open>ValidateScore\<close> accepts a submission as normally completed with winner \<open>w\<close> if and only if
  it is a won match: sets numbered from 1 without gaps, at most \<open>BestOf\<close> of them, every set won
  by one side under the rules for its place (regular set or deciding match tiebreak), and \<open>w\<close>
  takes the sets needed with the last set, so no set is played after the decision.\<close>

theorem normal_score_accepted_iff_won:
  assumes "valid_config cfg"
  shows "ValidateScore cfg sets ''normal'' 0 = (w, ''completed'', [])
    \<longleftrightarrow> int (length sets) \<le> BestOf cfg \<and> (\<exists>ws. match_won_by cfg (sort_key SetNumber sets) ws w)"
proof -
  let ?o = "sort_key SetNumber sets"
  have len: "length ?o = length sets" by simp
  show ?thesis
  proof
    assume L: "ValidateScore cfg sets ''normal'' 0 = (w, ''completed'', [])"
    then have n: "misnumbered ?o = None" "int (length sets) \<le> BestOf cfg"
      and f: "finishScore ''normal'' (length sets) 0 (tallySets cfg ''normal'' ?o []) = (w, ''completed'', [])"
      unfolding ValidateScore_normal by blast+
    from f have "Violations (tallySets cfg ''normal'' ?o []) = []"
      by (auto simp: finishScore_def split: if_splits)
    then obtain ws where ws: "length ws = length ?o"
      "\<forall>i < length ?o. set_won_by (isDecider cfg i) (?o ! i) (ws ! i)" by (rule tallySets_normal_won)
    have "set ws \<subseteq> {1, 2}" by (rule winner_sides [OF ws])
    then have "ws \<noteq> [] \<and> last ws = w \<and> int (count_list ws w) = setsToWin cfg
      \<and> int (length ws - count_list ws w) < setsToWin cfg"
      using f play_decides [OF assms, of ws w] ws(1) n(2) unfolding tallySets_won [OF ws] by simp
    then show "int (length sets) \<le> BestOf cfg \<and> (\<exists>ws. match_won_by cfg ?o ws w)"
      using n ws unfolding match_won_by_def misnumbered_None by blast
  next
    assume "int (length sets) \<le> BestOf cfg \<and> (\<exists>ws. match_won_by cfg ?o ws w)"
    then obtain ws where n: "int (length sets) \<le> BestOf cfg" and m: "match_won_by cfg ?o ws w" by blast
    from m have ws: "length ws = length ?o"
      "\<forall>i < length ?o. set_won_by (isDecider cfg i) (?o ! i) (ws ! i)"
      by (auto simp: match_won_by_def)
    have "set ws \<subseteq> {1, 2}" by (rule winner_sides [OF ws])
    then have "finishScore ''normal'' (length ws) 0 (play (setsToWin cfg) ws) = (w, ''completed'', [])"
      using play_decides [OF assms, of ws w] m ws(1) n unfolding match_won_by_def by simp
    moreover have "misnumbered ?o = None" "sets \<noteq> []"
      using m ws(1) unfolding misnumbered_None by (auto simp: match_won_by_def)
    ultimately show "ValidateScore cfg sets ''normal'' 0 = (w, ''completed'', [])"
      using n ws(1) unfolding ValidateScore_normal tallySets_won [OF ws] by simp
  qed
qed

definition sample_sets :: "set_score list" where
  "sample_sets =
     [\<lparr>SetNumber = 2, P1Games = 6, P2Games = 7, P1Tiebreak = Some 5, P2Tiebreak = Some 7\<rparr>,
      \<lparr>SetNumber = 1, P1Games = 6, P2Games = 4, P1Tiebreak = None, P2Tiebreak = None\<rparr>,
      \<lparr>SetNumber = 3, P1Games = 5, P2Games = 7, P1Tiebreak = None, P2Tiebreak = None\<rparr>]"

theorem normal_score_accepted_iff_won_witness:
  "ValidateScore DefaultScoringConfig sample_sets ''normal'' 0 = (2, ''completed'', [])"
proof -
  have o: "sort_key SetNumber sample_sets = [sample_sets ! 1, sample_sets ! 0, sample_sets ! 2]"
    by (simp add: sample_sets_def)
  have "match_won_by DefaultScoringConfig (sort_key SetNumber sample_sets) [1, 2, 2] 2"
    unfolding match_won_by_def o
    by (auto simp: sample_sets_def DefaultScoringConfig_def set_won_by_def side1_regular isDecider_def
        setsToWin_def less_Suc_eq tiebreak_won_def numeral_2_eq_2)
  moreover have "int (length sample_sets) \<le> BestOf DefaultScoringConfig"
    by (simp add: sample_sets_def DefaultScoringConfig_def)
  ultimately show ?thesis using normal_score_accepted_iff_won [OF valid_default] by blast
qed

subsection \<open>What every accepted submission has\<close>

lemma finishScore_result:
  assumes "finishScore c n slot t = (w, s, v)"
  shows "(v \<noteq> [] \<longrightarrow> w = 0 \<and> s = [])
    \<and> (v = [] \<longrightarrow> Violations t = [] \<and> s = statusForCompletion c
        \<and> (if c = ''normal'' then w \<in> {1, 2} else w = slot))"
  using assms by (auto simp: finishScore_def split: if_splits)

lemma tallySets_violations: "Violations (tallySets cfg c xs v) = [] \<Longrightarrow> v = []"
  using fold_scoreStep_violations [of cfg c "length xs" 0 xs "tally0 v"]
  by (simp add: tallySets_def tally0_def)

lemma ValidateScore_cases:
  assumes "ValidateScore cfg sets c slot = (w, s, v)" and "c \<in> set completions"
  obtains "v \<noteq> []" "w = 0" "s = []"
  | "c = ''walkover''" "v = []" "winnerViolations c slot = []" "sets = []" "w = slot"
      "s = statusForCompletion c"
  | "c \<noteq> ''walkover''" "sets \<noteq> [] \<or> c = ''cancelled''" "misnumbered (sort_key SetNumber sets) = None"
      "int (length sets) \<le> BestOf cfg"
      "finishScore c (length sets) slot
         (tallySets cfg c (sort_key SetNumber sets) (winnerViolations c slot)) = (w, s, v)"
proof -
  show ?thesis
  proof (cases "c = ''walkover''")
    case True
    have e: "ValidateScore cfg sets c slot =
        (let v = (if length sets > 0 then winnerViolations c slot @ [viol [] ''sets.walkover'']
                  else winnerViolations c slot)
         in if length v > 0 then (0, [], v) else (slot, statusForCompletion c, []))"
      using assms(2) True unfolding ValidateScore_def Let_def by (simp only: if_True if_False simp_thms)
    show ?thesis
    proof (cases "sets = [] \<and> winnerViolations c slot = []")
      case ok: True
      then have "v = []" "w = slot" "s = statusForCompletion c"
        using assms(1) unfolding e by simp_all
      then show ?thesis using that(2) True ok by blast
    next
      case False
      then have "v \<noteq> []" "w = 0" "s = []"
        using assms(1) unfolding e by (auto simp: Let_def split: if_splits)
      then show ?thesis by (rule that(1))
    qed
  next
    case False
    let ?o = "sort_key SetNumber sets"
    have e: "ValidateScore cfg sets c slot =
       (if length sets = 0 \<and> c \<noteq> ''cancelled''
        then (0, [], winnerViolations c slot @ [viol [] ''sets.required''])
        else case misnumbered ?o of
            Some (i, st) \<Rightarrow> (0, [], winnerViolations c slot
               @ [\<lparr>VSet = SetNumber st, VField = ''set_number'', VRule = ''sets.numbering''\<rparr>])
          | None \<Rightarrow>
              if int (length ?o) > BestOf cfg
              then (0, [], winnerViolations c slot @ [viol [] ''sets.too_many''])
              else finishScore c (length ?o) slot (tallySets cfg c ?o (winnerViolations c slot)))"
      using assms(2) False unfolding ValidateScore_def Let_def by (simp only: if_False simp_thms)
    show ?thesis
    proof (cases "(sets \<noteq> [] \<or> c = ''cancelled'') \<and> misnumbered ?o = None \<and> int (length sets) \<le> BestOf cfg")
      case ok: True
      then have "finishScore c (length sets) slot (tallySets cfg c ?o (winnerViolations c slot)) = (w, s, v)"
        using assms(1) unfolding e by auto
      then show ?thesis by (rule that(3) [rotated -1]) (use False ok in auto)
    next
      case bad: False
      then have "v \<noteq> [] \<and> w = 0 \<and> s = []"
        using assms(1) unfolding e by (auto split: if_splits option.splits)
      then show ?thesis using that(1) by blast
    qed
  qed
qed

text \<open>C8. The contract \<open>SubmitScore\<close> relies on: a rejected submission yields no winner and no status;
  an accepted one yields the status of its completion, a winner side for exactly the completions
  normal, walkover and retired, and for the last two the side the organizer named.\<close>

theorem ValidateScore_result:
  assumes "ValidateScore cfg sets c slot = (w, s, v)"
  shows "(v \<noteq> [] \<longrightarrow> w = 0 \<and> s = [])
    \<and> (v = [] \<longrightarrow> c \<in> set completions \<and> s = statusForCompletion c
        \<and> (if c \<in> {''normal'', ''walkover'', ''retired''} then w \<in> {1, 2} else w = 0)
        \<and> (c \<in> {''walkover'', ''retired''} \<longrightarrow> w = slot))"
proof (cases "c \<in> set completions")
  case False
  then show ?thesis using assms by (auto simp: ValidateScore_def)
next
  case True
  have wv: "winnerViolations c slot = [] \<Longrightarrow>
      (if c \<in> {''walkover'', ''retired''} then slot \<in> {1, 2} else slot = 0)"
    by (auto simp: winnerViolations_def split: if_splits)
  from assms True show ?thesis
  proof (cases rule: ValidateScore_cases)
    case 3
    have "v = [] \<Longrightarrow> winnerViolations c slot = []"
      using finishScore_result [OF 3(5)] tallySets_violations by blast
    then show ?thesis using finishScore_result [OF 3(5)] 3(1) True wv by auto
  qed (use True wv in auto)
qed

theorem ValidateScore_result_witness:
  "ValidateScore DefaultScoringConfig [] ''walkover'' 2 = (2, ''walkover'', []) \<and> (2::int) \<in> {1, 2}"
proof -
  have e: "ValidateScore DefaultScoringConfig [] ''walkover'' 2 = (2, ''walkover'', [])"
    by (simp add: ValidateScore_def completions_def winnerViolations_def statusForCompletion_def)
  from ValidateScore_result [OF e] have "(2::int) \<in> {1, 2}" by simp
  with e show ?thesis by blast
qed

subsection \<open>The rules treat both sides alike\<close>

definition swap_result :: "int \<times> string \<times> violation list \<Rightarrow> int \<times> string \<times> violation list" where
  "swap_result r = (swap_side (fst r), snd r)"

lemma swap_set_won_by: "set_won_by d (swap_set st) (swap_side w) \<longleftrightarrow> set_won_by d st w"
  by (auto simp: set_won_by_def swap_side_def)

lemma deciderSet_swap:
  "snd (deciderSet (swap_set st) p) = snd (deciderSet st p)"
  by (auto simp: deciderSet_def Let_def)

lemma tiebreakSet_swap:
  assumes "side \<in> {1, 2}"
  shows "snd (tiebreakSet (swap_set st) (swap_side side) p) = snd (tiebreakSet st side p)"
  using assms by (auto simp: tiebreakSet_def Let_def swap_side_def split: option.split)

lemma regularSet_swap:
  assumes "side \<in> {1, 2}"
  shows "snd (regularSet (swap_set st) h l (swap_side side) p) = snd (regularSet st h l side p)"
  using tiebreakSet_swap [OF assms] by (auto simp: regularSet_def)

lemma regularSet_tie: "regularSet st g g side p = partialSet g g p"
proof -
  have "\<not> (g = 6 \<and> g \<le> 4)" "\<not> (g = 7 \<and> g = 5)" "\<not> (g = 7 \<and> g = 6)" by auto
  then show ?thesis by (simp only: regularSet_def if_False simp_thms)
qed

lemma validateSet_swap_snd: "snd (validateSet (swap_set st) d p) = snd (validateSet st d p)"
proof (cases "set_nonneg st")
  case False
  then have "\<not> set_nonneg (swap_set st)" by simp
  with False show ?thesis by (simp add: validateSet_def set_nonneg_def Let_def)
next
  case nonneg: True
  then have n': "set_nonneg (swap_set st)" by simp
  show ?thesis
  proof (cases d)
    case True
    then show ?thesis using nonneg n' deciderSet_swap
      by (simp add: validateSet_def set_nonneg_def Let_def)
  next
    case False
    have sw: "swap_side 1 = 2" "swap_side 2 = 1" by (simp_all add: swap_side_def)
    consider "P1Games st < P2Games st" | "P2Games st < P1Games st" | "P1Games st = P2Games st" by linarith
    then show ?thesis
    proof cases
      case 1
      then show ?thesis using False regularSet_swap [of 2 st "P2Games st" "P1Games st" p] sw
        by (simp add: validateSet_regular [OF nonneg] validateSet_regular [OF n'])
    next
      case 2
      then show ?thesis using False regularSet_swap [of 1 st "P1Games st" "P2Games st" p] sw
        by (simp add: validateSet_regular [OF nonneg] validateSet_regular [OF n'])
    next
      case 3
      then show ?thesis using False
        by (simp add: validateSet_regular [OF nonneg] validateSet_regular [OF n'] regularSet_tie)
    qed
  qed
qed

lemma regularSet_incomplete: "regularSet st h l side p = (w, False, v) \<Longrightarrow> w = 0"
proof -
  have "tiebreakSet st side p = (w, False, v) \<Longrightarrow> w = 0"
    by (auto simp: tiebreakSet_def Let_def split: option.splits if_splits)
  moreover have "partialSet h l p = (w, False, v) \<Longrightarrow> w = 0"
    by (auto simp: partialSet_def Let_def split: if_splits)
  moreover assume "regularSet st h l side p = (w, False, v)"
  ultimately show "w = 0" unfolding regularSet_def by (simp split: if_splits)
qed

lemma validateSet_incomplete:
  assumes "validateSet st d p = (w, False, v)"
  shows "w = 0"
proof (cases "set_nonneg st")
  case False
  then show ?thesis using assms by (simp add: validateSet_def set_nonneg_def Let_def)
next
  case nonneg: True
  show ?thesis
  proof (cases d)
    case True
    then have "deciderSet st p = (w, False, v)"
      using nonneg assms by (simp add: validateSet_def set_nonneg_def Let_def)
    then show ?thesis by (auto simp: deciderSet_def Let_def split: if_splits)
  next
    case False
    then show ?thesis using assms regularSet_incomplete
      unfolding validateSet_regular [OF nonneg] by (metis (full_types) validateSet_regular [OF nonneg])
  qed
qed

lemma validateSet_swap:
  "validateSet (swap_set st) d p = (let (w, r) = validateSet st d p in (swap_side w, r))"
proof -
  obtain w c v where e: "validateSet st d p = (w, c, v)" by (cases "validateSet st d p")
  obtain w' where e': "validateSet (swap_set st) d p = (w', c, v)"
    using validateSet_swap_snd [of st d p] e by (cases "validateSet (swap_set st) d p") auto
  have "w' = swap_side w"
  proof (cases c)
    case True
    then have "set_won_by d (swap_set st) w'" "set_won_by d (swap_set st) (swap_side w)"
      using e e' by (simp_all add: validateSet_complete swap_set_won_by)
    then show ?thesis by (rule set_won_by_unique)
  next
    case False
    then show ?thesis using e e' validateSet_incomplete [of st d p w v]
        validateSet_incomplete [of "swap_set st" d p w' v] by (simp add: swap_side_def)
  qed
  then show ?thesis using e e' by simp
qed

lemma set_won_by_games: "set_won_by d st w \<Longrightarrow> 0 < P1Games st \<or> 0 < P2Games st"
  by (auto simp: set_won_by_def side1_wins_def Let_def split: if_splits)

definition swap_tally :: "tally \<Rightarrow> tally" where
  "swap_tally t = t\<lparr>Won1 := Won2 t, Won2 := Won1 t\<rparr>"

text \<open>Both counters stay below the target until one of them decides the match.\<close>

definition tally_inv :: "int \<Rightarrow> tally \<Rightarrow> bool" where
  "tally_inv target t \<longleftrightarrow> 0 \<le> DecidedAfter t
     \<and> (DecidedAfter t = 0 \<longrightarrow> Won1 t < target \<and> Won2 t < target)
     \<and> (0 < DecidedAfter t \<longrightarrow> Won1 t = target \<and> Won2 t < target \<or> Won1 t < target \<and> Won2 t = target)"

text \<open>The loop body after the set has been validated.\<close>

definition countSet :: "int \<Rightarrow> int \<Rightarrow> set_score \<Rightarrow> int \<times> bool \<times> violation list \<Rightarrow> tally \<Rightarrow> tally" where
  "countSet target setNo st r t = (case r of (winner, complete, sv) \<Rightarrow>
     let t = t\<lparr>Violations := Violations t @ map (\<lambda>x. x\<lparr>VSet := setNo\<rparr>) sv\<rparr>
     in if DecidedAfter t > 0 \<and> (complete \<or> P1Games st > 0 \<or> P2Games st > 0)
        then t\<lparr>Violations := Violations t @ [\<lparr>VSet = setNo, VField = [], VRule = ''sets.after_decided''\<rparr>]\<rparr>
        else if complete then
          let t = (if winner = 1 then t\<lparr>Won1 := Won1 t + 1\<rparr> else t\<lparr>Won2 := Won2 t + 1\<rparr>)
          in if DecidedAfter t = 0 \<and> (Won1 t = target \<or> Won2 t = target)
             then t\<lparr>DecidedAfter := setNo\<rparr> else t
        else t)"

lemma scoreStep_countSet:
  "scoreStep cfg c n (idx, st) t = countSet (setsToWin cfg) (int idx + 1) st
     (validateSet st (isDecider cfg idx) (idx = n - 1 \<and> c \<noteq> ''normal'')) t"
  unfolding scoreStep_def countSet_def prod.case Let_def isDecider_def [symmetric] setsToWin_def [symmetric]
  by (rule refl)

lemma countSet_inv:
  assumes "tally_inv target t" and "0 < setNo"
  shows "tally_inv target (countSet target setNo st r t)"
proof -
  obtain w c v where r: "r = (w, c, v)" by (cases r)
  show ?thesis
    using assms unfolding r countSet_def prod.case tally_inv_def Let_def
    by (cases c; cases "w = 1"; cases "0 < DecidedAfter t") auto
qed

lemma countSet_swap:
  assumes "c \<Longrightarrow> w = 1 \<or> w = 2"
  shows "countSet target setNo (swap_set st) (swap_side w, c, v) (swap_tally t)
    = swap_tally (countSet target setNo st (w, c, v) t)"
proof (cases "c \<and> \<not> 0 < DecidedAfter t")
  case True
  then have "w = 1 \<or> w = 2" using assms by blast
  then show ?thesis using True
    by (elim disjE) (auto simp: countSet_def Let_def swap_tally_def swap_side_def)
next
  case False
  then consider "\<not> c" "\<not> 0 < DecidedAfter t" | "0 < DecidedAfter t" by blast
  then show ?thesis
    by cases (simp_all add: countSet_def Let_def swap_tally_def disj_commute)
qed

lemma scoreStep_swap:
  "scoreStep cfg c n (idx, swap_set st) (swap_tally t) = swap_tally (scoreStep cfg c n (idx, st) t)"
proof -
  obtain w k v where e: "validateSet st (isDecider cfg idx) (idx = n - 1 \<and> c \<noteq> ''normal'') = (w, k, v)"
    by (cases "validateSet st (isDecider cfg idx) (idx = n - 1 \<and> c \<noteq> ''normal'')") auto
  have "k \<Longrightarrow> w = 1 \<or> w = 2"
  proof -
    assume k
    with e have "set_won_by (isDecider cfg idx) st w" by (simp add: validateSet_complete)
    then show "w = 1 \<or> w = 2" by (rule set_won_by_side)
  qed
  then show ?thesis
    unfolding scoreStep_countSet validateSet_swap e Let_def prod.case by (rule countSet_swap)
qed

lemma fold_scoreStep_swap:
  "fold (scoreStep cfg c n) (enumerate k (map swap_set xs)) (swap_tally t)
    = swap_tally (fold (scoreStep cfg c n) (enumerate k xs) t)"
  by (induction xs arbitrary: k t) (simp_all add: scoreStep_swap)

lemma fold_scoreStep_inv:
  "tally_inv (setsToWin cfg) t \<Longrightarrow>
   tally_inv (setsToWin cfg) (fold (scoreStep cfg c n) (enumerate k xs) t)"
  by (induction xs arbitrary: k t) (simp_all add: scoreStep_countSet countSet_inv)

lemma tallySets_swap: "tallySets cfg c (map swap_set xs) v = swap_tally (tallySets cfg c xs v)"
  using fold_scoreStep_swap [of cfg c "length xs" 0 xs "tally0 v"]
  by (simp add: tallySets_def tally0_def swap_tally_def)

lemma tallySets_inv: "valid_config cfg \<Longrightarrow> tally_inv (setsToWin cfg) (tallySets cfg c xs v)"
  unfolding tallySets_def
  by (rule fold_scoreStep_inv) (auto simp: tally_inv_def tally0_def setsToWin_def valid_config_def)

lemma finishScore_swap:
  assumes "tally_inv target t"
  shows "finishScore c n (swap_side slot) (swap_tally t) = swap_result (finishScore c n slot t)"
  using assms unfolding finishScore_def swap_tally_def swap_result_def swap_side_def tally_inv_def
  by (cases "DecidedAfter t = 0") auto

lemma insort_swap: "insort_key SetNumber (swap_set x) (map swap_set xs) = map swap_set (insort_key SetNumber x xs)"
  by (induction xs) auto

lemma sort_swap: "sort_key SetNumber (map swap_set xs) = map swap_set (sort_key SetNumber xs)"
  by (induction xs) (simp_all add: sort_key_simps insort_swap)

lemma find_misnumbered_swap:
  "List.find (\<lambda>(i, st). SetNumber st \<noteq> int i + 1) (enumerate k (map swap_set xs))
   = map_option (\<lambda>(i, st). (i, swap_set st))
       (List.find (\<lambda>(i, st). SetNumber st \<noteq> int i + 1) (enumerate k xs))"
  by (induction xs arbitrary: k) auto

text \<open>C9. \<open>ValidateScore\<close> treats both sides alike: with the games, tiebreaks and the named winner
  of the two sides exchanged it returns the exchanged winner, the same status and the same
  violations.\<close>

theorem ValidateScore_fair:
  assumes "valid_config cfg"
  shows "ValidateScore cfg (map swap_set sets) c (swap_side slot)
    = swap_result (ValidateScore cfg sets c slot)"
proof -
  have w: "winnerViolations c (swap_side slot) = winnerViolations c slot"
    by (auto simp: winnerViolations_def swap_side_def)
  have m: "misnumbered (map swap_set xs) = map_option (\<lambda>(i, st). (i, swap_set st)) (misnumbered xs)" for xs
    unfolding misnumbered_def by (rule find_misnumbered_swap)
  have f: "finishScore c n (swap_side slot) (tallySets cfg c (map swap_set xs) v)
      = swap_result (finishScore c n slot (tallySets cfg c xs v))" for n xs v
    unfolding tallySets_swap by (rule finishScore_swap [OF tallySets_inv [OF assms]])
  have z: "swap_result (0, r) = (0, r)" for r by (simp add: swap_result_def swap_side_def)
  have s: "swap_result (slot, r) = (swap_side slot, r)" for r by (simp add: swap_result_def)
  show ?thesis
    unfolding ValidateScore_def Let_def sort_swap m w length_map f
    by (simp add: z s split: option.split)
qed

theorem ValidateScore_fair_witness:
  "ValidateScore DefaultScoringConfig (map swap_set sample_sets) ''normal'' 0
    = swap_result (ValidateScore DefaultScoringConfig sample_sets ''normal'' 0)"
  using ValidateScore_fair [OF valid_default, of sample_sets "''normal''" 0]
  by (simp add: swap_side_def)

subsection \<open>The order of the submitted sets does not matter\<close>

lemma find_misnumbered_numbers:
  assumes "map SetNumber xs = map SetNumber ys"
  shows "map_option (\<lambda>x. SetNumber (snd x))
      (List.find (\<lambda>(i, st). SetNumber st \<noteq> int i + 1) (enumerate k xs))
    = map_option (\<lambda>x. SetNumber (snd x))
      (List.find (\<lambda>(i, st). SetNumber st \<noteq> int i + 1) (enumerate k ys))"
  using assms
proof (induction xs arbitrary: ys k)
  case (Cons x xs)
  then obtain y ys' where "ys = y # ys'" by (cases ys) auto
  with Cons show ?case by simp
qed simp

text \<open>\<open>ValidateScore\<close> depends only on the submitted sets, not on their order in the request.\<close>

theorem ValidateScore_order:
  assumes "mset sets = mset sets'"
  shows "ValidateScore cfg sets c slot = ValidateScore cfg sets' c slot"
proof -
  let ?o = "sort_key SetNumber sets" and ?o' = "sort_key SetNumber sets'"
  have len: "length sets = length sets'" using assms by (metis size_mset)
  have nums: "map SetNumber ?o = map SetNumber ?o'"
  proof -
    have "mset (map SetNumber ?o') = mset (map SetNumber ?o)" using assms by simp
    then have "sort (map SetNumber ?o) = map SetNumber ?o'"
      by (rule properties_for_sort) (rule sorted_sort_key)
    moreover have "sort (map SetNumber ?o) = map SetNumber ?o"
      by (rule sorted_sort_id) (rule sorted_sort_key)
    ultimately show ?thesis by simp
  qed
  have find: "map_option (\<lambda>x. SetNumber (snd x)) (misnumbered ?o)
      = map_option (\<lambda>x. SetNumber (snd x)) (misnumbered ?o')"
    unfolding misnumbered_def by (rule find_misnumbered_numbers [OF nums])
  have eq: "?o = ?o'" if "misnumbered ?o = None"
  proof -
    have "map SetNumber ?o = map (\<lambda>i. int i + 1) [0..<length ?o]" using that by (simp only: misnumbered_None)
    then have "distinct (map SetNumber ?o)" by (simp add: distinct_map inj_on_def)
    moreover have "mset (map SetNumber sets) = mset (map SetNumber ?o)" by simp
    ultimately have "distinct (map SetNumber sets)" by (metis mset_eq_imp_distinct_iff)
    then have "inj_on SetNumber (set sets)" by (simp add: distinct_map)
    moreover have "set sets' = set sets" by (rule mset_eq_setD [OF assms [symmetric]])
    ultimately show ?thesis by (intro map_inj_on [OF nums]) simp
  qed
  show ?thesis
  proof (cases "misnumbered ?o")
    case None
    then show ?thesis unfolding ValidateScore_def Let_def eq [OF None] len by simp
  next
    case (Some p)
    with find obtain p' where p': "misnumbered ?o' = Some p'" "SetNumber (snd p') = SetNumber (snd p)"
      by (cases "misnumbered ?o'") simp_all
    show ?thesis unfolding ValidateScore_def Let_def len Some p'(1) option.case case_prod_unfold p'(2)
      by (rule refl)
  qed
qed

theorem ValidateScore_order_witness:
  "ValidateScore DefaultScoringConfig sample_sets ''normal'' 0
    = ValidateScore DefaultScoringConfig (rev sample_sets) ''normal'' 0"
  by (rule ValidateScore_order) simp

end
