(* ===== verification/Database.thy ===== *)
theory Database
  imports Scoring
begin

section \<open>The database and the audit log\<close>

text \<open>
  The tables the services share, as lists of rows with the columns the modelled statements read or
  write (db/migrations). \<open>gen_random_uuid()\<close> is the supply \<open>UuidGen\<close> with the number of values
  already drawn; \<open>fresh_supply\<close> states what the code relies on, that a drawn value is new. A
  service operation maps the request context and the database to an error, which leaves the
  database as it was (its transaction rolls back), or to its result and the new database.
  \<open>Collation\<close> is the rank of a text in the sort order of the database. Rows a query leaves
  unordered come in table order. Connection failures are not modelled; violated column ranges and constraints are errors.

  \<open>attribute\<close>, \<open>actorOrNil\<close> and \<open>RecordTx\<close> model internal/audit/service.go.
\<close>

subsection \<open>UUID text\<close>

definition hex_digit :: "nat \<Rightarrow> char" where
  "hex_digit n = (if n < 10 then char_of (48 + n) else char_of (87 + n))"

definition hex_digits :: "nat \<Rightarrow> nat \<Rightarrow> string" where
  "hex_digits k n = map (\<lambda>i. hex_digit (n div 16 ^ i mod 16)) (rev [0..<k])"

text \<open>\<open>uuid.UUID.String()\<close>: 32 lower-case hexadecimal digits in groups of 8, 4, 4, 4 and 12.\<close>

definition uuid_str :: "uuid \<Rightarrow> string" where
  "uuid_str u = (let h = hex_digits 32 u in
     take 8 h @ ''-'' @ take 4 (drop 8 h) @ ''-'' @ take 4 (drop 12 h) @ ''-''
     @ take 4 (drop 16 h) @ ''-'' @ drop 20 h)"

subsection \<open>Rows\<close>

record tournament_row =
  T_id :: uuid
  T_org_id :: uuid
  T_name :: string
  T_slug :: string
  T_status :: string
  T_published_at :: "gotime option"
  T_sport :: string
  T_description :: "string option"
  T_location :: "string option"
  T_starts_on :: "gotime option"
  T_ends_on :: "gotime option"
  T_timezone :: string
  T_branding :: "(string \<times> json) list"
  T_created_at :: gotime

record event_row =
  E_id :: uuid
  E_tournament_id :: uuid
  E_name :: string
  E_slug :: string
  E_format :: string
  E_is_public :: bool
  E_pairing_mode :: string
  E_scoring :: raw_config
  E_discipline :: string
  E_category :: "string option"
  E_gender :: string
  E_public_display_name :: "string option"
  E_public_order :: int
  E_scoring_profile_id :: "uuid option"
  E_created_at :: gotime

record participant_row =
  P_id :: uuid
  P_event_id :: uuid
  P_display_name :: string
  P_seed :: "int option"
  P_player_id :: "uuid option"
  P_team_id :: "uuid option"

record player_row =
  Pl_id :: uuid
  Pl_org_id :: uuid
  Pl_name :: string

record team_row =
  Tm_id :: uuid
  Tm_event_id :: uuid
  Tm_name :: "string option"

record stage_row =
  St_id :: uuid
  St_event_id :: uuid
  St_kind :: string
  St_sort_order :: int

record group_row =
  G_id :: uuid
  G_stage_id :: uuid
  G_name :: string
  G_advance_count :: int

record match_row =
  M_id :: uuid
  M_event_id :: uuid
  M_stage_id :: "uuid option"
  M_group_id :: "uuid option"
  M_court_id :: "uuid option"
  M_match_no :: int
  M_status :: string
  M_scheduled_at :: "gotime option"
  M_started_at :: "gotime option"
  M_completed_at :: "gotime option"
  M_winner :: "uuid option"
  M_next_match_id :: "uuid option"
  M_next_slot :: "int option"

text \<open>A row of \<open>match_participants\<close>; \<open>S_source\<close> is the label in the jsonb column.\<close>

record slot_row =
  S_id :: uuid
  S_match_id :: uuid
  S_participant_id :: "uuid option"
  S_slot :: int
  S_source :: "string option"
  S_source_type :: string
  S_source_group_id :: "uuid option"
  S_source_rank :: "int option"
  S_source_match_id :: "uuid option"

record score_row =
  Sc_match_id :: uuid
  Sc_set :: set_score

record venue_row =
  V_id :: uuid
  V_tournament_id :: uuid
  V_name :: string

record court_row =
  C_id :: uuid
  C_venue_id :: uuid
  C_name :: string
  C_sort_order :: int

record schedule_row =
  Sl_id :: uuid
  Sl_tournament_id :: uuid
  Sl_court_id :: uuid
  Sl_match_id :: "uuid option"
  Sl_starts_at :: gotime
  Sl_ends_at :: gotime

datatype diffval = DNull | DStr string | DInt int | DBool bool | DUuid uuid | DTime gotime
  | DList "diffval list" | DSets "set_score list" | DObj "(string \<times> diffval) list"

record audit_row =
  A_org_id :: "uuid option"
  A_actor :: "uuid option"
  A_effective :: "uuid option"
  A_session :: "uuid option"
  A_reason :: "string option"
  A_tournament_id :: "uuid option"
  A_action :: string
  A_target_type :: string
  A_target_id :: string
  A_diff :: "(string \<times> diffval) list option"
  A_created_at :: gotime

record db =
  tournaments :: "tournament_row list"
  events :: "event_row list"
  participants :: "participant_row list"
  stages :: "stage_row list"
  groups :: "group_row list"
  matches :: "match_row list"
  match_participants :: "slot_row list"
  match_scores :: "score_row list"
  venues :: "venue_row list"
  courts :: "court_row list"
  schedule_slots :: "schedule_row list"
  audit_logs :: "audit_row list"
  players :: "player_row list"
  teams :: "team_row list"
  UuidGen :: "nat \<Rightarrow> uuid"
  Drawn :: nat
  Collation :: "string \<Rightarrow> nat"

subsection \<open>Generated ids\<close>

definition gen_random_uuid :: "'a db_scheme \<Rightarrow> uuid \<times> 'a db_scheme" where
  "gen_random_uuid d = (UuidGen d (Drawn d), d\<lparr>Drawn := Suc (Drawn d)\<rparr>)"

definition ids_in_use :: "db \<Rightarrow> uuid set" where
  "ids_in_use d = T_id ` set (tournaments d) \<union> E_id ` set (events d) \<union> P_id ` set (participants d)
     \<union> St_id ` set (stages d) \<union> G_id ` set (groups d) \<union> M_id ` set (matches d)
     \<union> S_id ` set (match_participants d) \<union> Sl_id ` set (schedule_slots d)"

definition fresh_supply :: "db \<Rightarrow> bool" where
  "fresh_supply d \<longleftrightarrow> inj (UuidGen d) \<and> (\<forall>n \<ge> Drawn d. UuidGen d n \<notin> ids_in_use d)"

text \<open>\<open>d'\<close> follows from \<open>d\<close> with only drawn ids added.\<close>

definition grows :: "db \<Rightarrow> db \<Rightarrow> bool" where
  "grows d d' \<longleftrightarrow> UuidGen d' = UuidGen d \<and> Drawn d \<le> Drawn d'
     \<and> ids_in_use d' \<subseteq> ids_in_use d \<union> UuidGen d ` {Drawn d..<Drawn d'}"

lemma grows_refl [simp]: "grows d d"
  by (simp add: grows_def)

lemma grows_trans:
  assumes "grows a b" and "grows b c"
  shows "grows a c"
proof -
  have u: "UuidGen b = UuidGen a" "UuidGen c = UuidGen a" and le: "Drawn a \<le> Drawn b" "Drawn b \<le> Drawn c"
    and b: "ids_in_use b \<subseteq> ids_in_use a \<union> UuidGen a ` {Drawn a..<Drawn b}"
    and c: "ids_in_use c \<subseteq> ids_in_use b \<union> UuidGen a ` {Drawn b..<Drawn c}"
    using assms by (simp_all add: grows_def)
  have "UuidGen a ` {Drawn a..<Drawn b} \<subseteq> UuidGen a ` {Drawn a..<Drawn c}"
    "UuidGen a ` {Drawn b..<Drawn c} \<subseteq> UuidGen a ` {Drawn a..<Drawn c}"
    using le by (auto intro!: image_mono)
  with b c have "ids_in_use c \<subseteq> ids_in_use a \<union> UuidGen a ` {Drawn a..<Drawn c}" by blast
  then show ?thesis using u le by (simp add: grows_def)
qed

lemma grows_fresh:
  assumes "grows d d'" and "fresh_supply d"
  shows "fresh_supply d'"
  unfolding fresh_supply_def
proof (intro conjI allI impI)
  show "inj (UuidGen d')" using assms by (simp add: grows_def fresh_supply_def)
  fix n assume n: "Drawn d' \<le> n"
  then have "UuidGen d n \<notin> UuidGen d ` {Drawn d..<Drawn d'}"
  proof -
    have "inj (UuidGen d)" using assms(2) by (simp add: fresh_supply_def)
    then have "UuidGen d n = UuidGen d k \<Longrightarrow> n = k" for k by (rule injD)
    then show ?thesis using n by (metis atLeastLessThan_iff imageE not_le)
  qed
  moreover have "UuidGen d n \<notin> ids_in_use d" using assms n by (simp add: grows_def fresh_supply_def)
  ultimately show "UuidGen d' n \<notin> ids_in_use d'" using assms by (auto simp: grows_def)
qed

lemma drawn_fresh: "fresh_supply d \<Longrightarrow> Drawn d \<le> n \<Longrightarrow> UuidGen d n \<notin> ids_in_use d"
  by (simp add: fresh_supply_def)

text \<open>The foreign keys and primary keys the draw and match services rely on.\<close>

definition optionIn :: "'a option \<Rightarrow> 'a set \<Rightarrow> bool" where
  "optionIn x A \<longleftrightarrow> (case x of Some a \<Rightarrow> a \<in> A | None \<Rightarrow> True)"

lemma optionIn_simps [simp]: "optionIn None A" "optionIn (Some a) A \<longleftrightarrow> a \<in> A"
  by (simp_all add: optionIn_def)

lemma optionIn_mono: "optionIn x A \<Longrightarrow> A \<subseteq> B \<Longrightarrow> optionIn x B"
  by (cases x) auto

definition db_wf :: "db \<Rightarrow> bool" where
  "db_wf d \<longleftrightarrow> fresh_supply d
     \<and> distinct (map M_id (matches d)) \<and> distinct (map S_id (match_participants d))
     \<and> (\<forall>s \<in> set (match_participants d). S_match_id s \<in> M_id ` set (matches d)
          \<and> optionIn (S_source_match_id s) (M_id ` set (matches d)))
     \<and> (\<forall>r \<in> set (matches d). optionIn (M_next_match_id r) (M_id ` set (matches d))
          \<and> optionIn (M_stage_id r) (St_id ` set (stages d))
          \<and> optionIn (M_group_id r) (G_id ` set (groups d)))
     \<and> (\<forall>s \<in> set (match_scores d). Sc_match_id s \<in> M_id ` set (matches d))
     \<and> (\<forall>g \<in> set (groups d). G_stage_id g \<in> St_id ` set (stages d))"

subsection \<open>Request context and audit entries\<close>

text \<open>\<open>middleware.Attribution\<close> and the transaction's \<open>now()\<close>.\<close>

record attribution =
  Actor :: uuid
  Effective :: "uuid option"
  Session :: "uuid option"

record ctx =
  CtxAttribution :: "attribution option"
  CtxNow :: gotime

record audit_entry =
  ActorUserID :: uuid
  EffectiveUserID :: "uuid option"
  ImpersonationSessionID :: "uuid option"
  Reason :: "string option"
  OrgID :: "uuid option"
  TournamentID :: "uuid option"
  Action :: string
  TargetType :: string
  TargetID :: string
  Diff :: "(string \<times> diffval) list option"

definition entry_zero :: audit_entry where
  "entry_zero = \<lparr>ActorUserID = uuid_Nil, EffectiveUserID = None, ImpersonationSessionID = None,
     Reason = None, OrgID = None, TournamentID = None, Action = [], TargetType = [], TargetID = [],
     Diff = None\<rparr>"

definition attribute :: "ctx \<Rightarrow> audit_entry \<Rightarrow> audit_entry" where
  "attribute ctx e = (case CtxAttribution ctx of
     None \<Rightarrow> e
   | Some a \<Rightarrow> (case Effective a of
       None \<Rightarrow> e
     | Some eff \<Rightarrow>
         let e = (if EffectiveUserID e = None then e\<lparr>EffectiveUserID := Effective a\<rparr> else e);
             e = (if ImpersonationSessionID e = None then e\<lparr>ImpersonationSessionID := Session a\<rparr> else e)
         in if ActorUserID e = uuid_Nil \<or> ActorUserID e = eff then e\<lparr>ActorUserID := Actor a\<rparr> else e))"

definition actorOrNil :: "uuid \<Rightarrow> uuid option" where
  "actorOrNil i = (if i = uuid_Nil then None else Some i)"

definition auditRow :: "ctx \<Rightarrow> audit_entry \<Rightarrow> audit_row" where
  "auditRow ctx e0 = (let e = attribute ctx e0 in
     \<lparr>A_org_id = OrgID e, A_actor = actorOrNil (ActorUserID e), A_effective = EffectiveUserID e,
      A_session = ImpersonationSessionID e, A_reason = Reason e, A_tournament_id = TournamentID e,
      A_action = Action e, A_target_type = TargetType e, A_target_id = TargetID e,
      A_diff = Diff e, A_created_at = CtxNow ctx\<rparr>)"

definition RecordTx :: "ctx \<Rightarrow> audit_entry \<Rightarrow> 'a db_scheme \<Rightarrow> 'a db_scheme" where
  "RecordTx ctx e d = d\<lparr>audit_logs := audit_logs d @ [auditRow ctx e]\<rparr>"

lemma RecordTx_frame [frame_simps]:
  "tournaments (RecordTx c e d) = tournaments d" "events (RecordTx c e d) = events d"
  "participants (RecordTx c e d) = participants d" "stages (RecordTx c e d) = stages d"
  "groups (RecordTx c e d) = groups d" "matches (RecordTx c e d) = matches d"
  "match_participants (RecordTx c e d) = match_participants d"
  "match_scores (RecordTx c e d) = match_scores d" "venues (RecordTx c e d) = venues d"
  "courts (RecordTx c e d) = courts d" "schedule_slots (RecordTx c e d) = schedule_slots d"
  "UuidGen (RecordTx c e d) = UuidGen d" "Drawn (RecordTx c e d) = Drawn d"
  "Collation (RecordTx c e d) = Collation d" "players (RecordTx c e d) = players d" "teams (RecordTx c e d) = teams d"
  by (simp_all add: RecordTx_def)

lemma RecordTx_ids [frame_simps]: "ids_in_use (RecordTx c e d) = ids_in_use d"
  by (simp add: ids_in_use_def frame_simps)

lemma db_wf_RecordTx [simp]: "db_wf (RecordTx c e d) \<longleftrightarrow> db_wf d"
  by (simp add: db_wf_def fresh_supply_def frame_simps)

lemma in_update_where:
  assumes "r \<in> set (update_where P f t)"
  obtains m where "m \<in> set t" and "r = m \<or> r = f m"
  using assms unfolding set_update_where by (auto split: if_splits)

lemma db_wf_update_matches:
  assumes "db_wf d" and "\<And>m. M_id (f m) = M_id m" and "\<And>m. M_next_match_id (f m) = M_next_match_id m"
    and "\<And>m. M_stage_id (f m) = M_stage_id m" and "\<And>m. M_group_id (f m) = M_group_id m"
  shows "db_wf (d\<lparr>matches := update_where P f (matches d)\<rparr>)"
proof -
  let ?d = "d\<lparr>matches := update_where P f (matches d)\<rparr>"
  have ids: "map M_id (matches ?d) = map M_id (matches d)" using assms(2) by (simp add: map_update_where)
  then have M: "M_id ` set (matches ?d) = M_id ` set (matches d)" by (metis list.set_map)
  then have "ids_in_use ?d = ids_in_use d" by (simp add: ids_in_use_def)
  then have "fresh_supply ?d" using assms(1) by (simp add: db_wf_def fresh_supply_def)
  moreover have "\<forall>r \<in> set (matches ?d). optionIn (M_next_match_id r) (M_id ` set (matches d))
      \<and> optionIn (M_stage_id r) (St_id ` set (stages d)) \<and> optionIn (M_group_id r) (G_id ` set (groups d))"
  proof
    fix r assume "r \<in> set (matches ?d)"
    then have "\<exists>m \<in> set (matches d). r = m \<or> r = f m" using in_update_where [of r P f "matches d"] by auto
    then obtain m where "m \<in> set (matches d)" "r = m \<or> r = f m" ..
    moreover have "\<forall>m \<in> set (matches d). optionIn (M_next_match_id m) (M_id ` set (matches d))
      \<and> optionIn (M_stage_id m) (St_id ` set (stages d)) \<and> optionIn (M_group_id m) (G_id ` set (groups d))"
      using assms(1) unfolding db_wf_def by blast
    ultimately show "optionIn (M_next_match_id r) (M_id ` set (matches d))
      \<and> optionIn (M_stage_id r) (St_id ` set (stages d)) \<and> optionIn (M_group_id r) (G_id ` set (groups d))"
      using assms(3-5) by auto
  qed
  moreover have "distinct (map M_id (matches d))" "distinct (map S_id (match_participants d))"
    "\<forall>s \<in> set (match_participants d). S_match_id s \<in> M_id ` set (matches d)
          \<and> optionIn (S_source_match_id s) (M_id ` set (matches d))"
    "\<forall>g \<in> set (groups d). G_stage_id g \<in> St_id ` set (stages d)"
    "\<forall>s \<in> set (match_scores d). Sc_match_id s \<in> M_id ` set (matches d)"
    using assms(1) unfolding db_wf_def by blast+
  ultimately show ?thesis unfolding db_wf_def ids M by simp
qed

text \<open>The audit log names the human: while a super admin impersonates an organizer, a record whose
  writer names the organizer or nobody as actor is stored with the super admin as actor, the
  organizer as effective user and the impersonation session; a record that names another actor
  keeps it, and outside impersonation every record is stored as its writer made it.
\<close>

theorem audit_attribution:
  assumes "EffectiveUserID e = None" and "ImpersonationSessionID e = None"
  shows "(\<forall>admin org s. CtxAttribution ctx = Some \<lparr>Actor = admin, Effective = Some org, Session = s\<rparr> \<longrightarrow>
      A_effective (auditRow ctx e) = Some org \<and> A_session (auditRow ctx e) = s
      \<and> A_actor (auditRow ctx e) = actorOrNil
          (if ActorUserID e \<in> {uuid_Nil, org} then admin else ActorUserID e)
      \<and> (admin \<noteq> org \<longrightarrow> A_actor (auditRow ctx e) \<noteq> Some org))
    \<and> ((\<forall>a. CtxAttribution ctx = Some a \<longrightarrow> Effective a = None) \<longrightarrow>
      A_actor (auditRow ctx e) = actorOrNil (ActorUserID e) \<and> A_effective (auditRow ctx e) = None
      \<and> A_session (auditRow ctx e) = None)"
  using assms
  by (auto simp: auditRow_def attribute_def actorOrNil_def Let_def split: option.splits)

theorem audit_attribution_witness:
  "A_actor (auditRow \<lparr>CtxAttribution = Some \<lparr>Actor = 1, Effective = Some 2, Session = Some 3\<rparr>, CtxNow = 0\<rparr>
      (entry_zero\<lparr>ActorUserID := 2\<rparr>)) = Some 1"
  using audit_attribution [of "entry_zero\<lparr>ActorUserID := 2\<rparr>"
      "\<lparr>CtxAttribution = Some \<lparr>Actor = 1, Effective = Some 2, Session = Some 3\<rparr>, CtxNow = 0\<rparr>"]
  by (simp add: entry_zero_def actorOrNil_def uuid_Nil_def)

end
