(* ===== verification/DrawStore.thy ===== *)
theory DrawStore
  imports Knockout Database
begin

section \<open>Building and storing draws (internal/draw/service.go, manual_setup.go)\<close>

text \<open>
  The draw service on the database: authorization, the checks of the match builder, the
  persistence of a generated draw with its stages, groups, matches, progression and typed slots,
  and the deletes with the foreign-key actions of the schema.
\<close>

text \<open>The error values of the service; \<open>DrawInternal\<close> is any other failure a request can provoke (a row that
  does not scan, a value out of the column's range, a panic), all answered by status 500.\<close>

datatype draw_error = DrawNotFound | DrawForbidden | DrawNotEnough | DrawUnsupportedForm
  | DrawInvalidPairs | DrawBadRequest | DrawUnknownGroup int | DrawInternal
  | DuplicateFixture (DupMatchID: uuid) (DupMatchNo: int) (DupStatus: string) (DupRematchable: bool)

subsection \<open>Authorization\<close>

text \<open>The join of an event with its tournament.\<close>

definition eventTournament :: "db \<Rightarrow> uuid \<Rightarrow> (event_row \<times> tournament_row) option" where
  "eventTournament d eventID =
     (case List.find (\<lambda>e. E_id e = eventID) (events d) of
        None \<Rightarrow> None
      | Some e \<Rightarrow> (case List.find (\<lambda>t. T_id t = E_tournament_id e) (tournaments d) of
          None \<Rightarrow> None
        | Some t \<Rightarrow> Some (e, t)))"

text \<open>\<open>orgID != nil && ownerOrg != *orgID\<close>\<close>

definition foreignOrg :: "uuid option \<Rightarrow> uuid \<Rightarrow> bool" where
  "foreignOrg orgID ownerOrg \<longleftrightarrow> orgID \<noteq> None \<and> orgID \<noteq> Some ownerOrg"

record event_auth =
  AuthOrg :: uuid
  AuthTournament :: uuid
  AuthFormat :: string

definition authorizeEvent :: "db \<Rightarrow> uuid \<Rightarrow> uuid option \<Rightarrow> draw_error + event_auth" where
  "authorizeEvent d eventID orgID =
     (case eventTournament d eventID of
        None \<Rightarrow> Inl DrawNotFound
      | Some (e, t) \<Rightarrow>
          if foreignOrg orgID (T_org_id t) then Inl DrawForbidden
          else Inr \<lparr>AuthOrg = T_org_id t, AuthTournament = T_id t, AuthFormat = E_format e\<rparr>)"

definition RequirePublic :: "db \<Rightarrow> uuid \<Rightarrow> draw_error + unit" where
  "RequirePublic d eventID =
     (case eventTournament d eventID of
        Some (e, t) \<Rightarrow> if E_is_public e \<and> T_status t = ''published'' then Inr () else Inl DrawNotFound
      | None \<Rightarrow> Inl DrawNotFound)"

definition validParticipants :: "db \<Rightarrow> uuid \<Rightarrow> uuid set" where
  "validParticipants d eventID = P_id ` set (filter (\<lambda>p. P_event_id p = eventID) (participants d))"

subsection \<open>The match builder's checks\<close>

text \<open>The inner loop over the two ids of a pair: the new \<open>seen\<close>, or an error.\<close>

fun checkIds :: "uuid set \<Rightarrow> uuid list \<Rightarrow> uuid set \<Rightarrow> uuid set option" where
  "checkIds valid [] seen = Some seen"
| "checkIds valid (i # is) seen =
     (if i \<notin> valid then None else if i \<in> seen then None else checkIds valid is (insert i seen))"

fun validatePairsLoop ::
  "uuid set \<Rightarrow> pair list \<Rightarrow> uuid set \<Rightarrow> pair list \<Rightarrow> draw_error + pair list" where
  "validatePairsLoop valid [] seen out = Inr out"
| "validatePairsLoop valid (p # ps) seen out =
     (case (PairA p, PairB p) of
        (None, None) \<Rightarrow> validatePairsLoop valid ps seen out
      | (Some a, Some b) \<Rightarrow>
          (case checkIds valid [a, b] seen of
             None \<Rightarrow> Inl DrawInvalidPairs
           | Some seen' \<Rightarrow>
               validatePairsLoop valid ps seen' (out @ [\<lparr>PairA = Some a, PairB = Some b\<rparr>]))
      | _ \<Rightarrow> Inl DrawInvalidPairs)"

text \<open>\<open>filled\<close> counts the appended pairs, so it is zero exactly when \<open>out\<close> is empty.\<close>

definition validatePairs :: "pair list \<Rightarrow> uuid set \<Rightarrow> draw_error + pair list" where
  "validatePairs ps valid =
     (case validatePairsLoop valid ps {} [] of
        Inl e \<Rightarrow> Inl e
      | Inr out \<Rightarrow> if length out = 0 then Inl DrawNotEnough else Inr out)"

subsection \<open>Deletes\<close>

text \<open>
  \<open>DELETE FROM matches\<close>: the slots and scores of the deleted matches go with them
  (\<open>ON DELETE CASCADE\<close>); pointers to them from other rows become NULL (\<open>ON DELETE SET NULL\<close>).
\<close>

definition nullIfIn :: "uuid set \<Rightarrow> uuid option \<Rightarrow> uuid option" where
  "nullIfIn gone x = (case x of Some i \<Rightarrow> if i \<in> gone then None else Some i | None \<Rightarrow> None)"

definition deleteMatches :: "(match_row \<Rightarrow> bool) \<Rightarrow> db \<Rightarrow> db" where
  "deleteMatches P d =
     (let gone = M_id ` set (filter P (matches d)) in
      d\<lparr>matches := map (\<lambda>m. m\<lparr>M_next_match_id := nullIfIn gone (M_next_match_id m)\<rparr>)
                     (delete_where P (matches d)),
        match_participants := map (\<lambda>s. s\<lparr>S_source_match_id := nullIfIn gone (S_source_match_id s)\<rparr>)
                     (delete_where (\<lambda>s. S_match_id s \<in> gone) (match_participants d)),
        match_scores := delete_where (\<lambda>s. Sc_match_id s \<in> gone) (match_scores d),
        schedule_slots := map (\<lambda>s. s\<lparr>Sl_match_id := nullIfIn gone (Sl_match_id s)\<rparr>) (schedule_slots d)\<rparr>)"

definition deleteStages :: "(stage_row \<Rightarrow> bool) \<Rightarrow> db \<Rightarrow> db" where
  "deleteStages P d =
     (let sgone = St_id ` set (filter P (stages d));
          ggone = G_id ` set (filter (\<lambda>g. G_stage_id g \<in> sgone) (groups d));
          d = deleteMatches (\<lambda>m. (case M_stage_id m of Some s \<Rightarrow> s \<in> sgone | None \<Rightarrow> False)
                \<or> (case M_group_id m of Some g \<Rightarrow> g \<in> ggone | None \<Rightarrow> False)) d
      in d\<lparr>stages := delete_where P (stages d),
           groups := delete_where (\<lambda>g. G_stage_id g \<in> sgone) (groups d),
           match_participants := map (\<lambda>s. s\<lparr>S_source_group_id := nullIfIn ggone (S_source_group_id s)\<rparr>)
             (match_participants d)\<rparr>)"

subsection \<open>Persisting a draw\<close>

definition insertStage :: "uuid \<Rightarrow> string \<Rightarrow> int \<Rightarrow> db \<Rightarrow> uuid \<times> db" where
  "insertStage eventID kind order d =
     (let (i, d) = gen_random_uuid d
      in (i, d\<lparr>stages := stages d @ [\<lparr>St_id = i, St_event_id = eventID, St_kind = kind, St_sort_order = order\<rparr>]\<rparr>))"

definition groupName :: "string list \<Rightarrow> nat \<Rightarrow> string" where
  "groupName groupNames g =
     (if g < length groupNames \<and> groupNames ! g \<noteq> [] then groupNames ! g
      else ''Group '' @ letters (int g))"

definition groupAdvanceCount :: "int list \<Rightarrow> nat \<Rightarrow> int" where
  "groupAdvanceCount groupAdvance g =
     (if g < length groupAdvance \<and> groupAdvance ! g > 0 then groupAdvance ! g else 2)"

text \<open>The loop creating the group rows; \<open>groupIDs\<close> maps a group index to its row.\<close>

definition insertGroup ::
  "uuid \<Rightarrow> string list \<Rightarrow> int list \<Rightarrow> nat \<Rightarrow> (int \<rightharpoonup> uuid) \<times> db \<Rightarrow> (int \<rightharpoonup> uuid) \<times> db" where
  "insertGroup stageID groupNames groupAdvance g st = (case st of (groupIDs, d) \<Rightarrow>
     let (i, d) = gen_random_uuid d
     in (groupIDs(int g \<mapsto> i),
         d\<lparr>groups := groups d @ [\<lparr>G_id = i, G_stage_id = stageID,
             G_name = groupName groupNames g, G_advance_count = groupAdvanceCount groupAdvance g\<rparr>]\<rparr>))"

definition insertSlot :: "uuid \<Rightarrow> int \<Rightarrow> slot \<Rightarrow> (int \<rightharpoonup> uuid) \<Rightarrow> db \<Rightarrow> draw_error + db" where
  "insertSlot matchID slotNo s groupIDs d =
     (let source = (if SourceLabel s \<noteq> [] then Some (SourceLabel s) else None);
          add = (\<lambda>sourceType groupID rank.
            let (i, d) = gen_random_uuid d
            in d\<lparr>match_participants := match_participants d @
                 [\<lparr>S_id = i, S_match_id = matchID, S_participant_id = SlotParticipant s, S_slot = slotNo,
                   S_source = source, S_source_type = sourceType, S_source_group_id = groupID,
                   S_source_rank = rank, S_source_match_id = None\<rparr>]\<rparr>)
      in if SlotParticipant s \<noteq> None then Inr (add ''fixed'' None None)
         else if IsBye s then Inr (add ''bye'' None None)
         else if SourceLabel s \<noteq> [] then
           (case groupIDs (SourceGroupIdx s) of
              None \<Rightarrow> Inl (DrawUnknownGroup (SourceGroupIdx s))
            | Some gid \<Rightarrow> Inr (add ''group_placement'' (Some gid) (Some (SourceRank s))))
         else Inr (add ''empty'' None None))"

record draw_rows =
  HasGroups :: bool
  GroupStage :: uuid
  KnockoutStage :: uuid
  GroupIDs :: "int \<rightharpoonup> uuid"

definition stageOf :: "draw_rows \<Rightarrow> dmatch \<Rightarrow> uuid option" where
  "stageOf env m = (if \<not> HasGroups env then None
     else if GroupIndex m \<ge> 0 then Some (GroupStage env) else Some (KnockoutStage env))"

text \<open>\<open>groupIDs[m.GroupIndex]\<close>: a missing key reads as the zero UUID.\<close>

definition groupOf :: "draw_rows \<Rightarrow> dmatch \<Rightarrow> uuid option" where
  "groupOf env m = (if HasGroups env \<and> GroupIndex m \<ge> 0
     then Some (case GroupIDs env (GroupIndex m) of Some g \<Rightarrow> g | None \<Rightarrow> uuid_Nil) else None)"

definition initialStatus :: "dmatch \<Rightarrow> string" where
  "initialStatus m = (if IsBye (Slot1 m) \<or> IsBye (Slot2 m) then ''bye'' else ''pending'')"

text \<open>Pass 1: one match row.\<close>

definition insertMatch ::
  "uuid \<Rightarrow> draw_rows \<Rightarrow> nat \<times> dmatch \<Rightarrow> uuid list \<times> db \<Rightarrow> uuid list \<times> db" where
  "insertMatch eventID env im st = (case (im, st) of ((i, m), (ids, d)) \<Rightarrow>
     let (u, d) = gen_random_uuid d
     in (ids @ [u],
         d\<lparr>matches := matches d @
           [\<lparr>M_id = u, M_event_id = eventID, M_stage_id = stageOf env m, M_group_id = groupOf env m,
             M_court_id = None, M_match_no = int i + 1, M_status = initialStatus m,
             M_scheduled_at = None, M_started_at = None, M_completed_at = None, M_winner = None,
             M_next_match_id = None, M_next_slot = None\<rparr>]\<rparr>))"

text \<open>Pass 2: the progression pointer and the two slots of match \<open>i\<close>.\<close>

definition wireMatch :: "uuid list \<Rightarrow> (int \<rightharpoonup> uuid) \<Rightarrow> nat \<times> dmatch \<Rightarrow> db \<Rightarrow> draw_error + db" where
  "wireMatch ids groupIDs im d = (case im of (i, m) \<Rightarrow>
     let d = (if NextMatchIdx m \<ge> 0
              then d\<lparr>matches := update_where (\<lambda>r. M_id r = ids ! i)
                (\<lambda>r. r\<lparr>M_next_match_id := Some (ids ! nat (NextMatchIdx m)),
                       M_next_slot := Some (int (NextSlot m))\<rparr>) (matches d)\<rparr>
              else d)
     in case insertSlot (ids ! i) 1 (Slot1 m) groupIDs d of
          Inl e \<Rightarrow> Inl e
        | Inr d \<Rightarrow> insertSlot (ids ! i) 2 (Slot2 m) groupIDs d)"

text \<open>Pass 3: stamp the fed slot with its feeder.\<close>

definition typeFeed :: "uuid list \<Rightarrow> nat \<times> dmatch \<Rightarrow> db \<Rightarrow> db" where
  "typeFeed ids im d = (case im of (i, m) \<Rightarrow>
     if NextMatchIdx m < 0 then d
     else d\<lparr>match_participants := update_where
            (\<lambda>s. S_match_id s = ids ! nat (NextMatchIdx m) \<and> S_slot s = int (NextSlot m)
                 \<and> S_source_type s = ''empty'')
            (\<lambda>s. s\<lparr>S_source_type := ''match_winner'', S_source_match_id := Some (ids ! i)\<rparr>)
            (match_participants d)\<rparr>)"

definition maxGroup :: "dmatch list \<Rightarrow> int" where
  "maxGroup ms = fold (\<lambda>m g. if GroupIndex m \<ge> 0 \<and> GroupIndex m > g then GroupIndex m else g) ms (-1)"

definition prepareStages :: "uuid \<Rightarrow> dmatch list \<Rightarrow> string list \<Rightarrow> int list \<Rightarrow> db \<Rightarrow> draw_rows \<times> db" where
  "prepareStages eventID ms groupNames groupAdvance d =
     (if (\<exists>m \<in> set ms. GroupIndex m \<ge> 0) then
        let (gs, d) = insertStage eventID ''group'' 0 d;
            (ks, d) = insertStage eventID ''knockout'' 1 d;
            (groupIDs, d) = fold (insertGroup gs groupNames groupAdvance) [0..<nat (maxGroup ms + 1)]
                              (Map.empty, d)
        in (\<lparr>HasGroups = True, GroupStage = gs, KnockoutStage = ks, GroupIDs = groupIDs\<rparr>, d)
      else (\<lparr>HasGroups = False, GroupStage = uuid_Nil, KnockoutStage = uuid_Nil, GroupIDs = Map.empty\<rparr>, d))"

definition persistWithGroups ::
  "uuid \<Rightarrow> dmatch list \<Rightarrow> string list \<Rightarrow> int list \<Rightarrow> db \<Rightarrow> draw_error + db" where
  "persistWithGroups eventID ms groupNames groupAdvance d =
     (let d = deleteMatches (\<lambda>m. M_event_id m = eventID) d;
          d = deleteStages (\<lambda>s. St_event_id s = eventID) d;
          (env, d) = prepareStages eventID ms groupNames groupAdvance d;
          (ids, d) = fold (insertMatch eventID env) (enumerate 0 ms) ([], d)
      in case forM (wireMatch ids (GroupIDs env)) (enumerate 0 ms) d of
           Inl e \<Rightarrow> Inl e
         | Inr d \<Rightarrow> Inr (fold (typeFeed ids) (enumerate 0 ms) d))"

definition persist :: "uuid \<Rightarrow> dmatch list \<Rightarrow> db \<Rightarrow> draw_error + db" where
  "persist eventID ms d = persistWithGroups eventID ms [] [] d"

text \<open>
  \<open>Build\<close> loads the owner and the format with one query, as \<open>authorizeEvent\<close> does; the mode of
  the event is set after the draw is committed.
\<close>

definition Build :: "uuid \<Rightarrow> uuid option \<Rightarrow> pair list \<Rightarrow> db \<Rightarrow> draw_error + nat \<times> db" where
  "Build eventID orgID inPairs d =
     (case eventTournament d eventID of
        None \<Rightarrow> Inl DrawNotFound
      | Some (e, t) \<Rightarrow>
          if foreignOrg orgID (T_org_id t) then Inl DrawForbidden
          else if E_format e \<noteq> ''single_elim'' then Inl DrawUnsupportedForm
          else
            (case validatePairs inPairs (validParticipants d eventID) of
               Inl err \<Rightarrow> Inl err
             | Inr pairs \<Rightarrow>
                 let ms = GenerateFromPairs pairs in
                 if length ms = 0 then Inl DrawNotEnough
                 else
                   (case persist eventID ms d of
                      Inl err \<Rightarrow> Inl err
                    | Inr d \<Rightarrow> Inr (length ms, d\<lparr>events := update_where (\<lambda>e. E_id e = eventID)
                        (\<lambda>e. e\<lparr>E_pairing_mode := ''manual''\<rparr>) (events d)\<rparr>))))"

definition checkSpecIds :: "uuid set \<Rightarrow> uuid list \<Rightarrow> uuid set \<Rightarrow> draw_error + uuid set" where
  "checkSpecIds valid is seen =
     (case checkIds valid is seen of None \<Rightarrow> Inl DrawBadRequest | Some s \<Rightarrow> Inr s)"

text \<open>The validation loop of \<open>SetGroups\<close>: the state is \<open>seen\<close> and \<open>totalAdvance\<close>.\<close>

definition checkSpec :: "uuid set \<Rightarrow> group_spec \<Rightarrow> uuid set \<times> int \<Rightarrow> draw_error + uuid set \<times> int" where
  "checkSpec valid g st =
     (if length (TeamIDs g) < 2 \<or> AdvanceCount g < 1 \<or> AdvanceCount g > int (length (TeamIDs g))
      then Inl DrawBadRequest
      else (case checkSpecIds valid (TeamIDs g) (fst st) of
              Inl e \<Rightarrow> Inl e
            | Inr seen \<Rightarrow> Inr (seen, snd st + AdvanceCount g)))"

definition SetGroups :: "uuid \<Rightarrow> uuid option \<Rightarrow> group_spec list \<Rightarrow> db \<Rightarrow> draw_error + nat \<times> db" where
  "SetGroups eventID orgID specs d =
     (case authorizeEvent d eventID orgID of
        Inl e \<Rightarrow> Inl e
      | Inr auth \<Rightarrow>
          if AuthFormat auth \<noteq> ''group_knockout'' then Inl DrawUnsupportedForm
          else if length specs < 1 then Inl DrawBadRequest
          else (case forM (checkSpec (validParticipants d eventID)) specs ({}, 0) of
              Inl e \<Rightarrow> Inl e
            | Inr (seen, totalAdvance) \<Rightarrow>
                if totalAdvance < 2 then Inl DrawBadRequest
                else
                  let ms = groupKnockoutFromAssignment specs in
                  if length ms = 0 then Inl DrawBadRequest
                  else (case persistWithGroups eventID ms (map SpecName specs) (map AdvanceCount specs) d of
                      Inl e \<Rightarrow> Inl e
                    | Inr d \<Rightarrow> Inr (length ms, d))))"

subsection \<open>The pair checks\<close>

lemma checkIds_eq:
  "checkIds valid is seen = (if set is \<subseteq> valid \<and> distinct is \<and> set is \<inter> seen = {} then Some (seen \<union> set is) else None)"
  by (induction "is" arbitrary: seen) auto

definition pairIds :: "pair \<Rightarrow> uuid list" where
  "pairIds p = (case PairA p of Some a \<Rightarrow> [a] | None \<Rightarrow> []) @ (case PairB p of Some b \<Rightarrow> [b] | None \<Rightarrow> [])"

definition full_pair :: "pair \<Rightarrow> bool" where
  "full_pair p \<longleftrightarrow> PairA p \<noteq> None \<and> PairB p \<noteq> None"

lemma pair_cases:
  obtains "PairA p = None" "PairB p = None" | a b where "PairA p = Some a" "PairB p = Some b" "pairIds p = [a, b]"
    "p = \<lparr>PairA = Some a, PairB = Some b\<rparr>"
  | "\<not> full_pair p" "\<not> (PairA p = None \<and> PairB p = None)"
  by (cases "PairA p"; cases "PairB p"; cases p) (auto simp: pairIds_def full_pair_def)

lemma validatePairsLoop_eq:
  "validatePairsLoop valid ps seen out =
     (if (\<forall>p \<in> set (cleanPairs ps). full_pair p) \<and> set (concat (map pairIds (cleanPairs ps))) \<subseteq> valid
         \<and> distinct (concat (map pairIds (cleanPairs ps)))
         \<and> set (concat (map pairIds (cleanPairs ps))) \<inter> seen = {}
      then Inr (out @ cleanPairs ps) else Inl DrawInvalidPairs)"
proof (induction ps arbitrary: seen out)
  case Nil
  then show ?case by (simp add: cleanPairs_def)
next
  case (Cons p ps)
  show ?case
  proof (cases p rule: pair_cases)
    case 1
    then have "cleanPairs (p # ps) = cleanPairs ps" by (simp add: cleanPairs_def)
    then show ?thesis using Cons 1 by simp
  next
    case (2 a b)
    then have c: "cleanPairs (p # ps) = p # cleanPairs ps" "full_pair p"
      by (simp_all add: cleanPairs_def full_pair_def)
    show ?thesis
    proof (cases "{a, b} \<subseteq> valid \<and> a \<noteq> b \<and> {a, b} \<inter> seen = {}")
      case True
      then have "checkIds valid [a, b] seen = Some (insert b (insert a seen))" by (auto simp: checkIds_eq)
      then have "validatePairsLoop valid (p # ps) seen out
          = validatePairsLoop valid ps (insert b (insert a seen)) (out @ [p])"
        using 2 by simp
      then show ?thesis unfolding Cons.IH c(1) using True c(2) 2(3) by auto
    next
      case False
      then have "checkIds valid [a, b] seen = None" by (auto simp: checkIds_eq)
      then have "validatePairsLoop valid (p # ps) seen out = Inl DrawInvalidPairs" using 2 by simp
      then show ?thesis unfolding c(1) using False 2(3) by auto
    qed
  next
    case 3
    then have "cleanPairs (p # ps) = p # cleanPairs ps" by (simp add: cleanPairs_def)
    moreover have "validatePairsLoop valid (p # ps) seen out = Inl DrawInvalidPairs"
      using 3 by (auto simp: full_pair_def split: option.split)
    ultimately show ?thesis using 3 by simp
  qed
qed

text \<open>The match builder accepts exactly the pairings it documents: after dropping the empty rows
  every pair is filled on both sides, every id belongs to the event, no team appears twice, and
  there is at least one pair; the accepted pairs are the given ones in their order.\<close>

theorem validatePairs_iff:
  "validatePairs ps valid = Inr out \<longleftrightarrow>
     out = cleanPairs ps \<and> out \<noteq> [] \<and> (\<forall>p \<in> set out. full_pair p)
   \<and> set (concat (map pairIds out)) \<subseteq> valid \<and> distinct (concat (map pairIds out))"
  by (auto simp: validatePairs_def validatePairsLoop_eq)

definition sample_pairs :: "pair list" where
  "sample_pairs = [\<lparr>PairA = Some 11, PairB = Some 12\<rparr>, \<lparr>PairA = None, PairB = None\<rparr>,
     \<lparr>PairA = Some 13, PairB = Some 14\<rparr>]"

theorem validatePairs_iff_witness:
  "validatePairs sample_pairs {11, 12, 13, 14}
    = Inr [\<lparr>PairA = Some 11, PairB = Some 12\<rparr>, \<lparr>PairA = Some 13, PairB = Some 14\<rparr>]"
  unfolding validatePairs_iff
  by (auto simp: sample_pairs_def cleanPairs_def full_pair_def pairIds_def)

subsection \<open>What persisting stores\<close>

definition slotType :: "slot \<Rightarrow> string" where
  "slotType s = (if SlotParticipant s \<noteq> None then ''fixed'' else if IsBye s then ''bye''
     else if SourceLabel s \<noteq> [] then ''group_placement'' else ''empty'')"

text \<open>The row that stands for slot \<open>k\<close> of a match before its feeder is known.\<close>

definition slotRow :: "(int \<rightharpoonup> uuid) \<Rightarrow> uuid \<Rightarrow> uuid \<Rightarrow> int \<Rightarrow> slot \<Rightarrow> slot_row" where
  "slotRow G u mid k s =
     (let placed = (slotType s = ''group_placement'') in
      \<lparr>S_id = u, S_match_id = mid, S_participant_id = SlotParticipant s, S_slot = k,
       S_source = (if SourceLabel s \<noteq> [] then Some (SourceLabel s) else None),
       S_source_type = slotType s,
       S_source_group_id = (if placed then G (SourceGroupIdx s) else None),
       S_source_rank = (if placed then Some (SourceRank s) else None), S_source_match_id = None\<rparr>)"

definition slot_known :: "(int \<rightharpoonup> uuid) \<Rightarrow> slot \<Rightarrow> bool" where
  "slot_known G s \<longleftrightarrow> (slotType s = ''group_placement'' \<longrightarrow> G (SourceGroupIdx s) \<noteq> None)"

lemma slotType_simps:
  "SlotParticipant s = Some p \<Longrightarrow> slotType s = ''fixed''"
  "SlotParticipant s = None \<Longrightarrow> IsBye s \<Longrightarrow> slotType s = ''bye''"
  "SlotParticipant s = None \<Longrightarrow> \<not> IsBye s \<Longrightarrow> SourceLabel s \<noteq> [] \<Longrightarrow> slotType s = ''group_placement''"
  "SlotParticipant s = None \<Longrightarrow> \<not> IsBye s \<Longrightarrow> SourceLabel s = [] \<Longrightarrow> slotType s = ''empty''"
  by (simp_all add: slotType_def)

definition addSlot :: "slot_row \<Rightarrow> db \<Rightarrow> db" where
  "addSlot r d = d\<lparr>match_participants := match_participants d @ [r], Drawn := Suc (Drawn d)\<rparr>"

lemma insertSlot_eq:
  "insertSlot mid k s G d =
     (if slot_known G s then Inr (addSlot (slotRow G (UuidGen d (Drawn d)) mid k s) d)
      else Inl (DrawUnknownGroup (SourceGroupIdx s)))"
proof -
  consider p where "SlotParticipant s = Some p" | "SlotParticipant s = None" "IsBye s"
    | "SlotParticipant s = None" "\<not> IsBye s" "SourceLabel s \<noteq> []"
    | "SlotParticipant s = None" "\<not> IsBye s" "SourceLabel s = []" by (cases "SlotParticipant s") auto
  then show ?thesis
  proof cases
    case 3
    then show ?thesis
      by (cases "G (SourceGroupIdx s)")
         (simp_all add: insertSlot_def slot_known_def slotRow_def addSlot_def slotType_simps
            gen_random_uuid_def Let_def)
  qed (simp_all add: insertSlot_def slot_known_def slotRow_def addSlot_def slotType_simps
      gen_random_uuid_def Let_def)
qed

text \<open>Pass 1 in closed form.\<close>

definition newMatchRow :: "uuid \<Rightarrow> draw_rows \<Rightarrow> uuid \<Rightarrow> nat \<Rightarrow> dmatch \<Rightarrow> match_row" where
  "newMatchRow eventID env u i m =
     \<lparr>M_id = u, M_event_id = eventID, M_stage_id = stageOf env m, M_group_id = groupOf env m,
      M_court_id = None, M_match_no = int i + 1, M_status = initialStatus m,
      M_scheduled_at = None, M_started_at = None, M_completed_at = None, M_winner = None,
      M_next_match_id = None, M_next_slot = None\<rparr>"

definition drawnIds :: "db \<Rightarrow> nat \<Rightarrow> uuid list" where
  "drawnIds d n = map (UuidGen d) [Drawn d..<Drawn d + n]"

lemma length_drawnIds [simp]: "length (drawnIds d n) = n"
  by (simp add: drawnIds_def)

lemma drawnIds_nth [simp]: "i < n \<Longrightarrow> drawnIds d n ! i = UuidGen d (Drawn d + i)"
  by (simp add: drawnIds_def)

primrec newMatchRows ::
  "uuid \<Rightarrow> draw_rows \<Rightarrow> (nat \<Rightarrow> uuid) \<Rightarrow> nat \<Rightarrow> nat \<Rightarrow> dmatch list \<Rightarrow> match_row list" where
  "newMatchRows eventID env g n i [] = []"
| "newMatchRows eventID env g n i (m # ms) =
     newMatchRow eventID env (g n) i m # newMatchRows eventID env g (Suc n) (Suc i) ms"

lemma length_newMatchRows [simp]: "length (newMatchRows eventID env g n i ms) = length ms"
  by (induction ms arbitrary: n i) auto

lemma newMatchRows_nth:
  "j < length ms \<Longrightarrow> newMatchRows eventID env g n i ms ! j = newMatchRow eventID env (g (n + j)) (i + j) (ms ! j)"
  by (induction ms arbitrary: n i j) (auto simp: nth_Cons split: nat.split)

lemma drawnIds_Suc: "drawnIds d (Suc n) = UuidGen d (Drawn d) # map (UuidGen d) [Suc (Drawn d)..<Suc (Drawn d) + n]"
  by (simp add: drawnIds_def upt_conv_Cons del: upt_Suc)

lemma insertMatch_fold:
  "fold (insertMatch eventID env) (enumerate k ms) (ids, d)
   = (ids @ drawnIds d (length ms),
      d\<lparr>Drawn := Drawn d + length ms,
        matches := matches d @ newMatchRows eventID env (UuidGen d) (Drawn d) k ms\<rparr>)"
proof (induction ms arbitrary: k ids d)
  case (Cons m ms)
  let ?d = "d\<lparr>Drawn := Suc (Drawn d),
      matches := matches d @ [newMatchRow eventID env (UuidGen d (Drawn d)) k m]\<rparr>"
  have step: "insertMatch eventID env (k, m) (ids, d) = (ids @ [UuidGen d (Drawn d)], ?d)"
    by (simp add: insertMatch_def gen_random_uuid_def newMatchRow_def)
  show ?case
    using Cons.IH [of "Suc k" "ids @ [UuidGen d (Drawn d)]" ?d]
    by (simp add: step drawnIds_Suc) (simp add: drawnIds_def)
qed (simp add: drawnIds_def)

text \<open>Pass 2 in closed form: the rows of one match, and the pointer of a match row.\<close>

definition wiredRow :: "uuid list \<Rightarrow> dmatch \<Rightarrow> match_row \<Rightarrow> match_row" where
  "wiredRow ids m r = (if NextMatchIdx m \<ge> 0
     then r\<lparr>M_next_match_id := Some (ids ! nat (NextMatchIdx m)), M_next_slot := Some (int (NextSlot m))\<rparr>
     else r)"

lemma wireMatch_eq:
  assumes "slot_known G (Slot1 m)" and "slot_known G (Slot2 m)"
  shows "wireMatch ids G (i, m) d = Inr (d\<lparr>
      matches := update_where (\<lambda>r. M_id r = ids ! i) (wiredRow ids m) (matches d),
      match_participants := match_participants d
        @ [slotRow G (UuidGen d (Drawn d)) (ids ! i) 1 (Slot1 m),
           slotRow G (UuidGen d (Suc (Drawn d))) (ids ! i) 2 (Slot2 m)],
      Drawn := Drawn d + 2\<rparr>)"
proof (cases "NextMatchIdx m \<ge> 0")
  case True
  then have "wiredRow ids m = (\<lambda>r. r\<lparr>M_next_match_id := Some (ids ! nat (NextMatchIdx m)),
      M_next_slot := Some (int (NextSlot m))\<rparr>)" by (auto simp: wiredRow_def)
  then show ?thesis using assms True by (simp add: wireMatch_def insertSlot_eq addSlot_def Let_def)
next
  case False
  then have "update_where P (wiredRow ids m) t = t" for P t
    unfolding update_where_def by (intro map_idI) (simp add: wiredRow_def)
  then show ?thesis using assms False by (simp add: wireMatch_def insertSlot_eq addSlot_def Let_def)
qed

primrec newSlotRows ::
  "(int \<rightharpoonup> uuid) \<Rightarrow> (nat \<Rightarrow> uuid) \<Rightarrow> nat \<Rightarrow> uuid list \<Rightarrow> nat \<Rightarrow> dmatch list \<Rightarrow> slot_row list" where
  "newSlotRows G g n ids i [] = []"
| "newSlotRows G g n ids i (m # ms) =
     slotRow G (g n) (ids ! i) 1 (Slot1 m) # slotRow G (g (n + 1)) (ids ! i) 2 (Slot2 m)
     # newSlotRows G g (n + 2) ids (Suc i) ms"

lemma wireMatch_fold:
  assumes "\<forall>m \<in> set ms. slot_known G (Slot1 m) \<and> slot_known G (Slot2 m)"
  shows "forM (wireMatch ids G) (enumerate k ms) d = Inr (d\<lparr>
      matches := fold (\<lambda>(i, m). update_where (\<lambda>r. M_id r = ids ! i) (wiredRow ids m)) (enumerate k ms) (matches d),
      match_participants := match_participants d @ newSlotRows G (UuidGen d) (Drawn d) ids k ms,
      Drawn := Drawn d + 2 * length ms\<rparr>)"
  using assms
proof (induction ms arbitrary: k d)
  case (Cons m ms)
  let ?d = "d\<lparr>
      matches := update_where (\<lambda>r. M_id r = ids ! k) (wiredRow ids m) (matches d),
      match_participants := match_participants d
        @ [slotRow G (UuidGen d (Drawn d)) (ids ! k) 1 (Slot1 m),
           slotRow G (UuidGen d (Suc (Drawn d))) (ids ! k) 2 (Slot2 m)],
      Drawn := Drawn d + 2\<rparr>"
  have step: "wireMatch ids G (k, m) d = Inr ?d" using Cons.prems by (intro wireMatch_eq) auto
  show ?case
    using Cons.IH [of "Suc k" ?d] Cons.prems by (simp add: step)
qed simp

text \<open>Pass 3 in closed form: the first match that feeds a slot is its source.\<close>

definition feeder :: "dmatch list \<Rightarrow> nat \<Rightarrow> int \<Rightarrow> nat option" where
  "feeder ms j k = List.find (\<lambda>i. NextMatchIdx (ms ! i) = int j \<and> int (NextSlot (ms ! i)) = k) [0..<length ms]"

definition typedRow :: "uuid list \<Rightarrow> nat option \<Rightarrow> slot_row \<Rightarrow> slot_row" where
  "typedRow ids f r = (case f of
     Some i \<Rightarrow> if S_source_type r = ''empty''
       then r\<lparr>S_source_type := ''match_winner'', S_source_match_id := Some (ids ! i)\<rparr> else r
   | None \<Rightarrow> r)"

definition feedsRow :: "uuid list \<Rightarrow> dmatch \<Rightarrow> slot_row \<Rightarrow> bool" where
  "feedsRow ids m r \<longleftrightarrow> 0 \<le> NextMatchIdx m \<and> S_match_id r = ids ! nat (NextMatchIdx m)
     \<and> S_slot r = int (NextSlot m) \<and> S_source_type r = ''empty''"

lemma typeFeed_eq: "typeFeed ids (i, m) d = d\<lparr>match_participants :=
    update_where (feedsRow ids m)
      (\<lambda>s. s\<lparr>S_source_type := ''match_winner'', S_source_match_id := Some (ids ! i)\<rparr>)
      (match_participants d)\<rparr>"
proof (cases "NextMatchIdx m < 0")
  case True
  then have "update_where (feedsRow ids m) f t = t" for f t
    by (intro update_where_none) (simp add: feedsRow_def)
  then show ?thesis using True by (simp add: typeFeed_def)
next
  case False
  then have "feedsRow ids m = (\<lambda>s. S_match_id s = ids ! nat (NextMatchIdx m) \<and> S_slot s = int (NextSlot m)
      \<and> S_source_type s = ''empty'')" by (auto simp: feedsRow_def fun_eq_iff)
  then show ?thesis using False by (simp add: typeFeed_def)
qed

lemma typeFeed_fold:
  "fold (typeFeed ids) xs d = d\<lparr>match_participants :=
     map (\<lambda>r. fold (\<lambda>(i, m) r. if feedsRow ids m r
           then r\<lparr>S_source_type := ''match_winner'', S_source_match_id := Some (ids ! i)\<rparr> else r) xs r)
       (match_participants d)\<rparr>"
  by (induction xs arbitrary: d) (auto simp: typeFeed_eq update_where_def)

lemma feed_fold_row:
  "fold (\<lambda>(i, m) r. if feedsRow ids m r
       then r\<lparr>S_source_type := ''match_winner'', S_source_match_id := Some (ids ! i)\<rparr> else r) xs r
   = (case List.find (\<lambda>(i, m). feedsRow ids m r) xs of
        Some (i, m) \<Rightarrow> r\<lparr>S_source_type := ''match_winner'', S_source_match_id := Some (ids ! i)\<rparr>
      | None \<Rightarrow> r)"
proof -
  have stay: "fold (\<lambda>(i, m) r. if feedsRow ids m r
       then r\<lparr>S_source_type := ''match_winner'', S_source_match_id := Some (ids ! i)\<rparr> else r) xs r = r"
    if "S_source_type r = ''match_winner''" for xs r
    using that by (induction xs) (auto simp: feedsRow_def)
  show ?thesis
  proof (induction xs)
    case (Cons x xs)
    then show ?case by (cases x; cases "feedsRow ids (snd x) r") (simp_all add: stay)
  qed simp
qed

lemma typed_row:
  assumes "distinct ids" and "length ids = length ms" and "j < length ms"
    and "\<forall>m \<in> set ms. NextMatchIdx m < int (length ms)" and "S_match_id r = ids ! j"
  shows "fold (\<lambda>(i, m) r. if feedsRow ids m r
       then r\<lparr>S_source_type := ''match_winner'', S_source_match_id := Some (ids ! i)\<rparr> else r) (enumerate 0 ms) r
     = typedRow ids (feeder ms j (S_slot r)) r"
proof (cases "S_source_type r = ''empty''")
  case False
  then have "List.find (\<lambda>(i, m). feedsRow ids m r) (enumerate 0 ms) = None"
    unfolding find_None_iff_all by (auto simp: feedsRow_def)
  then show ?thesis using False by (simp add: feed_fold_row typedRow_def split: option.split)
next
  case True
  have feeds: "feedsRow ids m r \<longleftrightarrow> NextMatchIdx m = int j \<and> int (NextSlot m) = S_slot r"
    if "m \<in> set ms" for m
  proof -
    have "nat (NextMatchIdx m) < length ids \<or> NextMatchIdx m < 0" using assms(2,4) that by fastforce
    then show ?thesis
      using assms(1-3,5) True by (auto simp: feedsRow_def nth_eq_iff_index_eq)
  qed
  have "List.find (\<lambda>(i, m). feedsRow ids m r) (enumerate 0 ms)
      = map_option (\<lambda>i. (i, ms ! i)) (List.find (\<lambda>i. feedsRow ids (ms ! i) r) [0..<length ms])"
    by (simp add: enumerate_0 find_map)
  also have "List.find (\<lambda>i. feedsRow ids (ms ! i) r) [0..<length ms] = feeder ms j (S_slot r)"
    unfolding feeder_def by (rule find_cong') (simp add: feeds)
  finally show ?thesis using True by (simp add: feed_fold_row typedRow_def split: option.split)
qed

lemma untyped_row:
  assumes "length ids = length ms" and "\<forall>m \<in> set ms. NextMatchIdx m < int (length ms)"
    and "S_match_id r \<notin> set ids"
  shows "fold (\<lambda>(i, m) r. if feedsRow ids m r
       then r\<lparr>S_source_type := ''match_winner'', S_source_match_id := Some (ids ! i)\<rparr> else r) (enumerate 0 ms) r = r"
proof -
  have "\<not> feedsRow ids m r" if "m \<in> set ms" for m
    using assms that by (fastforce simp: feedsRow_def)
  then have "List.find (\<lambda>(i, m). feedsRow ids m r) (enumerate 0 ms) = None"
    unfolding find_None_iff_all by (auto simp: enumerate_0)
  then show ?thesis by (simp add: feed_fold_row)
qed

lemma wired_rows:
  assumes "distinct ids" and "length ids = length ms"
  shows "fold (\<lambda>(i, m). update_where (\<lambda>r. M_id r = ids ! i) (wiredRow ids m)) (enumerate 0 ms) t
    = map (\<lambda>r. case List.find (\<lambda>i. ids ! i = M_id r) [0..<length ms] of
              Some i \<Rightarrow> wiredRow ids (ms ! i) r | None \<Rightarrow> r) t"
proof -
  let ?xs = "enumerate 0 ms" and ?k = "\<lambda>x. ids ! fst x"
  have "map ?k ?xs = ids" using assms(2) by (intro nth_equalityI) (simp_all add: nth_enumerate_eq)
  then have d: "distinct (map ?k ?xs)" using assms(1) by simp
  have "fold (\<lambda>(i, m). update_where (\<lambda>r. M_id r = ids ! i) (wiredRow ids m)) ?xs t
      = fold (\<lambda>x t. update_where (\<lambda>r. M_id r = ?k x) (wiredRow ids (snd x)) t) ?xs t"
    by (simp add: case_prod_unfold)
  also have "\<dots> = map (\<lambda>r. case List.find (\<lambda>x. ?k x = M_id r) ?xs of
              Some x \<Rightarrow> wiredRow ids (snd x) r | None \<Rightarrow> r) t"
    unfolding fold_update_where
    by (intro map_cong refl fold_by_key [OF d]) (simp add: wiredRow_def)
  also have "\<dots> = map (\<lambda>r. case List.find (\<lambda>i. ids ! i = M_id r) [0..<length ms] of
              Some i \<Rightarrow> wiredRow ids (ms ! i) r | None \<Rightarrow> r) t"
    by (intro map_cong refl) (simp add: enumerate_0 find_map split: option.split)
  finally show ?thesis .
qed

lemma wired_row_at:
  assumes "distinct ids" and "length ids = length ms" and "j < length ms" and "M_id r = ids ! j"
  shows "(case List.find (\<lambda>i. ids ! i = M_id r) [0..<length ms] of
            Some i \<Rightarrow> wiredRow ids (ms ! i) r | None \<Rightarrow> r) = wiredRow ids (ms ! j) r"
proof -
  have "map ((!) ids) [0..<length ms] = ids" using assms(2) by (metis map_nth)
  then have "List.find (\<lambda>i. ids ! i = ids ! ([0..<length ms] ! j)) [0..<length ms] = Some ([0..<length ms] ! j)"
    using assms(1,3) by (intro find_nth_key) simp_all
  then show ?thesis using assms(3,4) by simp
qed

lemma wired_row_other:
  assumes "length ids = length ms" and "M_id r \<notin> set ids"
  shows "(case List.find (\<lambda>i. ids ! i = M_id r) [0..<length ms] of
            Some i \<Rightarrow> wiredRow ids (ms ! i) r | None \<Rightarrow> r) = r"
proof -
  have "List.find (\<lambda>i. ids ! i = M_id r) [0..<length ms] = None"
    unfolding find_None_iff_all using assms by (metis atLeastLessThan_upt atLeastLessThan_iff nth_mem)
  then show ?thesis by simp
qed

subsection \<open>Deletes keep the database well-formed\<close>

lemma deleteMatches_sel [frame_simps]:
  "stages (deleteMatches P d) = stages d" "groups (deleteMatches P d) = groups d"
  "events (deleteMatches P d) = events d" "tournaments (deleteMatches P d) = tournaments d"
  "participants (deleteMatches P d) = participants d" "UuidGen (deleteMatches P d) = UuidGen d"
  "Drawn (deleteMatches P d) = Drawn d" "audit_logs (deleteMatches P d) = audit_logs d"
  by (simp_all add: deleteMatches_def Let_def)

lemma nullIfIn_in: "optionIn x A \<Longrightarrow> optionIn (nullIfIn gone x) (A - gone)"
  by (cases x) (auto simp: nullIfIn_def)

lemma deleteMatches_ids:
  assumes "distinct (map M_id (matches d))"
  shows "M_id ` set (matches (deleteMatches P d)) = M_id ` set (matches d) - M_id ` set (filter P (matches d))"
proof -
  have inj: "inj_on M_id (set (matches d))" using assms by (simp add: distinct_map)
  have "M_id ` set (matches (deleteMatches P d)) = M_id ` (set (matches d) - set (filter P (matches d)))"
    by (auto simp: deleteMatches_def Let_def image_image)
  then show ?thesis using inj by (simp add: inj_on_image_set_diff [OF inj])
qed

lemma map_M_id_deleteMatches:
  "map M_id (matches (deleteMatches P d)) = map M_id (delete_where P (matches d))"
  by (simp add: deleteMatches_def Let_def comp_def)

lemma deleteMatches_grows: "grows d (deleteMatches P d)"
  by (auto simp: grows_def ids_in_use_def deleteMatches_def Let_def)

lemma deleteMatches_wf:
  assumes "db_wf d"
  shows "db_wf (deleteMatches P d)"
proof -
  let ?gone = "M_id ` set (filter P (matches d))" and ?d = "deleteMatches P d"
  have dm: "distinct (map M_id (matches d))" using assms by (simp add: db_wf_def)
  have ids: "M_id ` set (matches ?d) = M_id ` set (matches d) - ?gone" by (rule deleteMatches_ids [OF dm])
  have d1: "distinct (map M_id (matches ?d))"
    unfolding map_M_id_deleteMatches using dm by (simp add: delete_where_def distinct_map_filter)
  have "map S_id (match_participants ?d)
      = map S_id (delete_where (\<lambda>s. S_match_id s \<in> ?gone) (match_participants d))"
    by (simp add: deleteMatches_def Let_def comp_def)
  then have d2: "distinct (map S_id (match_participants ?d))"
    using assms by (simp add: db_wf_def delete_where_def distinct_map_filter)
  show ?thesis
    unfolding db_wf_def ids
  proof (intro conjI ballI)
    show "fresh_supply ?d" using assms deleteMatches_grows grows_fresh by (auto simp: db_wf_def)
    fix s assume "s \<in> set (match_participants ?d)"
    then obtain s0 where s0: "s0 \<in> set (match_participants d)" "S_match_id s0 \<notin> ?gone"
      "s = s0\<lparr>S_source_match_id := nullIfIn ?gone (S_source_match_id s0)\<rparr>"
      by (auto simp: deleteMatches_def Let_def)
    then show "S_match_id s \<in> M_id ` set (matches d) - ?gone"
      and "optionIn (S_source_match_id s) (M_id ` set (matches d) - ?gone)"
      using assms by (auto simp: db_wf_def intro: nullIfIn_in)
  next
    fix r assume "r \<in> set (matches ?d)"
    then obtain r0 where r0: "r0 \<in> set (matches d)"
      "r = r0\<lparr>M_next_match_id := nullIfIn ?gone (M_next_match_id r0)\<rparr>"
      by (auto simp: deleteMatches_def Let_def)
    then show "optionIn (M_next_match_id r) (M_id ` set (matches d) - ?gone)"
      and "optionIn (M_stage_id r) (St_id ` set (stages ?d))"
      and "optionIn (M_group_id r) (G_id ` set (groups ?d))"
      using assms by (auto simp: db_wf_def frame_simps intro: nullIfIn_in)
  next
    fix s assume "s \<in> set (match_scores ?d)"
    then have "s \<in> set (match_scores d)" "Sc_match_id s \<notin> ?gone" by (auto simp: deleteMatches_def Let_def)
    then show "Sc_match_id s \<in> M_id ` set (matches d) - ?gone" using assms by (auto simp: db_wf_def)
  next
    fix g assume "g \<in> set (groups ?d)"
    then show "G_stage_id g \<in> St_id ` set (stages ?d)" using assms by (auto simp: db_wf_def frame_simps)
  qed (rule d1 d2)+
qed

lemma deleteStages_sel [frame_simps]:
  "events (deleteStages P d) = events d" "tournaments (deleteStages P d) = tournaments d"
  "participants (deleteStages P d) = participants d" "UuidGen (deleteStages P d) = UuidGen d"
  "Drawn (deleteStages P d) = Drawn d" "audit_logs (deleteStages P d) = audit_logs d"
  by (simp_all add: deleteStages_def Let_def frame_simps)

lemma deleteStages_grows: "grows d (deleteStages P d)"
  by (auto simp: grows_def ids_in_use_def deleteStages_def deleteMatches_def Let_def)

lemma deleteStages_wf:
  assumes "db_wf d"
  shows "db_wf (deleteStages P d)"
proof -
  let ?sg = "St_id ` set (filter P (stages d))"
  let ?gg = "G_id ` set (filter (\<lambda>g. G_stage_id g \<in> ?sg) (groups d))"
  let ?Q = "\<lambda>m. (case M_stage_id m of Some s \<Rightarrow> s \<in> ?sg | None \<Rightarrow> False)
                \<or> (case M_group_id m of Some g \<Rightarrow> g \<in> ?gg | None \<Rightarrow> False)"
  let ?e = "deleteMatches ?Q d"
  have e: "db_wf ?e" by (rule deleteMatches_wf [OF assms])
  have eq: "deleteStages P d = ?e\<lparr>stages := delete_where P (stages d),
           groups := delete_where (\<lambda>g. G_stage_id g \<in> ?sg) (groups d),
           match_participants := map (\<lambda>s. s\<lparr>S_source_group_id := nullIfIn ?gg (S_source_group_id s)\<rparr>)
             (match_participants ?e)\<rparr>"
    by (simp only: deleteStages_def Let_def frame_simps)
  have eD: "distinct (map M_id (matches ?e))" "distinct (map S_id (match_participants ?e))"
    and eS: "\<forall>s \<in> set (match_participants ?e). S_match_id s \<in> M_id ` set (matches ?e)
          \<and> optionIn (S_source_match_id s) (M_id ` set (matches ?e))"
    and eM: "\<forall>r \<in> set (matches ?e). optionIn (M_next_match_id r) (M_id ` set (matches ?e))"
    and eC: "\<forall>s \<in> set (match_scores ?e). Sc_match_id s \<in> M_id ` set (matches ?e)"
    using e unfolding db_wf_def by blast+
  have left: "St_id ` set (stages d) - ?sg \<subseteq> St_id ` set (delete_where P (stages d))"
    "G_id ` set (groups d) - ?gg \<subseteq> G_id ` set (delete_where (\<lambda>g. G_stage_id g \<in> ?sg) (groups d))"
    by auto
  have kept: "optionIn (M_stage_id r) (St_id ` set (stages d) - ?sg)
      \<and> optionIn (M_group_id r) (G_id ` set (groups d) - ?gg)" if "r \<in> set (matches ?e)" for r
  proof -
    from that obtain r0 where r0: "r0 \<in> set (matches d)" "\<not> ?Q r0"
      "M_stage_id r = M_stage_id r0" "M_group_id r = M_group_id r0"
      by (auto simp: deleteMatches_def Let_def)
    have "optionIn (M_stage_id r0) (St_id ` set (stages d))" "optionIn (M_group_id r0) (G_id ` set (groups d))"
      using assms r0(1) by (auto simp: db_wf_def)
    then show ?thesis using r0(2-4) by (cases "M_stage_id r0"; cases "M_group_id r0") auto
  qed
  have mp: "map S_id (match_participants (deleteStages P d)) = map S_id (match_participants ?e)"
    unfolding eq by simp
  have m: "matches (deleteStages P d) = matches ?e" unfolding eq by simp
  show ?thesis
    unfolding db_wf_def mp m
  proof (intro conjI ballI)
    show "fresh_supply (deleteStages P d)" using assms deleteStages_grows grows_fresh by (auto simp: db_wf_def)
    fix s assume "s \<in> set (match_participants (deleteStages P d))"
    then obtain s0 where "s0 \<in> set (match_participants ?e)" "S_match_id s = S_match_id s0"
      "S_source_match_id s = S_source_match_id s0" unfolding eq by auto
    with eS show "S_match_id s \<in> M_id ` set (matches ?e)" and "optionIn (S_source_match_id s) (M_id ` set (matches ?e))"
      by simp_all
  next
    fix r assume r: "r \<in> set (matches ?e)"
    with eM show "optionIn (M_next_match_id r) (M_id ` set (matches ?e))" by blast
    show "optionIn (M_stage_id r) (St_id ` set (stages (deleteStages P d)))"
      using optionIn_mono [OF conjunct1 [OF kept [OF r]] left(1)] unfolding eq by simp
    show "optionIn (M_group_id r) (G_id ` set (groups (deleteStages P d)))"
      using optionIn_mono [OF conjunct2 [OF kept [OF r]] left(2)] unfolding eq by simp
  next
    fix s assume "s \<in> set (match_scores (deleteStages P d))"
    then have "s \<in> set (match_scores ?e)" unfolding eq by simp
    with eC show "Sc_match_id s \<in> M_id ` set (matches ?e)" by blast
  next
    fix g assume "g \<in> set (groups (deleteStages P d))"
    then have "g \<in> set (groups d)" "G_stage_id g \<notin> ?sg" unfolding eq by auto
    moreover have "G_stage_id g \<in> St_id ` set (stages d)"
      using assms calculation(1) unfolding db_wf_def by blast
    ultimately have "G_stage_id g \<in> St_id ` set (stages d) - ?sg" by blast
    with left(1) have "G_stage_id g \<in> St_id ` set (delete_where P (stages d))" by blast
    then show "G_stage_id g \<in> St_id ` set (stages (deleteStages P d))" unfolding eq by simp
  qed (rule eD)+
qed

subsection \<open>Stages and groups of a new draw\<close>

lemma insertGroup_fold:
  fixes d :: db
  assumes "fold (insertGroup gs names adv) [0..<n] (Map.empty, d) = (G', d')"
  shows "d' = d\<lparr>groups := groups d @ map (\<lambda>j. \<lparr>G_id = UuidGen d (Drawn d + j), G_stage_id = gs,
               G_name = groupName names j, G_advance_count = groupAdvanceCount adv j\<rparr>) [0..<n],
             Drawn := Drawn d + n\<rparr>
    \<and> G' = (\<lambda>i. if 0 \<le> i \<and> i < int n then Some (UuidGen d (Drawn d + nat i)) else None)"
  using assms
proof (induction n arbitrary: G' d')
  case (Suc n)
  obtain G1 d1 where f: "fold (insertGroup gs names adv) [0..<n] (Map.empty, d) = (G1, d1)"
    by (metis surj_pair)
  note IH = Suc.IH [OF f]
  have "(G', d') = insertGroup gs names adv n (G1, d1)"
    using Suc.prems f by simp
  then have "G' = G1(int n \<mapsto> UuidGen d1 (Drawn d1))"
    and "d' = d1\<lparr>Drawn := Suc (Drawn d1), groups := groups d1 @ [\<lparr>G_id = UuidGen d1 (Drawn d1), G_stage_id = gs,
           G_name = groupName names n, G_advance_count = groupAdvanceCount adv n\<rparr>]\<rparr>"
    by (simp_all add: insertGroup_def gen_random_uuid_def)
  then show ?case using IH by (auto simp: fun_eq_iff)
qed auto

lemma maxGroup_bound: "m \<in> set ms \<Longrightarrow> 0 \<le> GroupIndex m \<Longrightarrow> GroupIndex m \<le> maxGroup ms"
proof -
  define step where "step = (\<lambda>(m :: dmatch) g. if GroupIndex m \<ge> 0 \<and> GroupIndex m > g then GroupIndex m else (g::int))"
  have mono: "g \<le> fold step ms g" for ms g
  proof (induction ms arbitrary: g)
    case (Cons m ms)
    have "g \<le> step m g" by (simp add: step_def)
    also have "\<dots> \<le> fold step ms (step m g)" by (rule Cons.IH)
    finally show ?case by simp
  qed simp
  have "m \<in> set ms \<Longrightarrow> 0 \<le> GroupIndex m \<Longrightarrow> GroupIndex m \<le> fold step ms g" for g
  proof (induction ms arbitrary: g)
    case (Cons x ms)
    show ?case
    proof (cases "m = x")
      case True
      then have "GroupIndex m \<le> step x g" using Cons.prems by (simp add: step_def)
      then show ?thesis using mono [of "step x g" ms] by simp
    qed (use Cons in simp)
  qed simp
  moreover have "maxGroup ms = fold step ms (-1)" by (simp add: maxGroup_def step_def)
  ultimately show "m \<in> set ms \<Longrightarrow> 0 \<le> GroupIndex m \<Longrightarrow> GroupIndex m \<le> maxGroup ms" by simp
qed

text \<open>What \<open>prepareStages\<close> adds, and all it leaves alone.\<close>

definition stages_added :: "dmatch list \<Rightarrow> draw_rows \<Rightarrow> db \<Rightarrow> db \<Rightarrow> bool" where
  "stages_added ms env d d' \<longleftrightarrow> (\<exists>ss gs n.
     d' = d\<lparr>stages := stages d @ ss, groups := groups d @ gs, Drawn := Drawn d + n\<rparr>
   \<and> St_id ` set ss \<union> G_id ` set gs \<subseteq> UuidGen d ` {Drawn d..<Drawn d + n}
   \<and> (\<forall>g \<in> set gs. G_stage_id g \<in> St_id ` set ss)
   \<and> (HasGroups env \<longrightarrow> {GroupStage env, KnockoutStage env} \<subseteq> St_id ` set ss
        \<and> (\<forall>i g. GroupIDs env i = Some g \<longrightarrow> g \<in> G_id ` set gs))
   \<and> (\<forall>i. 0 \<le> i \<and> i \<le> maxGroup ms \<longrightarrow> GroupIDs env i \<noteq> None)
   \<and> (HasGroups env \<longleftrightarrow> (\<exists>m \<in> set ms. 0 \<le> GroupIndex m)))"

lemma maxGroup_none: "\<forall>m \<in> set ms. GroupIndex m < 0 \<Longrightarrow> maxGroup ms = -1"
proof -
  have "\<forall>m \<in> set ms. GroupIndex m < 0 \<Longrightarrow>
      fold (\<lambda>m g. if GroupIndex m \<ge> 0 \<and> GroupIndex m > g then GroupIndex m else g) ms g = g" for g
    by (induction ms arbitrary: g) auto
  then show "\<forall>m \<in> set ms. GroupIndex m < 0 \<Longrightarrow> maxGroup ms = -1" by (simp add: maxGroup_def)
qed

lemma prepareStages_added:
  assumes "prepareStages eventID ms names adv d = (env, d')"
  shows "stages_added ms env d d'"
proof (cases "\<exists>m \<in> set ms. 0 \<le> GroupIndex m")
  case False
  then have "env = \<lparr>HasGroups = False, GroupStage = uuid_Nil, KnockoutStage = uuid_Nil, GroupIDs = Map.empty\<rparr>"
    "d' = d" using assms by (auto simp: prepareStages_def)
  moreover have "maxGroup ms = -1" using False by (intro maxGroup_none) auto
  ultimately show ?thesis unfolding stages_added_def using False
    by (intro exI [of _ "[]"] exI [of _ 0]) auto
next
  case True
  let ?n = "nat (maxGroup ms + 1)"
  let ?gs = "UuidGen d (Drawn d)" and ?ks = "UuidGen d (Suc (Drawn d))"
  let ?ss = "[\<lparr>St_id = ?gs, St_event_id = eventID, St_kind = ''group'', St_sort_order = 0\<rparr>,
      \<lparr>St_id = ?ks, St_event_id = eventID, St_kind = ''knockout'', St_sort_order = 1\<rparr>]"
  let ?d = "d\<lparr>Drawn := Suc (Suc (Drawn d)), stages := stages d @ ?ss\<rparr>"
  obtain G e where f: "fold (insertGroup ?gs names adv) [0..<?n] (Map.empty, ?d) = (G, e)"
    by (metis surj_pair)
  then have env: "env = \<lparr>HasGroups = True, GroupStage = ?gs, KnockoutStage = ?ks, GroupIDs = G\<rparr>" and d': "d' = e"
    using assms True by (simp_all add: prepareStages_def insertStage_def gen_random_uuid_def Let_def)
  let ?gg = "map (\<lambda>j. \<lparr>G_id = UuidGen d (Suc (Suc (Drawn d)) + j), G_stage_id = ?gs,
               G_name = groupName names j, G_advance_count = groupAdvanceCount adv j\<rparr>) [0..<?n]"
  from insertGroup_fold [OF f] have e: "e = d\<lparr>stages := stages d @ ?ss, groups := groups d @ ?gg, Drawn := Drawn d + (2 + ?n)\<rparr>"
    by simp
  from insertGroup_fold [OF f]
  have G: "G = (\<lambda>i. if 0 \<le> i \<and> i < int ?n then Some (UuidGen d (Suc (Suc (Drawn d)) + nat i)) else None)"
    by (simp cong: if_cong)
  have gid: "G_id ` set ?gg = (\<lambda>j. UuidGen d (Suc (Suc (Drawn d)) + j)) ` {0..<?n}" by (auto simp: image_image)
  have drawn: "(\<lambda>j. UuidGen d (Suc (Suc (Drawn d)) + j)) ` {0..<?n} \<subseteq> UuidGen d ` {Drawn d..<Drawn d + (2 + ?n)}"
    by auto
  have first: "{?gs, ?ks} \<subseteq> UuidGen d ` {Drawn d..<Drawn d + (2 + ?n)}" by auto
  show ?thesis
    unfolding stages_added_def d' env
  proof (intro exI [of _ ?ss] exI [of _ ?gg] exI [of _ "2 + ?n"] conjI)
    show "St_id ` set ?ss \<union> G_id ` set ?gg \<subseteq> UuidGen d ` {Drawn d..<Drawn d + (2 + ?n)}"
      using drawn first unfolding gid by simp
    show "HasGroups \<lparr>HasGroups = True, GroupStage = ?gs, KnockoutStage = ?ks, GroupIDs = G\<rparr> \<longrightarrow>
      {GroupStage \<lparr>HasGroups = True, GroupStage = ?gs, KnockoutStage = ?ks, GroupIDs = G\<rparr>,
       KnockoutStage \<lparr>HasGroups = True, GroupStage = ?gs, KnockoutStage = ?ks, GroupIDs = G\<rparr>} \<subseteq> St_id ` set ?ss
      \<and> (\<forall>i g. GroupIDs \<lparr>HasGroups = True, GroupStage = ?gs, KnockoutStage = ?ks, GroupIDs = G\<rparr> i = Some g
            \<longrightarrow> g \<in> G_id ` set ?gg)"
      unfolding gid by (auto simp: G)
  qed (use e True in \<open>auto simp: G\<close>)
qed

subsection \<open>The stored draw\<close>

definition storedMatches :: "uuid \<Rightarrow> draw_rows \<Rightarrow> uuid list \<Rightarrow> dmatch list \<Rightarrow> match_row list" where
  "storedMatches eventID env ids ms =
     map (\<lambda>i. wiredRow ids (ms ! i) (newMatchRow eventID env (ids ! i) i (ms ! i))) [0..<length ms]"

definition storedPair ::
  "(int \<rightharpoonup> uuid) \<Rightarrow> uuid \<Rightarrow> uuid \<Rightarrow> uuid list \<Rightarrow> dmatch list \<Rightarrow> nat \<Rightarrow> slot_row list" where
  "storedPair G u1 u2 ids ms i =
     [typedRow ids (feeder ms i 1) (slotRow G u1 (ids ! i) 1 (Slot1 (ms ! i))),
      typedRow ids (feeder ms i 2) (slotRow G u2 (ids ! i) 2 (Slot2 (ms ! i)))]"

definition storedSlots ::
  "(int \<rightharpoonup> uuid) \<Rightarrow> (nat \<Rightarrow> uuid) \<Rightarrow> nat \<Rightarrow> uuid list \<Rightarrow> dmatch list \<Rightarrow> slot_row list" where
  "storedSlots G g k ids ms =
     concat (map (\<lambda>i. storedPair G (g (k + 2 * i)) (g (k + 2 * i + 1)) ids ms i) [0..<length ms])"

lemma newSlotRows_concat:
  "newSlotRows G g k ids j ms = concat (map (\<lambda>i.
     [slotRow G (g (k + 2 * i)) (ids ! (j + i)) 1 (Slot1 (ms ! i)),
      slotRow G (g (k + 2 * i + 1)) (ids ! (j + i)) 2 (Slot2 (ms ! i))]) [0..<length ms])"
proof (induction ms arbitrary: k j)
  case (Cons m ms)
  have u: "[0..<length (m # ms)] = 0 # map Suc [0..<length ms]"
    by (simp add: map_Suc_upt upt_conv_Cons del: upt_Suc)
  show ?case unfolding u by (simp add: Cons.IH comp_def)
qed simp

lemma typedRow_sel [simp]: "S_match_id (typedRow ids f r) = S_match_id r" "S_id (typedRow ids f r) = S_id r"
  "S_slot (typedRow ids f r) = S_slot r" "S_participant_id (typedRow ids f r) = S_participant_id r"
  by (auto simp: typedRow_def split: option.split)

lemma slotRow_sel [simp]: "S_match_id (slotRow G u mid k s) = mid" "S_id (slotRow G u mid k s) = u"
  "S_slot (slotRow G u mid k s) = k" "S_participant_id (slotRow G u mid k s) = SlotParticipant s"
  "S_source_type (slotRow G u mid k s) = slotType s" "S_source_match_id (slotRow G u mid k s) = None"
  by (simp_all add: slotRow_def Let_def)

lemma newMatchRow_sel [simp]: "M_id (newMatchRow ev env u i m) = u" "M_event_id (newMatchRow ev env u i m) = ev"
  "M_winner (newMatchRow ev env u i m) = None" "M_status (newMatchRow ev env u i m) = initialStatus m"
  "M_match_no (newMatchRow ev env u i m) = int i + 1" "M_next_match_id (newMatchRow ev env u i m) = None"
  "M_stage_id (newMatchRow ev env u i m) = stageOf env m" "M_group_id (newMatchRow ev env u i m) = groupOf env m"
  "M_completed_at (newMatchRow ev env u i m) = None"
  by (simp_all add: newMatchRow_def)

lemma wiredRow_sel [simp]: "M_id (wiredRow ids m r) = M_id r" "M_event_id (wiredRow ids m r) = M_event_id r"
  "M_winner (wiredRow ids m r) = M_winner r" "M_status (wiredRow ids m r) = M_status r"
  "M_match_no (wiredRow ids m r) = M_match_no r" "M_stage_id (wiredRow ids m r) = M_stage_id r"
  "M_group_id (wiredRow ids m r) = M_group_id r" "M_completed_at (wiredRow ids m r) = M_completed_at r"
  by (simp_all add: wiredRow_def)

text \<open>The database \<open>persistWithGroups\<close> stores into: the old draw is gone, the stages are there.\<close>

definition clearedDraw :: "uuid \<Rightarrow> db \<Rightarrow> db" where
  "clearedDraw eventID d = deleteStages (\<lambda>s. St_event_id s = eventID)
     (deleteMatches (\<lambda>m. M_event_id m = eventID) d)"

lemma clearedDraw_wf: "db_wf d \<Longrightarrow> db_wf (clearedDraw eventID d)"
  unfolding clearedDraw_def by (intro deleteStages_wf deleteMatches_wf)

lemma clearedDraw_grows: "grows d (clearedDraw eventID d)"
  unfolding clearedDraw_def using deleteMatches_grows deleteStages_grows by (rule grows_trans)

lemma clearedDraw_event: "r \<in> set (matches (clearedDraw eventID d)) \<Longrightarrow> M_event_id r \<noteq> eventID"
  by (auto simp: clearedDraw_def deleteStages_def deleteMatches_def Let_def)

lemma persist_shape:
  assumes "fresh_supply d2" and "match_participants d2 = match_participants d1" and "matches d2 = matches d1"
    and env: "prepareStages eventID ms names adv (clearedDraw eventID d) = (env, d2)" and d1: "d1 = clearedDraw eventID d"
    and fk: "\<forall>s \<in> set (match_participants d1). S_match_id s \<in> M_id ` set (matches d1)"
    and range: "\<forall>m \<in> set ms. NextMatchIdx m < int (length ms)"
    and known: "\<forall>m \<in> set ms. slot_known (GroupIDs env) (Slot1 m) \<and> slot_known (GroupIDs env) (Slot2 m)"
  defines "ids \<equiv> drawnIds d2 (length ms)"
  shows "distinct ids"
    and "set ids \<inter> ids_in_use d2 = {}"
    and "persistWithGroups eventID ms names adv d = Inr (d2\<lparr>
      matches := matches d2 @ storedMatches eventID env ids ms,
      match_participants := match_participants d2
        @ storedSlots (GroupIDs env) (UuidGen d2) (Drawn d2 + length ms) ids ms,
      Drawn := Drawn d2 + 3 * length ms\<rparr>)"
proof -
  let ?n = "length ms" and ?g = "UuidGen d2"
  have len: "length ids = ?n" by (simp add: ids_def)
  show dist: "distinct ids"
    unfolding ids_def drawnIds_def using assms(1) by (auto simp: fresh_supply_def distinct_map inj_def intro!: inj_onI)
  show disj: "set ids \<inter> ids_in_use d2 = {}"
    unfolding ids_def drawnIds_def using drawn_fresh [OF assms(1)] by auto
  then have old_m: "M_id r \<notin> set ids" if "r \<in> set (matches d2)" for r
    using that by (auto simp: ids_in_use_def)
  have old_s: "S_match_id s \<notin> set ids" if "s \<in> set (match_participants d2)" for s
    using that fk assms(2,3) old_m by fastforce
  define d3 where "d3 = d2\<lparr>Drawn := Drawn d2 + ?n,
      matches := matches d2 @ newMatchRows eventID env ?g (Drawn d2) 0 ms\<rparr>"
  have p1: "fold (insertMatch eventID env) (enumerate 0 ms) ([], d2) = (ids, d3)"
    unfolding insertMatch_fold by (simp add: ids_def d3_def)
  define W where "W = (\<lambda>r. case List.find (\<lambda>i. ids ! i = M_id r) [0..<?n] of
      Some i \<Rightarrow> wiredRow ids (ms ! i) r | None \<Rightarrow> r)"
  have W_old: "map W (matches d2) = matches d2"
    unfolding W_def using old_m by (intro map_idI wired_row_other [OF len])
  have W_new: "map W (newMatchRows eventID env ?g (Drawn d2) 0 ms) = storedMatches eventID env ids ms"
  proof (rule nth_equalityI)
    fix i assume "i < length (map W (newMatchRows eventID env ?g (Drawn d2) 0 ms))"
    then have i: "i < ?n" by simp
    then have "newMatchRows eventID env ?g (Drawn d2) 0 ms ! i = newMatchRow eventID env (ids ! i) i (ms ! i)"
      by (simp add: newMatchRows_nth ids_def)
    then show "map W (newMatchRows eventID env ?g (Drawn d2) 0 ms) ! i = storedMatches eventID env ids ms ! i"
      using i wired_row_at [OF dist len i] by (simp add: W_def storedMatches_def)
  qed (simp add: storedMatches_def)
  define d4 where "d4 = d3\<lparr>matches := matches d2 @ storedMatches eventID env ids ms,
      match_participants := match_participants d2 @ newSlotRows (GroupIDs env) ?g (Drawn d2 + ?n) ids 0 ms,
      Drawn := Drawn d2 + 3 * ?n\<rparr>"
  have p2: "forM (wireMatch ids (GroupIDs env)) (enumerate 0 ms) d3 = Inr d4"
    unfolding wireMatch_fold [OF known] wired_rows [OF dist len] W_def [symmetric]
    by (simp add: d3_def d4_def W_old W_new)
  define F where "F = (\<lambda>r. fold (\<lambda>(i, m) r. if feedsRow ids m r
       then r\<lparr>S_source_type := ''match_winner'', S_source_match_id := Some (ids ! i)\<rparr> else r) (enumerate 0 ms) r)"
  have F_old: "map F (match_participants d2) = match_participants d2"
    unfolding F_def using old_s by (intro map_idI untyped_row [OF len range])
  have F_at: "F r = typedRow ids (feeder ms i (S_slot r)) r" if "i < ?n" "S_match_id r = ids ! i" for r i
    unfolding F_def by (rule typed_row [OF dist len that(1) range that(2)])
  have F_new: "map F (newSlotRows (GroupIDs env) ?g (Drawn d2 + ?n) ids 0 ms)
      = storedSlots (GroupIDs env) ?g (Drawn d2 + ?n) ids ms"
    unfolding newSlotRows_concat storedSlots_def storedPair_def map_concat map_map
    by (intro arg_cong [where f = concat] map_cong refl) (simp add: F_at)
  have p3: "fold (typeFeed ids) (enumerate 0 ms) d4 = d4\<lparr>match_participants :=
      match_participants d2 @ storedSlots (GroupIDs env) ?g (Drawn d2 + ?n) ids ms\<rparr>"
    unfolding typeFeed_fold F_def [symmetric] by (simp add: d4_def F_old F_new)
  show "persistWithGroups eventID ms names adv d = Inr (d2\<lparr>
      matches := matches d2 @ storedMatches eventID env ids ms,
      match_participants := match_participants d2
        @ storedSlots (GroupIDs env) (UuidGen d2) (Drawn d2 + length ms) ids ms,
      Drawn := Drawn d2 + 3 * length ms\<rparr>)"
    unfolding persistWithGroups_def Let_def clearedDraw_def [symmetric] env prod.case p1 p2 sum.case p3
    by (simp add: d4_def d3_def)
qed

definition draw_stored :: "db \<Rightarrow> uuid \<Rightarrow> draw_rows \<Rightarrow> uuid list \<Rightarrow> dmatch list \<Rightarrow> bool" where
  "draw_stored d eventID env ids ms \<longleftrightarrow> distinct ids \<and> length ids = length ms
   \<and> filter (\<lambda>r. M_event_id r = eventID) (matches d) = storedMatches eventID env ids ms
   \<and> (\<forall>i < length ms. \<exists>u1 u2. filter (\<lambda>s. S_match_id s = ids ! i) (match_participants d)
        = storedPair (GroupIDs env) u1 u2 ids ms i)"

lemma map_M_id_stored: "length ids = length ms \<Longrightarrow> map M_id (storedMatches ev env ids ms) = ids"
  by (intro nth_equalityI) (simp_all add: storedMatches_def)

lemma set_storedSlots:
  "s \<in> set (storedSlots G g k ids ms) \<longleftrightarrow>
     (\<exists>i < length ms. s \<in> set (storedPair G (g (k + 2 * i)) (g (k + 2 * i + 1)) ids ms i))"
  by (auto simp: storedSlots_def)

lemma S_match_storedPair: "s \<in> set (storedPair G u1 u2 ids ms i) \<Longrightarrow> S_match_id s = ids ! i"
  by (auto simp: storedPair_def)

lemma filter_storedSlots:
  assumes "distinct ids" and "length ids = length ms" and "i < length ms"
  shows "filter (\<lambda>s. S_match_id s = ids ! i) (storedSlots G g k ids ms)
    = storedPair G (g (k + 2 * i)) (g (k + 2 * i + 1)) ids ms i"
proof -
  have "filter (\<lambda>s. S_match_id s = ids ! i) (storedPair G (g (k + 2 * j)) (g (k + 2 * j + 1)) ids ms j)
      = (if j = i then storedPair G (g (k + 2 * j)) (g (k + 2 * j + 1)) ids ms j else [])" if "j < length ms" for j
    using that assms by (auto simp: filter_empty_conv nth_eq_iff_index_eq dest!: S_match_storedPair intro: filter_True)
  then have "filter (\<lambda>s. S_match_id s = ids ! i) (storedSlots G g k ids ms)
      = concat (map (\<lambda>j. if j = i then storedPair G (g (k + 2 * j)) (g (k + 2 * j + 1)) ids ms j else []) [0..<length ms])"
    unfolding storedSlots_def filter_concat map_map by (intro arg_cong [where f = concat] map_cong) auto
  also have "\<dots> = storedPair G (g (k + 2 * i)) (g (k + 2 * i + 1)) ids ms i"
    by (rule concat_single_index [OF assms(3)])
  finally show ?thesis .
qed

lemma map_S_id_storedSlots:
  "map S_id (storedSlots G g k ids ms) = map g [k..<k + 2 * length ms]"
proof -
  have "concat (map (\<lambda>i. [g (k + 2 * i), g (k + 2 * i + 1)]) [0..<n]) = map g [k..<k + 2 * n]" for n
    by (induction n) simp_all
  then show ?thesis by (simp add: storedSlots_def storedPair_def map_concat comp_def)
qed

lemma feeder_lt: "feeder ms j k = Some i \<Longrightarrow> i < length ms \<and> NextMatchIdx (ms ! i) = int j \<and> int (NextSlot (ms ! i)) = k"
  unfolding feeder_def by (drule find_Some_in) auto

lemma storedPair_source:
  assumes "s \<in> set (storedPair G u1 u2 ids ms i)" and "length ids = length ms"
  shows "optionIn (S_source_match_id s) (set ids)"
proof -
  from assms(1) obtain u k sl where s: "s = typedRow ids (feeder ms i k) (slotRow G u (ids ! i) k sl)"
    by (auto simp: storedPair_def)
  show ?thesis
  proof (cases "feeder ms i k")
    case (Some j)
    then have "ids ! j \<in> set ids" using feeder_lt [OF Some] assms(2) by simp
    then show ?thesis unfolding s Some by (simp add: typedRow_def)
  qed (simp add: s typedRow_def)
qed

text \<open>No row of another event hangs on the stages, groups or matches of this one.\<close>

definition event_closed :: "uuid \<Rightarrow> db \<Rightarrow> bool" where
  "event_closed ev d \<longleftrightarrow> (\<forall>r \<in> set (matches d). M_event_id r \<noteq> ev \<longrightarrow>
     (\<forall>x. M_next_match_id r = Some x \<longrightarrow> x \<notin> M_id ` {r \<in> set (matches d). M_event_id r = ev})
   \<and> (\<forall>x. M_stage_id r = Some x \<longrightarrow> x \<notin> St_id ` {s \<in> set (stages d). St_event_id s = ev})
   \<and> (\<forall>x. M_group_id r = Some x \<longrightarrow>
        x \<notin> G_id ` {g \<in> set (groups d). G_stage_id g \<in> St_id ` {s \<in> set (stages d). St_event_id s = ev}}))"

lemma nullIfIn_id: "(\<And>i. x = Some i \<Longrightarrow> i \<notin> A) \<Longrightarrow> nullIfIn A x = x"
  by (cases x) (auto simp: nullIfIn_def)

lemma deleteMatches_frame:
  assumes "\<And>r x. r \<in> set (matches d) \<Longrightarrow> \<not> P r \<Longrightarrow> M_next_match_id r = Some x
    \<Longrightarrow> x \<notin> M_id ` {r \<in> set (matches d). P r}"
  shows "matches (deleteMatches P d) = delete_where P (matches d)"
  unfolding deleteMatches_def Let_def delete_where_def
  by simp (rule map_idI, use assms in \<open>auto simp: nullIfIn_id\<close>)

lemma deleteMatches_none:
  "(\<And>r. r \<in> set (matches d) \<Longrightarrow> \<not> P r) \<Longrightarrow> matches (deleteMatches P d) = matches d"
  by (subst deleteMatches_frame) (auto simp: delete_where_def filter_id_conv)

lemma clearedDraw_others:
  assumes "event_closed ev d"
  shows "matches (clearedDraw ev d) = filter (\<lambda>r. M_event_id r \<noteq> ev) (matches d)"
proof -
  let ?e = "deleteMatches (\<lambda>m. M_event_id m = ev) d"
  have e: "matches ?e = filter (\<lambda>r. M_event_id r \<noteq> ev) (matches d)"
    by (subst deleteMatches_frame) (use assms in \<open>auto simp: event_closed_def delete_where_def\<close>)
  show ?thesis
    unfolding clearedDraw_def deleteStages_def Let_def
    by (simp add: frame_simps, subst deleteMatches_none)
      (use assms in \<open>auto simp: e event_closed_def frame_simps split: option.splits\<close>)
qed

end
