(* ===== verification/DrawBuild.thy ===== *)
theory DrawBuild
  imports DrawStore
begin

section \<open>Replacing a draw (Build, SetGroups)\<close>

text \<open>
  What \<open>persistWithGroups\<close> leaves in the database, and the end-to-end behaviour of the two
  operations that build a draw with it: \<open>Build\<close> (internal/draw/service.go) and \<open>SetGroups\<close>
  (manual_setup.go).
\<close>

subsection \<open>The stored draw is well-formed\<close>

lemma optionIn_Un: "optionIn x A \<Longrightarrow> optionIn x (A \<union> B)" "optionIn x B \<Longrightarrow> optionIn x (A \<union> B)"
  by (auto elim: optionIn_mono)

lemma stages_addedE:
  assumes "stages_added ms env d d'"
  obtains ss gs n where "d' = d\<lparr>stages := stages d @ ss, groups := groups d @ gs, Drawn := Drawn d + n\<rparr>"
    and "St_id ` set ss \<union> G_id ` set gs \<subseteq> UuidGen d ` {Drawn d..<Drawn d + n}"
    and "\<forall>g \<in> set gs. G_stage_id g \<in> St_id ` set ss"
    and "HasGroups env \<longrightarrow> {GroupStage env, KnockoutStage env} \<subseteq> St_id ` set ss
        \<and> (\<forall>i g. GroupIDs env i = Some g \<longrightarrow> g \<in> G_id ` set gs)"
    and "\<forall>i. 0 \<le> i \<and> i \<le> maxGroup ms \<longrightarrow> GroupIDs env i \<noteq> None"
  using assms unfolding stages_added_def by (elim exE conjE) (rule that)

lemma stages_added_wf:
  assumes "stages_added ms env d d'" and "db_wf d"
  shows "db_wf d' \<and> grows d d' \<and> matches d' = matches d \<and> match_participants d' = match_participants d"
proof -
  obtain ss gs n where d': "d' = d\<lparr>stages := stages d @ ss, groups := groups d @ gs, Drawn := Drawn d + n\<rparr>"
    and new: "St_id ` set ss \<union> G_id ` set gs \<subseteq> UuidGen d ` {Drawn d..<Drawn d + n}"
    and gs: "\<forall>g \<in> set gs. G_stage_id g \<in> St_id ` set ss"
    using assms(1) by (rule stages_addedE)
  have "ids_in_use d' = ids_in_use d \<union> (St_id ` set ss \<union> G_id ` set gs)"
    by (simp add: d' ids_in_use_def image_Un Un_ac)
  then have g: "grows d d'" using new by (auto simp: grows_def d')
  have fresh: "fresh_supply d'" using grows_fresh [OF g] assms(2) by (simp add: db_wf_def)
  have keep: "optionIn (M_stage_id r) (St_id ` set (stages d'))"
    "optionIn (M_group_id r) (G_id ` set (groups d'))" if "r \<in> set (matches d)" for r
  proof -
    have "optionIn (M_stage_id r) (St_id ` set (stages d))" "optionIn (M_group_id r) (G_id ` set (groups d))"
      using assms(2) that unfolding db_wf_def by blast+
    then show "optionIn (M_stage_id r) (St_id ` set (stages d'))"
      "optionIn (M_group_id r) (G_id ` set (groups d'))"
      by (simp_all add: d' image_Un optionIn_Un)
  qed
  have gk: "\<forall>g \<in> set (groups d'). G_stage_id g \<in> St_id ` set (stages d')"
    using assms(2) gs by (auto simp: d' db_wf_def)
  have "db_wf d'"
    using assms(2) fresh keep gk unfolding db_wf_def by (simp add: d')
  then show ?thesis using g by (simp add: d')
qed

lemma stageOf_in:
  assumes "stages_added ms env d d'" and "m \<in> set ms"
  shows "optionIn (stageOf env m) (St_id ` set (stages d'))" "optionIn (groupOf env m) (G_id ` set (groups d'))"
proof -
  obtain ss gs n where d': "d' = d\<lparr>stages := stages d @ ss, groups := groups d @ gs, Drawn := Drawn d + n\<rparr>"
    and st: "HasGroups env \<longrightarrow> {GroupStage env, KnockoutStage env} \<subseteq> St_id ` set ss
        \<and> (\<forall>i g. GroupIDs env i = Some g \<longrightarrow> g \<in> G_id ` set gs)"
    and gi: "\<forall>i. 0 \<le> i \<and> i \<le> maxGroup ms \<longrightarrow> GroupIDs env i \<noteq> None"
    using assms(1) by (rule stages_addedE)
  show "optionIn (stageOf env m) (St_id ` set (stages d'))"
    using st by (auto simp: stageOf_def d')
  show "optionIn (groupOf env m) (G_id ` set (groups d'))"
  proof (cases "HasGroups env \<and> GroupIndex m \<ge> 0")
    case True
    then have "GroupIDs env (GroupIndex m) \<noteq> None" using gi maxGroup_bound [OF assms(2)] by blast
    then obtain g where "GroupIDs env (GroupIndex m) = Some g" by blast
    then show ?thesis using True st by (auto simp: groupOf_def d')
  qed (auto simp: groupOf_def)
qed

lemma ids_in_use_stored:
  assumes "length ids = length ms"
  shows "ids_in_use (d\<lparr>matches := matches d @ storedMatches ev env ids ms,
      match_participants := match_participants d @ storedSlots G g k ids ms, Drawn := n\<rparr>)
    = ids_in_use d \<union> set ids \<union> g ` {k..<k + 2 * length ms}"
proof -
  have "M_id ` set (storedMatches ev env ids ms) = set ids"
    using map_M_id_stored [OF assms, of ev env] by (metis list.set_map)
  moreover have "S_id ` set (storedSlots G g k ids ms) = g ` {k..<k + 2 * length ms}"
    using map_S_id_storedSlots [of G g k ids ms] by (metis list.set_map set_upt atLeastLessThan_upt)
  ultimately show ?thesis by (simp add: ids_in_use_def image_Un Un_ac)
qed

lemma stored_wf:
  fixes G :: "int \<rightharpoonup> uuid" and ev :: uuid
  assumes "db_wf d" and "distinct ids" and "length ids = length ms"
    and ids: "set ids = UuidGen d ` {Drawn d..<Drawn d + length ms}"
    and refs: "\<And>m. m \<in> set ms \<Longrightarrow> optionIn (stageOf env m) (St_id ` set (stages d))
        \<and> optionIn (groupOf env m) (G_id ` set (groups d)) \<and> NextMatchIdx m < int (length ms)"
  defines "d' \<equiv> d\<lparr>matches := matches d @ storedMatches ev env ids ms,
      match_participants := match_participants d @ storedSlots G (UuidGen d) (Drawn d + length ms) ids ms,
      Drawn := Drawn d + 3 * length ms\<rparr>"
  shows "db_wf d' \<and> grows d d'"
proof -
  let ?n = "length ms"
  have fr: "fresh_supply d" using assms(1) by (simp add: db_wf_def)
  then have inj: "inj (UuidGen d)" by (simp add: fresh_supply_def)
  have use: "ids_in_use d' = ids_in_use d \<union> set ids \<union> UuidGen d ` {Drawn d + ?n..<Drawn d + ?n + 2 * ?n}"
    unfolding d'_def by (rule ids_in_use_stored [OF assms(3)])
  have "ids_in_use d' \<subseteq> ids_in_use d \<union> UuidGen d ` {Drawn d..<Drawn d + 3 * ?n}"
  proof -
    have "UuidGen d ` {Drawn d + ?n..<Drawn d + ?n + 2 * ?n} \<subseteq> UuidGen d ` {Drawn d..<Drawn d + 3 * ?n}"
      "UuidGen d ` {Drawn d..<Drawn d + ?n} \<subseteq> UuidGen d ` {Drawn d..<Drawn d + 3 * ?n}"
      by (intro image_mono; simp)+
    then show ?thesis unfolding use ids by blast
  qed
  then have g: "grows d d'" by (simp add: grows_def d'_def)
  have M: "M_id ` set (matches d') = M_id ` set (matches d) \<union> set ids"
  proof -
    have "M_id ` set (storedMatches ev env ids ms) = set ids"
      using map_M_id_stored [OF assms(3), of ev env] by (metis list.set_map)
    then show ?thesis by (simp add: d'_def image_Un)
  qed
  have old: "u \<notin> ids_in_use d" if "u \<in> UuidGen d ` {Drawn d..<m}" for u m
    using that drawn_fresh [OF fr] by auto
  have d1: "distinct (map M_id (matches d'))"
  proof -
    have "set ids \<inter> M_id ` set (matches d) = {}"
      using old [of _ "Drawn d + ?n"] unfolding ids ids_in_use_def by blast
    moreover have "distinct (map M_id (matches d))" using assms(1) unfolding db_wf_def by blast
    ultimately show ?thesis
      using assms(2) map_M_id_stored [OF assms(3), of ev env] by (auto simp: d'_def)
  qed
  have nid: "set (map (UuidGen d) [Drawn d + ?n..<Drawn d + ?n + 2 * ?n]) \<inter> S_id ` set (match_participants d) = {}"
  proof -
    have "S_id ` set (match_participants d) \<subseteq> ids_in_use d" by (auto simp: ids_in_use_def)
    moreover have "UuidGen d ` {Drawn d + ?n..<Drawn d + ?n + 2 * ?n} \<inter> ids_in_use d = {}"
      using drawn_fresh [OF fr] by auto
    ultimately show ?thesis by (simp only: set_map set_upt) blast
  qed
  have d2: "distinct (map S_id (match_participants d'))"
  proof -
    have "distinct (map (UuidGen d) [Drawn d + ?n..<Drawn d + ?n + 2 * ?n])"
      using inj by (simp add: distinct_map inj_on_def inj_def)
    moreover have "distinct (map S_id (match_participants d))" using assms(1) unfolding db_wf_def by blast
    ultimately show ?thesis
      using nid unfolding d'_def by (simp add: map_S_id_storedSlots Int_commute)
  qed
  show ?thesis
    unfolding db_wf_def M
  proof (intro conjI ballI)
    show "fresh_supply d'" by (rule grows_fresh [OF g fr])
    fix s assume "s \<in> set (match_participants d')"
    then consider "s \<in> set (match_participants d)"
      | "s \<in> set (storedSlots G (UuidGen d) (Drawn d + ?n) ids ms)" unfolding d'_def by auto
    then have "S_match_id s \<in> M_id ` set (matches d) \<union> set ids
      \<and> optionIn (S_source_match_id s) (M_id ` set (matches d) \<union> set ids)"
    proof cases
      case 1
      then have "S_match_id s \<in> M_id ` set (matches d) \<and> optionIn (S_source_match_id s) (M_id ` set (matches d))"
        using assms(1) unfolding db_wf_def by blast
      then show ?thesis by (simp add: optionIn_Un)
    next
      case 2
      then obtain i u1 u2 where i: "i < ?n" and s: "s \<in> set (storedPair G u1 u2 ids ms i)"
        unfolding set_storedSlots by blast
      have "S_match_id s \<in> set ids" using S_match_storedPair [OF s] i assms(3) by simp
      then show ?thesis using storedPair_source [OF s assms(3)] by (simp add: optionIn_Un)
    qed
    then show "S_match_id s \<in> M_id ` set (matches d) \<union> set ids"
      and "optionIn (S_source_match_id s) (M_id ` set (matches d) \<union> set ids)" by blast+
  next
    fix r assume "r \<in> set (matches d')"
    then consider "r \<in> set (matches d)" | "r \<in> set (storedMatches ev env ids ms)" unfolding d'_def by auto
    then have "optionIn (M_next_match_id r) (M_id ` set (matches d) \<union> set ids)
       \<and> optionIn (M_stage_id r) (St_id ` set (stages d')) \<and> optionIn (M_group_id r) (G_id ` set (groups d'))"
    proof cases
      case 1
      then have "optionIn (M_next_match_id r) (M_id ` set (matches d))
       \<and> optionIn (M_stage_id r) (St_id ` set (stages d)) \<and> optionIn (M_group_id r) (G_id ` set (groups d))"
        using assms(1) unfolding db_wf_def by blast
      then show ?thesis unfolding d'_def by (simp add: optionIn_Un)
    next
      case 2
      then obtain i where i: "i < ?n"
        and r: "r = wiredRow ids (ms ! i) (newMatchRow ev env (ids ! i) i (ms ! i))"
        by (auto simp: storedMatches_def)
      have m: "ms ! i \<in> set ms" using i by simp
      have "optionIn (M_next_match_id r) (set ids)"
        using refs [OF m] assms(3) by (auto simp: r wiredRow_def intro!: nth_mem)
      then show ?thesis using refs [OF m] by (simp add: r d'_def optionIn_Un)
    qed
    then show "optionIn (M_next_match_id r) (M_id ` set (matches d) \<union> set ids)"
       and "optionIn (M_stage_id r) (St_id ` set (stages d'))" and "optionIn (M_group_id r) (G_id ` set (groups d'))" by blast+
  next
    fix s assume "s \<in> set (match_scores d')"
    then have "s \<in> set (match_scores d)" by (simp add: d'_def)
    then show "Sc_match_id s \<in> M_id ` set (matches d) \<union> set ids" using assms(1) unfolding db_wf_def by blast
  next
    fix x assume "x \<in> set (groups d')"
    then have "x \<in> set (groups d)" by (simp add: d'_def)
    then have "G_stage_id x \<in> St_id ` set (stages d)" using assms(1) unfolding db_wf_def by blast
    then show "G_stage_id x \<in> St_id ` set (stages d')" by (simp add: d'_def)
  qed (rule d1 d2 g)+
qed

definition slots_placed :: "dmatch list \<Rightarrow> bool" where
  "slots_placed ms \<longleftrightarrow> (\<forall>m \<in> set ms. \<forall>s \<in> {Slot1 m, Slot2 m}. slotType s = ''group_placement''
      \<longrightarrow> 0 \<le> SourceGroupIdx s \<and> SourceGroupIdx s \<le> maxGroup ms)"

definition storedDraw :: "uuid \<Rightarrow> draw_rows \<Rightarrow> dmatch list \<Rightarrow> db \<Rightarrow> db" where
  "storedDraw eventID env ms d2 = d2\<lparr>
     matches := matches d2 @ storedMatches eventID env (drawnIds d2 (length ms)) ms,
     match_participants := match_participants d2
       @ storedSlots (GroupIDs env) (UuidGen d2) (Drawn d2 + length ms) (drawnIds d2 (length ms)) ms,
     Drawn := Drawn d2 + 3 * length ms\<rparr>"

lemma persist_result:
  assumes "db_wf d" and "\<forall>m \<in> set ms. NextMatchIdx m < int (length ms)" and "slots_placed ms"
  obtains env d2 where "stages_added ms env (clearedDraw eventID d) d2"
    and "persistWithGroups eventID ms names adv d = Inr (storedDraw eventID env ms d2)"
    and "distinct (drawnIds d2 (length ms))" and "set (drawnIds d2 (length ms)) \<inter> ids_in_use d2 = {}"
proof -
  obtain env d2 where env: "prepareStages eventID ms names adv (clearedDraw eventID d) = (env, d2)" by (metis surj_pair)
  note added = prepareStages_added [OF env]
  have wf1: "db_wf (clearedDraw eventID d)" using assms(1) by (rule clearedDraw_wf)
  note st = stages_added_wf [OF added wf1]
  have fr2: "fresh_supply d2" using st unfolding db_wf_def by blast
  have fk: "\<forall>s \<in> set (match_participants (clearedDraw eventID d)).
      S_match_id s \<in> M_id ` set (matches (clearedDraw eventID d))" using wf1 unfolding db_wf_def by blast
  have known: "\<forall>m \<in> set ms. slot_known (GroupIDs env) (Slot1 m) \<and> slot_known (GroupIDs env) (Slot2 m)"
    using added by (rule stages_addedE) (use assms(3) in \<open>simp add: slots_placed_def slot_known_def\<close>)
  note shape = persist_shape [OF fr2 _ _ env refl fk assms(2) known, folded storedDraw_def]
  show ?thesis using that [OF added] st by (simp add: shape)
qed

lemma persist_stored:
  assumes "db_wf d"
    and "\<forall>m \<in> set ms. NextMatchIdx m < int (length ms)" and "slots_placed ms"
  shows "\<exists>env ids d'. persistWithGroups eventID ms names adv d = Inr d' \<and> db_wf d'
    \<and> draw_stored d' eventID env ids ms \<and> set ids \<inter> ids_in_use d = {} \<and> grows d d'
    \<and> (event_closed eventID d \<longrightarrow>
        filter (\<lambda>r. M_event_id r \<noteq> eventID) (matches d') = filter (\<lambda>r. M_event_id r \<noteq> eventID) (matches d))"
proof -
  obtain env d2 where added: "stages_added ms env (clearedDraw eventID d) d2"
    and ok: "persistWithGroups eventID ms names adv d = Inr (storedDraw eventID env ms d2)"
    and dist: "distinct (drawnIds d2 (length ms))" and disj: "set (drawnIds d2 (length ms)) \<inter> ids_in_use d2 = {}"
    using assms by (rule persist_result)
  define ids where "ids = drawnIds d2 (length ms)"
  let ?d' = "storedDraw eventID env ms d2"
  note dist = dist [folded ids_def] and disj = disj [folded ids_def]
  have len: "length ids = length ms" by (simp add: ids_def)
  have wf1: "db_wf (clearedDraw eventID d)" and g1: "grows d (clearedDraw eventID d)"
    using assms(1) by (rule clearedDraw_wf) (rule clearedDraw_grows)
  note st = stages_added_wf [OF added wf1]
  have fr: "fresh_supply d" and fk: "\<forall>s \<in> set (match_participants (clearedDraw eventID d)).
      S_match_id s \<in> M_id ` set (matches (clearedDraw eventID d))"
    using wf1 assms(1) unfolding db_wf_def by blast+
  have "db_wf ?d' \<and> grows d2 ?d'"
    unfolding storedDraw_def ids_def [symmetric]
    by (rule stored_wf [OF _ dist len])
      (use st stageOf_in [OF added] assms(2) in \<open>simp_all add: ids_def drawnIds_def\<close>)
  then have wf: "db_wf ?d'" and g: "grows d ?d'" using st g1 grows_trans by blast+
  have new: "set ids \<inter> ids_in_use d = {}"
  proof -
    have "Drawn d \<le> Drawn d2" "UuidGen d2 = UuidGen d" using st g1 by (auto simp: grows_def)
    then show ?thesis using drawn_fresh [OF fr] by (auto simp: ids_def drawnIds_def)
  qed
  have old: "M_event_id r \<noteq> eventID" if "r \<in> set (matches d2)" for r
    using that st clearedDraw_event by auto
  have newev: "M_event_id r = eventID" if "r \<in> set (storedMatches eventID env ids ms)" for r
    using that by (auto simp: storedMatches_def)
  have "draw_stored ?d' eventID env ids ms"
    unfolding draw_stored_def
  proof (intro conjI allI impI dist len)
    show "filter (\<lambda>r. M_event_id r = eventID) (matches ?d') = storedMatches eventID env ids ms"
      using old newev by (simp add: storedDraw_def ids_def [symmetric] filter_id_conv filter_empty_conv)
    fix i assume i: "i < length ms"
    have "S_match_id s \<noteq> ids ! i" if "s \<in> set (match_participants d2)" for s
    proof -
      have "S_match_id s \<in> ids_in_use d2" using that fk st by (auto simp: ids_in_use_def)
      then show ?thesis using disj i len by (metis disjoint_iff nth_mem)
    qed
    then have "filter (\<lambda>s. S_match_id s = ids ! i) (match_participants d2) = []"
      by (simp add: filter_empty_conv)
    then show "\<exists>u1 u2. filter (\<lambda>s. S_match_id s = ids ! i) (match_participants ?d')
        = storedPair (GroupIDs env) u1 u2 ids ms i"
      using filter_storedSlots [OF dist len i] by (auto simp: storedDraw_def ids_def [symmetric])
  qed
  moreover have "filter (\<lambda>r. M_event_id r \<noteq> eventID) (matches ?d') = filter (\<lambda>r. M_event_id r \<noteq> eventID) (matches d)"
    if "event_closed eventID d"
    using clearedDraw_others [OF that] st newev by (simp add: storedDraw_def ids_def [symmetric] filter_empty_conv)
  ultimately show ?thesis using ok wf new g by blast
qed



subsection \<open>The slots of a built bracket\<close>

context bracket_builder begin

lemma every_slot:
  assumes "ok x" and "m \<in> set (build x)" and "s = Slot1 m \<or> s = Slot2 m"
  shows "s = slot_zero \<or> (\<exists>p \<in> set (leaves x). s = fst p \<or> s = snd p)"
proof -
  obtain j where j: "j < length (build x)" "build x ! j = m" using assms(2) by (metis in_set_conv_nth)
  show ?thesis
  proof (cases "j < length (leaves x)")
    case True
    then have "(Slot1 m, Slot2 m) = leaves x ! j" using first_round [OF assms(1) True] j(2) by simp
    then have "(Slot1 m, Slot2 m) \<in> set (leaves x)" using True by simp
    then show ?thesis using assms(3) by force
  next
    case False
    then have "Slot1 m = slot_zero \<and> Slot2 m = slot_zero"
      using wired [OF assms(1)] j match_count [OF assms(1)] unfolding bracket_wired_def by auto
    then show ?thesis using assms(3) by auto
  qed
qed

lemma feeds_bounded: "ok x \<Longrightarrow> m \<in> set (build x) \<Longrightarrow> NextMatchIdx m < int (length (build x))"
proof -
  assume "ok x" "m \<in> set (build x)"
  then obtain j where j: "j < length (build x)" "m = build x ! j" by (auto simp: in_set_conv_nth)
  show "NextMatchIdx m < int (length (build x))"
  proof (cases "j = length (build x) - 1")
    case True
    then have "NextMatchIdx m = -1" using final_unfed [OF \<open>ok x\<close> j(1)] j(2) by simp
    then show ?thesis by simp
  next
    case False
    then have "j < length (build x) - 1" using j(1) by simp
    then show ?thesis using feeds_later [OF \<open>ok x\<close>] j(2) by blast
  qed
qed

end

subsection \<open>Build\<close>

lemma cleanPairs_idem [simp]: "cleanPairs (cleanPairs ps) = cleanPairs ps"
  by (simp add: cleanPairs_def)

lemma from_pairs_no_placement:
  assumes "cleanPairs ps \<noteq> []" and "m \<in> set (GenerateFromPairs ps)" and "s = Slot1 m \<or> s = Slot2 m"
  shows "slotType s \<noteq> ''group_placement''"
proof -
  have "SourceLabel s = []"
    using from_pairs.every_slot [OF assms]
    by (auto simp: fp_leaves_def slot_zero_def bye_slot_def pairSlot_def split: option.splits)
  then show ?thesis by (simp add: slotType_def)
qed

lemma GenerateFromPairs_clean: "GenerateFromPairs (cleanPairs ps) = GenerateFromPairs ps"
  by (simp add: GenerateFromPairs_def)

lemma GenerateFromPairs_ne: "cleanPairs ps \<noteq> [] \<Longrightarrow> GenerateFromPairs ps \<noteq> []"
  using from_pairs.match_count [of ps] from_pairs.leaves_ne [of ps] by (cases "fp_leaves ps") auto

definition may_edit :: "db \<Rightarrow> uuid \<Rightarrow> uuid option \<Rightarrow> string \<Rightarrow> bool" where
  "may_edit d eventID orgID format \<longleftrightarrow> (\<exists>e t. eventTournament d eventID = Some (e, t)
     \<and> \<not> foreignOrg orgID (T_org_id t) \<and> E_format e = format)"

definition pairs_ok :: "uuid set \<Rightarrow> pair list \<Rightarrow> bool" where
  "pairs_ok valid ps \<longleftrightarrow> cleanPairs ps \<noteq> [] \<and> (\<forall>p \<in> set (cleanPairs ps). full_pair p)
     \<and> set (concat (map pairIds (cleanPairs ps))) \<subseteq> valid \<and> distinct (concat (map pairIds (cleanPairs ps)))"

lemma validatePairs_Inr: "validatePairs ps valid = Inr out \<longleftrightarrow> pairs_ok valid ps \<and> out = cleanPairs ps"
  by (auto simp: validatePairs_def validatePairsLoop_eq pairs_ok_def)

lemma draw_stored_events: "draw_stored (d\<lparr>events := es\<rparr>) ev env ids ms \<longleftrightarrow> draw_stored d ev env ids ms"
  by (simp add: draw_stored_def)

lemma db_wf_events:
  assumes "db_wf d" and "E_id ` set es \<subseteq> E_id ` set (events d)"
  shows "db_wf (d\<lparr>events := es\<rparr>)"
proof -
  have "ids_in_use (d\<lparr>events := es\<rparr>) \<subseteq> ids_in_use d" using assms(2) by (auto simp: ids_in_use_def)
  then have "grows d (d\<lparr>events := es\<rparr>)" by (auto simp: grows_def)
  then have "fresh_supply (d\<lparr>events := es\<rparr>)" using grows_fresh assms(1) unfolding db_wf_def by blast
  then show ?thesis using assms(1) by (simp add: db_wf_def)
qed

lemma persist_from_pairs:
  assumes "db_wf d" and "cleanPairs ps \<noteq> []"
  obtains env ids d' where "persist eventID (GenerateFromPairs ps) d = Inr d'" and "db_wf d'"
    and "draw_stored d' eventID env ids (GenerateFromPairs ps)"
proof -
  have "slots_placed (GenerateFromPairs ps)"
    unfolding slots_placed_def using from_pairs_no_placement [OF assms(2)] by blast
  moreover have "\<forall>m \<in> set (GenerateFromPairs ps). NextMatchIdx m < int (length (GenerateFromPairs ps))"
    using from_pairs.feeds_bounded [OF assms(2)] by blast
  ultimately show ?thesis
    using persist_stored [OF assms(1), of "GenerateFromPairs ps" eventID "[]" "[]"] that
    unfolding persist_def by blast
qed

lemma Build_checked:
  assumes "Build eventID orgID ps d = Inr r"
  shows "may_edit d eventID orgID ''single_elim'' \<and> pairs_ok (validParticipants d eventID) ps"
proof -
  obtain e t where et: "eventTournament d eventID = Some (e, t)"
    using assms by (cases "eventTournament d eventID") (auto simp: Build_def)
  have f: "\<not> foreignOrg orgID (T_org_id t)" "E_format e = ''single_elim''"
    using assms by (auto simp: Build_def et split: if_split_asm)
  obtain out where "validatePairs ps (validParticipants d eventID) = Inr out"
    using assms f by (cases "validatePairs ps (validParticipants d eventID)") (simp_all add: Build_def et)
  then show ?thesis using et f by (auto simp: may_edit_def validatePairs_Inr)
qed

lemma Build_eq:
  assumes "db_wf d" and "may_edit d eventID orgID ''single_elim''" and "pairs_ok (validParticipants d eventID) ps"
  obtains env ids d1 where "persist eventID (GenerateFromPairs ps) d = Inr d1" and "db_wf d1"
    and "draw_stored d1 eventID env ids (GenerateFromPairs ps)"
    and "Build eventID orgID ps d = Inr (length (GenerateFromPairs ps), d1\<lparr>events :=
      update_where (\<lambda>e. E_id e = eventID) (\<lambda>e. e\<lparr>E_pairing_mode := ''manual''\<rparr>) (events d1)\<rparr>)"
proof -
  obtain e t where et: "eventTournament d eventID = Some (e, t)" "\<not> foreignOrg orgID (T_org_id t)"
    "E_format e = ''single_elim''" using assms(2) unfolding may_edit_def by blast
  have ne: "cleanPairs ps \<noteq> []" and v: "validatePairs ps (validParticipants d eventID) = Inr (cleanPairs ps)"
    using assms(3) by (simp_all add: validatePairs_Inr pairs_ok_def)
  obtain env ids d1 where p: "persist eventID (GenerateFromPairs ps) d = Inr d1" "db_wf d1"
    "draw_stored d1 eventID env ids (GenerateFromPairs ps)"
    using persist_from_pairs [OF assms(1) ne] by blast
  have "Build eventID orgID ps d = Inr (length (GenerateFromPairs ps), d1\<lparr>events :=
      update_where (\<lambda>e. E_id e = eventID) (\<lambda>e. e\<lparr>E_pairing_mode := ''manual''\<rparr>) (events d1)\<rparr>)"
    unfolding Build_def using et v GenerateFromPairs_ne [OF ne] p(1)
    by (simp add: GenerateFromPairs_clean Let_def)
  then show ?thesis using that p by blast
qed

lemma storedDraw_frame:
  assumes "stages_added ms env (clearedDraw eventID d) d2"
  shows "events (storedDraw eventID env ms d2) = events d" "tournaments (storedDraw eventID env ms d2) = tournaments d"
    "participants (storedDraw eventID env ms d2) = participants d"
  using assms by (auto elim!: stages_addedE simp: storedDraw_def clearedDraw_def frame_simps)

lemma Build_Inr:
  assumes "db_wf d" and "Build eventID orgID ps d = Inr (n, d')"
  obtains env ids d1 where "cleanPairs ps \<noteq> []" and "n = length (GenerateFromPairs ps)"
    and "persist eventID (GenerateFromPairs ps) d = Inr d1" and "draw_stored d1 eventID env ids (GenerateFromPairs ps)"
    and "d' = d1\<lparr>events := update_where (\<lambda>e. E_id e = eventID) (\<lambda>e. e\<lparr>E_pairing_mode := ''manual''\<rparr>) (events d1)\<rparr>"
    and "events d1 = events d"
proof -
  have ok: "may_edit d eventID orgID ''single_elim''" "pairs_ok (validParticipants d eventID) ps"
    using Build_checked [OF assms(2)] by blast+
  have ne: "cleanPairs ps \<noteq> []" using ok(2) by (simp add: pairs_ok_def)
  obtain env ids d1 where p: "persist eventID (GenerateFromPairs ps) d = Inr d1"
    "draw_stored d1 eventID env ids (GenerateFromPairs ps)"
    "Build eventID orgID ps d = Inr (length (GenerateFromPairs ps), d1\<lparr>events :=
      update_where (\<lambda>e. E_id e = eventID) (\<lambda>e. e\<lparr>E_pairing_mode := ''manual''\<rparr>) (events d1)\<rparr>)"
    by (rule Build_eq [OF assms(1) ok])
  have placed: "slots_placed (GenerateFromPairs ps)"
    unfolding slots_placed_def using from_pairs_no_placement [OF ne] by blast
  have range: "\<forall>m \<in> set (GenerateFromPairs ps). NextMatchIdx m < int (length (GenerateFromPairs ps))"
    using from_pairs.feeds_bounded [OF ne] by blast
  obtain env2 d2 where "stages_added (GenerateFromPairs ps) env2 (clearedDraw eventID d) d2"
    "persistWithGroups eventID (GenerateFromPairs ps) [] [] d = Inr (storedDraw eventID env2 (GenerateFromPairs ps) d2)"
    by (rule persist_result [OF assms(1) range placed])
  then have "events d1 = events d" using p(1) storedDraw_frame(1) by (auto simp: persist_def)
  then show ?thesis using that [OF ne _ p(1,2)] p(3) assms(2) by simp
qed

text \<open>A database with one tournament, one event and four participants.\<close>

definition sample_db :: "string \<Rightarrow> db" where
  "sample_db format = \<lparr>
     tournaments = [\<lparr>T_id = 1, T_org_id = 2, T_name = ''Cup'', T_slug = ''cup'', T_status = ''published'', T_published_at = Some 0, T_sport = ''tennis'',
       T_description = None, T_location = None, T_starts_on = None, T_ends_on = None, T_timezone = ''Asia/Makassar'',
       T_branding = [], T_created_at = 0\<rparr>],
     events = [\<lparr>E_id = 3, E_tournament_id = 1, E_name = ''Open'', E_slug = ''open'', E_format = format, E_is_public = True,
       E_pairing_mode = ''auto'', E_scoring = RawEmpty, E_discipline = ''singles'', E_category = None, E_gender = ''mixed'',
       E_public_display_name = None, E_public_order = 0, E_scoring_profile_id = None, E_created_at = 0\<rparr>],
     participants = map (\<lambda>i. \<lparr>P_id = i, P_event_id = 3, P_display_name = dec_nat i, P_seed = None, P_player_id = Some i,
       P_team_id = None\<rparr>) [11, 12, 13, 14],
     stages = [], groups = [], matches = [], match_participants = [], match_scores = [], venues = [],
     courts = [], schedule_slots = [], audit_logs = [], players = map (\<lambda>i. \<lparr>Pl_id = i, Pl_org_id = 2, Pl_name = dec_nat i\<rparr>) [11, 12, 13, 14], teams = [], UuidGen = (\<lambda>n. 100 + n), Drawn = 0, Collation = length\<rparr>"

definition sample_ctx :: ctx where
  "sample_ctx = \<lparr>CtxAttribution = None, CtxNow = 5\<rparr>"

lemma sample_db_wf: "db_wf (sample_db format)"
  by (simp add: db_wf_def sample_db_def fresh_supply_def ids_in_use_def inj_def)

lemma sample_db_event: "eventTournament (sample_db format) 3 = Some (hd (events (sample_db format)), hd (tournaments (sample_db format)))"
  by (simp add: eventTournament_def sample_db_def)

lemma sample_db_participants: "validParticipants (sample_db format) 3 = {11, 12, 13, 14}"
  by (auto simp: validParticipants_def sample_db_def)

lemma sample_db_may_edit: "may_edit (sample_db format) 3 (Some 2) format"
  unfolding may_edit_def sample_db_event by (simp add: sample_db_def foreignOrg_def)


text \<open>C11. \<open>Build\<close> succeeds exactly when the event exists, the caller's organization owns it (or the
  caller is a super admin), its format is single elimination and the pairing is legal; then it
  reports and stores exactly the bracket generated from the non-empty pairs in their order, one
  row per match, on a database that stays well-formed, and marks the event as manually paired.
  Persisting never fails behind these checks.\<close>

theorem Build_outcome:
  assumes "db_wf d"
  shows "((\<exists>r. Build eventID orgID ps d = Inr r)
      \<longleftrightarrow> may_edit d eventID orgID ''single_elim'' \<and> pairs_ok (validParticipants d eventID) ps)
    \<and> (\<forall>n d'. Build eventID orgID ps d = Inr (n, d') \<longrightarrow>
      n = length (GenerateFromPairs ps) \<and> db_wf d'
      \<and> (\<exists>env ids. draw_stored d' eventID env ids (GenerateFromPairs ps))
      \<and> (\<forall>e \<in> set (events d'). E_id e = eventID \<longrightarrow> E_pairing_mode e = ''manual''))"
proof (cases "may_edit d eventID orgID ''single_elim'' \<and> pairs_ok (validParticipants d eventID) ps")
  case True
  then obtain env ids d1 where wf: "db_wf d1" and st: "draw_stored d1 eventID env ids (GenerateFromPairs ps)"
    and B: "Build eventID orgID ps d = Inr (length (GenerateFromPairs ps), d1\<lparr>events :=
      update_where (\<lambda>e. E_id e = eventID) (\<lambda>e. e\<lparr>E_pairing_mode := ''manual''\<rparr>) (events d1)\<rparr>)"
    using Build_eq [OF assms] by metis
  define d2 where "d2 = d1\<lparr>events := update_where (\<lambda>e. E_id e = eventID) (\<lambda>e. e\<lparr>E_pairing_mode := ''manual''\<rparr>) (events d1)\<rparr>"
  have "db_wf d2"
    unfolding d2_def by (rule db_wf_events [OF wf]) (auto simp: update_where_def image_image)
  moreover have "\<forall>e \<in> set (events d2). E_id e = eventID \<longrightarrow> E_pairing_mode e = ''manual''"
    unfolding d2_def update_where_def by (simp add: ball_Un split: if_split)
  moreover have "draw_stored d2 eventID env ids (GenerateFromPairs ps)"
    unfolding d2_def draw_stored_events by (rule st)
  ultimately show ?thesis using True B [folded d2_def] by auto
next
  case False
  then show ?thesis using Build_checked by blast
qed

lemma sample_pairs_ok: "pairs_ok {11, 12, 13, 14} sample_pairs"
  by (auto simp: pairs_ok_def sample_pairs_def cleanPairs_def full_pair_def pairIds_def)

lemma sample_build: "\<exists>n d'. Build 3 (Some 2) sample_pairs (sample_db ''single_elim'') = Inr (n, d')"
proof -
  have "pairs_ok (validParticipants (sample_db ''single_elim'') 3) sample_pairs"
    unfolding sample_db_participants by (rule sample_pairs_ok)
  from Build_eq [OF sample_db_wf sample_db_may_edit this] show ?thesis by metis
qed

theorem Build_outcome_witness:
  "(\<exists>r. Build 3 (Some 2) sample_pairs (sample_db ''single_elim'') = Inr r)
   \<and> \<not> (\<exists>r. Build 3 (Some 9) sample_pairs (sample_db ''single_elim'') = Inr r)"
proof -
  have "\<not> may_edit (sample_db ''single_elim'') 3 (Some 9) ''single_elim''"
    unfolding may_edit_def sample_db_event by (simp add: sample_db_def foreignOrg_def)
  then show ?thesis
    using Build_outcome [OF sample_db_wf, of 3 "Some 2" sample_pairs "''single_elim''"]
      Build_outcome [OF sample_db_wf, of 3 "Some 9" sample_pairs "''single_elim''"]
      sample_db_may_edit [of "''single_elim''"] sample_pairs_ok by (simp add: sample_db_participants)
qed

subsection \<open>SetGroups\<close>

lemma checkSpecs_eq:
  "forM (checkSpec valid) specs (seen, k) =
     (if (\<forall>g \<in> set specs. 2 \<le> length (TeamIDs g) \<and> 1 \<le> AdvanceCount g \<and> AdvanceCount g \<le> int (length (TeamIDs g)))
         \<and> set (concat (map TeamIDs specs)) \<subseteq> valid \<and> distinct (concat (map TeamIDs specs))
         \<and> set (concat (map TeamIDs specs)) \<inter> seen = {}
      then Inr (seen \<union> set (concat (map TeamIDs specs)), k + sum_list (map AdvanceCount specs))
      else Inl DrawBadRequest)"
proof (induction specs arbitrary: seen k)
  case (Cons g specs)
  let ?fits = "2 \<le> length (TeamIDs g) \<and> 1 \<le> AdvanceCount g \<and> AdvanceCount g \<le> int (length (TeamIDs g))"
    and ?new = "set (TeamIDs g) \<subseteq> valid \<and> distinct (TeamIDs g) \<and> set (TeamIDs g) \<inter> seen = {}"
  have step: "checkSpec valid g (seen, k) = (if ?fits \<and> ?new then Inr (seen \<union> set (TeamIDs g), k + AdvanceCount g)
      else Inl DrawBadRequest)"
    by (auto simp: checkSpec_def checkSpecIds_def checkIds_eq)
  show ?case
  proof (cases "?fits \<and> ?new")
    case True
    then have "forM (checkSpec valid) (g # specs) (seen, k)
        = forM (checkSpec valid) specs (seen \<union> set (TeamIDs g), k + AdvanceCount g)"
      unfolding forM.simps step by simp
    then show ?thesis unfolding Cons.IH using True by (auto simp: Un_ac add_ac)
  next
    case False
    then have "forM (checkSpec valid) (g # specs) (seen, k) = Inl DrawBadRequest"
      unfolding forM.simps step by (simp only: if_False sum.case)
    then show ?thesis using False by auto
  qed
qed simp

definition specs_ok :: "uuid set \<Rightarrow> group_spec list \<Rightarrow> bool" where
  "specs_ok valid specs \<longleftrightarrow>
     (\<forall>g \<in> set specs. 2 \<le> length (TeamIDs g) \<and> 1 \<le> AdvanceCount g \<and> AdvanceCount g \<le> int (length (TeamIDs g)))
   \<and> set (concat (map TeamIDs specs)) \<subseteq> valid \<and> distinct (concat (map TeamIDs specs))
   \<and> 2 \<le> sum_list (map AdvanceCount specs)"

lemma RoundRobin_ne:
  assumes "2 \<le> length es"
  shows "GenerateRoundRobin es \<noteq> []"
proof -
  have "{0, 1} \<in> set (rrPairs (length es))" using rrPairs_all [OF assms] assms by auto
  then have "map pairing (GenerateRoundRobin es) \<noteq> []"
    unfolding pairing_GenerateRoundRobin [OF assms] by auto
  then show ?thesis by simp
qed

lemma RoundRobin_fixed:
  assumes "2 \<le> length es" and "m \<in> set (GenerateRoundRobin es)"
  shows "slotType (Slot1 m) = ''fixed''" "slotType (Slot2 m) = ''fixed''"
proof -
  have "pairing m \<in> set (map pairing (GenerateRoundRobin es))" using assms(2) by simp
  then have "pairing m \<subseteq> range Some" unfolding pairing_GenerateRoundRobin [OF assms(1)] by auto
  then show "slotType (Slot1 m) = ''fixed''" "slotType (Slot2 m) = ''fixed''"
    by (auto simp: pairing_def slotType_def)
qed

lemma assignment_parts:
  fixes specs :: "group_spec list"
  defines "G \<equiv> concat (map (\<lambda>g. groupMatches g (specEntries (specs ! g))) [0..<length specs])"
  shows "groupKnockoutFromAssignment specs
    = G @ offsetKnockout (length G) (buildKnockoutFromSlots (advancerSlots specs))"
  unfolding groupKnockoutFromAssignment_def specEntries_def [symmetric] Let_def by (simp add: G_def)

lemma advancerSlots_group: "s \<in> set (advancerSlots specs) \<Longrightarrow>
    0 \<le> SourceGroupIdx s \<and> SourceGroupIdx s < int (length specs)"
proof -
  assume "s \<in> set (advancerSlots specs)"
  then have "place s \<in> set (map place (advancerSlots specs))" by simp
  moreover have "(g + 1) mod length specs < length specs" if "g < length specs" for g
    using that by (intro mod_less_divisor) auto
  ultimately have "fst (place s) \<in> {0..<int (length specs)}"
    unfolding places_advancerSlots by fastforce
  then show ?thesis by (simp add: place_def)
qed

lemma assignment_legal:
  assumes "specs_ok valid specs"
  defines "ms \<equiv> groupKnockoutFromAssignment specs"
  shows "slots_placed ms" and "\<forall>m \<in> set ms. NextMatchIdx m < int (length ms)" and "ms \<noteq> []"
proof -
  let ?n = "length specs" and ?ko = "buildKnockoutFromSlots (advancerSlots specs)"
  define G where "G = concat (map (\<lambda>g. groupMatches g (specEntries (specs ! g))) [0..<length specs])"
  have ms: "ms = G @ offsetKnockout (length G) ?ko"
    unfolding ms_def G_def by (rule assignment_parts)
  have sz: "2 \<le> length (specEntries (specs ! g))" if "g < ?n" for g
    using assms(1) that by (simp add: specs_ok_def specEntries_def)
  have adv: "\<forall>s \<in> set specs. 1 \<le> AdvanceCount s" and tot: "2 \<le> sum_list (map AdvanceCount specs)"
    using assms(1) by (simp_all add: specs_ok_def)
  have two: "2 \<le> length (advancerSlots specs)" using length_advancerSlots [OF adv] tot by simp
  have n: "0 < ?n" using tot by (cases specs) auto
  have top: "int ?n - 1 \<le> maxGroup ms"
  proof -
    obtain m where m: "m \<in> set (groupMatches (?n - 1) (specEntries (specs ! (?n - 1))))"
      using RoundRobin_ne [OF sz [of "?n - 1"]] n
      by (cases "GenerateRoundRobin (specEntries (specs ! (?n - 1)))") (auto simp: groupMatches_def)
    then have "m \<in> set ms" using n by (auto simp: ms G_def)
    then show ?thesis using maxGroup_bound [of m ms] GroupIndex_groupMatches [OF m] n by simp
  qed
  have K: "\<exists>m' \<in> set ?ko. Slot1 m = Slot1 m' \<and> Slot2 m = Slot2 m'
      \<and> NextMatchIdx m = (if 0 \<le> NextMatchIdx m' then NextMatchIdx m' + int (length G) else NextMatchIdx m')"
    if "m \<in> set (offsetKnockout (length G) ?ko)" for m
    using that by (auto simp: offsetKnockout_def)
  show "slots_placed ms"
    unfolding slots_placed_def
  proof (intro ballI impI)
    fix m s assume m: "m \<in> set ms" and s: "s \<in> {Slot1 m, Slot2 m}" and t: "slotType s = ''group_placement''"
    have "m \<notin> set G"
    proof
      assume "m \<in> set G"
      then obtain g r where "g < ?n" "r \<in> set (GenerateRoundRobin (specEntries (specs ! g)))"
        "Slot1 m = Slot1 r" "Slot2 m = Slot2 r" by (auto simp: G_def groupMatches_def)
      then show False using RoundRobin_fixed [OF sz] s t by auto
    qed
    then have "m \<in> set (offsetKnockout (length G) ?ko)" using m by (simp add: ms)
    from K [OF this] obtain m' where m': "m' \<in> set ?ko" "s = Slot1 m' \<or> s = Slot2 m'" using s by auto
    have "s \<noteq> slot_zero" using t by (auto simp: slotType_def slot_zero_def)
    then obtain p where p: "p \<in> set (ko_leaves (advancerSlots specs))" "s = fst p \<or> s = snd p"
      using knockout.every_slot [OF two m'] by blast
    have "s \<in> set (padByes (advancerSlots specs))"
      using p by (auto simp: ko_leaves_def length_padByes intro!: nth_mem)
    moreover have "s \<noteq> bye_slot" using t by (auto simp: slotType_def slot_zero_def bye_slot_def)
    ultimately have "s \<in> set (advancerSlots specs)" by (auto simp: padByes_eq)
    then show "0 \<le> SourceGroupIdx s \<and> SourceGroupIdx s \<le> maxGroup ms"
      using advancerSlots_group top by fastforce
  qed
  show "\<forall>m \<in> set ms. NextMatchIdx m < int (length ms)"
  proof
    fix m assume "m \<in> set ms"
    then consider "m \<in> set G" | "m \<in> set (offsetKnockout (length G) ?ko)" by (auto simp: ms)
    then show "NextMatchIdx m < int (length ms)"
    proof cases
      case 1
      then have "NextMatchIdx m = -1" by (auto simp: G_def dest: GroupIndex_groupMatches)
      then show ?thesis by simp
    next
      case 2
      from K [OF this] obtain m' where m': "m' \<in> set ?ko"
        "NextMatchIdx m = (if 0 \<le> NextMatchIdx m' then NextMatchIdx m' + int (length G) else NextMatchIdx m')" by blast
      have "length ms = length G + length ?ko" by (simp add: ms offsetKnockout_def)
      then show ?thesis using knockout.feeds_bounded [OF two m'(1)] m'(2) by auto
    qed
  qed
  show "ms \<noteq> []" using knockout.match_count [OF two] knockout.leaves_ne [OF two]
    by (cases "ko_leaves (advancerSlots specs)") (auto simp: ms offsetKnockout_def)
qed



end
