(* ===== verification/Fixtures.thy ===== *)
theory Fixtures
  imports DrawBuild
begin

section \<open>Fixtures made by hand and by the round-robin generator (internal/draw/manual_setup.go)\<close>

text \<open>
  The fixture operations of a round-robin event: the search for an existing fixture of an unordered
  pair and what it means for a create (\<open>findDuplicates\<close>, \<open>classifyDuplicate\<close>), \<open>AddManualMatch\<close>,
  \<open>GenerateRoundRobinFixtures\<close> and \<open>DeleteManualMatch\<close>. The advisory lock the creates take makes
  them atomic per event, so each is one function on the database. The texts of two ids compare as
  the ids do (fixed width, lower case hexadecimal), so the string keys of the generator are pairs
  of ids here.
\<close>

subsection \<open>Existing fixtures of a pair\<close>

record dup_row =
  DupRowId :: uuid
  DupRowNo :: int
  DupRowStatus :: string

definition duplicateError :: "dup_row \<Rightarrow> bool \<Rightarrow> draw_error" where
  "duplicateError r rematchable =
     DuplicateFixture (DupRowId r) (DupRowNo r) (DupRowStatus r) rematchable"

text \<open>The loop of \<open>classifyDuplicate\<close>: an unplayed fixture ends it, else the first decided one is kept.\<close>

fun classifyLoop :: "dup_row list \<Rightarrow> dup_row option \<Rightarrow> draw_error + dup_row option" where
  "classifyLoop [] decided = Inr decided"
| "classifyLoop (r # rs) decided =
     (if DupRowStatus r \<in> {''pending'', ''scheduled'', ''live''} then Inl (duplicateError r False)
      else if DupRowStatus r \<in> {''completed'', ''walkover'', ''retired''} \<and> decided = None
      then classifyLoop rs (Some r)
      else classifyLoop rs decided)"

definition classifyDuplicate :: "dup_row list \<Rightarrow> bool \<Rightarrow> draw_error option \<times> bool" where
  "classifyDuplicate rows allowRematch =
     (case classifyLoop rows None of
        Inl e \<Rightarrow> (Some e, False)
      | Inr None \<Rightarrow> (None, False)
      | Inr (Some r) \<Rightarrow>
          if \<not> allowRematch then (Some (duplicateError r True), False) else (None, True))"

text \<open>\<open>least\<close> and \<open>greatest\<close> of SQL: NULL operands do not count.\<close>

definition sqlLeast :: "uuid option \<Rightarrow> uuid option \<Rightarrow> uuid option" where
  "sqlLeast x y = (case (x, y) of (Some a, Some b) \<Rightarrow> Some (min a b)
     | (Some a, None) \<Rightarrow> Some a | (None, z) \<Rightarrow> z)"

definition sqlGreatest :: "uuid option \<Rightarrow> uuid option \<Rightarrow> uuid option" where
  "sqlGreatest x y = (case (x, y) of (Some a, Some b) \<Rightarrow> Some (max a b)
     | (Some a, None) \<Rightarrow> Some a | (None, z) \<Rightarrow> z)"

text \<open>The join both fixture queries start from: the ungrouped matches of the event that are neither
  cancelled nor byes, with the participants of their slots 1 and 2.\<close>

definition slotsAt :: "db \<Rightarrow> uuid \<Rightarrow> int \<Rightarrow> slot_row list" where
  "slotsAt d mid k = filter (\<lambda>s. S_match_id s = mid \<and> S_slot s = k) (match_participants d)"

definition pairRows :: "db \<Rightarrow> uuid \<Rightarrow> (match_row \<times> uuid option \<times> uuid option) list" where
  "pairRows d eventID = concat (map (\<lambda>m. concat (map (\<lambda>p1. map (\<lambda>p2.
       (m, S_participant_id p1, S_participant_id p2)) (slotsAt d (M_id m) 2)) (slotsAt d (M_id m) 1)))
     (filter (\<lambda>m. M_event_id m = eventID \<and> M_group_id m = None
        \<and> M_status m \<notin> {''cancelled'', ''bye''}) (matches d)))"

definition findDuplicates :: "db \<Rightarrow> uuid \<Rightarrow> uuid \<Rightarrow> uuid \<Rightarrow> dup_row list" where
  "findDuplicates d eventID a b =
     map (\<lambda>m. \<lparr>DupRowId = M_id m, DupRowNo = M_match_no m, DupRowStatus = M_status m\<rparr>)
       (sort_key (\<lambda>m. - M_match_no m)
         (map fst (filter (\<lambda>(m, p, q). sqlLeast p q = Some (min a b) \<and> sqlGreatest p q = Some (max a b))
            (pairRows d eventID))))"

definition existingPairs :: "db \<Rightarrow> uuid \<Rightarrow> (uuid \<times> uuid) list" where
  "existingPairs d eventID = concat (map (\<lambda>(m, p, q). case (p, q) of
       (Some a, Some b) \<Rightarrow> [(min a b, max a b)] | _ \<Rightarrow> []) (pairRows d eventID))"

subsection \<open>Creating and deleting fixtures\<close>

text \<open>\<open>COALESCE(MAX(match_no), 0) + 1\<close>\<close>

definition nextMatchNo :: "db \<Rightarrow> uuid \<Rightarrow> int" where
  "nextMatchNo d eventID =
     (case map M_match_no (filter (\<lambda>m. M_event_id m = eventID) (matches d)) of
        [] \<Rightarrow> 1 | n # ns \<Rightarrow> fold max ns n + 1)"

definition insertFixture :: "uuid \<Rightarrow> int \<Rightarrow> uuid \<Rightarrow> uuid \<Rightarrow> db \<Rightarrow> uuid \<times> db" where
  "insertFixture eventID no a b d =
     (let (mid, d) = gen_random_uuid d;
          d = d\<lparr>matches := matches d @ [\<lparr>M_id = mid, M_event_id = eventID, M_stage_id = None,
            M_group_id = None, M_court_id = None, M_match_no = no, M_status = ''pending'',
            M_scheduled_at = None, M_started_at = None, M_completed_at = None, M_winner = None,
            M_next_match_id = None, M_next_slot = None\<rparr>]\<rparr>;
          (s1, d) = gen_random_uuid d;
          (s2, d) = gen_random_uuid d;
          row = (\<lambda>i k p. \<lparr>S_id = i, S_match_id = mid, S_participant_id = Some p, S_slot = k,
            S_source = None, S_source_type = ''fixed'', S_source_group_id = None,
            S_source_rank = None, S_source_match_id = None\<rparr>)
      in (mid, d\<lparr>match_participants := match_participants d @ [row s1 1 a, row s2 2 b]\<rparr>))"

definition rematchEntry :: "event_auth \<Rightarrow> uuid \<Rightarrow> uuid \<Rightarrow> dup_row \<Rightarrow> uuid \<Rightarrow> uuid \<Rightarrow> audit_entry" where
  "rematchEntry auth actor matchID prior teamA teamB = entry_zero\<lparr>ActorUserID := actor,
     OrgID := Some (AuthOrg auth), TournamentID := Some (AuthTournament auth),
     Action := ''match.rematch_override'', TargetType := ''match'', TargetID := uuid_str matchID,
     Diff := Some [(''prior_match_id'', DStr (uuid_str (DupRowId prior))),
       (''prior_match_no'', DInt (DupRowNo prior)), (''prior_status'', DStr (DupRowStatus prior)),
       (''participants'', DList [DStr (uuid_str teamA), DStr (uuid_str teamB)])]\<rparr>"

definition AddManualMatch ::
  "ctx \<Rightarrow> uuid \<Rightarrow> uuid option \<Rightarrow> uuid \<Rightarrow> uuid \<Rightarrow> uuid \<Rightarrow> bool \<Rightarrow> db \<Rightarrow> draw_error + (uuid \<times> int) \<times> db" where
  "AddManualMatch ctx eventID orgID actor teamA teamB allowRematch d =
     (case authorizeEvent d eventID orgID of
        Inl e \<Rightarrow> Inl e
      | Inr auth \<Rightarrow>
          if AuthFormat auth \<noteq> ''round_robin'' then Inl DrawUnsupportedForm
          else if teamA = teamB then Inl DrawBadRequest
          else if teamA \<notin> validParticipants d eventID \<or> teamB \<notin> validParticipants d eventID
          then Inl DrawBadRequest
          else
            let dups = findDuplicates d eventID teamA teamB;
                (dupErr, isRematch) = classifyDuplicate dups allowRematch
            in case dupErr of
                 Some e \<Rightarrow> Inl e
               | None \<Rightarrow>
                   let nextNo = nextMatchNo d eventID;
                       (matchID, d) = insertFixture eventID nextNo teamA teamB d;
                       d = (if isRematch
                            then RecordTx ctx (rematchEntry auth actor matchID (hd dups) teamA teamB) d else d)
                   in Inr ((matchID, nextNo), d))"

text \<open>\<open>ORDER BY seed NULLS LAST, id\<close>\<close>

definition orderedParticipants :: "db \<Rightarrow> uuid \<Rightarrow> uuid list" where
  "orderedParticipants d eventID =
     (let ps = sort_key P_id (filter (\<lambda>p. P_event_id p = eventID) (participants d))
      in map P_id (sort_key (\<lambda>p. the (P_seed p)) (filter (\<lambda>p. P_seed p \<noteq> None) ps)
           @ filter (\<lambda>p. P_seed p = None) ps))"

text \<open>The pairs \<open>i < j\<close> in the order of the two loops.\<close>

definition loopPairs :: "uuid list \<Rightarrow> (uuid \<times> uuid) list" where
  "loopPairs pids = concat (map (\<lambda>i. map (\<lambda>j. (pids ! i, pids ! j)) [Suc i..<length pids]) [0..<length pids])"

definition generateStep ::
  "uuid \<Rightarrow> (uuid \<times> uuid) set \<Rightarrow> uuid \<times> uuid \<Rightarrow> int \<times> nat \<times> db \<Rightarrow> int \<times> nat \<times> db" where
  "generateStep eventID have' pq st = (case (pq, st) of ((p, q), (nextNo, created, d)) \<Rightarrow>
     let (lo, hi) = (if q < p then (q, p) else (p, q)) in
     if (lo, hi) \<in> have' then (nextNo, created, d)
     else (nextNo + 1, created + 1, snd (insertFixture eventID nextNo p q d)))"

definition GenerateRoundRobinFixtures ::
  "uuid \<Rightarrow> uuid option \<Rightarrow> db \<Rightarrow> draw_error + (nat \<times> nat) \<times> db" where
  "GenerateRoundRobinFixtures eventID orgID d =
     (case authorizeEvent d eventID orgID of
        Inl e \<Rightarrow> Inl e
      | Inr auth \<Rightarrow>
          if AuthFormat auth \<noteq> ''round_robin'' then Inl DrawUnsupportedForm
          else
            let pids = orderedParticipants d eventID in
            if length pids < 2 then Inl DrawBadRequest
            else
              let have' = set (existingPairs d eventID);
                  (_, created, d') = fold (generateStep eventID have') (loopPairs pids) (nextMatchNo d eventID, 0, d)
              in Inr ((created, card have'), d'))"

definition matchTournament :: "db \<Rightarrow> uuid \<Rightarrow> (match_row \<times> event_row \<times> tournament_row) option" where
  "matchTournament d matchID =
     (case List.find (\<lambda>m. M_id m = matchID) (matches d) of
        None \<Rightarrow> None
      | Some m \<Rightarrow> (case eventTournament d (M_event_id m) of
          None \<Rightarrow> None
        | Some (e, t) \<Rightarrow> Some (m, e, t)))"

definition DeleteManualMatch :: "uuid \<Rightarrow> uuid option \<Rightarrow> db \<Rightarrow> draw_error + db" where
  "DeleteManualMatch matchID orgID d =
     (case matchTournament d matchID of
        None \<Rightarrow> Inl DrawNotFound
      | Some (m, e, t) \<Rightarrow>
          if foreignOrg orgID (T_org_id t) then Inl DrawForbidden
          else if E_format e \<noteq> ''round_robin'' then Inl DrawUnsupportedForm
          else if M_status m \<noteq> ''pending'' then Inl DrawBadRequest
          else Inr (deleteMatches (\<lambda>r. M_id r = matchID) d))"

subsection \<open>What an existing fixture means\<close>

definition unplayed :: "dup_row \<Rightarrow> bool" where
  "unplayed r \<longleftrightarrow> DupRowStatus r \<in> {''pending'', ''scheduled'', ''live''}"

definition decided :: "dup_row \<Rightarrow> bool" where
  "decided r \<longleftrightarrow> DupRowStatus r \<in> {''completed'', ''walkover'', ''retired''}"

lemma classifyLoop_eq:
  "classifyLoop rs x = (case List.find unplayed rs of
     Some r \<Rightarrow> Inl (duplicateError r False)
   | None \<Rightarrow> Inr (case x of Some r \<Rightarrow> Some r | None \<Rightarrow> List.find decided rs))"
  by (induction rs arbitrary: x) (auto simp: unplayed_def decided_def split: option.split)

lemma classifyDuplicate_eq:
  "classifyDuplicate rs allow = (case List.find unplayed rs of
     Some r \<Rightarrow> (Some (duplicateError r False), False)
   | None \<Rightarrow> (case List.find decided rs of
       None \<Rightarrow> (None, False)
     | Some r \<Rightarrow> if allow then (None, True) else (Some (duplicateError r True), False)))"
  by (auto simp: classifyDuplicate_def classifyLoop_eq split: option.split)

lemma classifyDuplicate_ok_iff:
  "fst (classifyDuplicate rs allow) = None \<longleftrightarrow>
     (\<forall>r \<in> set rs. \<not> unplayed r) \<and> (allow \<or> (\<forall>r \<in> set rs. \<not> decided r))"
  unfolding classifyDuplicate_eq
  by (auto simp: find_None_iff_all split: option.split dest!: find_Some_in)

lemma least_greatest:
  assumes "a \<noteq> b"
  shows "sqlLeast p q = Some (min a b) \<and> sqlGreatest p q = Some (max a b)
    \<longleftrightarrow> (p = Some a \<and> q = Some b) \<or> (p = Some b \<and> q = Some a)"
  using assms
  by (cases p; cases q) (auto simp: sqlLeast_def sqlGreatest_def min_def max_def split: if_splits)

definition pairFixtures :: "db \<Rightarrow> uuid \<Rightarrow> uuid \<Rightarrow> uuid \<Rightarrow> match_row set" where
  "pairFixtures d eventID a b = {m \<in> set (matches d). M_event_id m = eventID \<and> M_group_id m = None
     \<and> M_status m \<notin> {''cancelled'', ''bye''}
     \<and> (\<exists>s1 \<in> set (slotsAt d (M_id m) 1). \<exists>s2 \<in> set (slotsAt d (M_id m) 2).
          {S_participant_id s1, S_participant_id s2} = {Some a, Some b})}"

lemma findDuplicates_set:
  assumes "a \<noteq> b"
  shows "set (findDuplicates d eventID a b)
    = (\<lambda>m. \<lparr>DupRowId = M_id m, DupRowNo = M_match_no m, DupRowStatus = M_status m\<rparr>) ` pairFixtures d eventID a b"
  unfolding findDuplicates_def set_map set_sort set_filter
proof (intro arg_cong [where f = "image _"] set_eqI iffI)
  fix m assume "m \<in> fst ` {x \<in> set (pairRows d eventID). case x of (m, p, q) \<Rightarrow>
      sqlLeast p q = Some (min a b) \<and> sqlGreatest p q = Some (max a b)}"
  then obtain p q where "(m, p, q) \<in> set (pairRows d eventID)"
    "(p = Some a \<and> q = Some b) \<or> (p = Some b \<and> q = Some a)"
    unfolding least_greatest [OF assms] by auto
  then show "m \<in> pairFixtures d eventID a b"
    unfolding pairFixtures_def by (auto simp: pairRows_def doubleton_eq_iff)
next
  fix m assume "m \<in> pairFixtures d eventID a b"
  then obtain s1 s2 where m: "m \<in> set (matches d)" "M_event_id m = eventID" "M_group_id m = None"
    "M_status m \<notin> {''cancelled'', ''bye''}" and s: "s1 \<in> set (slotsAt d (M_id m) 1)"
    "s2 \<in> set (slotsAt d (M_id m) 2)" "{S_participant_id s1, S_participant_id s2} = {Some a, Some b}"
    by (auto simp: pairFixtures_def)
  have "(m, S_participant_id s1, S_participant_id s2) \<in> set (pairRows d eventID)"
    unfolding pairRows_def using m s(1,2) by auto
  moreover have "sqlLeast (S_participant_id s1) (S_participant_id s2) = Some (min a b)
      \<and> sqlGreatest (S_participant_id s1) (S_participant_id s2) = Some (max a b)"
    unfolding least_greatest [OF assms] using s(3) by (auto simp: doubleton_eq_iff)
  ultimately show "m \<in> fst ` {x \<in> set (pairRows d eventID). case x of (m, p, q) \<Rightarrow>
      sqlLeast p q = Some (min a b) \<and> sqlGreatest p q = Some (max a b)}" by force
qed

subsection \<open>One new fixture\<close>

definition newFixture :: "uuid \<Rightarrow> uuid \<Rightarrow> int \<Rightarrow> match_row" where
  "newFixture eventID i no = \<lparr>M_id = i, M_event_id = eventID, M_stage_id = None,
     M_group_id = None, M_court_id = None, M_match_no = no, M_status = ''pending'',
     M_scheduled_at = None, M_started_at = None, M_completed_at = None, M_winner = None,
     M_next_match_id = None, M_next_slot = None\<rparr>"

definition fixtureSlot :: "uuid \<Rightarrow> uuid \<Rightarrow> int \<Rightarrow> uuid \<Rightarrow> slot_row" where
  "fixtureSlot mid i k p = \<lparr>S_id = i, S_match_id = mid, S_participant_id = Some p, S_slot = k,
     S_source = None, S_source_type = ''fixed'', S_source_group_id = None,
     S_source_rank = None, S_source_match_id = None\<rparr>"

lemma newFixture_sel [simp]: "M_id (newFixture e i no) = i" "M_event_id (newFixture e i no) = e"
  "M_group_id (newFixture e i no) = None" "M_stage_id (newFixture e i no) = None"
  "M_status (newFixture e i no) = ''pending''" "M_next_match_id (newFixture e i no) = None"
  "M_match_no (newFixture e i no) = no"
  by (simp_all add: newFixture_def)

lemma fixtureSlot_sel [simp]: "S_id (fixtureSlot mid i k p) = i" "S_match_id (fixtureSlot mid i k p) = mid"
  "S_slot (fixtureSlot mid i k p) = k" "S_participant_id (fixtureSlot mid i k p) = Some p"
  "S_source_match_id (fixtureSlot mid i k p) = None"
  by (simp_all add: fixtureSlot_def)

abbreviation freshId :: "db \<Rightarrow> uuid" where
  "freshId d \<equiv> UuidGen d (Drawn d)"

lemma insertFixture_eq:
  "insertFixture eventID no a b d = (freshId d, d\<lparr>
     matches := matches d @ [newFixture eventID (freshId d) no],
     match_participants := match_participants d
       @ [fixtureSlot (freshId d) (UuidGen d (Suc (Drawn d))) 1 a,
          fixtureSlot (freshId d) (UuidGen d (Suc (Suc (Drawn d)))) 2 b],
     Drawn := Suc (Suc (Suc (Drawn d)))\<rparr>)"
  by (simp add: insertFixture_def gen_random_uuid_def newFixture_def fixtureSlot_def Let_def)

lemma insertFixture_frame [simp]:
  "matches (snd (insertFixture eventID no a b d)) = matches d @ [newFixture eventID (freshId d) no]"
  "fst (insertFixture eventID no a b d) = freshId d"
  "events (snd (insertFixture eventID no a b d)) = events d"
  "tournaments (snd (insertFixture eventID no a b d)) = tournaments d"
  "participants (snd (insertFixture eventID no a b d)) = participants d"
  "audit_logs (snd (insertFixture eventID no a b d)) = audit_logs d"
  by (simp_all add: insertFixture_eq)

lemma insertFixture_wf:
  assumes "db_wf d"
  shows "db_wf (snd (insertFixture eventID no a b d)) \<and> grows d (snd (insertFixture eventID no a b d))"
proof -
  let ?u = "freshId d" and ?v = "UuidGen d (Suc (Drawn d))" and ?w = "UuidGen d (Suc (Suc (Drawn d)))"
  let ?d = "snd (insertFixture eventID no a b d)"
  have mp: "match_participants ?d = match_participants d @ [fixtureSlot ?u ?v 1 a, fixtureSlot ?u ?w 2 b]"
    and rest: "stages ?d = stages d" "groups ?d = groups d" "match_scores ?d = match_scores d"
    "UuidGen ?d = UuidGen d" "Drawn ?d = Drawn d + 3" "ids_in_use ?d = ids_in_use d \<union> {?u, ?v, ?w}"
    by (auto simp: insertFixture_eq ids_in_use_def)
  have fr: "fresh_supply d" using assms unfolding db_wf_def by blast
  have "{?u, ?v, ?w} \<subseteq> UuidGen d ` {Drawn d..<Drawn d + 3}" by auto
  then have g: "grows d ?d" by (auto simp: grows_def rest)
  have new: "?u \<notin> ids_in_use d" "?v \<notin> ids_in_use d" "?w \<notin> ids_in_use d" "?v \<noteq> ?w"
    using drawn_fresh [OF fr] fr by (auto simp: fresh_supply_def dest: injD)
  have M: "M_id ` set (matches ?d) = insert ?u (M_id ` set (matches d))" by simp
  have d1: "distinct (map M_id (matches ?d))" and d2: "distinct (map S_id (match_participants ?d))"
    using assms new unfolding db_wf_def by (auto simp: mp ids_in_use_def)
  have s: "\<forall>s \<in> set (match_participants ?d). S_match_id s \<in> M_id ` set (matches ?d)
      \<and> optionIn (S_source_match_id s) (M_id ` set (matches ?d))"
    unfolding M mp
  proof
    fix s assume "s \<in> set (match_participants d @ [fixtureSlot ?u ?v 1 a, fixtureSlot ?u ?w 2 b])"
    then consider "s \<in> set (match_participants d)" | "S_match_id s = ?u" "S_source_match_id s = None" by auto
    then show "S_match_id s \<in> insert ?u (M_id ` set (matches d))
        \<and> optionIn (S_source_match_id s) (insert ?u (M_id ` set (matches d)))"
    proof cases
      case 1
      then have "S_match_id s \<in> M_id ` set (matches d) \<and> optionIn (S_source_match_id s) (M_id ` set (matches d))"
        using assms unfolding db_wf_def by blast
      then show ?thesis using optionIn_Un(2) [of _ _ "{?u}"] by simp
    qed simp
  qed
  have m: "\<forall>r \<in> set (matches ?d). optionIn (M_next_match_id r) (M_id ` set (matches ?d))
      \<and> optionIn (M_stage_id r) (St_id ` set (stages ?d)) \<and> optionIn (M_group_id r) (G_id ` set (groups ?d))"
    unfolding M rest
  proof
    fix r assume "r \<in> set (matches ?d)"
    then consider "r \<in> set (matches d)" | "r = newFixture eventID ?u no" by auto
    then show "optionIn (M_next_match_id r) (insert ?u (M_id ` set (matches d)))
      \<and> optionIn (M_stage_id r) (St_id ` set (stages d)) \<and> optionIn (M_group_id r) (G_id ` set (groups d))"
    proof cases
      case 1
      then have "optionIn (M_next_match_id r) (M_id ` set (matches d))
        \<and> optionIn (M_stage_id r) (St_id ` set (stages d)) \<and> optionIn (M_group_id r) (G_id ` set (groups d))"
        using assms unfolding db_wf_def by blast
      then show ?thesis using optionIn_Un(2) [of _ _ "{?u}"] by simp
    qed simp
  qed
  have c: "\<forall>s \<in> set (match_scores ?d). Sc_match_id s \<in> M_id ` set (matches ?d)"
    and gk: "\<forall>g \<in> set (groups ?d). G_stage_id g \<in> St_id ` set (stages ?d)"
    using assms unfolding M rest db_wf_def by blast+
  show ?thesis unfolding db_wf_def using grows_fresh [OF g fr] d1 d2 s m c gk g by blast
qed

text \<open>The new row is the only difference the fixture queries see.\<close>

lemma slotsAt_insertFixture:
  assumes "db_wf d"
  shows "mid \<in> M_id ` set (matches d) \<Longrightarrow> slotsAt (snd (insertFixture eventID no a b d)) mid k = slotsAt d mid k"
    and "slotsAt (snd (insertFixture eventID no a b d)) (freshId d) 1
      = [fixtureSlot (freshId d) (UuidGen d (Suc (Drawn d))) 1 a]"
    and "slotsAt (snd (insertFixture eventID no a b d)) (freshId d) 2
      = [fixtureSlot (freshId d) (UuidGen d (Suc (Suc (Drawn d)))) 2 b]"
proof -
  have new: "freshId d \<notin> ids_in_use d" using assms drawn_fresh unfolding db_wf_def by blast
  then have "freshId d \<notin> M_id ` set (matches d)" by (simp add: ids_in_use_def)
  moreover have "\<forall>s \<in> set (match_participants d). S_match_id s \<in> M_id ` set (matches d)"
    using assms unfolding db_wf_def by blast
  ultimately have "\<forall>s \<in> set (match_participants d). S_match_id s \<noteq> freshId d" by metis
  then have old: "filter (\<lambda>s. S_match_id s = freshId d \<and> S_slot s = k) (match_participants d) = []" for k
    by (auto simp: filter_empty_conv)
  show "mid \<in> M_id ` set (matches d) \<Longrightarrow> slotsAt (snd (insertFixture eventID no a b d)) mid k = slotsAt d mid k"
    using \<open>freshId d \<notin> M_id ` set (matches d)\<close> by (auto simp: slotsAt_def insertFixture_eq)
  show "slotsAt (snd (insertFixture eventID no a b d)) (freshId d) 1
      = [fixtureSlot (freshId d) (UuidGen d (Suc (Drawn d))) 1 a]"
    "slotsAt (snd (insertFixture eventID no a b d)) (freshId d) 2
      = [fixtureSlot (freshId d) (UuidGen d (Suc (Suc (Drawn d)))) 2 b]"
    using old by (simp_all add: slotsAt_def insertFixture_eq)
qed

lemma pairRows_insertFixture:
  assumes "db_wf d"
  shows "pairRows (snd (insertFixture eventID no a b d)) eventID
    = pairRows d eventID @ [(newFixture eventID (freshId d) no, Some a, Some b)]"
proof -
  let ?d = "snd (insertFixture eventID no a b d)"
  let ?f = "\<lambda>d m. concat (map (\<lambda>p1. map (\<lambda>p2.
       (m, S_participant_id p1, S_participant_id p2)) (slotsAt d (M_id m) 2)) (slotsAt d (M_id m) 1))"
  have "?f ?d m = ?f d m" if "m \<in> set (matches d)" for m
    using that by (simp add: slotsAt_insertFixture(1) [OF assms])
  then have "concat (map (?f ?d) (filter Q (matches d))) = concat (map (?f d) (filter Q (matches d)))" for Q
    by - (rule arg_cong [where f = concat], rule map_cong [OF refl], simp)
  moreover have "?f ?d (newFixture eventID (freshId d) no) = [(newFixture eventID (freshId d) no, Some a, Some b)]"
    by (simp add: slotsAt_insertFixture(2,3) [OF assms])
  ultimately show ?thesis unfolding pairRows_def by simp
qed

lemma existingPairs_insertFixture:
  assumes "db_wf d"
  shows "set (existingPairs (snd (insertFixture eventID no a b d)) eventID)
    = insert (min a b, max a b) (set (existingPairs d eventID))"
  unfolding existingPairs_def pairRows_insertFixture [OF assms] by simp

lemma nextMatchNo_greater:
  assumes "m \<in> set (matches d)" and "M_event_id m = eventID"
  shows "M_match_no m < nextMatchNo d eventID"
proof -
  have fold_ge: "n \<le> fold max ns n \<and> (\<forall>x \<in> set ns. x \<le> fold max ns n)" for ns and n :: int
  proof (induction ns arbitrary: n)
    case (Cons y ns)
    show ?case using Cons.IH [of "max y n"] by auto
  qed simp
  have "M_match_no m \<in> set (map M_match_no (filter (\<lambda>m. M_event_id m = eventID) (matches d)))"
    using assms by auto
  then show ?thesis
    unfolding nextMatchNo_def using fold_ge
    by (cases "map M_match_no (filter (\<lambda>m. M_event_id m = eventID) (matches d))") fastforce+
qed

lemma set_pairRows:
  "(m, p, q) \<in> set (pairRows d eventID) \<longleftrightarrow> m \<in> set (matches d) \<and> M_event_id m = eventID
     \<and> M_group_id m = None \<and> M_status m \<notin> {''cancelled'', ''bye''}
     \<and> (\<exists>s1 \<in> set (slotsAt d (M_id m) 1). \<exists>s2 \<in> set (slotsAt d (M_id m) 2).
          p = S_participant_id s1 \<and> q = S_participant_id s2)"
  by (auto simp: pairRows_def image_iff)

lemma pairFixtures_pairRows:
  "m \<in> pairFixtures d eventID a b \<longleftrightarrow> (\<exists>p q. (m, p, q) \<in> set (pairRows d eventID) \<and> {p, q} = {Some a, Some b})"
  unfolding pairFixtures_def set_pairRows by blast

lemma pairFixtures_none:
  assumes "(min a b, max a b) \<notin> set (existingPairs d eventID)"
  shows "pairFixtures d eventID a b = {}"
proof (rule ccontr)
  assume "pairFixtures d eventID a b \<noteq> {}"
  then obtain m p q where r: "(m, p, q) \<in> set (pairRows d eventID)" and "{p, q} = {Some a, Some b}"
    unfolding pairFixtures_pairRows ex_in_conv [symmetric] by blast
  then have "(p = Some a \<and> q = Some b) \<or> (p = Some b \<and> q = Some a)" by (auto simp: doubleton_eq_iff)
  then have "(min a b, max a b) \<in> set (existingPairs d eventID)"
    unfolding existingPairs_def using r by (force simp: min.commute max.commute)
  then show False using assms by blast
qed

lemma pairFixtures_insertFixture:
  assumes "db_wf d"
  shows "pairFixtures (snd (insertFixture eventID no a b d)) eventID x y
    = (if {a, b} = {x, y} then insert (newFixture eventID (freshId d) no) (pairFixtures d eventID x y)
       else pairFixtures d eventID x y)"
proof -
  let ?new = "newFixture eventID (freshId d) no"
  have eq: "{Some a, Some b} = {Some x, Some y} \<longleftrightarrow> {a, b} = {x, y}" by (simp add: doubleton_eq_iff)
  have "m \<in> pairFixtures (snd (insertFixture eventID no a b d)) eventID x y
      \<longleftrightarrow> m \<in> pairFixtures d eventID x y \<or> (m = ?new \<and> {a, b} = {x, y})" for m
    unfolding pairFixtures_pairRows pairRows_insertFixture [OF assms] eq [symmetric] set_append
    by (simp only: Un_iff list.set insert_iff empty_iff prod.inject) blast
  then show ?thesis by (intro set_eqI) (simp only: insert_iff split: if_split, blast)
qed

subsection \<open>Fixtures added by hand\<close>

definition unplayedStatus :: "string \<Rightarrow> bool" where
  "unplayedStatus s \<longleftrightarrow> s \<in> {''pending'', ''scheduled'', ''live''}"

definition playedStatus :: "string \<Rightarrow> bool" where
  "playedStatus s \<longleftrightarrow> s \<in> {''completed'', ''walkover'', ''retired''}"

lemma AddManualMatch_Inr:
  "AddManualMatch ctx eventID orgID actor a b allow d = Inr ((mid, no), d') \<longleftrightarrow>
     may_edit d eventID orgID ''round_robin'' \<and> a \<noteq> b \<and> {a, b} \<subseteq> validParticipants d eventID
   \<and> fst (classifyDuplicate (findDuplicates d eventID a b) allow) = None
   \<and> no = nextMatchNo d eventID \<and> mid = freshId d
   \<and> (\<exists>e. d' = (if snd (classifyDuplicate (findDuplicates d eventID a b) allow)
        then RecordTx ctx e (snd (insertFixture eventID no a b d)) else snd (insertFixture eventID no a b d))
      \<and> (\<exists>auth. authorizeEvent d eventID orgID = Inr auth
          \<and> e = rematchEntry auth actor mid (hd (findDuplicates d eventID a b)) a b))"
proof (cases "authorizeEvent d eventID orgID")
  case (Inl e)
  then have "\<not> may_edit d eventID orgID ''round_robin''"
    by (auto simp: authorizeEvent_def may_edit_def split: option.splits if_splits)
  then show ?thesis using Inl by (simp add: AddManualMatch_def)
next
  case (Inr auth)
  then have m: "may_edit d eventID orgID ''round_robin'' \<longleftrightarrow> AuthFormat auth = ''round_robin''"
    by (auto simp: authorizeEvent_def may_edit_def split: option.splits if_splits)
  obtain c r where c: "classifyDuplicate (findDuplicates d eventID a b) allow = (c, r)" by (metis surj_pair)
  have i: "insertFixture eventID no' a b d = (freshId d, snd (insertFixture eventID no' a b d))" for no'
    by (simp add: insertFixture_eq)
  show ?thesis unfolding AddManualMatch_def Inr m c Let_def
    by (subst i) (auto split: option.split)
qed

lemma classify_pair:
  assumes "a \<noteq> b"
  shows "fst (classifyDuplicate (findDuplicates d eventID a b) allow) = None \<longleftrightarrow>
      (\<forall>m \<in> pairFixtures d eventID a b. \<not> unplayedStatus (M_status m) \<and> (allow \<or> \<not> playedStatus (M_status m)))"
    and "snd (classifyDuplicate (findDuplicates d eventID a b) allow) \<longleftrightarrow>
      allow \<and> (\<forall>m \<in> pairFixtures d eventID a b. \<not> unplayedStatus (M_status m))
      \<and> (\<exists>m \<in> pairFixtures d eventID a b. playedStatus (M_status m))"
proof -
  let ?rs = "findDuplicates d eventID a b"
  have u: "(\<exists>r \<in> set ?rs. unplayed r) \<longleftrightarrow> (\<exists>m \<in> pairFixtures d eventID a b. unplayedStatus (M_status m))"
    unfolding findDuplicates_set [OF assms] by (simp add: unplayed_def unplayedStatus_def)
  have p: "(\<exists>r \<in> set ?rs. decided r) \<longleftrightarrow> (\<exists>m \<in> pairFixtures d eventID a b. playedStatus (M_status m))"
    unfolding findDuplicates_set [OF assms] by (simp add: decided_def playedStatus_def)
  show "fst (classifyDuplicate ?rs allow) = None \<longleftrightarrow>
      (\<forall>m \<in> pairFixtures d eventID a b. \<not> unplayedStatus (M_status m) \<and> (allow \<or> \<not> playedStatus (M_status m)))"
    unfolding classifyDuplicate_ok_iff using u p by blast
  have "snd (classifyDuplicate ?rs allow) \<longleftrightarrow> allow \<and> (\<forall>r \<in> set ?rs. \<not> unplayed r) \<and> (\<exists>r \<in> set ?rs. decided r)"
    unfolding classifyDuplicate_eq by (auto simp: find_None_iff_all split: option.split dest!: find_Some_in)
  then show "snd (classifyDuplicate ?rs allow) \<longleftrightarrow>
      allow \<and> (\<forall>m \<in> pairFixtures d eventID a b. \<not> unplayedStatus (M_status m))
      \<and> (\<exists>m \<in> pairFixtures d eventID a b. playedStatus (M_status m))" using u p by blast
qed

lemma pairFixtures_RecordTx [simp]: "pairFixtures (RecordTx c e d) eventID a b = pairFixtures d eventID a b"
  by (simp add: pairFixtures_def slotsAt_def frame_simps)

text \<open>C13. A hand-made fixture: \<open>AddManualMatch\<close> succeeds exactly when the caller may edit a
  round-robin event, the two teams differ and belong to it, no unplayed fixture of the unordered
  pair exists, and a played one exists only with the rematch override. It then adds one pending
  fixture of that pair under a new id and a number above all of the event's, leaves all other
  pairs alone, keeps the database well-formed, and a rematch (and only that) is audited.\<close>

theorem AddManualMatch_outcome:
  assumes "db_wf d"
  shows "((\<exists>r. AddManualMatch ctx eventID orgID actor a b allow d = Inr r)
      \<longleftrightarrow> may_edit d eventID orgID ''round_robin'' \<and> a \<noteq> b \<and> {a, b} \<subseteq> validParticipants d eventID
        \<and> (\<forall>m \<in> pairFixtures d eventID a b.
              \<not> unplayedStatus (M_status m) \<and> (allow \<or> \<not> playedStatus (M_status m))))
    \<and> (\<forall>mid no d'. AddManualMatch ctx eventID orgID actor a b allow d = Inr ((mid, no), d') \<longrightarrow>
         mid \<notin> ids_in_use d \<and> db_wf d'
       \<and> (\<forall>m \<in> set (matches d). M_event_id m = eventID \<longrightarrow> M_match_no m < no)
       \<and> (\<forall>x y. pairFixtures d' eventID x y = (if {a, b} = {x, y}
             then insert (newFixture eventID mid no) (pairFixtures d eventID x y)
             else pairFixtures d eventID x y))
       \<and> length (audit_logs d') = length (audit_logs d)
           + (if \<exists>m \<in> pairFixtures d eventID a b. playedStatus (M_status m) then 1 else 0))"
proof -
  let ?c = "classifyDuplicate (findDuplicates d eventID a b) allow"
  let ?d = "snd (insertFixture eventID (nextMatchNo d eventID) a b d)"
  have "(\<exists>r. AddManualMatch ctx eventID orgID actor a b allow d = Inr r) \<longleftrightarrow>
      may_edit d eventID orgID ''round_robin'' \<and> a \<noteq> b \<and> {a, b} \<subseteq> validParticipants d eventID \<and> fst ?c = None"
    (is "?L \<longleftrightarrow> ?R")
  proof
    assume ?L
    then obtain mid no d' where "AddManualMatch ctx eventID orgID actor a b allow d = Inr ((mid, no), d')" by auto
    then show ?R unfolding AddManualMatch_Inr by blast
  next
    assume R: ?R
    then obtain auth where "authorizeEvent d eventID orgID = Inr auth"
      by (auto simp: authorizeEvent_def may_edit_def)
    with R show ?L using AddManualMatch_Inr [of ctx eventID orgID actor a b allow d "freshId d"] by blast
  qed
  then have ok: "(\<exists>r. AddManualMatch ctx eventID orgID actor a b allow d = Inr r)
      \<longleftrightarrow> may_edit d eventID orgID ''round_robin'' \<and> a \<noteq> b \<and> {a, b} \<subseteq> validParticipants d eventID
        \<and> (\<forall>m \<in> pairFixtures d eventID a b.
              \<not> unplayedStatus (M_status m) \<and> (allow \<or> \<not> playedStatus (M_status m)))"
    using classify_pair(1) [of a b d eventID allow] by (cases "a = b") simp_all
  have "mid \<notin> ids_in_use d \<and> db_wf d'
       \<and> (\<forall>m \<in> set (matches d). M_event_id m = eventID \<longrightarrow> M_match_no m < no)
       \<and> (\<forall>x y. pairFixtures d' eventID x y = (if {a, b} = {x, y}
             then insert (newFixture eventID mid no) (pairFixtures d eventID x y)
             else pairFixtures d eventID x y))
       \<and> length (audit_logs d') = length (audit_logs d)
           + (if \<exists>m \<in> pairFixtures d eventID a b. playedStatus (M_status m) then 1 else 0)"
    if "AddManualMatch ctx eventID orgID actor a b allow d = Inr ((mid, no), d')" for mid no d'
  proof -
    from that obtain e where ab: "a \<noteq> b" and c: "fst ?c = None" and no: "no = nextMatchNo d eventID" "mid = freshId d"
      and d': "d' = (if snd ?c then RecordTx ctx e ?d else ?d)"
      unfolding AddManualMatch_Inr by blast
    have "mid \<notin> ids_in_use d" using assms drawn_fresh no(2) unfolding db_wf_def by blast
    moreover have "db_wf d'" using insertFixture_wf [OF assms] by (simp add: d')
    moreover have "pairFixtures d' eventID x y = pairFixtures ?d eventID x y" for x y by (simp add: d')
    moreover have "length (audit_logs d') = length (audit_logs d) + (if snd ?c then 1 else 0)"
      by (simp add: d' RecordTx_def)
    moreover have "snd ?c \<longleftrightarrow> (\<exists>m \<in> pairFixtures d eventID a b. playedStatus (M_status m))"
      using classify_pair [OF ab, of d eventID allow] c by blast
    ultimately show ?thesis
      using nextMatchNo_greater no by (simp add: pairFixtures_insertFixture [OF assms])
  qed
  then show ?thesis using ok by blast
qed

theorem AddManualMatch_outcome_witness:
  "\<exists>r. AddManualMatch sample_ctx 3 (Some 2) 9 12 11 False (sample_db ''round_robin'') = Inr r"
proof -
  have "pairFixtures (sample_db ''round_robin'') 3 12 11 = {}" by (simp add: pairFixtures_def sample_db_def)
  then show ?thesis
    using AddManualMatch_outcome [OF sample_db_wf, of sample_ctx 3 "Some 2" 9 12 11 False "''round_robin''"]
      sample_db_may_edit [of "''round_robin''"] by (simp add: sample_db_participants)
qed

subsection \<open>The generator\<close>

definition normPair :: "uuid \<times> uuid \<Rightarrow> uuid \<times> uuid" where
  "normPair pq = (min (fst pq) (snd pq), max (fst pq) (snd pq))"

lemma normPair_Pair: "normPair (a, b) = (min a b, max a b)"
  by (simp add: normPair_def)

definition allPairs :: "uuid set \<Rightarrow> (uuid \<times> uuid) set" where
  "allPairs A = {(p, q). p \<in> A \<and> q \<in> A \<and> p < q}"

lemma loopPairs_simps [simp]: "loopPairs [] = []" "loopPairs (x # xs) = map (Pair x) xs @ loopPairs xs"
proof -
  have u: "[0..<length (x # xs)] = 0 # map Suc [0..<length xs]"
    by (simp add: map_Suc_upt upt_conv_Cons del: upt_Suc)
  have f: "map (\<lambda>j. (x, (x # xs) ! j)) [Suc 0..<length (x # xs)] = map (Pair x) xs"
    by (intro nth_equalityI) (simp_all del: upt_Suc)
  have g: "map (\<lambda>j. (xs ! i, (x # xs) ! j)) [Suc (Suc i)..<length (x # xs)]
      = map (\<lambda>j. (xs ! i, xs ! j)) [Suc i..<length xs]" for i
    by (intro nth_equalityI) (simp_all del: upt_Suc)
  show "loopPairs (x # xs) = map (Pair x) xs @ loopPairs xs"
    unfolding loopPairs_def u using f g by (simp add: comp_def)
qed (simp add: loopPairs_def)

lemma loopPairs_set:
  assumes "distinct pids"
  shows "distinct (map normPair (loopPairs pids)) \<and> set (map normPair (loopPairs pids)) = allPairs (set pids)"
  using assms
proof (induction pids)
  case (Cons x pids)
  have inj: "inj_on normPair (Pair x ` set pids)"
    by (auto simp: normPair_Pair inj_on_def min_def max_def split: if_splits)
  have fst_new: "x \<in> {fst pq, snd pq}" if "pq \<in> normPair ` Pair x ` set pids" for pq
    using that by (auto simp: normPair_Pair min_def max_def split: if_splits)
  have "x \<notin> {fst pq, snd pq}" if "pq \<in> allPairs (set pids)" for pq
    using that Cons.prems by (auto simp: allPairs_def)
  then have disj: "normPair ` Pair x ` set pids \<inter> allPairs (set pids) = {}" using fst_new by blast
  have "distinct (map normPair (map (Pair x) pids))"
    using inj Cons.prems by (simp add: distinct_map inj_on_def)
  moreover have "normPair ` Pair x ` set pids
      = {(p, q). p < q \<and> (p = x \<and> q \<in> set pids \<or> q = x \<and> p \<in> set pids)}"
  proof (intro set_eqI iffI)
    fix pq assume "pq \<in> normPair ` Pair x ` set pids"
    then obtain y where "y \<in> set pids" "pq = (min x y, max x y)" by (auto simp: normPair_Pair)
    moreover have "x \<noteq> y" using Cons.prems \<open>y \<in> set pids\<close> by auto
    ultimately show "pq \<in> {(p, q). p < q \<and> (p = x \<and> q \<in> set pids \<or> q = x \<and> p \<in> set pids)}"
      by (cases "x < y") auto
  next
    fix pq assume "pq \<in> {(p, q). p < q \<and> (p = x \<and> q \<in> set pids \<or> q = x \<and> p \<in> set pids)}"
    then obtain y where y: "y \<in> set pids" "pq = normPair (x, y)" by (auto simp: normPair_Pair)
    then show "pq \<in> normPair ` Pair x ` set pids" by blast
  qed
  then have "normPair ` Pair x ` set pids \<union> allPairs (set pids) = allPairs (set (x # pids))"
    by (auto simp: allPairs_def)
  ultimately show ?case using Cons disj by (simp add: image_Un image_image)
qed (simp add: allPairs_def)

lemma generateStep_eq:
  "generateStep eventID H pq (no, c, d) =
     (if normPair pq \<in> H then (no, c, d)
      else (no + 1, c + 1, snd (insertFixture eventID no (fst pq) (snd pq) d)))"
  by (cases pq) (auto simp: generateStep_def normPair_def min_def max_def)

lemma generate_nothing:
  "(\<And>pq. pq \<in> set ps \<Longrightarrow> normPair pq \<in> H) \<Longrightarrow> fold (generateStep eventID H) ps (n, c, d) = (n, c, d)"
  by (induction ps) (simp_all add: generateStep_eq)

lemma generate_fold:
  assumes "db_wf d" and "distinct (map normPair ps)"
    and "fold (generateStep eventID H) ps (no, c, d) = (no', c', d')"
  shows "db_wf d' \<and> c' = c + card (set (map normPair ps) - H)
    \<and> set (existingPairs d' eventID) = set (existingPairs d eventID) \<union> (set (map normPair ps) - H)
    \<and> events d' = events d \<and> tournaments d' = tournaments d \<and> participants d' = participants d
    \<and> length (matches d') = length (matches d) + card (set (map normPair ps) - H)"
  using assms
proof (induction ps arbitrary: no c d)
  case (Cons pq ps)
  show ?case
  proof (cases "normPair pq \<in> H")
    case True
    then have "fold (generateStep eventID H) ps (no, c, d) = (no', c', d')"
      using Cons.prems(3) by (simp add: generateStep_eq)
    from Cons.IH [OF Cons.prems(1) _ this] True Cons.prems(2) show ?thesis
      by (simp add: insert_Diff_if)
  next
    case False
    let ?d = "snd (insertFixture eventID no (fst pq) (snd pq) d)"
    have f: "fold (generateStep eventID H) ps (no + 1, c + 1, ?d) = (no', c', d')"
      using Cons.prems(3) False by (simp add: generateStep_eq)
    have wf: "db_wf ?d" using insertFixture_wf [OF Cons.prems(1)] by blast
    have new: "normPair pq \<notin> set (map normPair ps) - H" using Cons.prems(2) by simp
    have ins: "set (map normPair (pq # ps)) - H = insert (normPair pq) (set (map normPair ps) - H)"
      using False by auto
    have "set (existingPairs ?d eventID) = insert (normPair pq) (set (existingPairs d eventID))"
      using existingPairs_insertFixture [OF Cons.prems(1)] by (simp add: normPair_def)
    with Cons.IH [OF wf _ f] Cons.prems(2) show ?thesis
      unfolding ins card_insert_disjoint [OF finite_Diff [OF finite_set] new] by simp
  qed
qed simp

lemma mset_orderedParticipants:
  "mset (orderedParticipants d eventID) = mset (map P_id (filter (\<lambda>p. P_event_id p = eventID) (participants d)))"
proof -
  let ?ps = "filter (\<lambda>p. P_event_id p = eventID) (participants d)"
  have "mset (filter (\<lambda>p. P_seed p \<noteq> None) xs) + mset (filter (\<lambda>p. P_seed p = None) xs) = mset xs" for xs
    by (induction xs) auto
  from this [of "sort_key P_id ?ps"]
  have "mset (filter (\<lambda>p. P_seed p \<noteq> None) (sort_key P_id ?ps)) + mset (filter (\<lambda>p. P_seed p = None) (sort_key P_id ?ps))
      = mset ?ps" by simp
  then show ?thesis
    unfolding orderedParticipants_def Let_def mset_map mset_append mset_sort by (simp only:)
qed

lemma set_orderedParticipants: "set (orderedParticipants d eventID) = validParticipants d eventID"
  using mset_eq_setD [OF mset_orderedParticipants] by (simp add: validParticipants_def)

lemma distinct_orderedParticipants:
  assumes "distinct (map P_id (participants d))"
  shows "distinct (orderedParticipants d eventID)"
  using mset_orderedParticipants [of d eventID] assms
  by (metis distinct_map_filter mset_eq_imp_distinct_iff)

text \<open>C14. The fixture generator of a round-robin event is complete, minimal and idempotent: when it
  succeeds, the pairs with a standing fixture are the ones from before plus every pair of the
  event's participants, it made exactly one fixture for each pair that had none, and running it
  again creates nothing and leaves the database as it is.\<close>

theorem GenerateRoundRobinFixtures_complete:
  assumes "db_wf d" and "distinct (map P_id (participants d))"
    and "GenerateRoundRobinFixtures eventID orgID d = Inr ((created, existing), d')"
  shows "db_wf d' \<and> existing = card (set (existingPairs d eventID))
    \<and> set (existingPairs d' eventID) = set (existingPairs d eventID) \<union> allPairs (validParticipants d eventID)
    \<and> created = card (allPairs (validParticipants d eventID) - set (existingPairs d eventID))
    \<and> length (matches d') = length (matches d) + created
    \<and> GenerateRoundRobinFixtures eventID orgID d' = Inr ((0, card (set (existingPairs d' eventID))), d')"
proof -
  let ?pids = "orderedParticipants d eventID" and ?H = "set (existingPairs d eventID)"
  obtain auth where auth: "authorizeEvent d eventID orgID = Inr auth" "AuthFormat auth = ''round_robin''"
    and two: "\<not> length ?pids < 2"
    using assms(3) by (auto simp: GenerateRoundRobinFixtures_def Let_def split: sum.splits if_splits)
  obtain no' c' d1 where f: "fold (generateStep eventID ?H) (loopPairs ?pids) (nextMatchNo d eventID, 0, d) = (no', c', d1)"
    by (metis prod_cases3)
  have r: "created = c'" "existing = card ?H" "d' = d1"
    using assms(3) unfolding GenerateRoundRobinFixtures_def Let_def auth(1) f using auth(2) two by simp_all
  note pairs = loopPairs_set [OF distinct_orderedParticipants [OF assms(2), of eventID], unfolded set_orderedParticipants]
  note gen = generate_fold [OF assms(1) conjunct1 [OF pairs] f, unfolded conjunct2 [OF pairs]]
  have same: "orderedParticipants d' eventID = ?pids" "authorizeEvent d' eventID orgID = Inr auth"
  proof -
    have "events d' = events d" "tournaments d' = tournaments d" "participants d' = participants d"
      using gen by (simp_all add: r(3))
    then show "orderedParticipants d' eventID = ?pids" "authorizeEvent d' eventID orgID = Inr auth"
      using auth(1) by (simp_all only: orderedParticipants_def authorizeEvent_def eventTournament_def)
  qed
  have ex: "set (existingPairs d' eventID) = ?H \<union> allPairs (validParticipants d eventID)"
    using gen by (auto simp: r(3))
  have "normPair pq \<in> set (existingPairs d' eventID)" if "pq \<in> set (loopPairs ?pids)" for pq
    using pairs that ex by auto
  then have "fold (generateStep eventID (set (existingPairs d' eventID))) (loopPairs ?pids) (n, c, e) = (n, c, e)" for n c e
    by (rule generate_nothing)
  then have "GenerateRoundRobinFixtures eventID orgID d' = Inr ((0, card (set (existingPairs d' eventID))), d')"
    unfolding GenerateRoundRobinFixtures_def Let_def same using auth(2) two by simp
  then show ?thesis using gen ex by (simp add: r)
qed

lemma sample_generates: "\<exists>c e d'. GenerateRoundRobinFixtures 3 (Some 2) (sample_db ''round_robin'') = Inr ((c, e), d')"
proof -
  let ?d = "sample_db ''round_robin''"
  have a: "authorizeEvent ?d 3 (Some 2) = Inr \<lparr>AuthOrg = 2, AuthTournament = 1, AuthFormat = ''round_robin''\<rparr>"
    by (simp add: authorizeEvent_def sample_db_event) (simp add: sample_db_def foreignOrg_def)
  have "\<not> length (orderedParticipants ?d 3) < 2"
    by (simp add: orderedParticipants_def sample_db_def)
  then show ?thesis
    by (cases "fold (generateStep 3 (set (existingPairs ?d 3))) (loopPairs (orderedParticipants ?d 3)) (nextMatchNo ?d 3, 0, ?d)")
       (simp add: GenerateRoundRobinFixtures_def a Let_def)
qed

theorem GenerateRoundRobinFixtures_complete_witness:
  "\<exists>d'. GenerateRoundRobinFixtures 3 (Some 2) (sample_db ''round_robin'') = Inr ((6, 0), d')
     \<and> GenerateRoundRobinFixtures 3 (Some 2) d' = Inr ((0, 6), d')"
proof -
  let ?d = "sample_db ''round_robin''"
  have keys: "distinct (map P_id (participants ?d))" by (simp add: sample_db_def)
  obtain c e d' where g: "GenerateRoundRobinFixtures 3 (Some 2) ?d = Inr ((c, e), d')"
    using sample_generates by blast
  have none: "existingPairs ?d 3 = []" by (simp add: existingPairs_def pairRows_def sample_db_def)
  have "allPairs {11, 12, 13, 14} = {(11, 12), (11, 13), (11, 14), (12, 13), (12, 14), (13, 14)}"
    by (auto simp: allPairs_def)
  then have "card (allPairs {11, 12, 13, 14}) = 6" by simp
  with GenerateRoundRobinFixtures_complete [OF sample_db_wf keys g] g none show ?thesis
    by (simp add: sample_db_participants)
qed

subsection \<open>Never two open fixtures of one pair\<close>

text \<open>What an organizer can do to the fixtures of one event.\<close>

inductive fixture_step :: "uuid \<Rightarrow> db \<Rightarrow> db \<Rightarrow> bool" for eventID :: uuid where
  add: "AddManualMatch ctx eventID orgID actor a b allow d = Inr (r, d') \<Longrightarrow> fixture_step eventID d d'"
| generate: "GenerateRoundRobinFixtures eventID orgID d = Inr (r, d') \<Longrightarrow> fixture_step eventID d d'"
| delete: "DeleteManualMatch matchID orgID d = Inr d' \<Longrightarrow> fixture_step eventID d d'"

inductive_cases fixture_stepE: "fixture_step eventID d d'"

definition openIds :: "db \<Rightarrow> uuid \<Rightarrow> uuid \<Rightarrow> uuid \<Rightarrow> uuid set" where
  "openIds d eventID a b = M_id ` {m \<in> pairFixtures d eventID a b. unplayedStatus (M_status m)}"

definition one_open :: "uuid \<Rightarrow> db \<Rightarrow> bool" where
  "one_open eventID d \<longleftrightarrow> (\<forall>a b. a \<noteq> b \<longrightarrow> (\<forall>i \<in> openIds d eventID a b. \<forall>j \<in> openIds d eventID a b. i = j))"

lemma one_open_insert:
  assumes "db_wf d" and "one_open eventID d" and "openIds d eventID a b = {}"
  shows "one_open eventID (snd (insertFixture eventID no a b d))"
proof -
  have "openIds (snd (insertFixture eventID no a b d)) eventID x y = (if {a, b} = {x, y} then {freshId d}
      else openIds d eventID x y)" for x y
  proof (cases "{a, b} = {x, y}")
    case True
    then have "pairFixtures d eventID x y = pairFixtures d eventID a b"
      unfolding pairFixtures_def by (auto simp: doubleton_eq_iff)
    then have none: "{m \<in> pairFixtures d eventID x y. unplayedStatus (M_status m)} = {}"
      using assms(3) by (auto simp: openIds_def)
    have "{m \<in> insert (newFixture eventID (freshId d) no) (pairFixtures d eventID x y). unplayedStatus (M_status m)}
        = {newFixture eventID (freshId d) no}"
      using none by (auto simp: unplayedStatus_def)
    then show ?thesis using True by (simp add: openIds_def pairFixtures_insertFixture [OF assms(1)])
  qed (simp add: openIds_def pairFixtures_insertFixture [OF assms(1)])
  then show ?thesis using assms(2) by (simp add: one_open_def)
qed

lemma one_open_delete:
  assumes "one_open eventID d"
  shows "one_open eventID (deleteMatches P d)"
proof -
  have "openIds (deleteMatches P d) eventID a b \<subseteq> openIds d eventID a b" for a b
  proof
    fix i assume "i \<in> openIds (deleteMatches P d) eventID a b"
    then obtain m where m: "m \<in> pairFixtures (deleteMatches P d) eventID a b" "unplayedStatus (M_status m)" "i = M_id m"
      by (auto simp: openIds_def)
    then obtain m0 where m0: "m0 \<in> set (matches d)" "M_id m0 = M_id m" "M_event_id m0 = M_event_id m"
      "M_group_id m0 = M_group_id m" "M_status m0 = M_status m"
      by (auto simp: pairFixtures_def deleteMatches_def Let_def)
    have slots: "\<exists>s0 \<in> set (slotsAt d (M_id m) k). S_participant_id s0 = S_participant_id s"
      if "s \<in> set (slotsAt (deleteMatches P d) (M_id m) k)" for s k
      using that by (auto simp: slotsAt_def deleteMatches_def Let_def)
    from m(1) obtain s1 s2 where "s1 \<in> set (slotsAt (deleteMatches P d) (M_id m) 1)"
      "s2 \<in> set (slotsAt (deleteMatches P d) (M_id m) 2)"
      and ab: "{S_participant_id s1, S_participant_id s2} = {Some a, Some b}" by (auto simp: pairFixtures_def)
    from slots [OF this(1)] slots [OF this(2)] obtain t1 t2 where "t1 \<in> set (slotsAt d (M_id m0) 1)"
      "t2 \<in> set (slotsAt d (M_id m0) 2)" "{S_participant_id t1, S_participant_id t2} = {Some a, Some b}"
      using ab m0(2) by auto
    then have "m0 \<in> pairFixtures d eventID a b"
      using m(1) m0 unfolding pairFixtures_def by auto
    then have "M_id m0 \<in> openIds d eventID a b" using m(2) m0(5) unfolding openIds_def by auto
    then show "i \<in> openIds d eventID a b" using m(3) m0(2) by simp
  qed
  then show ?thesis using assms unfolding one_open_def by blast
qed

lemma one_open_generate:
  assumes "db_wf d" and "one_open eventID d" and "distinct (map normPair ps)"
    and "set (map normPair ps) \<inter> (set (existingPairs d eventID) - H) = {}"
    and "fold (generateStep eventID H) ps (no, c, d) = (no', c', d')"
  shows "one_open eventID d'"
  using assms
proof (induction ps arbitrary: no c d)
  case (Cons pq ps)
  show ?case
  proof (cases "normPair pq \<in> H")
    case True
    then have "fold (generateStep eventID H) ps (no, c, d) = (no', c', d')"
      using Cons.prems(5) by (simp add: generateStep_eq)
    then show ?thesis by (intro Cons.IH [of d no c]) (use Cons.prems in auto)
  next
    case False
    let ?d = "snd (insertFixture eventID no (fst pq) (snd pq) d)"
    have f: "fold (generateStep eventID H) ps (no + 1, c + 1, ?d) = (no', c', d')"
      using Cons.prems(5) False by (simp add: generateStep_eq)
    have ex: "set (existingPairs ?d eventID) = insert (normPair pq) (set (existingPairs d eventID))"
      using existingPairs_insertFixture [OF Cons.prems(1)] by (simp add: normPair_def)
    have "normPair pq \<notin> set (existingPairs d eventID)" using Cons.prems(4) False by auto
    then have "openIds d eventID (fst pq) (snd pq) = {}"
      unfolding openIds_def by (subst pairFixtures_none) (simp_all add: normPair_def)
    from one_open_insert [OF Cons.prems(1,2) this] have "one_open eventID ?d" .
    moreover have "db_wf ?d" using insertFixture_wf [OF Cons.prems(1)] by blast
    ultimately show ?thesis
      by (intro Cons.IH [OF _ _ _ _ f]) (use Cons.prems(3,4) ex in auto)
  qed
qed simp



end
