(* ===== verification/Standings.thy ===== *)
theory Standings
  imports DrawBuild
begin

section \<open>Standings and the placement of group finishers (internal/draw/service.go)\<close>

text \<open>
  The standings query (of an event, of a group), the resolution of the knockout slots that stand
  for a place in a group (\<open>ResolveGroups\<close>, \<open>MaybeResolveGroups\<close>, \<open>RebuildGroupPlacements\<close>) and
  \<open>SetGroupAdvance\<close>. Rows that the \<open>ORDER BY\<close> leaves tied keep the order of the participants.
\<close>

record standing =
  StParticipant :: uuid
  StName :: string
  StSeed :: "int option"
  Played :: int
  Won :: int
  Lost :: int
  SetsFor :: int
  SetsAgainst :: int

text \<open>The common table \<open>played\<close>: participant, match, winner and slot of every counted match.\<close>

definition playedRows :: "db \<Rightarrow> (match_row \<Rightarrow> bool) \<Rightarrow> (uuid \<times> uuid \<times> uuid option \<times> int) list" where
  "playedRows d P = concat (map (\<lambda>m. concat (map (\<lambda>s. case S_participant_id s of
        Some p \<Rightarrow> [(p, M_id m, M_winner m, S_slot s)] | None \<Rightarrow> [])
      (filter (\<lambda>s. S_match_id s = M_id m) (match_participants d))))
    (filter (\<lambda>m. P m \<and> M_status m \<in> {''completed'', ''walkover'', ''retired''}) (matches d)))"

text \<open>The common table \<open>setcounts\<close> for one participant: the games of its own and the other side.\<close>

definition setCounts :: "db \<Rightarrow> (uuid \<times> uuid \<times> uuid option \<times> int) list \<Rightarrow> int \<times> int" where
  "setCounts d pl = (let sets = concat (map (\<lambda>(_, mid, _, slot). map (\<lambda>r. (slot, Sc_set r))
         (filter (\<lambda>r. Sc_match_id r = mid) (match_scores d))) pl)
     in (sum_list (map (\<lambda>(slot, st). if slot = 1 then P1Games st else P2Games st) sets),
         sum_list (map (\<lambda>(slot, st). if slot = 1 then P2Games st else P1Games st) sets)))"

definition standingOf :: "db \<Rightarrow> (uuid \<times> uuid \<times> uuid option \<times> int) list \<Rightarrow> participant_row \<Rightarrow> standing" where
  "standingOf d played p =
     (let pl = filter (\<lambda>r. fst r = P_id p) played;
          (sf, sa) = setCounts d pl
      in \<lparr>StParticipant = P_id p, StName = P_display_name p, StSeed = P_seed p,
          Played = int (length pl),
          Won = int (length (filter (\<lambda>(_, _, w, _). w = Some (P_id p)) pl)),
          Lost = int (length (filter (\<lambda>(_, _, w, _). w \<noteq> None \<and> w \<noteq> Some (P_id p)) pl)),
          SetsFor = sf, SetsAgainst = sa\<rparr>)"

text \<open>\<open>ORDER BY won DESC, sf - sa DESC, display_name\<close>\<close>

definition orderStandings :: "db \<Rightarrow> standing list \<Rightarrow> standing list" where
  "orderStandings d sts = sort_key (\<lambda>s. - Won s)
     (sort_key (\<lambda>s. - (SetsFor s - SetsAgainst s)) (sort_key (\<lambda>s. Collation d (StName s)) sts))"

definition GetStandings :: "db \<Rightarrow> uuid \<Rightarrow> standing list" where
  "GetStandings d eventID = orderStandings d
     (map (standingOf d (playedRows d (\<lambda>m. M_event_id m = eventID)))
        (filter (\<lambda>p. P_event_id p = eventID) (participants d)))"

text \<open>The participants of a group are the ones its matches hold (\<open>SELECT DISTINCT\<close>).\<close>

definition groupParticipants :: "db \<Rightarrow> uuid \<Rightarrow> participant_row list" where
  "groupParticipants d groupID = remdups (concat (map (\<lambda>m. concat (map (\<lambda>s.
        filter (\<lambda>p. S_participant_id s = Some (P_id p)) (participants d))
      (filter (\<lambda>s. S_match_id s = M_id m) (match_participants d))))
    (filter (\<lambda>m. M_group_id m = Some groupID) (matches d))))"

definition standingsForGroup :: "db \<Rightarrow> uuid \<Rightarrow> standing list" where
  "standingsForGroup d groupID = orderStandings d
     (map (standingOf d (playedRows d (\<lambda>m. M_group_id m = Some groupID))) (groupParticipants d groupID))"

subsection \<open>Resolving placements\<close>

definition setSlotParticipant :: "uuid \<Rightarrow> uuid option \<Rightarrow> db \<Rightarrow> db" where
  "setSlotParticipant slotRowID p d = d\<lparr>match_participants :=
     update_where (\<lambda>s. S_id s = slotRowID) (\<lambda>s. s\<lparr>S_participant_id := p\<rparr>) (match_participants d)\<rparr>"

text \<open>A slot that stands for a place in a group: its row, the group and the rank. Reading a NULL
  group gives the zero UUID, a NULL rank does not scan.\<close>

record slot_ref =
  RefSlot :: uuid
  RefGroup :: uuid
  RefRank :: int

definition scanRef :: "slot_row \<Rightarrow> slot_ref option" where
  "scanRef s = map_option (\<lambda>rank. \<lparr>RefSlot = S_id s,
     RefGroup = (case S_source_group_id s of Some g \<Rightarrow> g | None \<Rightarrow> uuid_Nil), RefRank = rank\<rparr>) (S_source_rank s)"

definition stageKind :: "db \<Rightarrow> uuid option \<Rightarrow> string \<Rightarrow> bool" where
  "stageKind d st kind \<longleftrightarrow> (\<exists>r \<in> set (stages d). Some (St_id r) = st \<and> St_kind r = kind)"

definition knockoutMatchIds :: "db \<Rightarrow> uuid \<Rightarrow> uuid set" where
  "knockoutMatchIds d eventID =
     M_id ` set (filter (\<lambda>m. M_event_id m = eventID \<and> stageKind d (M_stage_id m) ''knockout'') (matches d))"

definition placementSlots :: "db \<Rightarrow> uuid \<Rightarrow> slot_row list" where
  "placementSlots d eventID = filter (\<lambda>s. S_match_id s \<in> knockoutMatchIds d eventID
     \<and> S_source_type s = ''group_placement'') (match_participants d)"

text \<open>One pass of the fill loop; \<open>st[r.rank-1]\<close> with a rank below 1 panics.\<close>

definition fillRef :: "(uuid \<Rightarrow> standing list) \<Rightarrow> slot_ref \<Rightarrow> nat \<times> db \<Rightarrow> draw_error + nat \<times> db" where
  "fillRef placements r nd = (case nd of (filled, d) \<Rightarrow>
     let st = placements (RefGroup r) in
     if RefRank r > int (length st) then Inr (filled, d)
     else if RefRank r < 1 then Inl DrawInternal
     else Inr (filled + 1, setSlotParticipant (RefSlot r) (Some (StParticipant (st ! nat (RefRank r - 1)))) d))"

definition ResolveGroups :: "uuid \<Rightarrow> uuid option \<Rightarrow> db \<Rightarrow> draw_error + nat \<times> db" where
  "ResolveGroups eventID orgID d =
     (case eventTournament d eventID of
        None \<Rightarrow> Inl DrawNotFound
      | Some (e, t) \<Rightarrow>
          if foreignOrg orgID (T_org_id t) then Inl DrawForbidden
          else
            let refs = map scanRef (placementSlots d eventID) in
            if None \<in> set refs then Inl DrawInternal
            else forM (fillRef (standingsForGroup d)) (map the refs) (0, d))"

definition undecided :: "match_row \<Rightarrow> bool" where
  "undecided m \<longleftrightarrow> M_status m \<notin> {''completed'', ''bye'', ''walkover'', ''retired'', ''cancelled''}"

definition MaybeResolveGroups :: "uuid \<Rightarrow> db \<Rightarrow> draw_error + bool \<times> db" where
  "MaybeResolveGroups matchID d =
     (case List.find (\<lambda>m. M_id m = matchID) (matches d) of
        None \<Rightarrow> Inl DrawInternal
      | Some m \<Rightarrow>
          if M_group_id m = None then Inr (False, d)
          else
            let remaining = length (filter (\<lambda>r. stageKind d (M_stage_id r) ''group''
                  \<and> M_event_id r = M_event_id m \<and> undecided r) (matches d))
            in if remaining > 0 then Inr (False, d)
               else (case ResolveGroups (M_event_id m) None d of
                   Inl e \<Rightarrow> Inl e
                 | Inr (_, d) \<Rightarrow> Inr (True, d)))"

text \<open>\<open>advance_count\<close> is an \<open>INTEGER\<close> column.\<close>

definition SetGroupAdvance :: "uuid \<Rightarrow> uuid option \<Rightarrow> int \<Rightarrow> db \<Rightarrow> draw_error + (uuid \<times> int) \<times> db" where
  "SetGroupAdvance groupID orgID advance d =
     (if advance < 1 then Inl DrawInvalidPairs
      else case List.find (\<lambda>g. G_id g = groupID) (groups d) of
        None \<Rightarrow> Inl DrawNotFound
      | Some g \<Rightarrow> (case List.find (\<lambda>s. St_id s = G_stage_id g) (stages d) of
          None \<Rightarrow> Inl DrawNotFound
        | Some st \<Rightarrow> (case eventTournament d (St_event_id st) of
            None \<Rightarrow> Inl DrawNotFound
          | Some (e, t) \<Rightarrow>
              if foreignOrg orgID (T_org_id t) then Inl DrawForbidden
              else if advance \<ge> 2 ^ 31 then Inl DrawInternal
              else Inr ((E_id e, advance), d\<lparr>groups := update_where (\<lambda>g. G_id g = groupID)
                (\<lambda>g. g\<lparr>G_advance_count := advance\<rparr>) (groups d)\<rparr>))))"

subsection \<open>Rebuilding the placements of one group\<close>

record locked_slot =
  LkMatchID :: uuid
  LkMatchNo :: int
  LkSlot :: int
  LkStatus :: string

record placement_ref =
  PrSlotRow :: uuid
  PrRank :: int
  PrCurrent :: "uuid option"
  PrMatch :: uuid
  PrMatchNo :: int
  PrStatus :: string
  PrHasScores :: bool
  PrSlot :: int

definition hasScores :: "db \<Rightarrow> uuid \<Rightarrow> bool" where
  "hasScores d mid \<longleftrightarrow> (\<exists>s \<in> set (match_scores d). Sc_match_id s = mid)"

definition placementRef :: "db \<Rightarrow> slot_row \<times> match_row \<Rightarrow> placement_ref option" where
  "placementRef d sm = (case sm of (s, m) \<Rightarrow> map_option (\<lambda>rank.
     \<lparr>PrSlotRow = S_id s, PrRank = rank, PrCurrent = S_participant_id s, PrMatch = M_id m,
      PrMatchNo = M_match_no m, PrStatus = M_status m, PrHasScores = hasScores d (M_id m),
      PrSlot = S_slot s\<rparr>) (S_source_rank s))"

text \<open>A slot joined with its match.\<close>

definition slotMatches :: "db \<Rightarrow> slot_row list \<Rightarrow> (slot_row \<times> match_row) list" where
  "slotMatches d ss = concat (map (\<lambda>s. map (Pair s) (filter (\<lambda>m. M_id m = S_match_id s) (matches d))) ss)"

definition groupRefs :: "db \<Rightarrow> uuid \<Rightarrow> placement_ref option list" where
  "groupRefs d groupID = map (placementRef d) (slotMatches d (filter (\<lambda>s.
     S_source_type s = ''group_placement'' \<and> S_source_group_id s = Some groupID) (match_participants d)))"

definition desiredPlace :: "bool \<Rightarrow> standing list \<Rightarrow> placement_ref \<Rightarrow> uuid option" where
  "desiredPlace groupComplete placements r =
     (if \<not> groupComplete \<or> PrRank r > int (length placements) then None
      else Some (StParticipant (placements ! nat (PrRank r - 1))))"

definition startedMatch :: "string \<Rightarrow> bool \<Rightarrow> bool" where
  "startedMatch status scored \<longleftrightarrow>
     (status \<noteq> ''pending'' \<and> status \<noteq> ''scheduled'' \<and> status \<noteq> ''bye'') \<or> scored"

definition lockedRef :: "placement_ref \<Rightarrow> locked_slot" where
  "lockedRef r = \<lparr>LkMatchID = PrMatch r, LkMatchNo = PrMatchNo r, LkSlot = PrSlot r, LkStatus = PrStatus r\<rparr>"

definition RebuildGroupPlacements ::
  "uuid \<Rightarrow> bool \<Rightarrow> db \<Rightarrow> draw_error + (nat \<times> locked_slot list) \<times> db" where
  "RebuildGroupPlacements groupID groupComplete d =
     (let scanned = groupRefs d groupID in
      if None \<in> set scanned then Inl DrawInternal
      else
        let refs = map the scanned in
        if length refs = 0 then Inr ((0, []), d)
        else
          let placements = (if groupComplete then standingsForGroup d groupID else []) in
          if groupComplete \<and> (\<exists>r \<in> set refs. PrRank r < 1) then Inl DrawInternal
          else
            let changes = filter (\<lambda>r. PrCurrent r \<noteq> desiredPlace groupComplete placements r) refs;
                locked = map lockedRef (filter (\<lambda>r. startedMatch (PrStatus r) (PrHasScores r)) changes)
            in if length locked > 0 then Inr ((0, locked), d)
               else Inr ((length changes, []), fold (\<lambda>r.
                 setSlotParticipant (PrSlotRow r) (desiredPlace groupComplete placements r)) changes d))"

subsection \<open>Updating slots row by row\<close>

lemma fold_update_filtered:
  assumes "distinct (map key t)" and "\<And>s r. key (f s r) = key r"
  shows "fold (\<lambda>s t. update_where (\<lambda>r. key r = key s) (f s) t) (filter Q t) t
    = map (\<lambda>r. if Q r then f r r else r) t"
  unfolding fold_update_where
proof (rule map_cong [OF refl])
  fix r assume r: "r \<in> set t"
  have d: "distinct (map key (filter Q t))" using assms(1) by (simp add: distinct_map_filter)
  have "List.find (\<lambda>x. key x = key r) (filter Q t) = (if Q r then Some r else None)"
  proof (cases "Q r")
    case True
    then show ?thesis using find_by_key [OF d, of r] r by simp
  next
    case False
    have "x = r" if "x \<in> set t" "key x = key r" for x
      using assms(1) r that by (auto simp: distinct_map inj_on_def)
    then show ?thesis using False by (auto simp: find_None_iff_all)
  qed
  then show "fold (\<lambda>x r. if key r = key x then f x r else r) (filter Q t) r = (if Q r then f r r else r)"
    by (subst fold_by_key [OF d]) (simp_all add: assms(2))
qed

lemma fold_setSlotParticipant:
  "fold (\<lambda>s. setSlotParticipant (S_id s) (w s)) ss d = d\<lparr>match_participants :=
     fold (\<lambda>s t. update_where (\<lambda>r. S_id r = S_id s) (\<lambda>r. r\<lparr>S_participant_id := w s\<rparr>) t) ss (match_participants d)\<rparr>"
  by (induction ss arbitrary: d) (simp_all add: setSlotParticipant_def)

definition assignSlots :: "(slot_row \<Rightarrow> bool) \<Rightarrow> (slot_row \<Rightarrow> uuid option) \<Rightarrow> db \<Rightarrow> db" where
  "assignSlots Q w d = d\<lparr>match_participants :=
     map (\<lambda>s. if Q s then s\<lparr>S_participant_id := w s\<rparr> else s) (match_participants d)\<rparr>"

lemma fold_assignSlots:
  assumes "distinct (map S_id (match_participants d))"
  shows "fold (\<lambda>s. setSlotParticipant (S_id s) (w s)) (filter Q (match_participants d)) d = assignSlots Q w d"
  unfolding fold_setSlotParticipant assignSlots_def
  by (subst fold_update_filtered [OF assms, where f = "\<lambda>s r. r\<lparr>S_participant_id := w s\<rparr>"]) simp_all

lemma assignSlots_frame [frame_simps]:
  "tournaments (assignSlots Q w d) = tournaments d" "events (assignSlots Q w d) = events d"
  "participants (assignSlots Q w d) = participants d" "stages (assignSlots Q w d) = stages d"
  "groups (assignSlots Q w d) = groups d" "matches (assignSlots Q w d) = matches d"
  "match_scores (assignSlots Q w d) = match_scores d" "audit_logs (assignSlots Q w d) = audit_logs d"
  "UuidGen (assignSlots Q w d) = UuidGen d" "Drawn (assignSlots Q w d) = Drawn d"
  "Collation (assignSlots Q w d) = Collation d" "schedule_slots (assignSlots Q w d) = schedule_slots d"
  "courts (assignSlots Q w d) = courts d"
  by (simp_all add: assignSlots_def)

lemma assignSlots_ids [frame_simps]: "map S_id (match_participants (assignSlots Q w d)) = map S_id (match_participants d)"
  by (simp add: assignSlots_def)

lemma assignSlots_wf:
  assumes "db_wf d"
  shows "db_wf (assignSlots Q w d)"
proof -
  let ?d = "assignSlots Q w d"
  have "S_id ` set (match_participants ?d) = S_id ` set (match_participants d)"
    using assignSlots_ids [of Q w d] by (metis list.set_map)
  then have "ids_in_use ?d = ids_in_use d" by (simp add: ids_in_use_def frame_simps)
  then have "fresh_supply ?d" using assms by (simp add: db_wf_def fresh_supply_def frame_simps)
  moreover have "\<forall>s \<in> set (match_participants ?d). S_match_id s \<in> M_id ` set (matches d)
      \<and> optionIn (S_source_match_id s) (M_id ` set (matches d))"
    using assms unfolding db_wf_def assignSlots_def by auto
  ultimately show ?thesis using assms unfolding db_wf_def frame_simps by blast
qed

subsection \<open>Each slot has its match\<close>

definition matchOf :: "db \<Rightarrow> slot_row \<Rightarrow> match_row" where
  "matchOf d s = hd (filter (\<lambda>m. M_id m = S_match_id s) (matches d))"

lemma filter_match_id:
  assumes "distinct (map M_id ms)" and "m \<in> set ms"
  shows "filter (\<lambda>r. M_id r = M_id m) ms = [m]"
  using assms by (induction ms) (auto simp: image_iff filter_empty_conv)

lemma slot_match:
  assumes "db_wf d" and "s \<in> set (match_participants d)"
  shows "filter (\<lambda>m. M_id m = S_match_id s) (matches d) = [matchOf d s]"
    and "matchOf d s \<in> set (matches d)" and "M_id (matchOf d s) = S_match_id s"
proof -
  have "S_match_id s \<in> M_id ` set (matches d)" and dm: "distinct (map M_id (matches d))"
    using assms unfolding db_wf_def by blast+
  then obtain m where m: "m \<in> set (matches d)" "S_match_id s = M_id m" by blast
  then have f: "filter (\<lambda>m. M_id m = S_match_id s) (matches d) = [m]" using filter_match_id [OF dm] by simp
  then show "filter (\<lambda>m. M_id m = S_match_id s) (matches d) = [matchOf d s]"
    and "matchOf d s \<in> set (matches d)" and "M_id (matchOf d s) = S_match_id s"
    using m by (simp_all add: matchOf_def)
qed

lemma slotMatches_eq:
  assumes "db_wf d" and "set ss \<subseteq> set (match_participants d)"
  shows "slotMatches d ss = map (\<lambda>s. (s, matchOf d s)) ss"
proof -
  have "slotMatches d ss = concat (map (\<lambda>s. [(s, matchOf d s)]) ss)"
    unfolding slotMatches_def using slot_match(1) [OF assms(1)] assms(2)
    by (intro arg_cong [where f = concat] map_cong) auto
  also have "\<dots> = map (\<lambda>s. (s, matchOf d s)) ss" by (induction ss) simp_all
  finally show ?thesis .
qed

subsection \<open>Rebuilding\<close>

text \<open>What the writers establish of a placement slot: it names its group and a rank from 1 on.\<close>

definition places_typed :: "db \<Rightarrow> bool" where
  "places_typed d \<longleftrightarrow> (\<forall>s \<in> set (match_participants d). S_source_type s = ''group_placement'' \<longrightarrow>
     S_source_group_id s \<noteq> None \<and> (\<exists>r. S_source_rank s = Some r \<and> 1 \<le> r))"

definition placedIn :: "uuid \<Rightarrow> slot_row \<Rightarrow> bool" where
  "placedIn g s \<longleftrightarrow> S_source_type s = ''group_placement'' \<and> S_source_group_id s = Some g"

text \<open>The finisher of the group at the slot's rank, if the group has that many teams.\<close>

definition finisher :: "db \<Rightarrow> uuid \<Rightarrow> slot_row \<Rightarrow> uuid option" where
  "finisher d g s = (let st = standingsForGroup d g; r = the (S_source_rank s) in
     if r > int (length st) then None else Some (StParticipant (st ! nat (r - 1))))"

definition wantedPlace :: "db \<Rightarrow> uuid \<Rightarrow> bool \<Rightarrow> slot_row \<Rightarrow> uuid option" where
  "wantedPlace d g groupComplete s = (if groupComplete then finisher d g s else None)"

definition slotStarted :: "db \<Rightarrow> slot_row \<Rightarrow> bool" where
  "slotStarted d s \<longleftrightarrow> startedMatch (M_status (matchOf d s)) (hasScores d (S_match_id s))"

definition lockedSlot :: "db \<Rightarrow> slot_row \<Rightarrow> locked_slot" where
  "lockedSlot d s = \<lparr>LkMatchID = S_match_id s, LkMatchNo = M_match_no (matchOf d s), LkSlot = S_slot s,
     LkStatus = M_status (matchOf d s)\<rparr>"

definition slotRef :: "db \<Rightarrow> slot_row \<Rightarrow> placement_ref" where
  "slotRef d s = \<lparr>PrSlotRow = S_id s, PrRank = the (S_source_rank s), PrCurrent = S_participant_id s,
     PrMatch = S_match_id s, PrMatchNo = M_match_no (matchOf d s), PrStatus = M_status (matchOf d s),
     PrHasScores = hasScores d (S_match_id s), PrSlot = S_slot s\<rparr>"

lemma assignSlots_unneeded:
  assumes "\<And>s. s \<in> set (match_participants d) \<Longrightarrow> Q s \<Longrightarrow> \<not> P s \<Longrightarrow> S_participant_id s = w s"
  shows "assignSlots (\<lambda>s. Q s \<and> P s) w d = assignSlots Q w d"
proof -
  have "map (\<lambda>s. if Q s \<and> P s then s\<lparr>S_participant_id := w s\<rparr> else s) (match_participants d)
      = map (\<lambda>s. if Q s then s\<lparr>S_participant_id := w s\<rparr> else s) (match_participants d)"
  proof (rule map_cong [OF refl])
    fix s assume s: "s \<in> set (match_participants d)"
    have "s\<lparr>S_participant_id := w s\<rparr> = s" if "Q s" "\<not> P s"
      unfolding assms [OF s that, symmetric] by simp
    then show "(if Q s \<and> P s then s\<lparr>S_participant_id := w s\<rparr> else s)
        = (if Q s then s\<lparr>S_participant_id := w s\<rparr> else s)" by auto
  qed
  then show ?thesis by (simp add: assignSlots_def)
qed

lemma groupRefs_eq:
  assumes "db_wf d" and "places_typed d"
  shows "groupRefs d g = map (\<lambda>s. Some (slotRef d s)) (filter (placedIn g) (match_participants d))"
proof -
  let ?ss = "filter (\<lambda>s. S_source_type s = ''group_placement'' \<and> S_source_group_id s = Some g) (match_participants d)"
  have "groupRefs d g = map (\<lambda>s. placementRef d (s, matchOf d s)) ?ss"
    unfolding groupRefs_def by (subst slotMatches_eq [OF assms(1)]) auto
  also have "\<dots> = map (\<lambda>s. Some (slotRef d s)) ?ss"
  proof (rule map_cong [OF refl])
    fix s assume s: "s \<in> set ?ss"
    then obtain r where "S_source_rank s = Some r" using assms(2) by (auto simp: places_typed_def)
    then show "placementRef d (s, matchOf d s) = Some (slotRef d s)"
      using slot_match(3) [OF assms(1)] s by (simp add: placementRef_def slotRef_def)
  qed
  finally show ?thesis by (simp add: placedIn_def [abs_def])
qed

lemma Rebuild_eq:
  fixes g :: uuid and c :: bool
  assumes "db_wf d" and "places_typed d"
  defines "want \<equiv> wantedPlace d g c"
  defines "changes \<equiv> filter (\<lambda>s. placedIn g s \<and> S_participant_id s \<noteq> want s) (match_participants d)"
  shows "RebuildGroupPlacements g c d =
    (if \<exists>s \<in> set changes. slotStarted d s
     then Inr ((0, map (lockedSlot d) (filter (slotStarted d) changes)), d)
     else Inr ((length changes, []), assignSlots (placedIn g) want d))"
proof -
  let ?ss = "filter (placedIn g) (match_participants d)"
  have refs: "groupRefs d g = map (\<lambda>s. Some (slotRef d s)) ?ss" by (rule groupRefs_eq [OF assms(1,2)])
  have rank: "\<not> PrRank (slotRef d s) < 1" if "s \<in> set ?ss" for s
    using that assms(2) by (auto simp: places_typed_def placedIn_def slotRef_def)
  define pl where "pl = (if c then standingsForGroup d g else [])"
  have want: "desiredPlace c pl (slotRef d s) = want s" for s
    by (auto simp: desiredPlace_def want_def wantedPlace_def finisher_def slotRef_def Let_def pl_def)
  have ch: "filter (\<lambda>r. PrCurrent r \<noteq> desiredPlace c pl r) (map (slotRef d) ?ss) = map (slotRef d) changes"
    unfolding filter_map comp_def want changes_def by (simp add: slotRef_def conj_commute)
  have lk: "map lockedRef (filter (\<lambda>r. startedMatch (PrStatus r) (PrHasScores r)) (map (slotRef d) changes))
      = map (lockedSlot d) (filter (slotStarted d) changes)"
    by (simp add: filter_map comp_def slotRef_def slotStarted_def [abs_def] lockedRef_def lockedSlot_def)
  have "fold (\<lambda>r. setSlotParticipant (PrSlotRow r) (desiredPlace c pl r)) (map (slotRef d) changes) d
      = fold (\<lambda>s. setSlotParticipant (S_id s) (want s)) changes d"
    by (simp add: fold_map comp_def want) (simp add: slotRef_def)
  also have "\<dots> = assignSlots (\<lambda>s. placedIn g s \<and> S_participant_id s \<noteq> want s) want d"
    unfolding changes_def using assms(1) by (intro fold_assignSlots) (simp add: db_wf_def)
  also have "\<dots> = assignSlots (placedIn g) want d" by (rule assignSlots_unneeded) simp
  finally have upd: "fold (\<lambda>r. setSlotParticipant (PrSlotRow r) (desiredPlace c pl r)) (map (slotRef d) changes) d
      = assignSlots (placedIn g) want d" .
  have empty: "changes = [] \<and> assignSlots (placedIn g) want d = d" if "?ss = []"
  proof -
    have none: "\<not> placedIn g s" if "s \<in> set (match_participants d)" for s
      using \<open>?ss = []\<close> that by (auto simp: filter_empty_conv)
    then have "map (\<lambda>s. if placedIn g s then s\<lparr>S_participant_id := want s\<rparr> else s) (match_participants d)
        = match_participants d" by (intro map_idI) simp
    then show ?thesis using none by (auto simp: assignSlots_def changes_def filter_empty_conv)
  qed
  have the_refs: "map the (groupRefs d g) = map (slotRef d) ?ss" by (simp add: refs)
  have scanned: "None \<notin> set (groupRefs d g)" by (auto simp: refs)
  have some: "(\<exists>s \<in> set changes. slotStarted d s) \<longleftrightarrow> filter (slotStarted d) changes \<noteq> []"
    by (auto simp: filter_empty_conv)
  show ?thesis
  proof (cases "?ss = []")
    case True
    then show ?thesis using empty scanned unfolding RebuildGroupPlacements_def Let_def the_refs by simp
  next
    case False
    then show ?thesis
      unfolding RebuildGroupPlacements_def Let_def the_refs pl_def [symmetric] ch lk upd some
      using scanned rank by auto
  qed
qed

text \<open>C16. Rebuilding a group's placements never touches a slot of a match that has started (is not
  pending, scheduled or a bye, or carries scores): either such a slot would have to change, then
  exactly the offending slots are reported and the database stays as it is, or every slot that
  stands for a place in the group now holds the finisher of its rank (nobody while the group is
  open or has too few teams), and nothing else has changed.\<close>

theorem RebuildGroupPlacements_locks:
  fixes g :: uuid and c :: bool
  assumes "db_wf d" and "places_typed d"
  defines "want \<equiv> wantedPlace d g c"
  shows "\<exists>n locked d'. RebuildGroupPlacements g c d = Inr ((n, locked), d') \<and> db_wf d'
    \<and> set locked = lockedSlot d ` {s \<in> set (match_participants d).
          placedIn g s \<and> S_participant_id s \<noteq> want s \<and> slotStarted d s}
    \<and> d' = (if locked = [] then assignSlots (placedIn g) want d else d)
    \<and> (\<forall>i < length (match_participants d). slotStarted d (match_participants d ! i)
          \<longrightarrow> match_participants d' ! i = match_participants d ! i)"
proof -
  let ?changes = "filter (\<lambda>s. placedIn g s \<and> S_participant_id s \<noteq> want s) (match_participants d)"
  note eq = Rebuild_eq [OF assms(1,2), of g c, folded want_def]
  show ?thesis
  proof (cases "\<exists>s \<in> set ?changes. slotStarted d s")
    case True
    then have "RebuildGroupPlacements g c d = Inr ((0, map (lockedSlot d) (filter (slotStarted d) ?changes)), d)"
      unfolding eq by (rule if_P)
    moreover have "set (map (lockedSlot d) (filter (slotStarted d) ?changes))
        = lockedSlot d ` {s \<in> set (match_participants d). placedIn g s \<and> S_participant_id s \<noteq> want s \<and> slotStarted d s}"
      by auto
    moreover have "filter (slotStarted d) ?changes \<noteq> []" using True by (auto simp: filter_empty_conv)
    ultimately show ?thesis using assms(1) by (intro exI conjI) auto
  next
    case False
    then have "RebuildGroupPlacements g c d = Inr ((length ?changes, []), assignSlots (placedIn g) want d)"
      unfolding eq by (rule if_not_P)
    moreover have "{s \<in> set (match_participants d). placedIn g s \<and> S_participant_id s \<noteq> want s \<and> slotStarted d s} = {}"
      using False by auto
    moreover have "match_participants (assignSlots (placedIn g) want d) ! i = match_participants d ! i"
      if "i < length (match_participants d)" "slotStarted d (match_participants d ! i)" for i
    proof -
      let ?s = "match_participants d ! i"
      have "?s \<in> set (match_participants d)" using that(1) by simp
      then have "placedIn g ?s \<longrightarrow> want ?s = S_participant_id ?s" using False that(2) by auto
      then show ?thesis using that(1) by (auto simp: assignSlots_def)
    qed
    ultimately show ?thesis using assignSlots_wf [OF assms(1)]
      by (intro exI [of _ "length ?changes"] exI [of _ "[]"] exI [of _ "assignSlots (placedIn g) want d"]) simp
  qed
qed

subsection \<open>Resolving\<close>

definition ownFinisher :: "db \<Rightarrow> slot_row \<Rightarrow> uuid option" where
  "ownFinisher d s = finisher d (the (S_source_group_id s)) s"

definition resolvable :: "db \<Rightarrow> uuid \<Rightarrow> slot_row \<Rightarrow> bool" where
  "resolvable d eventID s \<longleftrightarrow> S_match_id s \<in> knockoutMatchIds d eventID
     \<and> S_source_type s = ''group_placement'' \<and> ownFinisher d s \<noteq> None"

text \<open>The knockout matches of an event are in no group.\<close>

definition knockout_ungrouped :: "db \<Rightarrow> uuid \<Rightarrow> bool" where
  "knockout_ungrouped d eventID \<longleftrightarrow>
     (\<forall>m \<in> set (matches d). M_id m \<in> knockoutMatchIds d eventID \<longrightarrow> M_group_id m = None)"

lemma fillRefs_eq:
  assumes "\<forall>s \<in> set ss. \<exists>g r. S_source_group_id s = Some g \<and> S_source_rank s = Some r \<and> 1 \<le> r"
  shows "None \<notin> set (map scanRef ss)
    \<and> forM (fillRef (standingsForGroup e)) (map (the \<circ> scanRef) ss) (k, d) =
       Inr (k + length (filter (\<lambda>s. ownFinisher e s \<noteq> None) ss),
            fold (\<lambda>s. setSlotParticipant (S_id s) (ownFinisher e s)) (filter (\<lambda>s. ownFinisher e s \<noteq> None) ss) d)"
  using assms
proof (induction ss arbitrary: k d)
  case (Cons s ss)
  then obtain g r where gr: "S_source_group_id s = Some g" "S_source_rank s = Some r" "1 \<le> r" by auto
  have sc: "scanRef s = Some \<lparr>RefSlot = S_id s, RefGroup = g, RefRank = r\<rparr>" by (simp add: scanRef_def gr)
  have step: "fillRef (standingsForGroup e) \<lparr>RefSlot = S_id s, RefGroup = g, RefRank = r\<rparr> (k, d)
      = (if ownFinisher e s = None then Inr (k, d)
         else Inr (k + 1, setSlotParticipant (S_id s) (ownFinisher e s) d))"
    using gr by (auto simp: fillRef_def ownFinisher_def finisher_def Let_def)
  show ?case using Cons by (simp add: sc step)
qed simp

lemma placementSlots_filter:
  "filter (\<lambda>s. ownFinisher d s \<noteq> None) (placementSlots d eventID) = filter (resolvable d eventID) (match_participants d)"
  unfolding placementSlots_def filter_filter by (rule filter_cong) (auto simp: resolvable_def)

lemma ResolveGroups_eq:
  assumes "db_wf d" and "places_typed d" and "eventTournament d eventID = Some (e, t)" "\<not> foreignOrg orgID (T_org_id t)"
  shows "ResolveGroups eventID orgID d = Inr (length (filter (resolvable d eventID) (match_participants d)),
    assignSlots (resolvable d eventID) (ownFinisher d) d)"
proof -
  have "\<forall>s \<in> set (placementSlots d eventID).
      \<exists>g r. S_source_group_id s = Some g \<and> S_source_rank s = Some r \<and> 1 \<le> r"
    using assms(2) by (auto simp: placementSlots_def places_typed_def)
  note loop = fillRefs_eq [OF this, of d 0 d, unfolded placementSlots_filter]
  moreover have "distinct (map S_id (match_participants d))" using assms(1) unfolding db_wf_def by blast
  ultimately show ?thesis
    unfolding ResolveGroups_def using assms(3,4) fold_assignSlots by (simp add: Let_def)
qed

lemma filter_assignSlots:
  assumes "\<And>s. s \<in> set (match_participants d) \<Longrightarrow> Q s \<Longrightarrow> S_match_id s \<noteq> mid"
  shows "filter (\<lambda>s. S_match_id s = mid) (match_participants (assignSlots Q w d))
    = filter (\<lambda>s. S_match_id s = mid) (match_participants d)"
proof -
  have "filter (\<lambda>s. S_match_id s = mid) (map (\<lambda>s. if Q s then s\<lparr>S_participant_id := w s\<rparr> else s) ss)
      = filter (\<lambda>s. S_match_id s = mid) ss" if "\<forall>s \<in> set ss. Q s \<longrightarrow> S_match_id s \<noteq> mid" for ss
    using that by (induction ss) auto
  then show ?thesis using assms by (simp add: assignSlots_def)
qed

lemma standingsForGroup_assignSlots:
  assumes "\<And>s m. s \<in> set (match_participants d) \<Longrightarrow> Q s \<Longrightarrow> m \<in> set (matches d)
      \<Longrightarrow> M_group_id m = Some g \<Longrightarrow> S_match_id s \<noteq> M_id m"
  shows "standingsForGroup (assignSlots Q w d) g = standingsForGroup d g"
proof -
  have f: "filter (\<lambda>s. S_match_id s = M_id m) (match_participants (assignSlots Q w d))
      = filter (\<lambda>s. S_match_id s = M_id m) (match_participants d)"
    if "m \<in> set (matches d)" "M_group_id m = Some g" for m
    using assms that by (intro filter_assignSlots) blast
  have p: "playedRows (assignSlots Q w d) (\<lambda>m. M_group_id m = Some g) = playedRows d (\<lambda>m. M_group_id m = Some g)"
    unfolding playedRows_def frame_simps by (intro arg_cong [where f = concat] map_cong) (auto simp: f)
  have gp: "groupParticipants (assignSlots Q w d) g = groupParticipants d g"
    unfolding groupParticipants_def frame_simps
    by (intro arg_cong [where f = remdups] arg_cong [where f = concat] map_cong) (auto simp: f)
  have "standingOf (assignSlots Q w d) = standingOf d"
    by (simp add: fun_eq_iff standingOf_def setCounts_def frame_simps)
  then show ?thesis by (simp add: standingsForGroup_def p gp orderStandings_def frame_simps)
qed

lemma standings_resolved:
  assumes "db_wf d" and "knockout_ungrouped d eventID"
  shows "standingsForGroup (assignSlots (resolvable d eventID) w d) g = standingsForGroup d g"
proof (rule standingsForGroup_assignSlots)
  fix s m assume "s \<in> set (match_participants d)" "resolvable d eventID s" "m \<in> set (matches d)" "M_group_id m = Some g"
  then show "S_match_id s \<noteq> M_id m"
    using assms(2) by (auto simp: resolvable_def knockout_ungrouped_def)
qed

lemma eventTournament_cong:
  "events d' = events d \<Longrightarrow> tournaments d' = tournaments d \<Longrightarrow> eventTournament d' e = eventTournament d e"
  by (simp only: eventTournament_def)

text \<open>\<open>ResolveGroups\<close> succeeds exactly for an event the caller may access; it then puts into
  every knockout slot of the event that stands for a place in a group the team holding that place
  in the current standings (a place beyond the group's field stays as it is), changes nothing
  else, and repeating it changes nothing.\<close>

theorem ResolveGroups_outcome:
  assumes "db_wf d" and "places_typed d" and "knockout_ungrouped d eventID"
  shows "((\<exists>r. ResolveGroups eventID orgID d = Inr r)
      \<longleftrightarrow> (\<exists>e t. eventTournament d eventID = Some (e, t) \<and> \<not> foreignOrg orgID (T_org_id t)))
    \<and> (\<forall>n d'. ResolveGroups eventID orgID d = Inr (n, d') \<longrightarrow>
         db_wf d' \<and> d' = assignSlots (resolvable d eventID) (ownFinisher d) d
       \<and> n = length (filter (resolvable d eventID) (match_participants d))
       \<and> (\<forall>s \<in> set (match_participants d'). resolvable d' eventID s \<longrightarrow> S_participant_id s = ownFinisher d' s)
       \<and> ResolveGroups eventID orgID d' = Inr (n, d'))"
proof (cases "\<exists>e t. eventTournament d eventID = Some (e, t) \<and> \<not> foreignOrg orgID (T_org_id t)")
  case False
  then have "\<not> (\<exists>r. ResolveGroups eventID orgID d = Inr r)"
    by (auto simp: ResolveGroups_def split: option.splits if_splits)
  then show ?thesis using False by auto
next
  case True
  then obtain e t where et: "eventTournament d eventID = Some (e, t)" "\<not> foreignOrg orgID (T_org_id t)" by blast
  define Q where "Q = resolvable d eventID"
  define d' where "d' = assignSlots Q (ownFinisher d) d"
  have R: "ResolveGroups eventID orgID d = Inr (length (filter Q (match_participants d)), d')"
    unfolding d'_def Q_def by (rule ResolveGroups_eq [OF assms(1,2) et])
  have wf: "db_wf d'" unfolding d'_def by (rule assignSlots_wf [OF assms(1)])
  let ?u = "\<lambda>s. if Q s then s\<lparr>S_participant_id := ownFinisher d s\<rparr> else s"
  have mp: "match_participants d' = map ?u (match_participants d)" by (simp add: d'_def assignSlots_def)
  have st: "standingsForGroup d' g = standingsForGroup d g" for g
    unfolding d'_def Q_def by (rule standings_resolved [OF assms(1,3)])
  have own: "ownFinisher d' (?u s) = ownFinisher d s" for s
    by (simp add: ownFinisher_def finisher_def st Let_def)
  have ids: "knockoutMatchIds d' eventID = knockoutMatchIds d eventID"
    by (simp add: d'_def knockoutMatchIds_def stageKind_def frame_simps)
  have res: "resolvable d' eventID (?u s) = Q s" for s
    using own [of s] by (simp add: resolvable_def ids Q_def split: if_split)
  have done': "S_participant_id s = ownFinisher d' s" if "s \<in> set (match_participants d')" "resolvable d' eventID s" for s
  proof -
    have "\<exists>s0. s = ?u s0" using that(1) unfolding mp by auto
    then obtain s0 where s: "s = ?u s0" ..
    then have "Q s0" using that(2) res by simp
    then show ?thesis using own [of s0] s by simp
  qed
  have typed: "places_typed d'" using assms(2) by (auto simp: places_typed_def mp)
  have et': "eventTournament d' eventID = Some (e, t)"
    using et(1) by (subst eventTournament_cong [of d' d]) (simp_all add: d'_def frame_simps)
  have "length (filter (resolvable d' eventID) (match_participants d')) = length (filter Q (match_participants d))"
    by (simp add: mp filter_map comp_def res)
  moreover have "assignSlots (resolvable d' eventID) (ownFinisher d') d' = d'"
  proof -
    have "map (\<lambda>s. if resolvable d' eventID s then s\<lparr>S_participant_id := ownFinisher d' s\<rparr> else s) (match_participants d')
        = match_participants d'"
      using done' by (intro map_idI) (metis slot_row.surjective slot_row.update_convs(3))
    then show ?thesis by (simp add: assignSlots_def)
  qed
  ultimately have "ResolveGroups eventID orgID d' = Inr (length (filter Q (match_participants d)), d')"
    using ResolveGroups_eq [OF wf typed et' et(2)] by simp
  then show ?thesis using True R wf done' unfolding d'_def Q_def by auto
qed

text \<open>A small group stage: two teams of group 21 have played, the knockout match 33 waits for its winner
  and for the winner of an open group.\<close>

definition sample_slot :: "uuid \<Rightarrow> uuid \<Rightarrow> int \<Rightarrow> uuid option \<Rightarrow> slot_row" where
  "sample_slot i mid k p = \<lparr>S_id = i, S_match_id = mid, S_participant_id = p, S_slot = k, S_source = None,
     S_source_type = ''fixed'', S_source_group_id = None, S_source_rank = None, S_source_match_id = None\<rparr>"

definition sample_match :: "uuid \<Rightarrow> uuid \<Rightarrow> uuid option \<Rightarrow> int \<Rightarrow> string \<Rightarrow> uuid option \<Rightarrow> match_row" where
  "sample_match i st g no status w = \<lparr>M_id = i, M_event_id = 3, M_stage_id = Some st, M_group_id = g, M_court_id = None,
     M_match_no = no, M_status = status, M_scheduled_at = None, M_started_at = None, M_completed_at = None,
     M_winner = w, M_next_match_id = None, M_next_slot = None\<rparr>"

definition group_db :: db where
  "group_db = (sample_db ''group_knockout'')\<lparr>
     stages := [\<lparr>St_id = 41, St_event_id = 3, St_kind = ''group'', St_sort_order = 0\<rparr>,
                \<lparr>St_id = 42, St_event_id = 3, St_kind = ''knockout'', St_sort_order = 1\<rparr>],
     groups := [\<lparr>G_id = 21, G_stage_id = 41, G_name = ''East'', G_advance_count = 1\<rparr>,
                \<lparr>G_id = 22, G_stage_id = 41, G_name = ''West'', G_advance_count = 1\<rparr>],
     matches := [sample_match 31 41 (Some 21) 1 ''completed'' (Some 12), sample_match 32 41 (Some 22) 2 ''pending'' None,
                 sample_match 33 42 None 3 ''pending'' None],
     match_participants := [sample_slot 51 31 1 (Some 11), sample_slot 52 31 2 (Some 12),
       sample_slot 53 32 1 (Some 13), sample_slot 54 32 2 (Some 14),
       (sample_slot 55 33 1 None)\<lparr>S_source_type := ''group_placement'', S_source_group_id := Some 21, S_source_rank := Some 1\<rparr>,
       (sample_slot 56 33 2 None)\<lparr>S_source_type := ''group_placement'', S_source_group_id := Some 22, S_source_rank := Some 1\<rparr>],
     match_scores := [\<lparr>Sc_match_id = 31, Sc_set = \<lparr>SetNumber = 1, P1Games = 3, P2Games = 6, P1Tiebreak = None, P2Tiebreak = None\<rparr>\<rparr>]\<rparr>"

lemma group_db_sel:
  "tournaments group_db = tournaments (sample_db ''group_knockout'')" "events group_db = events (sample_db ''group_knockout'')"
  "participants group_db = participants (sample_db ''group_knockout'')"
  "stages group_db = [\<lparr>St_id = 41, St_event_id = 3, St_kind = ''group'', St_sort_order = 0\<rparr>,
                \<lparr>St_id = 42, St_event_id = 3, St_kind = ''knockout'', St_sort_order = 1\<rparr>]"
  "groups group_db = [\<lparr>G_id = 21, G_stage_id = 41, G_name = ''East'', G_advance_count = 1\<rparr>,
                \<lparr>G_id = 22, G_stage_id = 41, G_name = ''West'', G_advance_count = 1\<rparr>]"
  "matches group_db = [sample_match 31 41 (Some 21) 1 ''completed'' (Some 12), sample_match 32 41 (Some 22) 2 ''pending'' None,
                 sample_match 33 42 None 3 ''pending'' None]"
  "match_participants group_db = [sample_slot 51 31 1 (Some 11), sample_slot 52 31 2 (Some 12),
       sample_slot 53 32 1 (Some 13), sample_slot 54 32 2 (Some 14),
       (sample_slot 55 33 1 None)\<lparr>S_source_type := ''group_placement'', S_source_group_id := Some 21, S_source_rank := Some 1\<rparr>,
       (sample_slot 56 33 2 None)\<lparr>S_source_type := ''group_placement'', S_source_group_id := Some 22, S_source_rank := Some 1\<rparr>]"
  "match_scores group_db = [\<lparr>Sc_match_id = 31, Sc_set = \<lparr>SetNumber = 1, P1Games = 3, P2Games = 6, P1Tiebreak = None, P2Tiebreak = None\<rparr>\<rparr>]"
  "schedule_slots group_db = []" "UuidGen group_db = (\<lambda>n. 100 + n)" "Drawn group_db = 0" "Collation group_db = length"
  by (simp_all add: group_db_def sample_db_def)

lemma sample_match_sel [simp]: "M_id (sample_match i st g no status w) = i" "M_stage_id (sample_match i st g no status w) = Some st"
  "M_group_id (sample_match i st g no status w) = g" "M_event_id (sample_match i st g no status w) = 3"
  "M_status (sample_match i st g no status w) = status" "M_winner (sample_match i st g no status w) = w"
  "M_next_match_id (sample_match i st g no status w) = None"
  by (simp_all add: sample_match_def)

lemma sample_slot_sel [simp]: "S_id (sample_slot i mid k p) = i" "S_match_id (sample_slot i mid k p) = mid"
  "S_slot (sample_slot i mid k p) = k" "S_participant_id (sample_slot i mid k p) = p"
  "S_source_type (sample_slot i mid k p) = ''fixed''" "S_source_match_id (sample_slot i mid k p) = None"
  "S_source_group_id (sample_slot i mid k p) = None"
  by (simp_all add: sample_slot_def)

lemma group_db_ids: "ids_in_use group_db = {1, 3, 11, 12, 13, 14, 41, 42, 21, 22, 31, 32, 33, 51, 52, 53, 54, 55, 56}"
  by (simp add: ids_in_use_def group_db_sel) (auto simp: sample_db_def)

lemma group_db_fresh: "fresh_supply group_db"
  by (simp add: fresh_supply_def group_db_ids group_db_sel inj_def)

lemma group_db_wf: "db_wf group_db"
  unfolding db_wf_def using group_db_fresh by (simp add: group_db_sel)

lemma group_db_typed: "places_typed group_db"
  by (simp add: places_typed_def group_db_sel)

lemma group_db_ungrouped: "knockout_ungrouped group_db 3"
  by (simp add: knockout_ungrouped_def knockoutMatchIds_def stageKind_def group_db_sel)

lemma group_db_standings: "map StParticipant (standingsForGroup group_db 21) = [12, 11]"
  by (simp add: standingsForGroup_def orderStandings_def groupParticipants_def standingOf_def playedRows_def
      setCounts_def group_db_sel Let_def)
    (simp add: sample_db_def standingOf_def setCounts_def group_db_sel Let_def)

lemma group_db_finisher: "S_source_rank s = Some 1 \<Longrightarrow> finisher group_db 21 s = Some 12"
proof -
  assume r: "S_source_rank s = Some 1"
  obtain x y where "standingsForGroup group_db 21 = [x, y]" "StParticipant x = 12"
    using group_db_standings by (auto simp: map_eq_Cons_conv)
  then show ?thesis using r by (simp add: finisher_def Let_def)
qed

theorem RebuildGroupPlacements_locks_witness:
  "\<exists>n d'. RebuildGroupPlacements 21 True group_db = Inr ((n, []), d')
     \<and> S_participant_id (match_participants d' ! 4) = Some 12"
proof -
  have no: "\<not> slotStarted group_db s" if "s \<in> set (match_participants group_db)" "placedIn 21 s" for s
  proof -
    have "S_match_id s = 33" using that by (auto simp: group_db_sel placedIn_def)
    moreover from this have "matchOf group_db s = sample_match 33 42 None 3 ''pending'' None"
      by (simp add: matchOf_def group_db_sel)
    ultimately show ?thesis by (simp add: slotStarted_def startedMatch_def hasScores_def group_db_sel)
  qed
  obtain n locked d' where R: "RebuildGroupPlacements 21 True group_db = Inr ((n, locked), d')"
    and l: "set locked = lockedSlot group_db ` {s \<in> set (match_participants group_db). placedIn 21 s
      \<and> S_participant_id s \<noteq> wantedPlace group_db 21 True s \<and> slotStarted group_db s}"
    and d': "d' = (if locked = [] then assignSlots (placedIn 21) (wantedPlace group_db 21 True) group_db else group_db)"
    using RebuildGroupPlacements_locks [OF group_db_wf group_db_typed, of 21 True] by blast
  have "{s \<in> set (match_participants group_db). placedIn 21 s
      \<and> S_participant_id s \<noteq> wantedPlace group_db 21 True s \<and> slotStarted group_db s} = {}" using no by blast
  with l have "locked = []" by simp
  moreover from this have "S_participant_id (match_participants d' ! 4) = finisher group_db 21 (match_participants group_db ! 4)"
    unfolding d' by (simp add: assignSlots_def group_db_sel placedIn_def wantedPlace_def)
  moreover have "finisher group_db 21 (match_participants group_db ! 4) = Some 12"
    by (rule group_db_finisher) (simp add: group_db_sel)
  ultimately show ?thesis using R by auto
qed

theorem ResolveGroups_outcome_witness:
  "(\<exists>r. ResolveGroups 3 (Some 2) group_db = Inr r) \<and> \<not> (\<exists>r. ResolveGroups 3 (Some 9) group_db = Inr r)"
proof -
  have "eventTournament group_db 3 = Some (hd (events (sample_db ''group_knockout'')), hd (tournaments (sample_db ''group_knockout'')))"
    by (subst eventTournament_cong [of group_db "sample_db ''group_knockout''"]) (simp_all add: group_db_sel sample_db_event)
  moreover note conjunct1 [OF ResolveGroups_outcome [OF group_db_wf group_db_typed group_db_ungrouped, of "Some 2"]]
    conjunct1 [OF ResolveGroups_outcome [OF group_db_wf group_db_typed group_db_ungrouped, of "Some 9"]]
  ultimately show ?thesis by (simp only:) (simp add: sample_db_def foreignOrg_def)
qed

end
