(* ===== verification/MatchOps.thy ===== *)
theory MatchOps
  imports Standings
begin

section \<open>Scoring a match (internal/match/repository.go, service.go)\<close>

text \<open>
  The match read model, the score transaction \<open>SaveScore\<close> with the rebuild of everything that
  depends on the result, the status change, and the service operations around them
  (\<open>GetPublic\<close>, \<open>SubmitScore\<close>, \<open>SetStatus\<close>). \<open>now()\<close> is the time of the context.
\<close>

datatype match_error = MatchNotFound | MatchForbidden | CompletedImmutable
  | InvalidScore "violation list" | DownstreamLocked "locked_slot list" | MatchInternal

record slot_view =
  VwSlot :: int
  VwParticipant :: "uuid option"
  VwName :: "string option"
  VwSeed :: "int option"

record match_view =
  VwID :: uuid
  VwEvent :: uuid
  VwMatchNo :: int
  VwStatus :: string
  VwScheduledAt :: "gotime option"
  VwStartedAt :: "gotime option"
  VwCompletedAt :: "gotime option"
  VwWinner :: "uuid option"
  VwNextMatch :: "uuid option"
  VwNextSlot :: "int option"
  VwParticipants :: "slot_view list"
  VwSets :: "set_score list"

subsection \<open>Reading\<close>

definition participantOf :: "db \<Rightarrow> uuid option \<Rightarrow> participant_row option" where
  "participantOf d p = List.find (\<lambda>r. Some (P_id r) = p) (participants d)"

definition slotView :: "db \<Rightarrow> slot_row \<Rightarrow> slot_view" where
  "slotView d s = (let p = participantOf d (S_participant_id s) in
     \<lparr>VwSlot = S_slot s, VwParticipant = S_participant_id s,
      VwName = map_option P_display_name p, VwSeed = Option.bind p P_seed\<rparr>)"

definition slotsOf :: "db \<Rightarrow> uuid \<Rightarrow> slot_row list" where
  "slotsOf d mid = sort_key S_slot (filter (\<lambda>s. S_match_id s = mid) (match_participants d))"

definition setsTx :: "db \<Rightarrow> uuid \<Rightarrow> set_score list" where
  "setsTx d mid = sort_key SetNumber (map Sc_set (filter (\<lambda>s. Sc_match_id s = mid) (match_scores d)))"

definition matchView :: "db \<Rightarrow> match_row \<Rightarrow> match_view" where
  "matchView d m = \<lparr>VwID = M_id m, VwEvent = M_event_id m, VwMatchNo = M_match_no m, VwStatus = M_status m,
     VwScheduledAt = M_scheduled_at m, VwStartedAt = M_started_at m, VwCompletedAt = M_completed_at m,
     VwWinner = M_winner m, VwNextMatch = M_next_match_id m, VwNextSlot = M_next_slot m,
     VwParticipants = map (slotView d) (slotsOf d (M_id m)), VwSets = setsTx d (M_id m)\<rparr>"

definition findMatch :: "db \<Rightarrow> uuid \<Rightarrow> match_row option" where
  "findMatch d mid = List.find (\<lambda>m. M_id m = mid) (matches d)"

definition Get :: "db \<Rightarrow> uuid \<Rightarrow> match_error + match_view" where
  "Get d mid = (case findMatch d mid of None \<Rightarrow> Inl MatchNotFound | Some m \<Rightarrow> Inr (matchView d m))"

definition ListByEvent :: "db \<Rightarrow> uuid \<Rightarrow> match_view list" where
  "ListByEvent d eventID =
     map (matchView d) (sort_key M_match_no (filter (\<lambda>m. M_event_id m = eventID) (matches d)))"

record match_owner =
  OwnOrg :: uuid
  OwnTournament :: uuid
  OwnSlug :: string
  OwnPublished :: bool
  OwnEventPublic :: bool

definition EventOrgAndSlug :: "db \<Rightarrow> uuid \<Rightarrow> match_error + match_owner" where
  "EventOrgAndSlug d mid =
     (case findMatch d mid of
        None \<Rightarrow> Inl MatchNotFound
      | Some m \<Rightarrow> (case eventTournament d (M_event_id m) of
          None \<Rightarrow> Inl MatchNotFound
        | Some (e, t) \<Rightarrow> Inr \<lparr>OwnOrg = T_org_id t, OwnTournament = T_id t, OwnSlug = T_slug t,
            OwnPublished = (T_status t = ''published''), OwnEventPublic = E_is_public e\<rparr>))"

definition ScoringForMatch :: "db \<Rightarrow> uuid \<Rightarrow> match_error + raw_config" where
  "ScoringForMatch d mid =
     (case findMatch d mid of
        None \<Rightarrow> Inl MatchNotFound
      | Some m \<Rightarrow> (case List.find (\<lambda>e. E_id e = M_event_id m) (events d) of
          None \<Rightarrow> Inl MatchNotFound
        | Some e \<Rightarrow> Inr (E_scoring e)))"

definition GetPublic :: "db \<Rightarrow> uuid \<Rightarrow> match_error + match_view" where
  "GetPublic d mid =
     (case EventOrgAndSlug d mid of
        Inl e \<Rightarrow> Inl e
      | Inr o' \<Rightarrow> if \<not> OwnPublished o' \<or> \<not> OwnEventPublic o' then Inl MatchNotFound else Get d mid)"

subsection \<open>The score transaction\<close>

record save_input =
  InMatch :: uuid
  InSets :: "set_score list"
  InStatus :: string
  InCompletion :: string
  InWinner :: "uuid option"
  InActor :: uuid
  InOrg :: uuid
  InTournament :: uuid

text \<open>The columns of \<open>match_scores\<close> are \<open>SMALLINT\<close>, and a set number occurs once per match.\<close>

definition smallint :: "int \<Rightarrow> bool" where
  "smallint n \<longleftrightarrow> - (2 ^ 15) \<le> n \<and> n < 2 ^ 15"

definition smallSet :: "set_score \<Rightarrow> bool" where
  "smallSet st \<longleftrightarrow> smallint (SetNumber st) \<and> smallint (P1Games st) \<and> smallint (P2Games st)
     \<and> (\<forall>t \<in> set_option (P1Tiebreak st). smallint t) \<and> (\<forall>t \<in> set_option (P2Tiebreak st). smallint t)"

definition insertScore :: "uuid \<Rightarrow> set_score \<Rightarrow> db \<Rightarrow> match_error + db" where
  "insertScore mid st d =
     (if \<not> smallSet st \<or> (\<exists>r \<in> set (match_scores d). Sc_match_id r = mid \<and> SetNumber (Sc_set r) = SetNumber st)
      then Inl MatchInternal
      else Inr (d\<lparr>match_scores := match_scores d @ [\<lparr>Sc_match_id = mid, Sc_set = st\<rparr>]\<rparr>))"

definition matchStatuses :: "string list" where
  "matchStatuses = [''pending'', ''scheduled'', ''live'', ''completed'', ''walkover'', ''bye'', ''retired'', ''cancelled'']"

definition scoreMatch :: "ctx \<Rightarrow> save_input \<Rightarrow> match_row \<Rightarrow> match_row" where
  "scoreMatch ctx inp m = m\<lparr>M_status := InStatus inp, M_winner := InWinner inp,
     M_started_at := (case M_started_at m of Some t \<Rightarrow> Some t | None \<Rightarrow> Some (CtxNow ctx)),
     M_completed_at := (if InStatus inp \<in> {''completed'', ''walkover'', ''retired'', ''cancelled''}
        then (case M_completed_at m of Some t \<Rightarrow> Some t | None \<Rightarrow> Some (CtxNow ctx)) else None)\<rparr>"

text \<open>The slots fed by the winner of a match, with their matches.\<close>

definition winnerConsumers :: "db \<Rightarrow> uuid \<Rightarrow> (slot_row \<times> match_row) list" where
  "winnerConsumers d mid = slotMatches d (filter (\<lambda>s. S_source_match_id s = Some mid
     \<and> S_source_type s = ''match_winner'') (match_participants d))"

definition consumerLock :: "slot_row \<times> match_row \<Rightarrow> locked_slot" where
  "consumerLock sm = (case sm of (s, m) \<Rightarrow>
     \<lparr>LkMatchID = M_id m, LkMatchNo = M_match_no m, LkSlot = S_slot s, LkStatus = M_status m\<rparr>)"

definition rebuildConsumers :: "uuid \<Rightarrow> uuid option \<Rightarrow> db \<Rightarrow> match_error + nat \<times> db" where
  "rebuildConsumers mid winner d =
     (let changes = filter (\<lambda>(s, m). S_participant_id s \<noteq> winner) (winnerConsumers d mid);
          locked = map consumerLock (filter (\<lambda>(s, m). startedMatch (M_status m) (hasScores d (M_id m))) changes)
      in if length locked > 0 then Inl (DownstreamLocked locked)
         else Inr (length changes, fold (\<lambda>(s, m). setSlotParticipant (S_id s) winner) changes d))"

definition rebuildGroup :: "string \<Rightarrow> string \<Rightarrow> uuid option \<Rightarrow> db \<Rightarrow> match_error + nat \<times> db" where
  "rebuildGroup oldStatus status groupID d =
     (case groupID of
        None \<Rightarrow> Inr (0, d)
      | Some g \<Rightarrow>
          if \<not> decidedStatus oldStatus \<and> \<not> decidedStatus status then Inr (0, d)
          else
            let remaining = length (filter (\<lambda>m. M_group_id m = Some g \<and> undecided m) (matches d))
            in case RebuildGroupPlacements g (remaining = 0) d of
                 Inl e \<Rightarrow> Inl MatchInternal
               | Inr ((changed, locked), d) \<Rightarrow>
                   if length locked > 0 then Inl (DownstreamLocked locked) else Inr (changed, d))"

definition uuidPtrStr :: "uuid option \<Rightarrow> diffval" where
  "uuidPtrStr u = (case u of None \<Rightarrow> DNull | Some i \<Rightarrow> DStr (uuid_str i))"

definition scoreEntry :: "save_input \<Rightarrow> match_row \<Rightarrow> set_score list \<Rightarrow> nat \<Rightarrow> nat \<Rightarrow> audit_entry" where
  "scoreEntry inp old oldSets downstream placed = entry_zero\<lparr>OrgID := Some (InOrg inp), ActorUserID := InActor inp,
     TournamentID := Some (InTournament inp), Action := ''match.score'', TargetType := ''match'',
     TargetID := uuid_str (InMatch inp),
     Diff := Some [
       (''before'', DObj [(''status'', DStr (M_status old)), (''winner'', uuidPtrStr (M_winner old)), (''sets'', DSets oldSets)]),
       (''after'', DObj [(''status'', DStr (InStatus inp)), (''winner'', uuidPtrStr (InWinner inp)), (''sets'', DSets (InSets inp))]),
       (''completion'', DStr (InCompletion inp)),
       (''downstream_rebuilt'', DInt (int downstream)), (''placements_rebuilt'', DInt (int placed))]\<rparr>"

definition SaveScore :: "ctx \<Rightarrow> save_input \<Rightarrow> db \<Rightarrow> match_error + db" where
  "SaveScore ctx inp d =
     (let mid = InMatch inp in
      case findMatch d mid of
        None \<Rightarrow> Inl MatchNotFound
      | Some old \<Rightarrow>
          let oldSets = setsTx d mid;
              d = d\<lparr>match_scores := delete_where (\<lambda>r. Sc_match_id r = mid) (match_scores d)\<rparr>
          in case forM (insertScore mid) (InSets inp) d of
               Inl e \<Rightarrow> Inl e
             | Inr d \<Rightarrow>
                 if InStatus inp \<notin> set matchStatuses then Inl MatchInternal
                 else
                   let d = d\<lparr>matches := update_where (\<lambda>m. M_id m = mid) (scoreMatch ctx inp) (matches d)\<rparr>
                   in case (if M_winner old = InWinner inp then Inr (0, d)
                            else rebuildConsumers mid (InWinner inp) d) of
                        Inl e \<Rightarrow> Inl e
                      | Inr (downstream, d) \<Rightarrow>
                          (case rebuildGroup (M_status old) (InStatus inp) (M_group_id old) d of
                             Inl e \<Rightarrow> Inl e
                           | Inr (placed, d) \<Rightarrow>
                               Inr (RecordTx ctx (scoreEntry inp old oldSets downstream placed) d)))"

definition setMatchStatus :: "ctx \<Rightarrow> uuid \<Rightarrow> string \<Rightarrow> db \<Rightarrow> match_error + db" where
  "setMatchStatus ctx mid status d =
     (if status \<notin> set matchStatuses then Inl MatchInternal
      else if \<not> (\<exists>m \<in> set (matches d). M_id m = mid) then Inl MatchNotFound
      else Inr (d\<lparr>matches := update_where (\<lambda>m. M_id m = mid) (\<lambda>m. m\<lparr>M_status := status,
        M_started_at := (if status = ''live''
          then (case M_started_at m of Some t \<Rightarrow> Some t | None \<Rightarrow> Some (CtxNow ctx)) else M_started_at m)\<rparr>)
        (matches d)\<rparr>))"

subsection \<open>The service\<close>

record score_request =
  ReqSets :: "set_score list"
  ReqCompletion :: string
  ReqWinnerSlot :: int

definition participantForSlot :: "match_view \<Rightarrow> int \<Rightarrow> uuid option" where
  "participantForSlot m slot = (case List.find (\<lambda>p. VwSlot p = slot) (VwParticipants m) of
     Some p \<Rightarrow> VwParticipant p | None \<Rightarrow> None)"

definition scoreTopic :: "match_owner \<Rightarrow> string" where
  "scoreTopic o' = (if OwnPublished o' \<and> OwnEventPublic o' then OwnSlug o' else [])"

text \<open>\<open>MaybeResolveGroups\<close> is best effort: its failure leaves the saved score.\<close>

definition SubmitScore ::
  "ctx \<Rightarrow> uuid \<Rightarrow> uuid \<Rightarrow> uuid option \<Rightarrow> score_request \<Rightarrow> db \<Rightarrow> match_error + (match_view \<times> string) \<times> db" where
  "SubmitScore ctx mid actor orgID req d =
     (case EventOrgAndSlug d mid of
        Inl e \<Rightarrow> Inl e
      | Inr o' \<Rightarrow>
          if foreignOrg orgID (OwnOrg o') then Inl MatchForbidden
          else case ScoringForMatch d mid of
            Inl e \<Rightarrow> Inl e
          | Inr raw \<Rightarrow>
              let (cfg, cv) = ParseScoringConfig raw;
                  cfg = (if length cv > 0 then DefaultScoringConfig else cfg);
                  (winnerSlot, status, violations) = ValidateScore cfg (ReqSets req) (ReqCompletion req) (ReqWinnerSlot req)
              in if length violations > 0 then Inl (InvalidScore violations)
                 else case Get d mid of
                   Inl e \<Rightarrow> Inl e
                 | Inr current \<Rightarrow>
                     let winnerID = (if winnerSlot \<noteq> 0 then participantForSlot current winnerSlot else None)
                     in if winnerSlot \<noteq> 0 \<and> winnerID = None
                        then Inl (InvalidScore [viol ''winner_slot'' ''winner.slot_empty''])
                        else case SaveScore ctx \<lparr>InMatch = mid, InSets = ReqSets req, InStatus = status,
                               InCompletion = ReqCompletion req, InWinner = winnerID, InActor = actor,
                               InOrg = OwnOrg o', InTournament = OwnTournament o'\<rparr> d of
                             Inl e \<Rightarrow> Inl e
                           | Inr d \<Rightarrow>
                               let d = (if decidedStatus status
                                        then (case MaybeResolveGroups mid d of Inl _ \<Rightarrow> d | Inr (_, d) \<Rightarrow> d) else d)
                               in case Get d mid of
                                    Inl e \<Rightarrow> Inl e
                                  | Inr updated \<Rightarrow> Inr ((updated, scoreTopic o'), d))"

definition SetStatus ::
  "ctx \<Rightarrow> uuid \<Rightarrow> uuid option \<Rightarrow> string \<Rightarrow> db \<Rightarrow> match_error + (match_view \<times> string) \<times> db" where
  "SetStatus ctx mid orgID status d =
     (case EventOrgAndSlug d mid of
        Inl e \<Rightarrow> Inl e
      | Inr o' \<Rightarrow>
          if foreignOrg orgID (OwnOrg o') then Inl MatchForbidden
          else case Get d mid of
            Inl e \<Rightarrow> Inl e
          | Inr current \<Rightarrow>
              if decidedStatus (VwStatus current) then Inl CompletedImmutable
              else case setMatchStatus ctx mid status d of
                Inl e \<Rightarrow> Inl e
              | Inr d \<Rightarrow> (case Get d mid of
                  Inl e \<Rightarrow> Inl e
                | Inr m \<Rightarrow> Inr ((m, scoreTopic o'), d)))"

subsection \<open>Storing the sets\<close>

definition setsStorable :: "set_score list \<Rightarrow> bool" where
  "setsStorable sets \<longleftrightarrow> (\<forall>st \<in> set sets. smallSet st) \<and> distinct (map SetNumber sets)"

lemma insertScores_taken:
  assumes "r \<in> set (match_scores e)" and "Sc_match_id r = mid" and "SetNumber (Sc_set r) \<in> SetNumber ` set xs"
  shows "forM (insertScore mid) xs e = Inl MatchInternal"
  using assms
proof (induction xs arbitrary: e)
  case (Cons a xs)
  show ?case
  proof (cases "insertScore mid a e")
    case (Inl x)
    then have "x = MatchInternal" by (auto simp: insertScore_def split: if_splits)
    then show ?thesis using Inl by simp
  next
    case (Inr e')
    then have "e' = e\<lparr>match_scores := match_scores e @ [\<lparr>Sc_match_id = mid, Sc_set = a\<rparr>]\<rparr>"
      and "SetNumber (Sc_set r) \<noteq> SetNumber a"
      using Cons.prems by (auto simp: insertScore_def split: if_splits)
    then show ?thesis using Cons.IH [of e'] Cons.prems Inr by simp
  qed
qed simp

lemma insertScores_eq:
  assumes "\<forall>r \<in> set (match_scores d). Sc_match_id r = mid \<longrightarrow> SetNumber (Sc_set r) \<notin> SetNumber ` set sets"
  shows "forM (insertScore mid) sets d = (if setsStorable sets
     then Inr (d\<lparr>match_scores := match_scores d @ map (\<lambda>st. \<lparr>Sc_match_id = mid, Sc_set = st\<rparr>) sets\<rparr>)
     else Inl MatchInternal)"
  using assms
proof (induction sets arbitrary: d)
  case (Cons st sets)
  let ?d = "d\<lparr>match_scores := match_scores d @ [\<lparr>Sc_match_id = mid, Sc_set = st\<rparr>]\<rparr>"
  have new: "\<not> (\<exists>r \<in> set (match_scores d). Sc_match_id r = mid \<and> SetNumber (Sc_set r) = SetNumber st)"
    using Cons.prems by auto
  show ?case
  proof (cases "smallSet st")
    case False
    then show ?thesis by (simp add: insertScore_def setsStorable_def)
  next
    case True
    then have "insertScore mid st d = Inr ?d" unfolding insertScore_def using new by auto
    then have step: "forM (insertScore mid) (st # sets) d = forM (insertScore mid) sets ?d" by simp
    show ?thesis
    proof (cases "SetNumber st \<in> SetNumber ` set sets")
      case True
      then have bad: "\<not> setsStorable (st # sets)" by (auto simp: setsStorable_def)
      have "forM (insertScore mid) sets ?d = Inl MatchInternal"
        by (rule insertScores_taken [of "\<lparr>Sc_match_id = mid, Sc_set = st\<rparr>"]) (use True in simp_all)
      then show ?thesis using step bad by simp
    next
      case False
      have "forM (insertScore mid) sets ?d = (if setsStorable sets
        then Inr (?d\<lparr>match_scores := match_scores ?d @ map (\<lambda>st. \<lparr>Sc_match_id = mid, Sc_set = st\<rparr>) sets\<rparr>)
        else Inl MatchInternal)" by (rule Cons.IH) (use Cons.prems False in auto)
      then show ?thesis using step True False by (simp add: setsStorable_def)
    qed
  qed
qed (simp add: setsStorable_def)

definition withScores :: "uuid \<Rightarrow> set_score list \<Rightarrow> db \<Rightarrow> db" where
  "withScores mid sets d = d\<lparr>match_scores := delete_where (\<lambda>r. Sc_match_id r = mid) (match_scores d)
     @ map (\<lambda>st. \<lparr>Sc_match_id = mid, Sc_set = st\<rparr>) sets\<rparr>"

lemma replaceScores_eq:
  "forM (insertScore mid) sets (d\<lparr>match_scores := delete_where (\<lambda>r. Sc_match_id r = mid) (match_scores d)\<rparr>)
   = (if setsStorable sets then Inr (withScores mid sets d) else Inl MatchInternal)"
  by (subst insertScores_eq) (auto simp: withScores_def)

text \<open>The database after the first two writes: new sets, new match row.\<close>

definition scoredDB :: "ctx \<Rightarrow> save_input \<Rightarrow> db \<Rightarrow> db" where
  "scoredDB ctx inp d = (withScores (InMatch inp) (InSets inp) d)\<lparr>matches :=
     update_where (\<lambda>m. M_id m = InMatch inp) (scoreMatch ctx inp) (matches d)\<rparr>"

lemma scoreMatch_sel [simp]: "M_id (scoreMatch ctx inp m) = M_id m" "M_winner (scoreMatch ctx inp m) = InWinner inp"
  "M_status (scoreMatch ctx inp m) = InStatus inp" "M_group_id (scoreMatch ctx inp m) = M_group_id m"
  "M_stage_id (scoreMatch ctx inp m) = M_stage_id m" "M_next_match_id (scoreMatch ctx inp m) = M_next_match_id m"
  "M_event_id (scoreMatch ctx inp m) = M_event_id m"
  by (simp_all add: scoreMatch_def)

lemma scoredDB_sel [frame_simps]:
  "match_participants (scoredDB ctx inp d) = match_participants d" "events (scoredDB ctx inp d) = events d"
  "tournaments (scoredDB ctx inp d) = tournaments d" "participants (scoredDB ctx inp d) = participants d"
  "stages (scoredDB ctx inp d) = stages d" "groups (scoredDB ctx inp d) = groups d"
  "audit_logs (scoredDB ctx inp d) = audit_logs d" "schedule_slots (scoredDB ctx inp d) = schedule_slots d"
  "UuidGen (scoredDB ctx inp d) = UuidGen d" "Drawn (scoredDB ctx inp d) = Drawn d"
  "matches (scoredDB ctx inp d) = update_where (\<lambda>m. M_id m = InMatch inp) (scoreMatch ctx inp) (matches d)"
  by (simp_all add: scoredDB_def withScores_def)

lemma scoredDB_ids [frame_simps]: "map M_id (matches (scoredDB ctx inp d)) = map M_id (matches d)"
  unfolding frame_simps by (rule map_update_where) simp

lemma withScores_wf:
  assumes "db_wf d" and "mid \<in> M_id ` set (matches d)"
  shows "db_wf (withScores mid sets d)"
proof -
  have "\<forall>r \<in> set (match_scores (withScores mid sets d)). Sc_match_id r \<in> M_id ` set (matches d)"
    using assms unfolding db_wf_def by (auto simp: withScores_def)
  moreover have "ids_in_use (withScores mid sets d) = ids_in_use d" by (simp add: ids_in_use_def withScores_def)
  ultimately show ?thesis
    using assms(1) by (simp add: db_wf_def fresh_supply_def withScores_def)
qed

lemma scoredDB_wf:
  assumes "db_wf d" and "InMatch inp \<in> M_id ` set (matches d)"
  shows "db_wf (scoredDB ctx inp d)"
proof -
  have "scoredDB ctx inp d = (withScores (InMatch inp) (InSets inp) d)\<lparr>matches := update_where (\<lambda>m. M_id m = InMatch inp)
      (scoreMatch ctx inp) (matches (withScores (InMatch inp) (InSets inp) d))\<rparr>"
    by (simp add: scoredDB_def withScores_def)
  then show ?thesis using withScores_wf [OF assms] by (simp add: db_wf_update_matches)
qed

subsection \<open>Rebuilding what the result feeds\<close>

definition fedBy :: "uuid \<Rightarrow> slot_row \<Rightarrow> bool" where
  "fedBy mid s \<longleftrightarrow> S_source_match_id s = Some mid \<and> S_source_type s = ''match_winner''"

lemma rebuildConsumers_eq:
  fixes w :: "uuid option" and mid :: uuid
  assumes "db_wf d"
  defines "changes \<equiv> filter (\<lambda>s. fedBy mid s \<and> S_participant_id s \<noteq> w) (match_participants d)"
  shows "rebuildConsumers mid w d =
    (if \<exists>s \<in> set changes. slotStarted d s
     then Inl (DownstreamLocked (map (lockedSlot d) (filter (slotStarted d) changes)))
     else Inr (length changes, assignSlots (fedBy mid) (\<lambda>_. w) d))"
proof -
  have c: "winnerConsumers d mid = map (\<lambda>s. (s, matchOf d s)) (filter (fedBy mid) (match_participants d))"
    unfolding winnerConsumers_def fedBy_def [abs_def, symmetric]
    by (subst slotMatches_eq [OF assms(1)]) (auto simp: fedBy_def [abs_def])
  have ch: "filter (\<lambda>(s, m). S_participant_id s \<noteq> w) (winnerConsumers d mid) = map (\<lambda>s. (s, matchOf d s)) changes"
    unfolding c changes_def by (simp add: filter_map comp_def conj_commute)
  have id: "M_id (matchOf d s) = S_match_id s" if "s \<in> set changes" for s
    using that slot_match(3) [OF assms(1)] by (simp add: changes_def)
  have lk: "map consumerLock (filter (\<lambda>(s, m). startedMatch (M_status m) (hasScores d (M_id m)))
      (map (\<lambda>s. (s, matchOf d s)) changes)) = map (lockedSlot d) (filter (slotStarted d) changes)"
  proof -
    have "filter (\<lambda>s. startedMatch (M_status (matchOf d s)) (hasScores d (M_id (matchOf d s)))) changes
        = filter (slotStarted d) changes" by (rule filter_cong) (simp_all add: slotStarted_def id)
    then show ?thesis by (simp add: filter_map comp_def consumerLock_def lockedSlot_def id)
  qed
  have "fold (\<lambda>(s, m). setSlotParticipant (S_id s) w) (map (\<lambda>s. (s, matchOf d s)) changes) d
      = fold (\<lambda>s. setSlotParticipant (S_id s) w) changes d" by (simp add: fold_map comp_def)
  also have "\<dots> = assignSlots (\<lambda>s. fedBy mid s \<and> S_participant_id s \<noteq> w) (\<lambda>_. w) d"
    unfolding changes_def using assms(1) by (intro fold_assignSlots) (simp add: db_wf_def)
  also have "\<dots> = assignSlots (fedBy mid) (\<lambda>_. w) d" by (rule assignSlots_unneeded) simp
  finally have upd: "fold (\<lambda>(s, m). setSlotParticipant (S_id s) w) (map (\<lambda>s. (s, matchOf d s)) changes) d
      = assignSlots (fedBy mid) (\<lambda>_. w) d" .
  have some: "(\<exists>s \<in> set changes. slotStarted d s) \<longleftrightarrow> filter (slotStarted d) changes \<noteq> []"
    by (auto simp: filter_empty_conv)
  show ?thesis unfolding rebuildConsumers_def Let_def ch lk upd some by simp
qed

lemma matchOf_update:
  assumes "\<And>m. M_id (f m) = M_id m" and "S_match_id s \<noteq> mid" and "match_participants d' = match_participants d"
    and "matches d' = update_where (\<lambda>m. M_id m = mid) f (matches d)"
  shows "matchOf d' s = matchOf d s"
proof -
  have "filter (\<lambda>m. M_id m = S_match_id s) (update_where (\<lambda>m. M_id m = mid) f ms)
      = filter (\<lambda>m. M_id m = S_match_id s) ms" for ms
    using assms(1,2) by (induction ms) (auto simp: update_where_def)
  then show ?thesis by (simp add: matchOf_def assms(4))
qed

lemma slotStarted_scoredDB:
  assumes "S_match_id s \<noteq> InMatch inp"
  shows "slotStarted (scoredDB ctx inp d) s = slotStarted d s"
proof -
  have "matchOf (scoredDB ctx inp d) s = matchOf d s"
    by (rule matchOf_update [OF _ assms]) (simp_all add: frame_simps)
  moreover have "hasScores (scoredDB ctx inp d) (S_match_id s) = hasScores d (S_match_id s)"
    using assms by (auto simp: hasScores_def scoredDB_def withScores_def)
  ultimately show ?thesis by (simp add: slotStarted_def)
qed

lemma slotStarted_assignSlots [simp]: "slotStarted (assignSlots Q w d) s = slotStarted d s"
  by (simp add: slotStarted_def matchOf_def hasScores_def frame_simps)

text \<open>The invariant of progression: a slot that waits for a winner holds that match's winner.\<close>

definition feeds_current :: "db \<Rightarrow> bool" where
  "feeds_current d \<longleftrightarrow> (\<forall>s \<in> set (match_participants d). \<forall>m \<in> set (matches d).
     fedBy (M_id m) s \<longrightarrow> S_participant_id s = M_winner m)"

text \<open>The database after the winner's slots, and after the group's placements, are rebuilt.\<close>

definition advancedDB :: "ctx \<Rightarrow> save_input \<Rightarrow> db \<Rightarrow> db" where
  "advancedDB ctx inp d = assignSlots (fedBy (InMatch inp)) (\<lambda>_. InWinner inp) (scoredDB ctx inp d)"

definition groupDone :: "db \<Rightarrow> uuid \<Rightarrow> bool" where
  "groupDone d g \<longleftrightarrow> (\<forall>m \<in> set (matches d). M_group_id m = Some g \<longrightarrow> \<not> undecided m)"

definition regrouped :: "save_input \<Rightarrow> match_row \<Rightarrow> uuid option" where
  "regrouped inp old = (if decidedStatus (M_status old) \<or> decidedStatus (InStatus inp) then M_group_id old else None)"

definition placedDB :: "ctx \<Rightarrow> save_input \<Rightarrow> match_row \<Rightarrow> db \<Rightarrow> db" where
  "placedDB ctx inp old d = (let a = advancedDB ctx inp d in case regrouped inp old of
     None \<Rightarrow> a | Some g \<Rightarrow> assignSlots (placedIn g) (wantedPlace a g (groupDone a g)) a)"

definition feedBlocked :: "ctx \<Rightarrow> save_input \<Rightarrow> db \<Rightarrow> slot_row \<Rightarrow> bool" where
  "feedBlocked ctx inp d s \<longleftrightarrow> fedBy (InMatch inp) s \<and> S_participant_id s \<noteq> InWinner inp
     \<and> slotStarted (scoredDB ctx inp d) s"

definition placeBlocked :: "ctx \<Rightarrow> save_input \<Rightarrow> match_row \<Rightarrow> db \<Rightarrow> slot_row \<Rightarrow> bool" where
  "placeBlocked ctx inp old d s \<longleftrightarrow> (let a = advancedDB ctx inp d in case regrouped inp old of
     None \<Rightarrow> False | Some g \<Rightarrow> placedIn g s \<and> S_participant_id s \<noteq> wantedPlace a g (groupDone a g) s
       \<and> slotStarted (scoredDB ctx inp d) s)"

lemma places_typed_assignSlots [simp]: "places_typed (assignSlots Q w d) = places_typed d"
proof -
  have "(\<forall>s \<in> set (map (\<lambda>s. if Q s then s\<lparr>S_participant_id := w s\<rparr> else s) ss). P (S_source_type s) (S_source_group_id s) (S_source_rank s))
      \<longleftrightarrow> (\<forall>s \<in> set ss. P (S_source_type s) (S_source_group_id s) (S_source_rank s))" for P ss
    by (induction ss) auto
  then show ?thesis unfolding places_typed_def assignSlots_def by simp
qed

lemma assignSlots_id:
  assumes "\<And>s. s \<in> set (match_participants d) \<Longrightarrow> Q s \<Longrightarrow> S_participant_id s = w s"
  shows "assignSlots Q w d = d"
proof -
  have "map (\<lambda>s. if Q s then s\<lparr>S_participant_id := w s\<rparr> else s) (match_participants d) = match_participants d"
  proof (rule map_idI)
    fix s assume s: "s \<in> set (match_participants d)"
    have "s\<lparr>S_participant_id := w s\<rparr> = s" if "Q s" unfolding assms [OF s that, symmetric] by simp
    then show "(if Q s then s\<lparr>S_participant_id := w s\<rparr> else s) = s" by simp
  qed
  then show ?thesis by (simp add: assignSlots_def)
qed

lemma length_assignSlots [simp]: "length (match_participants (assignSlots Q w d)) = length (match_participants d)"
  by (simp add: assignSlots_def)

lemma assignSlots_nth:
  assumes "i < length (match_participants d)"
    and "Q (match_participants d ! i) \<Longrightarrow> S_participant_id (match_participants d ! i) = w (match_participants d ! i)"
  shows "match_participants (assignSlots Q w d) ! i = match_participants d ! i"
proof (cases "Q (match_participants d ! i)")
  case True
  then have "(match_participants d ! i)\<lparr>S_participant_id := w (match_participants d ! i)\<rparr> = match_participants d ! i"
    unfolding assms(2) [OF True, symmetric] by simp
  then show ?thesis using assms(1) True by (simp add: assignSlots_def)
qed (use assms(1) in \<open>simp add: assignSlots_def\<close>)

text \<open>Fed slots and placement slots are different slots.\<close>

lemma fedBy_not_placed: "fedBy mid s \<Longrightarrow> \<not> placedIn g s"
  by (simp add: fedBy_def placedIn_def)

lemma fedBy_upd [simp]: "fedBy mid (s\<lparr>S_participant_id := p\<rparr>) = fedBy mid s"
  "placedIn g (s\<lparr>S_participant_id := p\<rparr>) = placedIn g s"
  by (simp_all add: fedBy_def placedIn_def)

lemma filter_placed_advanced:
  assumes "\<And>s. P s \<Longrightarrow> placedIn g s"
  shows "filter P (match_participants (advancedDB ctx inp d)) = filter P (match_participants d)"
proof -
  have "filter P (map (\<lambda>s. if fedBy mid s then s\<lparr>S_participant_id := w\<rparr> else s) ss) = filter P ss" for mid w ss
  proof (induction ss)
    case (Cons s ss)
    have "\<not> P s \<and> \<not> P (s\<lparr>S_participant_id := w\<rparr>)" if "fedBy mid s"
      using assms [of s] assms [of "s\<lparr>S_participant_id := w\<rparr>"] fedBy_not_placed [OF that] by auto
    then show ?case using Cons by auto
  qed simp
  then show ?thesis by (simp add: advancedDB_def assignSlots_def frame_simps)
qed

lemma groupDone_length:
  "length (filter (\<lambda>m. M_group_id m = Some g \<and> undecided m) (matches d)) = 0 \<longleftrightarrow> groupDone d g"
  by (auto simp: groupDone_def filter_empty_conv)

lemma findMatch_Some: "findMatch d mid = Some m \<Longrightarrow> m \<in> set (matches d) \<and> M_id m = mid"
  unfolding findMatch_def by (drule find_Some_in) auto

lemma findMatch_id: "findMatch d mid = Some m \<Longrightarrow> mid \<in> M_id ` set (matches d)"
  using findMatch_Some by (metis imageI)

lemma advancedDB_wf:
  assumes "db_wf d" and "findMatch d (InMatch inp) = Some old"
  shows "db_wf (advancedDB ctx inp d)"
  unfolding advancedDB_def using assms by (intro assignSlots_wf scoredDB_wf findMatch_id)

lemma advance_step:
  assumes "db_wf d" and "feeds_current d" and old: "findMatch d (InMatch inp) = Some old"
  obtains n where "(if M_winner old = InWinner inp then Inr (0, scoredDB ctx inp d)
      else rebuildConsumers (InMatch inp) (InWinner inp) (scoredDB ctx inp d))
    = (if \<exists>s \<in> set (match_participants d). feedBlocked ctx inp d s
       then Inl (DownstreamLocked (map (lockedSlot (scoredDB ctx inp d)) (filter (feedBlocked ctx inp d) (match_participants d))))
       else Inr (n, advancedDB ctx inp d))"
proof (cases "M_winner old = InWinner inp")
  case True
  have cur: "S_participant_id s = InWinner inp" if "s \<in> set (match_participants d)" "fedBy (InMatch inp) s" for s
  proof -
    have "old \<in> set (matches d)" "M_id old = InMatch inp" using findMatch_Some [OF old] by simp_all
    then have "S_participant_id s = M_winner old" using assms(2) that by (simp add: feeds_current_def)
    then show ?thesis by (simp add: True)
  qed
  then have "advancedDB ctx inp d = scoredDB ctx inp d"
    unfolding advancedDB_def by (intro assignSlots_id) (simp_all add: frame_simps)
  moreover have "\<not> (\<exists>s \<in> set (match_participants d). feedBlocked ctx inp d s)"
    using cur unfolding feedBlocked_def by blast
  ultimately show ?thesis using that [of 0] True by simp
next
  case False
  have wf: "db_wf (scoredDB ctx inp d)" using assms(1) findMatch_id [OF old] by (rule scoredDB_wf)
  let ?c = "filter (\<lambda>s. fedBy (InMatch inp) s \<and> S_participant_id s \<noteq> InWinner inp) (match_participants d)"
  have f: "filter (slotStarted (scoredDB ctx inp d)) ?c = filter (feedBlocked ctx inp d) (match_participants d)"
    unfolding filter_filter by (rule filter_cong) (auto simp: feedBlocked_def)
  have e: "(\<exists>s \<in> set ?c. slotStarted (scoredDB ctx inp d) s) \<longleftrightarrow> (\<exists>s \<in> set (match_participants d). feedBlocked ctx inp d s)"
    by (auto simp: feedBlocked_def)
  show ?thesis
    by (rule that [of "length ?c"])
      (simp only: rebuildConsumers_eq [OF wf] scoredDB_sel(1) f e advancedDB_def False if_False)
qed

lemma place_step:
  assumes "db_wf d" and "places_typed d" and old: "findMatch d (InMatch inp) = Some old"
  obtains n where "rebuildGroup (M_status old) (InStatus inp) (M_group_id old) (advancedDB ctx inp d)
    = (if \<exists>s \<in> set (match_participants d). placeBlocked ctx inp old d s
       then Inl (DownstreamLocked (map (lockedSlot (advancedDB ctx inp d)) (filter (placeBlocked ctx inp old d) (match_participants d))))
       else Inr (n, placedDB ctx inp old d))"
proof (cases "regrouped inp old")
  case None
  then have "rebuildGroup (M_status old) (InStatus inp) (M_group_id old) (advancedDB ctx inp d) = Inr (0, advancedDB ctx inp d)"
    by (auto simp: regrouped_def rebuildGroup_def split: if_splits option.split)
  then show ?thesis using that [of 0] None by (simp add: placeBlocked_def placedDB_def Let_def)
next
  case (Some g)
  let ?a = "advancedDB ctx inp d"
  let ?w = "wantedPlace ?a g (groupDone ?a g)"
  have g: "M_group_id old = Some g" "decidedStatus (M_status old) \<or> decidedStatus (InStatus inp)"
    using Some by (auto simp: regrouped_def split: if_splits)
  have wf: "db_wf ?a" by (rule advancedDB_wf [OF assms(1) old])
  have typed: "places_typed ?a"
    using assms(2) unfolding advancedDB_def places_typed_assignSlots by (simp add: places_typed_def scoredDB_sel)
  let ?c = "filter (\<lambda>s. placedIn g s \<and> S_participant_id s \<noteq> ?w s) (match_participants ?a)"
  have started: "slotStarted ?a s = slotStarted (scoredDB ctx inp d) s" for s by (simp add: advancedDB_def)
  have f: "filter (slotStarted ?a) ?c = filter (placeBlocked ctx inp old d) (match_participants d)"
  proof -
    have "filter (slotStarted ?a) ?c = filter (placeBlocked ctx inp old d) (match_participants ?a)"
      unfolding filter_filter by (rule filter_cong) (auto simp: placeBlocked_def Some started Let_def)
    also have "\<dots> = filter (placeBlocked ctx inp old d) (match_participants d)"
      by (rule filter_placed_advanced [of _ g]) (simp add: placeBlocked_def Some Let_def)
    finally show ?thesis .
  qed
  have e: "(\<exists>s \<in> set ?c. slotStarted ?a s) \<longleftrightarrow> (\<exists>s \<in> set (match_participants d). placeBlocked ctx inp old d s)"
    using arg_cong [OF f, of set] by (auto simp: set_eq_iff)
  have reb: "RebuildGroupPlacements g (groupDone ?a g) ?a =
      (if \<exists>s \<in> set (match_participants d). placeBlocked ctx inp old d s
       then Inr ((0, map (lockedSlot ?a) (filter (placeBlocked ctx inp old d) (match_participants d))), ?a)
       else Inr ((length ?c, []), assignSlots (placedIn g) ?w ?a))"
    by (simp only: Rebuild_eq [OF wf typed] f e)
  have ne: "filter (placeBlocked ctx inp old d) (match_participants d) \<noteq> []"
    if "\<exists>s \<in> set (match_participants d). placeBlocked ctx inp old d s" using that by (auto simp: filter_empty_conv)
  show ?thesis
    by (rule that [of "length ?c"])
      (use g ne in \<open>auto simp: rebuildGroup_def groupDone_length reb placedDB_def Some Let_def simp del: length_0_conv\<close>)
qed

subsection \<open>The outcome of a score\<close>

definition score_inv :: "db \<Rightarrow> bool" where
  "score_inv d \<longleftrightarrow> db_wf d \<and> places_typed d \<and> feeds_current d"

definition storable :: "save_input \<Rightarrow> bool" where
  "storable inp \<longleftrightarrow> setsStorable (InSets inp) \<and> InStatus inp \<in> set matchStatuses"

lemma SaveScore_missing: "findMatch d (InMatch inp) = None \<Longrightarrow> SaveScore ctx inp d = Inl MatchNotFound"
  by (simp add: SaveScore_def)

lemma SaveScore_unstorable:
  "findMatch d (InMatch inp) = Some old \<Longrightarrow> \<not> storable inp \<Longrightarrow> SaveScore ctx inp d = Inl MatchInternal"
  by (simp add: SaveScore_def Let_def replaceScores_eq storable_def)

lemma withScores_scored:
  "withScores (InMatch inp) (InSets inp) d \<lparr>matches := update_where (\<lambda>m. M_id m = InMatch inp) (scoreMatch ctx inp)
     (matches (withScores (InMatch inp) (InSets inp) d))\<rparr> = scoredDB ctx inp d"
  by (simp add: scoredDB_def withScores_def)

lemma SaveScore_eq:
  fixes ctx :: ctx
  assumes "score_inv d" and "findMatch d (InMatch inp) = Some old" and "storable inp"
  defines "feeds \<equiv> filter (feedBlocked ctx inp d) (match_participants d)"
    and "places \<equiv> filter (placeBlocked ctx inp old d) (match_participants d)"
  shows "if feeds \<noteq> [] then SaveScore ctx inp d = Inl (DownstreamLocked (map (lockedSlot (scoredDB ctx inp d)) feeds))
    else if places \<noteq> [] then SaveScore ctx inp d = Inl (DownstreamLocked (map (lockedSlot (advancedDB ctx inp d)) places))
    else \<exists>n p. SaveScore ctx inp d
      = Inr (RecordTx ctx (scoreEntry inp old (setsTx d (InMatch inp)) n p) (placedDB ctx inp old d))"
proof -
  note inv = assms(1) [unfolded score_inv_def]
  obtain n where adv: "(if M_winner old = InWinner inp then Inr (0, scoredDB ctx inp d)
      else rebuildConsumers (InMatch inp) (InWinner inp) (scoredDB ctx inp d))
    = (if \<exists>s \<in> set (match_participants d). feedBlocked ctx inp d s
       then Inl (DownstreamLocked (map (lockedSlot (scoredDB ctx inp d)) feeds)) else Inr (n, advancedDB ctx inp d))"
    unfolding feeds_def using advance_step assms(2) inv by metis
  obtain p where pl: "rebuildGroup (M_status old) (InStatus inp) (M_group_id old) (advancedDB ctx inp d)
    = (if \<exists>s \<in> set (match_participants d). placeBlocked ctx inp old d s
       then Inl (DownstreamLocked (map (lockedSlot (advancedDB ctx inp d)) places)) else Inr (p, placedDB ctx inp old d))"
    unfolding places_def using place_step assms(2) inv by metis
  have "SaveScore ctx inp d = (case (if M_winner old = InWinner inp then Inr (0, scoredDB ctx inp d)
      else rebuildConsumers (InMatch inp) (InWinner inp) (scoredDB ctx inp d)) of
        Inl e \<Rightarrow> Inl e
      | Inr (downstream, d') \<Rightarrow> (case rebuildGroup (M_status old) (InStatus inp) (M_group_id old) d' of
          Inl e \<Rightarrow> Inl e
        | Inr (placed, d') \<Rightarrow> Inr (RecordTx ctx (scoreEntry inp old (setsTx d (InMatch inp)) downstream placed) d')))"
    using assms(2,3) by (simp add: SaveScore_def Let_def replaceScores_eq storable_def withScores_scored)
  note eq = this [unfolded adv]
  have "feeds \<noteq> [] \<longleftrightarrow> (\<exists>s \<in> set (match_participants d). feedBlocked ctx inp d s)"
    "places \<noteq> [] \<longleftrightarrow> (\<exists>s \<in> set (match_participants d). placeBlocked ctx inp old d s)"
    by (auto simp: feeds_def places_def filter_empty_conv)
  then show ?thesis using eq pl by auto
qed

text \<open>C17. Saving a score is all or nothing. For a match that exists, with sets the table can hold (small
  numbers, no set number twice) and a known status: if the winner changes and a slot that match feeds
  belongs to a match that has started, or the group table changes and a placement slot of the group in
  a started match would change, exactly those slots are reported and nothing is written. Otherwise the
  sets and the match row are replaced, every slot that waits for this match holds the new winner, and,
  when the match enters or leaves the decided statuses, every placement slot of its group holds the
  finisher of its rank if the group is complete and nobody if it is not; the change is audited.\<close>

theorem SaveScore_outcome:
  fixes ctx :: ctx
  assumes "score_inv d" and "findMatch d (InMatch inp) = Some old" and "storable inp"
  defines "feeds \<equiv> filter (feedBlocked ctx inp d) (match_participants d)"
    and "places \<equiv> filter (placeBlocked ctx inp old d) (match_participants d)"
  shows "if feeds \<noteq> [] then SaveScore ctx inp d = Inl (DownstreamLocked (map (lockedSlot (scoredDB ctx inp d)) feeds))
    else if places \<noteq> [] then SaveScore ctx inp d = Inl (DownstreamLocked (map (lockedSlot (advancedDB ctx inp d)) places))
    else \<exists>n p. SaveScore ctx inp d
      = Inr (RecordTx ctx (scoreEntry inp old (setsTx d (InMatch inp)) n p) (placedDB ctx inp old d))"
  unfolding feeds_def places_def using assms(1-3) by (rule SaveScore_eq)

subsection \<open>What saving a score preserves\<close>

lemma placedDB_assign:
  obtains Q w where "placedDB ctx inp old d = assignSlots Q w (advancedDB ctx inp d)"
    and "\<And>s. Q s \<Longrightarrow> S_source_type s = ''group_placement''"
proof (cases "regrouped inp old")
  case None
  then show ?thesis
    using that [of "\<lambda>_. False" "\<lambda>_. None"] by (simp add: placedDB_def Let_def assignSlots_id)
next
  case (Some g)
  let ?a = "advancedDB ctx inp d"
  show ?thesis by (rule that [of "placedIn g" "wantedPlace ?a g (groupDone ?a g)"])
    (simp_all add: placedDB_def Let_def placedIn_def Some)
qed

lemma feeds_current_assignSlots:
  assumes "feeds_current d" and "\<And>s. Q s \<Longrightarrow> S_source_type s = ''group_placement''"
  shows "feeds_current (assignSlots Q w d)"
  unfolding feeds_current_def
proof (intro ballI impI)
  fix s m assume s: "s \<in> set (match_participants (assignSlots Q w d))"
    and m: "m \<in> set (matches (assignSlots Q w d))" and fed: "fedBy (M_id m) s"
  obtain s0 where "s0 \<in> set (match_participants d)" "s = (if Q s0 then s0\<lparr>S_participant_id := w s0\<rparr> else s0)"
    using s by (auto simp: assignSlots_def)
  moreover from this fed have "\<not> Q s0" using assms(2) [of s0] by (auto simp: fedBy_def split: if_splits)
  ultimately show "S_participant_id s = M_winner m"
    using assms(1) m fed by (simp add: feeds_current_def frame_simps)
qed

lemma feeds_current_advanced:
  assumes "db_wf d" and "feeds_current d"
  shows "feeds_current (advancedDB ctx inp d)"
  unfolding feeds_current_def
proof (intro ballI impI)
  fix s m assume s: "s \<in> set (match_participants (advancedDB ctx inp d))"
    and m: "m \<in> set (matches (advancedDB ctx inp d))" and fed: "fedBy (M_id m) s"
  obtain s0 where s0: "s0 \<in> set (match_participants d)"
    "s = (if fedBy (InMatch inp) s0 then s0\<lparr>S_participant_id := InWinner inp\<rparr> else s0)"
    using s by (auto simp: advancedDB_def assignSlots_def frame_simps)
  have fed0: "fedBy (M_id m) s0" using fed s0(2) by (auto split: if_splits)
  obtain m0 where m0: "m0 \<in> set (matches d)" "m = (if M_id m0 = InMatch inp then scoreMatch ctx inp m0 else m0)"
    using m by (auto simp: advancedDB_def frame_simps update_where_def)
  show "S_participant_id s = M_winner m"
  proof (cases "M_id m0 = InMatch inp")
    case True
    then show ?thesis using fed0 s0(2) m0(2) by simp
  next
    case False
    then have "\<not> fedBy (InMatch inp) s0" using fed0 m0(2) by (auto simp: fedBy_def)
    then show ?thesis using False s0 m0 fed0 assms(2) by (simp add: feeds_current_def)
  qed
qed

lemma score_inv_RecordTx [simp]: "score_inv (RecordTx ctx e d) = score_inv d"
  by (simp add: score_inv_def db_wf_RecordTx places_typed_def feeds_current_def frame_simps)

lemma score_inv_placed:
  assumes "score_inv d" and "findMatch d (InMatch inp) = Some old"
  shows "score_inv (placedDB ctx inp old d)"
proof -
  obtain Q w where p: "placedDB ctx inp old d = assignSlots Q w (advancedDB ctx inp d)"
    and Q: "\<And>s. Q s \<Longrightarrow> S_source_type s = ''group_placement''"
    using placedDB_assign [of ctx inp old d] by metis
  have "places_typed (scoredDB ctx inp d) = places_typed d" by (simp add: places_typed_def scoredDB_sel)
  then have "places_typed (advancedDB ctx inp d)" using assms(1) by (simp add: advancedDB_def score_inv_def)
  then show ?thesis unfolding p using assms Q
    by (simp add: score_inv_def assignSlots_wf advancedDB_wf feeds_current_assignSlots feeds_current_advanced)
qed

lemma SaveScore_Inr:
  assumes "score_inv d" and "SaveScore ctx inp d = Inr d'"
  obtains old n p where "findMatch d (InMatch inp) = Some old" and "storable inp"
    and "\<And>s. s \<in> set (match_participants d) \<Longrightarrow> \<not> feedBlocked ctx inp d s \<and> \<not> placeBlocked ctx inp old d s"
    and "d' = RecordTx ctx (scoreEntry inp old (setsTx d (InMatch inp)) n p) (placedDB ctx inp old d)"
proof -
  obtain old where old: "findMatch d (InMatch inp) = Some old"
    using assms(2) SaveScore_missing by (cases "findMatch d (InMatch inp)") auto
  have st: "storable inp" using assms(2) SaveScore_unstorable [OF old] by fastforce
  have "filter (feedBlocked ctx inp d) (match_participants d) = []"
    and "filter (placeBlocked ctx inp old d) (match_participants d) = []"
    and "\<exists>n p. d' = RecordTx ctx (scoreEntry inp old (setsTx d (InMatch inp)) n p) (placedDB ctx inp old d)"
    using SaveScore_eq [OF assms(1) old st, of ctx] assms(2) by (auto split: if_splits)
  then show ?thesis using that old st by (auto simp: filter_empty_conv)
qed

text \<open>C18. Saving a score keeps the progression invariant (the rows stay consistent, every placement slot
  names its group and rank, and every slot that waits for a winner holds exactly the winner of its
  match), and it never rewrites the line-up of another match that has started.\<close>

theorem SaveScore_preserves:
  assumes "score_inv d" and "SaveScore ctx inp d = Inr d'"
  shows "score_inv d' \<and> length (match_participants d') = length (match_participants d)
    \<and> (\<forall>i < length (match_participants d). slotStarted d (match_participants d ! i)
          \<and> S_match_id (match_participants d ! i) \<noteq> InMatch inp
        \<longrightarrow> match_participants d' ! i = match_participants d ! i)"
proof -
  obtain old n p where old: "findMatch d (InMatch inp) = Some old"
    and free: "\<And>s. s \<in> set (match_participants d) \<Longrightarrow> \<not> feedBlocked ctx inp d s \<and> \<not> placeBlocked ctx inp old d s"
    and d': "d' = RecordTx ctx (scoreEntry inp old (setsTx d (InMatch inp)) n p) (placedDB ctx inp old d)"
    using SaveScore_Inr [OF assms] by metis
  have kept: "match_participants (placedDB ctx inp old d) ! i = match_participants d ! i"
    if i: "i < length (match_participants d)" "slotStarted d (match_participants d ! i)"
      "S_match_id (match_participants d ! i) \<noteq> InMatch inp" for i
  proof -
    let ?s = "match_participants d ! i" and ?a = "advancedDB ctx inp d"
    have "?s \<in> set (match_participants d)" using i(1) by simp
    note f = free [OF this]
    have st: "slotStarted (scoredDB ctx inp d) ?s" using i(2,3) by (simp add: slotStarted_scoredDB)
    have "fedBy (InMatch inp) ?s \<Longrightarrow> S_participant_id ?s = InWinner inp" using f st by (auto simp: feedBlocked_def)
    then have a: "match_participants ?a ! i = ?s"
      unfolding advancedDB_def by (subst assignSlots_nth) (simp_all add: frame_simps i(1))
    have la: "i < length (match_participants ?a)" using i(1) by (simp add: advancedDB_def frame_simps)
    show ?thesis
    proof (cases "regrouped inp old")
      case None then show ?thesis by (simp add: placedDB_def Let_def a)
    next
      case (Some g)
      have "placedIn g ?s \<Longrightarrow> S_participant_id ?s = wantedPlace ?a g (groupDone ?a g) ?s"
        using f st Some by (auto simp: placeBlocked_def Let_def)
      then show ?thesis
        by (simp add: placedDB_def Let_def Some) (subst assignSlots_nth, simp_all add: la a)
    qed
  qed
  have len: "length (match_participants (placedDB ctx inp old d)) = length (match_participants d)"
  proof -
    obtain Q w where "placedDB ctx inp old d = assignSlots Q w (advancedDB ctx inp d)" by (rule placedDB_assign)
    then show ?thesis by (simp add: advancedDB_def frame_simps)
  qed
  show ?thesis using score_inv_placed [OF assms(1) old] kept len by (simp add: d' frame_simps)
qed

subsection \<open>Submitting a score\<close>

lemma find_updated_match:
  assumes "\<And>m. M_id (f m) = M_id m"
  shows "List.find (\<lambda>m. M_id m = mid) (update_where (\<lambda>m. M_id m = mid) f ms)
    = map_option f (List.find (\<lambda>m. M_id m = mid) ms)"
  using assms by (induction ms) (simp_all add: update_where_def)

lemma findMatch_assignSlots [simp]: "findMatch (assignSlots Q w d) mid = findMatch d mid"
  by (simp add: findMatch_def frame_simps)

lemma findMatch_scored:
  "findMatch d (InMatch inp) = Some old \<Longrightarrow> findMatch (scoredDB ctx inp d) (InMatch inp) = Some (scoreMatch ctx inp old)"
  by (simp add: findMatch_def scoredDB_sel find_updated_match)

lemma setsTx_assignSlots [simp]: "setsTx (assignSlots Q w d) mid = setsTx d mid"
  by (simp add: setsTx_def frame_simps)

lemma setsTx_scored: "setsTx (scoredDB ctx inp d) (InMatch inp) = sort_key SetNumber (InSets inp)"
  by (simp add: setsTx_def scoredDB_def withScores_def delete_where_def comp_def)

lemma saved_match:
  assumes "score_inv d" and "SaveScore ctx inp d = Inr d'"
  obtains old where "findMatch d (InMatch inp) = Some old" and "findMatch d' (InMatch inp) = Some (scoreMatch ctx inp old)"
    and "setsTx d' (InMatch inp) = sort_key SetNumber (InSets inp)"
proof -
  obtain old n p where old: "findMatch d (InMatch inp) = Some old"
    and d': "d' = RecordTx ctx (scoreEntry inp old (setsTx d (InMatch inp)) n p) (placedDB ctx inp old d)"
    using SaveScore_Inr [OF assms] by metis
  obtain Q w where p: "placedDB ctx inp old d = assignSlots Q w (advancedDB ctx inp d)"
    using placedDB_assign [of ctx inp old d] by metis
  have "findMatch d' (InMatch inp) = findMatch (scoredDB ctx inp d) (InMatch inp)"
    "setsTx d' (InMatch inp) = setsTx (scoredDB ctx inp d) (InMatch inp)"
    unfolding d' p advancedDB_def
    by (simp_all add: findMatch_def setsTx_def frame_simps del: scoredDB_sel)
  then show ?thesis using that [of old] findMatch_scored [OF old] by (simp add: old setsTx_scored)
qed

lemma ResolveGroups_assign:
  assumes "db_wf d" and "places_typed d" and "ResolveGroups eventID orgID d = Inr (n, d')"
  shows "d' = assignSlots (resolvable d eventID) (ownFinisher d) d"
proof -
  obtain e t where "eventTournament d eventID = Some (e, t)" "\<not> foreignOrg orgID (T_org_id t)"
    using assms(3) by (auto simp: ResolveGroups_def split: option.splits if_splits)
  then show ?thesis using ResolveGroups_eq [OF assms(1,2)] assms(3) by simp
qed

lemma MaybeResolve_assign:
  assumes "db_wf d" and "places_typed d" and "MaybeResolveGroups mid d = Inr (b, d')"
  obtains Q w where "d' = assignSlots Q w d" and "\<And>s. Q s \<Longrightarrow> S_source_type s = ''group_placement''"
proof (cases "\<exists>ev n. ResolveGroups ev None d = Inr (n, d')")
  case True
  then show ?thesis using ResolveGroups_assign [OF assms(1,2)] that by (metis resolvable_def)
next
  case False
  then have "d' = d" using assms(3)
    by (auto simp: MaybeResolveGroups_def Let_def split: option.splits if_splits sum.splits)
  then show ?thesis using that [of "\<lambda>_. False" "\<lambda>_. None"] by (simp add: assignSlots_id)
qed

lemma score_inv_assignSlots:
  "score_inv d \<Longrightarrow> (\<And>s. Q s \<Longrightarrow> S_source_type s = ''group_placement'') \<Longrightarrow> score_inv (assignSlots Q w d)"
  by (simp add: score_inv_def assignSlots_wf feeds_current_assignSlots)

definition settleGroups :: "uuid \<Rightarrow> string \<Rightarrow> db \<Rightarrow> db" where
  "settleGroups mid status d = (if decidedStatus status
     then (case MaybeResolveGroups mid d of Inl _ \<Rightarrow> d | Inr (_, d) \<Rightarrow> d) else d)"

lemma settleGroups_assign:
  assumes "score_inv d"
  obtains Q w where "settleGroups mid status d = assignSlots Q w d" and "\<And>s. Q s \<Longrightarrow> S_source_type s = ''group_placement''"
proof (cases "decidedStatus status \<and> (\<exists>b d'. MaybeResolveGroups mid d = Inr (b, d'))")
  case True
  then obtain b d' where m: "MaybeResolveGroups mid d = Inr (b, d')" by blast
  obtain Q w where "d' = assignSlots Q w d" "\<And>s. Q s \<Longrightarrow> S_source_type s = ''group_placement''"
    using MaybeResolve_assign [OF _ _ m] assms unfolding score_inv_def by metis
  then show ?thesis using that True m by (simp add: settleGroups_def)
next
  case False
  then have "settleGroups mid status d = d" by (auto simp: settleGroups_def split: sum.split)
  then show ?thesis using that [of "\<lambda>_. False" "\<lambda>_. None"] by (simp add: assignSlots_id)
qed

definition effectiveConfig :: "raw_config \<Rightarrow> scoring_config" where
  "effectiveConfig raw = (case ParseScoringConfig raw of (cfg, cv) \<Rightarrow> if length cv > 0 then DefaultScoringConfig else cfg)"

text \<open>The read-back match of a submission.\<close>

lemma SubmitScore_Inr:
  assumes "SubmitScore ctx mid actor orgID req d = Inr ((v, topic), d')"
  obtains o' raw slot status current winner d1
  where "EventOrgAndSlug d mid = Inr o'" and "\<not> foreignOrg orgID (OwnOrg o')" and "ScoringForMatch d mid = Inr raw"
    and "ValidateScore (effectiveConfig raw) (ReqSets req) (ReqCompletion req) (ReqWinnerSlot req) = (slot, status, [])"
    and "Get d mid = Inr current" and "winner = (if slot \<noteq> 0 then participantForSlot current slot else None)"
    and "slot \<noteq> 0 \<longrightarrow> winner \<noteq> None"
    and "SaveScore ctx \<lparr>InMatch = mid, InSets = ReqSets req, InStatus = status, InCompletion = ReqCompletion req,
       InWinner = winner, InActor = actor, InOrg = OwnOrg o', InTournament = OwnTournament o'\<rparr> d = Inr d1"
    and "d' = settleGroups mid status d1" and "Get d' mid = Inr v" and "topic = scoreTopic o'"
proof -
  obtain o' where o': "EventOrgAndSlug d mid = Inr o'" "\<not> foreignOrg orgID (OwnOrg o')"
    using assms unfolding SubmitScore_def by (cases "EventOrgAndSlug d mid") (auto split: if_splits)
  obtain raw where raw: "ScoringForMatch d mid = Inr raw"
    using assms o' unfolding SubmitScore_def by (cases "ScoringForMatch d mid") auto
  obtain cfg cv where cfg: "ParseScoringConfig raw = (cfg, cv)" by (cases "ParseScoringConfig raw")
  obtain slot status vs where V:
    "ValidateScore (effectiveConfig raw) (ReqSets req) (ReqCompletion req) (ReqWinnerSlot req) = (slot, status, vs)"
    by (cases "ValidateScore (effectiveConfig raw) (ReqSets req) (ReqCompletion req) (ReqWinnerSlot req)")
  note V' = V [unfolded effectiveConfig_def cfg prod.case]
  have sub: "(if length vs > 0 then Inl (InvalidScore vs) else case Get d mid of Inl e \<Rightarrow> Inl e | Inr current \<Rightarrow>
      let winnerID = (if slot \<noteq> 0 then participantForSlot current slot else None)
      in if slot \<noteq> 0 \<and> winnerID = None then Inl (InvalidScore [viol ''winner_slot'' ''winner.slot_empty''])
         else case SaveScore ctx \<lparr>InMatch = mid, InSets = ReqSets req, InStatus = status, InCompletion = ReqCompletion req,
            InWinner = winnerID, InActor = actor, InOrg = OwnOrg o', InTournament = OwnTournament o'\<rparr> d of
              Inl e \<Rightarrow> Inl e
            | Inr d \<Rightarrow> (case Get (settleGroups mid status d) mid of
                Inl e \<Rightarrow> Inl e | Inr updated \<Rightarrow> Inr ((updated, scoreTopic o'), settleGroups mid status d)))
      = Inr ((v, topic), d')"
    using assms
    by (simp only: SubmitScore_def o'(1) raw cfg sum.case prod.case if_not_P [OF o'(2)] Let_def V' settleGroups_def)
  have vs: "vs = []" using sub by (cases vs) auto
  obtain current where cur: "Get d mid = Inr current" using sub vs by (cases "Get d mid") auto
  define winner where "winner = (if slot \<noteq> 0 then participantForSlot current slot else None)"
  note s2 = sub [unfolded vs cur sum.case Let_def winner_def [symmetric] list.size(3) less_irrefl if_False]
  have w: "slot \<noteq> 0 \<longrightarrow> winner \<noteq> None" using s2 by (metis Inl_Inr_False)
  obtain d1 where sv: "SaveScore ctx \<lparr>InMatch = mid, InSets = ReqSets req, InStatus = status, InCompletion = ReqCompletion req,
       InWinner = winner, InActor = actor, InOrg = OwnOrg o', InTournament = OwnTournament o'\<rparr> d = Inr d1"
    using s2 w by (auto split: sum.splits if_splits)
  show ?thesis
    by (rule that [OF o' raw V [unfolded vs] cur winner_def w sv])
      (use s2 w sv in \<open>auto split: sum.splits if_splits\<close>)
qed

lemma Get_winner_slot:
  assumes "Get d mid = Inr current" and "participantForSlot current slot = Some p"
  shows "\<exists>s \<in> set (match_participants d). S_match_id s = mid \<and> S_slot s = slot \<and> S_participant_id s = Some p"
proof -
  obtain m where m: "findMatch d mid = Some m" "current = matchView d m"
    using assms(1) by (auto simp: Get_def split: option.splits)
  obtain vw where vw: "vw \<in> set (VwParticipants current)" "VwSlot vw = slot" "VwParticipant vw = Some p"
    using assms(2) by (auto simp: participantForSlot_def split: option.splits dest: find_Some_in)
  have "M_id m = mid" using findMatch_Some [OF m(1)] by simp
  then obtain s where "s \<in> set (match_participants d)" "S_match_id s = mid" "vw = slotView d s"
    using vw(1) m(2) by (auto simp: matchView_def slotsOf_def)
  then show ?thesis using vw(2,3) by (auto simp: slotView_def Let_def)
qed

text \<open>A submitted score that is accepted was submitted by a caller of the owning organisation, passed
  the validation under the event's configuration (the default one when the stored one is invalid), and
  is what a reader then sees: the match carries the status, exactly the submitted sets in set order, and
  as winner the participant who occupied the winning slot (nobody when the validation names no winning
  slot). The progression invariant is kept, and the event's channel is notified only when the tournament
  is published and the event public.\<close>

theorem SubmitScore_records:
  assumes "score_inv d" and "SubmitScore ctx mid actor orgID req d = Inr ((v, topic), d')"
  shows "score_inv d' \<and> Get d' mid = Inr v
    \<and> (\<exists>o' raw slot status. EventOrgAndSlug d mid = Inr o' \<and> \<not> foreignOrg orgID (OwnOrg o')
        \<and> ScoringForMatch d mid = Inr raw
        \<and> ValidateScore (effectiveConfig raw) (ReqSets req) (ReqCompletion req) (ReqWinnerSlot req) = (slot, status, [])
        \<and> VwID v = mid \<and> VwStatus v = status \<and> VwSets v = sort_key SetNumber (ReqSets req)
        \<and> (if slot = 0 then VwWinner v = None
           else \<exists>s \<in> set (match_participants d). S_match_id s = mid \<and> S_slot s = slot
             \<and> VwWinner v = S_participant_id s \<and> VwWinner v \<noteq> None)
        \<and> (topic \<noteq> [] \<longrightarrow> OwnPublished o' \<and> OwnEventPublic o'))"
proof -
  obtain o' raw slot status current winner d1
    where o': "EventOrgAndSlug d mid = Inr o'" "\<not> foreignOrg orgID (OwnOrg o')" and raw: "ScoringForMatch d mid = Inr raw"
      and V: "ValidateScore (effectiveConfig raw) (ReqSets req) (ReqCompletion req) (ReqWinnerSlot req) = (slot, status, [])"
      and cur: "Get d mid = Inr current" and w: "winner = (if slot \<noteq> 0 then participantForSlot current slot else None)"
      "slot \<noteq> 0 \<longrightarrow> winner \<noteq> None"
      and sv: "SaveScore ctx \<lparr>InMatch = mid, InSets = ReqSets req, InStatus = status, InCompletion = ReqCompletion req,
         InWinner = winner, InActor = actor, InOrg = OwnOrg o', InTournament = OwnTournament o'\<rparr> d = Inr d1"
        (is "SaveScore ctx ?inp d = _")
      and d': "d' = settleGroups mid status d1" and v: "Get d' mid = Inr v" and topic: "topic = scoreTopic o'"
    using SubmitScore_Inr [OF assms(2)] by metis
  have inv: "score_inv d1"
    using SaveScore_Inr [OF assms(1) sv] score_inv_placed [OF assms(1)] score_inv_RecordTx by metis
  obtain Q u where Q: "d' = assignSlots Q u d1" "\<And>s. Q s \<Longrightarrow> S_source_type s = ''group_placement''"
    using settleGroups_assign [OF inv, of mid status] unfolding d' by metis
  have inv': "score_inv d'" unfolding Q(1) using inv Q(2) by (rule score_inv_assignSlots)
  obtain old where old: "findMatch d1 mid = Some (scoreMatch ctx ?inp old)" "findMatch d mid = Some old"
      "setsTx d1 mid = sort_key SetNumber (ReqSets req)"
    using saved_match [OF assms(1) sv] by auto
  have "v = matchView d' (scoreMatch ctx ?inp old)"
    using v old(1) by (simp add: Get_def Q(1))
  then have vw: "VwID v = mid" "VwStatus v = status" "VwWinner v = winner" "VwSets v = sort_key SetNumber (ReqSets req)"
    using old findMatch_Some [OF old(2)] by (simp_all add: matchView_def Q(1))
  have win: "if slot = 0 then VwWinner v = None else \<exists>s \<in> set (match_participants d). S_match_id s = mid
      \<and> S_slot s = slot \<and> VwWinner v = S_participant_id s \<and> VwWinner v \<noteq> None"
  proof (cases "slot = 0")
    case False
    then obtain p where "winner = Some p" "participantForSlot current slot = Some p" using w by auto
    then show ?thesis using Get_winner_slot [OF cur] vw(3) False by fastforce
  qed (simp add: vw w)
  have "topic \<noteq> [] \<longrightarrow> OwnPublished o' \<and> OwnEventPublic o'" by (simp add: topic scoreTopic_def)
  then show ?thesis using inv' v o' raw V vw(1,2,4) win by blast
qed

subsection \<open>Changing the status\<close>

lemma setMatchStatus_inv:
  assumes "score_inv d" and "setMatchStatus ctx mid status d = Inr d'"
  shows "score_inv d'"
proof -
  let ?f = "\<lambda>m. m\<lparr>M_status := status, M_started_at := (if status = ''live''
      then (case M_started_at m of Some t \<Rightarrow> Some t | None \<Rightarrow> Some (CtxNow ctx)) else M_started_at m)\<rparr>"
  have d': "d' = d\<lparr>matches := update_where (\<lambda>m. M_id m = mid) ?f (matches d)\<rparr>"
    using assms(2) by (auto simp: setMatchStatus_def split: if_splits)
  have wf: "db_wf d'" unfolding d' using assms(1) by (intro db_wf_update_matches) (simp_all add: score_inv_def)
  have "places_typed d'" using assms(1) by (simp add: d' score_inv_def places_typed_def)
  moreover have "feeds_current d'"
    unfolding feeds_current_def
  proof (intro ballI impI)
    fix s m assume s: "s \<in> set (match_participants d')" and m: "m \<in> set (matches d')" and fed: "fedBy (M_id m) s"
    obtain m0 where "m0 \<in> set (matches d)" "m = m0 \<or> m = ?f m0"
      using m unfolding d' by (auto elim: in_update_where)
    then have "m0 \<in> set (matches d)" "M_id m0 = M_id m" "M_winner m0 = M_winner m" by auto
    then show "S_participant_id s = M_winner m"
      using s fed assms(1) unfolding score_inv_def feeds_current_def by (simp add: d')
  qed
  ultimately show ?thesis using wf by (simp add: score_inv_def)
qed

definition statusRow :: "ctx \<Rightarrow> string \<Rightarrow> match_row \<Rightarrow> match_row" where
  "statusRow ctx status m = m\<lparr>M_status := status, M_started_at := (if status = ''live''
     then (case M_started_at m of Some t \<Rightarrow> Some t | None \<Rightarrow> Some (CtxNow ctx)) else M_started_at m)\<rparr>"

text \<open>The status of a match can be set exactly by a caller of the owning organisation, to a status the
  database knows, and only while the match is undecided (a completed, walked-over, retired, cancelled or
  bye match is immutable); it changes that row alone, stamps the start time the first time the match goes
  live, and keeps the progression invariant.\<close>

theorem SetStatus_outcome:
  fixes ctx :: ctx
  assumes "score_inv d"
  shows "(case SetStatus ctx mid orgID status d of
      Inr ((v, topic), d') \<Rightarrow> score_inv d' \<and> Get d' mid = Inr v
        \<and> d' = d\<lparr>matches := update_where (\<lambda>m. M_id m = mid) (statusRow ctx status) (matches d)\<rparr>
    | Inl e \<Rightarrow> True)
    \<and> ((\<exists>r. SetStatus ctx mid orgID status d = Inr r) \<longleftrightarrow>
        (\<exists>m e t. findMatch d mid = Some m \<and> eventTournament d (M_event_id m) = Some (e, t)
          \<and> \<not> foreignOrg orgID (T_org_id t) \<and> \<not> decidedStatus (M_status m) \<and> status \<in> set matchStatuses))"
proof -
  let ?d = "d\<lparr>matches := update_where (\<lambda>m. M_id m = mid) (statusRow ctx status) (matches d)\<rparr>"
  have set: "setMatchStatus ctx mid status d = (if status \<in> set matchStatuses then Inr ?d else Inl MatchInternal)"
    if "findMatch d mid = Some m" for m
    using findMatch_Some [OF that] by (auto simp: setMatchStatus_def statusRow_def [abs_def])
  have get: "Get ?d mid = Inr (matchView ?d (statusRow ctx status m))" if "findMatch d mid = Some m" for m
    using that by (simp add: Get_def findMatch_def find_updated_match statusRow_def [abs_def])
  show ?thesis
  proof (cases "\<exists>m e t. findMatch d mid = Some m \<and> eventTournament d (M_event_id m) = Some (e, t)
      \<and> \<not> foreignOrg orgID (T_org_id t) \<and> \<not> decidedStatus (M_status m)")
    case True
    then obtain m e t where m: "findMatch d mid = Some m" "eventTournament d (M_event_id m) = Some (e, t)"
      "\<not> foreignOrg orgID (T_org_id t)" "\<not> decidedStatus (M_status m)" by blast
    obtain o' where o': "EventOrgAndSlug d mid = Inr o'" "OwnOrg o' = T_org_id t"
      using m by (simp add: EventOrgAndSlug_def)
    have "SetStatus ctx mid orgID status d = (case setMatchStatus ctx mid status d of Inl e \<Rightarrow> Inl e
        | Inr d \<Rightarrow> (case Get d mid of Inl e \<Rightarrow> Inl e | Inr v \<Rightarrow> Inr ((v, scoreTopic o'), d)))"
      using m o' by (simp add: SetStatus_def) (simp add: Get_def matchView_def)
    moreover have "score_inv ?d" if "status \<in> set matchStatuses"
      using setMatchStatus_inv [OF assms, of ctx mid status ?d] set [OF m(1)] that by simp
    ultimately show ?thesis using m by (simp add: set get)
  next
    case False
    then have "\<exists>e. SetStatus ctx mid orgID status d = Inl e"
      by (auto simp: SetStatus_def EventOrgAndSlug_def Get_def matchView_def split: option.splits)
    then obtain e where "SetStatus ctx mid orgID status d = Inl e" ..
    then show ?thesis using False by (simp only: sum.case) blast
  qed
qed

subsection \<open>Witnesses\<close>

definition sample_score :: save_input where
  "sample_score = \<lparr>InMatch = 33, InSets = [\<lparr>SetNumber = 1, P1Games = 6, P2Games = 3, P1Tiebreak = None, P2Tiebreak = None\<rparr>],
     InStatus = ''live'', InCompletion = ''incomplete'', InWinner = None, InActor = 1, InOrg = 2, InTournament = 1\<rparr>"

lemma group_db_inv: "score_inv group_db"
  unfolding score_inv_def by (simp add: group_db_wf group_db_typed feeds_current_def fedBy_def group_db_sel)

lemma group_db_find: "findMatch group_db 33 = Some (sample_match 33 42 None 3 ''pending'' None)"
  by (simp add: findMatch_def group_db_sel)

lemma sample_storable: "storable sample_score"
  by (simp add: storable_def sample_score_def setsStorable_def smallSet_def smallint_def matchStatuses_def)

lemma sample_unblocked:
  "filter (feedBlocked sample_ctx sample_score group_db) (match_participants group_db) = []"
  "filter (placeBlocked sample_ctx sample_score (sample_match 33 42 None 3 ''pending'' None) group_db) (match_participants group_db) = []"
proof -
  have "regrouped sample_score (sample_match 33 42 None 3 ''pending'' None) = None" by (simp add: regrouped_def)
  then have "\<not> placeBlocked sample_ctx sample_score (sample_match 33 42 None 3 ''pending'' None) group_db s" for s
    by (simp add: placeBlocked_def Let_def)
  then show "filter (placeBlocked sample_ctx sample_score (sample_match 33 42 None 3 ''pending'' None) group_db)
      (match_participants group_db) = []" by simp
  show "filter (feedBlocked sample_ctx sample_score group_db) (match_participants group_db) = []"
    by (simp add: feedBlocked_def fedBy_def group_db_sel)
qed

lemma sample_found: "findMatch group_db (InMatch sample_score) = Some (sample_match 33 42 None 3 ''pending'' None)"
  using group_db_find by (simp add: sample_score_def)

lemma sample_save: "\<exists>d'. SaveScore sample_ctx sample_score group_db = Inr d'"
  using SaveScore_eq [OF group_db_inv sample_found sample_storable, of sample_ctx] by (auto simp: sample_unblocked)

theorem SaveScore_outcome_witness:
  "\<exists>n p. SaveScore sample_ctx sample_score group_db = Inr (RecordTx sample_ctx
     (scoreEntry sample_score (sample_match 33 42 None 3 ''pending'' None) [] n p)
     (placedDB sample_ctx sample_score (sample_match 33 42 None 3 ''pending'' None) group_db))"
proof -
  have "setsTx group_db (InMatch sample_score) = []" by (simp add: setsTx_def sample_score_def group_db_sel)
  then show ?thesis
    using SaveScore_outcome [OF group_db_inv sample_found sample_storable, of sample_ctx] by (simp add: sample_unblocked)
qed

theorem SaveScore_preserves_witness: "\<exists>d'. SaveScore sample_ctx sample_score group_db = Inr d' \<and> score_inv d'"
  using sample_save SaveScore_preserves [OF group_db_inv, of sample_ctx sample_score] by blast

theorem SetStatus_outcome_witness:
  "(\<exists>r. SetStatus sample_ctx 33 (Some 2) ''live'' group_db = Inr r) \<and> \<not> (\<exists>r. SetStatus sample_ctx 33 (Some 9) ''live'' group_db = Inr r)"
proof -
  have e: "eventTournament group_db 3 = Some (hd (events (sample_db ''group_knockout'')), hd (tournaments (sample_db ''group_knockout'')))"
    by (subst eventTournament_cong [of group_db "sample_db ''group_knockout''"]) (simp_all add: group_db_sel sample_db_event)
  note conjunct2 [OF SetStatus_outcome [OF group_db_inv, where ctx = sample_ctx and mid = 33 and orgID = "Some 2" and status = "''live''"]]
    conjunct2 [OF SetStatus_outcome [OF group_db_inv, where ctx = sample_ctx and mid = 33 and orgID = "Some 9" and status = "''live''"]]
  then show ?thesis
    by (simp only: group_db_find) (simp add: e sample_db_def foreignOrg_def decidedStatus_def matchStatuses_def)
qed


definition sample_request :: score_request where
  "sample_request = \<lparr>ReqSets = [\<lparr>SetNumber = 1, P1Games = 6, P2Games = 3, P1Tiebreak = None, P2Tiebreak = None\<rparr>],
     ReqCompletion = ''incomplete'', ReqWinnerSlot = 0\<rparr>"

lemma sample_validated:
  "ValidateScore DefaultScoringConfig (ReqSets sample_request) (ReqCompletion sample_request) (ReqWinnerSlot sample_request)
     = (0, ''live'', [])"
  by code_simp

lemma group_db_event: "eventTournament group_db 3
    = Some (hd (events (sample_db ''group_knockout'')), hd (tournaments (sample_db ''group_knockout'')))"
  by (subst eventTournament_cong [of group_db "sample_db ''group_knockout''"]) (simp_all add: group_db_sel sample_db_event)

lemma group_db_owner: "EventOrgAndSlug group_db 33 = Inr \<lparr>OwnOrg = 2, OwnTournament = 1, OwnSlug = ''cup'',
    OwnPublished = True, OwnEventPublic = True\<rparr>"
  by (simp add: EventOrgAndSlug_def group_db_find group_db_event) (simp add: sample_db_def)

lemma sample_submit: "\<exists>v t d'. SubmitScore sample_ctx 33 1 (Some 2) sample_request group_db = Inr ((v, t), d')
   \<and> VwStatus v = ''live''"
proof -
  obtain d1 where d1: "SaveScore sample_ctx sample_score group_db = Inr d1" using sample_save by blast
  obtain old where old: "findMatch d1 (InMatch sample_score) = Some (scoreMatch sample_ctx sample_score old)"
    using saved_match [OF group_db_inv d1] by metis
  then have "Get d1 33 = Inr (matchView d1 (scoreMatch sample_ctx sample_score old))" by (simp add: Get_def sample_score_def)
  moreover have "ScoringForMatch group_db 33 = Inr RawEmpty"
    by (simp add: ScoringForMatch_def group_db_find group_db_sel) (simp add: sample_db_def)
  moreover have "ParseScoringConfig RawEmpty = (DefaultScoringConfig, [])" by (simp add: ParseScoringConfig_def)
  moreover have "\<lparr>InMatch = 33, InSets = ReqSets sample_request, InStatus = ''live'', InCompletion = ReqCompletion sample_request,
      InWinner = None, InActor = 1, InOrg = 2, InTournament = 1\<rparr> = sample_score"
    by (simp add: sample_score_def sample_request_def)
  ultimately show ?thesis
    using d1 by (simp add: SubmitScore_def group_db_owner foreignOrg_def sample_validated decidedStatus_def Get_def [of group_db]
        group_db_find matchView_def) (simp add: sample_score_def)
qed

theorem SubmitScore_records_witness:
  "\<exists>v t d'. SubmitScore sample_ctx 33 1 (Some 2) sample_request group_db = Inr ((v, t), d')
     \<and> VwStatus v = ''live'' \<and> score_inv d' \<and> Get d' 33 = Inr v"
proof -
  obtain v t d' where r: "SubmitScore sample_ctx 33 1 (Some 2) sample_request group_db = Inr ((v, t), d')" "VwStatus v = ''live''"
    using sample_submit by blast
  show ?thesis using SubmitScore_records [OF group_db_inv r(1)] r by blast
qed

end
