(* ===== verification/BracketView.thy ===== *)
theory BracketView
  imports MatchOps "HOL-Library.Word"
begin

section \<open>The bracket read models (internal/draw/service.go)\<close>

text \<open>
  \<open>GetBracket\<close>, \<open>knockoutRounds\<close> and \<open>GetGroupKnockout\<close>: the rounds tree derived from the
  \<open>next_match_id\<close> chains. The recursion \<open>hops\<close> follows a chain that only the stored rows
  bound, so it is a partial function: \<open>None\<close> is the recursion that never returns. Its memo is the
  map \<open>roundOf\<close>. A nil slice and an empty one are both the empty list.
\<close>

record bracket_slot =
  BkSlot :: int
  BkParticipant :: "uuid option"
  BkName :: "string option"
  BkSeed :: "int option"
  BkSourceLabel :: "string option"

record bracket_set =
  BkP1 :: int
  BkP2 :: int
  BkTB1 :: "int option"
  BkTB2 :: "int option"

record bracket_match =
  BkID :: uuid
  BkMatchNo :: int
  BkStatus :: string
  BkWinner :: "uuid option"
  BkCourtID :: "uuid option"
  BkCourtName :: "string option"
  BkScheduledAt :: "gotime option"
  BkParticipants :: "bracket_slot list"
  BkSets :: "bracket_set list"

record bracket_round =
  RoundNumber :: int
  RoundName :: string
  RoundMatches :: "bracket_match list"

record bracket =
  BracketEvent :: uuid
  BracketFormat :: string
  BracketRounds :: "bracket_round list"

record mrec =
  RecNo :: int
  RecStatus :: string
  RecNext :: "uuid option"
  RecWinner :: "uuid option"
  RecCourtID :: "uuid option"
  RecCourtName :: "string option"
  RecScheduledAt :: "gotime option"
  RecSlots :: "bracket_slot list"
  RecSets :: "bracket_set list"

subsection \<open>Rounds\<close>

partial_function (option) hops ::
  "(uuid \<rightharpoonup> mrec) \<Rightarrow> uuid \<Rightarrow> (uuid \<rightharpoonup> int) \<Rightarrow> (int \<times> (uuid \<rightharpoonup> int)) option" where
  "hops byID i roundOf = (case roundOf i of
     Some v \<Rightarrow> Some (v, roundOf)
   | None \<Rightarrow> (case Option.bind (byID i) RecNext of
       None \<Rightarrow> Some (0, roundOf(i \<mapsto> 0))
     | Some nx \<Rightarrow> Option.bind (hops byID nx roundOf)
         (\<lambda>(h, roundOf). Some (h + 1, roundOf(i \<mapsto> h + 1)))))"

fun hopsLoop :: "(uuid \<rightharpoonup> mrec) \<Rightarrow> uuid list \<Rightarrow> int \<times> (uuid \<rightharpoonup> int) \<Rightarrow> (int \<times> (uuid \<rightharpoonup> int)) option" where
  "hopsLoop byID [] st = Some st"
| "hopsLoop byID (i # is) (maxHops, roundOf) = Option.bind (hops byID i roundOf)
     (\<lambda>(h, roundOf). hopsLoop byID is (if h > maxHops then h else maxHops, roundOf))"

text \<open>\<open>1<<(fromFinal+1)\<close> in Go's 64-bit \<open>int\<close>.\<close>

definition shiftOne :: "int \<Rightarrow> int" where
  "shiftOne n = sint (push_bit (nat n) 1 :: 64 word)"

definition roundName :: "int \<Rightarrow> string" where
  "roundName fromFinal = (if fromFinal = 0 then ''Final'' else if fromFinal = 1 then ''Semifinal''
     else if fromFinal = 2 then ''Quarterfinal'' else ''Round of '' @ dec (shiftOne (fromFinal + 1)))"

definition bracketMatch :: "uuid \<Rightarrow> mrec \<Rightarrow> bracket_match" where
  "bracketMatch i r = \<lparr>BkID = i, BkMatchNo = RecNo r, BkStatus = RecStatus r, BkWinner = RecWinner r,
     BkCourtID = RecCourtID r, BkCourtName = RecCourtName r, BkScheduledAt = RecScheduledAt r,
     BkParticipants = RecSlots r, BkSets = RecSets r\<rparr>"

definition roundMatches :: "(int \<rightharpoonup> bracket_match list) \<Rightarrow> int \<Rightarrow> bracket_match list" where
  "roundMatches roundsMap rn = (case roundsMap rn of Some m \<Rightarrow> m | None \<Rightarrow> [])"

definition addRound ::
  "(uuid \<rightharpoonup> mrec) \<Rightarrow> int \<Rightarrow> (uuid \<rightharpoonup> int) \<Rightarrow> uuid \<Rightarrow> (int \<rightharpoonup> bracket_match list) \<Rightarrow> (int \<rightharpoonup> bracket_match list)" where
  "addRound byID maxHops roundOf i roundsMap =
     (let rn = maxHops - the (roundOf i) + 1
      in roundsMap(rn \<mapsto> roundMatches roundsMap rn @ [bracketMatch i (the (byID i))]))"

definition roundTree :: "(uuid \<rightharpoonup> mrec) \<Rightarrow> uuid list \<Rightarrow> bracket_round list option" where
  "roundTree byID order = Option.bind (hopsLoop byID order (0, Map.empty)) (\<lambda>(maxHops, roundOf).
     let roundsMap = fold (addRound byID maxHops roundOf) order Map.empty
     in Some (map (\<lambda>rn. \<lparr>RoundNumber = rn, RoundName = roundName (maxHops - rn + 1), RoundMatches = roundMatches roundsMap rn\<rparr>)
          [1..maxHops + 1]))"

subsection \<open>The bracket of an event\<close>

definition bracketSlot :: "db \<Rightarrow> (slot_row \<Rightarrow> string option) \<Rightarrow> slot_row \<Rightarrow> bracket_slot" where
  "bracketSlot d label s = (let p = participantOf d (S_participant_id s) in
     \<lparr>BkSlot = S_slot s, BkParticipant = S_participant_id s, BkName = map_option P_display_name p,
      BkSeed = Option.bind p P_seed, BkSourceLabel = label s\<rparr>)"

definition bracketSets :: "db \<Rightarrow> uuid \<Rightarrow> bracket_set list" where
  "bracketSets d mid = map (\<lambda>st. \<lparr>BkP1 = P1Games st, BkP2 = P2Games st, BkTB1 = P1Tiebreak st, BkTB2 = P2Tiebreak st\<rparr>)
     (setsTx d mid)"

definition bracketRec :: "db \<Rightarrow> match_row \<Rightarrow> mrec" where
  "bracketRec d m = \<lparr>RecNo = M_match_no m, RecStatus = M_status m, RecNext = M_next_match_id m, RecWinner = M_winner m,
     RecCourtID = M_court_id m,
     RecCourtName = map_option C_name (List.find (\<lambda>c. Some (C_id c) = M_court_id m) (courts d)),
     RecScheduledAt = M_scheduled_at m, RecSlots = map (bracketSlot d (\<lambda>_. None)) (slotsOf d (M_id m)),
     RecSets = bracketSets d (M_id m)\<rparr>"

definition eventRows :: "db \<Rightarrow> uuid \<Rightarrow> match_row list" where
  "eventRows d eventID = sort_key M_match_no (filter (\<lambda>m. M_event_id m = eventID) (matches d))"

definition recMap :: "(match_row \<Rightarrow> mrec) \<Rightarrow> match_row list \<Rightarrow> (uuid \<rightharpoonup> mrec)" where
  "recMap rec ms = map_of (map (\<lambda>m. (M_id m, rec m)) ms)"

definition GetBracket :: "db \<Rightarrow> uuid \<Rightarrow> (draw_error + bracket) option" where
  "GetBracket d eventID = (case List.find (\<lambda>e. E_id e = eventID) (events d) of
     None \<Rightarrow> Some (Inl DrawNotFound)
   | Some e \<Rightarrow> let rows = eventRows d eventID in
       map_option (\<lambda>rounds. Inr \<lparr>BracketEvent = eventID, BracketFormat = E_format e, BracketRounds = rounds\<rparr>)
         (roundTree (recMap (bracketRec d) rows) (map M_id rows)))"

subsection \<open>Groups and knockout\<close>

definition knockoutRec :: "db \<Rightarrow> match_row \<Rightarrow> mrec" where
  "knockoutRec d m = \<lparr>RecNo = M_match_no m, RecStatus = M_status m, RecNext = M_next_match_id m, RecWinner = M_winner m,
     RecCourtID = None, RecCourtName = None, RecScheduledAt = None,
     RecSlots = map (bracketSlot d S_source) (slotsOf d (M_id m)), RecSets = []\<rparr>"

definition knockoutRounds :: "db \<Rightarrow> uuid \<Rightarrow> bracket_round list option" where
  "knockoutRounds d eventID =
     (let rows = filter (\<lambda>m. stageKind d (M_stage_id m) ''knockout'') (eventRows d eventID); order = map M_id rows
      in if length order = 0 then Some [] else roundTree (recMap (knockoutRec d) rows) order)"

record group_table =
  GtID :: uuid
  GtName :: string
  GtAdvanceCount :: int
  GtStandings :: "standing list"

record group_knockout =
  GkEvent :: uuid
  GkGroups :: "group_table list"
  GkKnockout :: "bracket_round list"

definition GetGroupKnockout :: "db \<Rightarrow> uuid \<Rightarrow> group_knockout option" where
  "GetGroupKnockout d eventID =
     (let gs = sort_key (\<lambda>g. Collation d (G_name g))
            (filter (\<lambda>g. \<exists>st \<in> set (stages d). St_id st = G_stage_id g \<and> St_event_id st = eventID \<and> St_kind st = ''group'') (groups d));
          tables = map (\<lambda>g. \<lparr>GtID = G_id g, GtName = G_name g, GtAdvanceCount = G_advance_count g,
            GtStandings = standingsForGroup d (G_id g)\<rparr>) gs
      in map_option (\<lambda>ko. \<lparr>GkEvent = eventID, GkGroups = tables, GkKnockout = ko\<rparr>) (knockoutRounds d eventID))"

subsection \<open>The recursion follows the chain to its end\<close>

definition nextOf :: "(uuid \<rightharpoonup> mrec) \<Rightarrow> uuid \<Rightarrow> uuid option" where
  "nextOf byID i = Option.bind (byID i) RecNext"

text \<open>The chain of next matches from \<open>i\<close> ends after \<open>n\<close> steps.\<close>

primrec ends_after :: "(uuid \<rightharpoonup> mrec) \<Rightarrow> nat \<Rightarrow> uuid \<Rightarrow> bool" where
  "ends_after byID 0 i \<longleftrightarrow> nextOf byID i = None"
| "ends_after byID (Suc n) i \<longleftrightarrow> (case nextOf byID i of None \<Rightarrow> False | Some j \<Rightarrow> ends_after byID n j)"

definition memo_ok :: "(uuid \<rightharpoonup> mrec) \<Rightarrow> (uuid \<rightharpoonup> int) \<Rightarrow> bool" where
  "memo_ok byID memo \<longleftrightarrow> (\<forall>i v. memo i = Some v \<longrightarrow> (\<exists>n. v = int n \<and> ends_after byID n i))"

lemma ends_after_unique: "ends_after byID m i \<Longrightarrow> ends_after byID n i \<Longrightarrow> m = n"
proof (induction m arbitrary: n i)
  case 0
  then show ?case by (cases n) (auto split: option.splits)
next
  case (Suc m)
  then show ?case by (cases n) (auto split: option.splits)
qed

lemma memo_okD: "memo_ok byID memo \<Longrightarrow> ends_after byID n i \<Longrightarrow> memo i = Some v \<Longrightarrow> v = int n"
  unfolding memo_ok_def using ends_after_unique by blast

lemma memo_ok_upd: "memo_ok byID memo \<Longrightarrow> ends_after byID n i \<Longrightarrow> memo_ok byID (memo(i \<mapsto> int n))"
  by (auto simp: memo_ok_def)

lemma hops_ends:
  assumes "ends_after byID n i" and "memo_ok byID memo"
  shows "\<exists>memo'. hops byID i memo = Some (int n, memo') \<and> memo_ok byID memo' \<and> memo \<subseteq>\<^sub>m memo' \<and> memo' i = Some (int n)"
  using assms
proof (induction n arbitrary: i)
  case 0
  show ?case
  proof (cases "memo i")
    case None
    then show ?thesis using 0 memo_ok_upd [OF 0(2,1)]
      by (auto simp: hops.simps [of byID i] nextOf_def map_le_def dom_def)
  next
    case (Some v)
    then show ?thesis using 0 memo_okD [OF 0(2,1)] by (simp add: hops.simps [of byID i])
  qed
next
  case (Suc n)
  show ?case
  proof (cases "memo i")
    case None
    obtain j where j: "nextOf byID i = Some j" "ends_after byID n j" using Suc.prems(1) by (auto split: option.splits)
    obtain memo' where m: "hops byID j memo = Some (int n, memo')" "memo_ok byID memo'" "memo \<subseteq>\<^sub>m memo'"
      using Suc.IH [OF j(2) Suc.prems(2)] by blast
    have "hops byID i memo = Some (int (Suc n), memo'(i \<mapsto> int (Suc n)))"
      using None j(1) m(1) by (subst hops.simps) (simp add: nextOf_def add.commute)
    moreover have "memo_ok byID (memo'(i \<mapsto> int (Suc n)))" using m(2) Suc.prems(1) by (rule memo_ok_upd)
    moreover have "memo \<subseteq>\<^sub>m memo'(i \<mapsto> int (Suc n))" using m(3) None by (auto simp: map_le_def dom_def)
    ultimately show ?thesis by simp
  next
    case (Some v)
    then show ?thesis using memo_okD [OF Suc.prems(2,1)] Suc.prems(2) by (simp add: hops.simps [of byID i])
  qed
qed

lemma hops_returns:
  assumes "hops byID i memo = Some r"
  shows "memo_ok byID memo \<longrightarrow> (\<exists>n. fst r = int n \<and> ends_after byID n i) \<and> memo_ok byID (snd r)"
proof (rule hops.raw_induct [OF _ assms])
  fix rec and byID :: "uuid \<rightharpoonup> mrec" and i memo and r :: "int \<times> (uuid \<rightharpoonup> int)"
  assume IH: "\<And>byID i memo r. rec byID i memo = Some r \<Longrightarrow>
      memo_ok byID memo \<longrightarrow> (\<exists>n. fst r = int n \<and> ends_after byID n i) \<and> memo_ok byID (snd r)"
    and eq: "(case memo i of Some v \<Rightarrow> Some (v, memo)
      | None \<Rightarrow> (case byID i \<bind> RecNext of None \<Rightarrow> Some (0, memo(i \<mapsto> 0))
          | Some nx \<Rightarrow> rec byID nx memo \<bind> (\<lambda>(h, memo). Some (h + 1, memo(i \<mapsto> h + 1))))) = Some r"
  show "memo_ok byID memo \<longrightarrow> (\<exists>n. fst r = int n \<and> ends_after byID n i) \<and> memo_ok byID (snd r)"
  proof
    assume m: "memo_ok byID memo"
    show "(\<exists>n. fst r = int n \<and> ends_after byID n i) \<and> memo_ok byID (snd r)"
    proof (cases "memo i")
      case (Some v)
      then show ?thesis using eq m by (auto simp: memo_ok_def)
    next
      case None
      show ?thesis
      proof (cases "nextOf byID i")
        case None
        then have "r = (0, memo(i \<mapsto> 0))" using eq \<open>memo i = None\<close> by (simp add: nextOf_def)
        moreover have "ends_after byID 0 i" using None by simp
        ultimately show ?thesis using memo_ok_upd [OF m, of 0 i] by (intro conjI exI [of _ 0]) simp_all
      next
        case (Some j)
        then obtain h memo' where r: "rec byID j memo = Some (h, memo')" "r = (h + 1, memo'(i \<mapsto> h + 1))"
          using eq \<open>memo i = None\<close> by (auto simp: nextOf_def bind_eq_Some_conv)
        obtain n where n: "h = int n" "ends_after byID n j" "memo_ok byID memo'" using IH [OF r(1)] m by auto
        have e: "ends_after byID (Suc n) i" using Some n(2) by simp
        then show ?thesis using memo_ok_upd [OF n(3) e] r(2) n(1)
          by (intro conjI exI [of _ "Suc n"]) (simp_all add: add.commute)
      qed
    qed
  qed
qed

lemma hopsLoop_ends:
  assumes "\<forall>i \<in> set is. ends_after byID (D i) i" and "memo_ok byID memo"
  shows "\<exists>memo'. hopsLoop byID is (mx, memo) = Some (fold (\<lambda>i mx. max mx (int (D i))) is mx, memo')
    \<and> memo \<subseteq>\<^sub>m memo' \<and> (\<forall>i \<in> set is. memo' i = Some (int (D i)))"
  using assms
proof (induction "is" arbitrary: mx memo)
  case (Cons i "is")
  obtain m1 where m1: "hops byID i memo = Some (int (D i), m1)" "memo_ok byID m1" "memo \<subseteq>\<^sub>m m1" "m1 i = Some (int (D i))"
    using hops_ends [of byID "D i" i memo] Cons.prems by auto
  have mx: "(if int (D i) > mx then int (D i) else mx) = max mx (int (D i))" by simp
  obtain m2 where m2: "hopsLoop byID is (max mx (int (D i)), m1) = Some (fold (\<lambda>i mx. max mx (int (D i))) is (max mx (int (D i))), m2)"
    "m1 \<subseteq>\<^sub>m m2" "\<forall>j \<in> set is. m2 j = Some (int (D j))"
    using Cons.IH [of m1 "max mx (int (D i))"] Cons.prems(1) m1(2) by auto
  have "m2 i = Some (int (D i))" using m1(4) m2(2) by (metis domI map_le_def)
  then show ?case using m1(1,3) m2 map_le_trans [OF m1(3) m2(2)] by (simp add: mx del: max_def)
qed simp

lemma hopsLoop_returns:
  "hopsLoop byID is (mx, memo) = Some r \<Longrightarrow> memo_ok byID memo \<Longrightarrow> \<forall>i \<in> set is. \<exists>n. ends_after byID n i"
proof (induction "is" arbitrary: mx memo)
  case (Cons i "is")
  obtain h m1 where m1: "hops byID i memo = Some (h, m1)" "hopsLoop byID is (if h > mx then h else mx, m1) = Some r"
    using Cons.prems(1) by (auto simp: bind_eq_Some_conv)
  then show ?case using hops_returns [OF m1(1)] Cons.IH [OF m1(2)] Cons.prems(2) by auto
qed simp

lemma rounds_fold:
  assumes "\<forall>i \<in> set is. memo i = Some (int (D i))"
  shows "roundMatches (fold (addRound byID mx memo) is rm) rn
    = roundMatches rm rn @ map (\<lambda>i. bracketMatch i (the (byID i))) (filter (\<lambda>i. mx - int (D i) + 1 = rn) is)"
  using assms
proof (induction "is" arbitrary: rm)
  case (Cons i "is")
  have "roundMatches (addRound byID mx memo i rm) rn
      = roundMatches rm rn @ (if mx - int (D i) + 1 = rn then [bracketMatch i (the (byID i))] else [])"
    using Cons.prems by (simp add: addRound_def Let_def roundMatches_def)
  then show ?case using Cons by simp
qed simp

definition deepest :: "(uuid \<Rightarrow> nat) \<Rightarrow> uuid list \<Rightarrow> int" where
  "deepest D is = fold (\<lambda>i mx. max mx (int (D i))) is 0"

lemma fold_max_ge: "mx \<le> fold (\<lambda>i mx. max mx (int (D i))) is mx"
proof (induction "is" arbitrary: mx)
  case (Cons i "is")
  show ?case using Cons.IH [of "max mx (int (D i))"] by simp
qed simp

lemma fold_max_upper: "i \<in> set is \<Longrightarrow> int (D i) \<le> fold (\<lambda>i mx. max mx (int (D i))) is mx"
proof (induction "is" arbitrary: mx)
  case (Cons j "is")
  show ?case
  proof (cases "i = j")
    case True
    then show ?thesis using fold_max_ge [of "max mx (int (D j))" D "is"] by simp
  next
    case False
    then show ?thesis using Cons.IH Cons.prems by simp
  qed
qed simp

lemma fold_max_le: "mx \<le> N \<Longrightarrow> (\<And>i. i \<in> set is \<Longrightarrow> int (D i) \<le> N) \<Longrightarrow> fold (\<lambda>i mx. max mx (int (D i))) is mx \<le> N"
  by (induction "is" arbitrary: mx) auto

lemma deepest_ge: "i \<in> set is \<Longrightarrow> int (D i) \<le> deepest D is"
  unfolding deepest_def by (rule fold_max_upper)

lemma deepest_nonneg: "0 \<le> deepest D is"
  unfolding deepest_def by (rule fold_max_ge)

lemma deepest_eqI: "(\<And>i. i \<in> set is \<Longrightarrow> D i \<le> N) \<Longrightarrow> i \<in> set is \<Longrightarrow> D i = N \<Longrightarrow> deepest D is = int N"
proof (rule antisym)
  assume "\<And>i. i \<in> set is \<Longrightarrow> D i \<le> N"
  then show "deepest D is \<le> int N" unfolding deepest_def by (intro fold_max_le) auto
qed (use deepest_ge [of i "is" D] in auto)

lemma roundTree_eq:
  assumes "\<forall>i \<in> set order. ends_after byID (D i) i"
  shows "roundTree byID order = Some (map (\<lambda>rn. \<lparr>RoundNumber = rn, RoundName = roundName (deepest D order - rn + 1),
     RoundMatches = map (\<lambda>i. bracketMatch i (the (byID i))) (filter (\<lambda>i. deepest D order - int (D i) + 1 = rn) order)\<rparr>)
     [1..deepest D order + 1])"
proof -
  have "memo_ok byID Map.empty" by (simp add: memo_ok_def)
  then obtain memo where m: "hopsLoop byID order (0, Map.empty) = Some (deepest D order, memo)"
    "\<forall>i \<in> set order. memo i = Some (int (D i))"
    unfolding deepest_def using hopsLoop_ends [OF assms, of Map.empty 0] by blast
  then show ?thesis by (simp add: roundTree_def Let_def rounds_fold [OF m(2)] roundMatches_def [of Map.empty])
qed

lemma roundTree_returns: "roundTree byID order = Some rs \<Longrightarrow> \<forall>i \<in> set order. \<exists>n. ends_after byID n i"
proof -
  assume "roundTree byID order = Some rs"
  then obtain r where "hopsLoop byID order (0, Map.empty) = Some r" by (auto simp: roundTree_def bind_eq_Some_conv)
  then show ?thesis by (rule hopsLoop_returns) (simp add: memo_ok_def)
qed

subsection \<open>The bracket is the rounds of the event's matches\<close>

lemma mset_filter_key:
  "distinct ks \<Longrightarrow> mset (concat (map (\<lambda>k. filter (\<lambda>x. f x = k) xs) ks)) = mset (filter (\<lambda>x. f x \<in> set ks) xs)"
proof (induction ks)
  case (Cons k ks)
  have "mset (filter (\<lambda>x. f x = k) xs) + mset (filter (\<lambda>x. f x \<in> set ks) xs) = mset (filter (\<lambda>x. f x \<in> set (k # ks)) xs)"
    using Cons.prems by (induction xs) auto
  then show ?case using Cons by simp
qed simp

definition eventRecs :: "db \<Rightarrow> uuid \<Rightarrow> uuid \<rightharpoonup> mrec" where
  "eventRecs d eventID = recMap (bracketRec d) (eventRows d eventID)"

lemma recMap_row: "distinct (map M_id rows) \<Longrightarrow> m \<in> set rows \<Longrightarrow> recMap rec rows (M_id m) = Some (rec m)"
  unfolding recMap_def by (rule map_of_is_SomeI) (auto simp: comp_def)

lemma distinct_eventRows: "db_wf d \<Longrightarrow> distinct (map M_id (eventRows d eventID))"
proof -
  assume "db_wf d"
  then have "distinct (map M_id (matches d))" by (simp add: db_wf_def)
  then have "distinct (map M_id (filter (\<lambda>m. M_event_id m = eventID) (matches d)))" by (rule distinct_map_filter)
  then show ?thesis unfolding eventRows_def by (simp add: distinct_map)
qed

lemma GetBracket_eq:
  assumes "List.find (\<lambda>e. E_id e = eventID) (events d) = Some e"
  shows "GetBracket d eventID = map_option (\<lambda>rounds. Inr \<lparr>BracketEvent = eventID, BracketFormat = E_format e,
      BracketRounds = rounds\<rparr>) (roundTree (eventRecs d eventID) (map M_id (eventRows d eventID)))"
  using assms by (simp add: GetBracket_def Let_def eventRecs_def)

text \<open>The rounds when the chain of match \<open>i\<close> ends after \<open>D i\<close> steps.\<close>

definition treeRounds :: "db \<Rightarrow> uuid \<Rightarrow> (uuid \<Rightarrow> nat) \<Rightarrow> bracket_round list" where
  "treeRounds d eventID D = (let order = map M_id (eventRows d eventID); top = deepest D order in
     map (\<lambda>rn. \<lparr>RoundNumber = rn, RoundName = roundName (top - rn + 1),
       RoundMatches = map (\<lambda>i. bracketMatch i (the (eventRecs d eventID i))) (filter (\<lambda>i. top - int (D i) + 1 = rn) order)\<rparr>)
     [1..top + 1])"

abbreviation chains_end :: "db \<Rightarrow> uuid \<Rightarrow> (uuid \<Rightarrow> nat) \<Rightarrow> bool" where
  "chains_end d eventID D \<equiv> \<forall>m \<in> set (eventRows d eventID). ends_after (eventRecs d eventID) (D (M_id m)) (M_id m)"

lemma GetBracket_tree:
  assumes "List.find (\<lambda>e. E_id e = eventID) (events d) = Some e" and "chains_end d eventID D"
  shows "GetBracket d eventID = Some (Inr \<lparr>BracketEvent = eventID, BracketFormat = E_format e,
    BracketRounds = treeRounds d eventID D\<rparr>)"
proof -
  have "\<forall>i \<in> set (map M_id (eventRows d eventID)). ends_after (eventRecs d eventID) (D i) i" using assms(2) by simp
  from roundTree_eq [OF this] show ?thesis by (simp add: GetBracket_eq [OF assms(1)] treeRounds_def Let_def)
qed

lemma GetBracket_returns:
  assumes "List.find (\<lambda>e. E_id e = eventID) (events d) = Some e" and "GetBracket d eventID = Some b"
  obtains D where "chains_end d eventID D"
proof -
  have "\<forall>i \<in> set (map M_id (eventRows d eventID)). \<exists>n. ends_after (eventRecs d eventID) n i"
    using assms(2) roundTree_returns [of "eventRecs d eventID" "map M_id (eventRows d eventID)"]
    by (auto simp: GetBracket_eq [OF assms(1)])
  then obtain D where "\<forall>i \<in> set (map M_id (eventRows d eventID)). ends_after (eventRecs d eventID) (D i) i" by metis
  then show ?thesis using that [of D] by simp
qed

lemma length_treeRounds: "int (length (treeRounds d eventID D)) = deepest D (map M_id (eventRows d eventID)) + 1"
  using deepest_nonneg [of D "map M_id (eventRows d eventID)"] by (simp add: treeRounds_def Let_def)

lemma treeRounds_nth:
  assumes "r < length (treeRounds d eventID D)"
  shows "RoundMatches (treeRounds d eventID D ! r) = map (\<lambda>i. bracketMatch i (the (eventRecs d eventID i)))
      (filter (\<lambda>i. deepest D (map M_id (eventRows d eventID)) - int (D i) = int r) (map M_id (eventRows d eventID)))"
    and "RoundName (treeRounds d eventID D ! r) = roundName (deepest D (map M_id (eventRows d eventID)) - int r)"
proof -
  let ?top = "deepest D (map M_id (eventRows d eventID))"
  have r: "int r < ?top + 1" using assms length_treeRounds [of d eventID D] by linarith
  have n: "[1..?top + 1] ! r = 1 + int r" by (rule nth_upto) (use r in simp)
  show "RoundMatches (treeRounds d eventID D ! r) = map (\<lambda>i. bracketMatch i (the (eventRecs d eventID i)))
      (filter (\<lambda>i. ?top - int (D i) = int r) (map M_id (eventRows d eventID)))"
    "RoundName (treeRounds d eventID D ! r) = roundName (?top - int r)"
    using r unfolding treeRounds_def Let_def by (simp_all only: nth_map length_upto length_map n) simp_all
qed

lemma eventRecs_row: "db_wf d \<Longrightarrow> m \<in> set (eventRows d eventID) \<Longrightarrow> eventRecs d eventID (M_id m) = Some (bracketRec d m)"
  unfolding eventRecs_def by (rule recMap_row [OF distinct_eventRows])

lemma treeRounds_partition:
  assumes "db_wf d"
  shows "mset (concat (map RoundMatches (treeRounds d eventID D)))
    = mset (map (\<lambda>m. bracketMatch (M_id m) (bracketRec d m)) (eventRows d eventID))"
proof -
  let ?order = "map M_id (eventRows d eventID)" and ?B = "\<lambda>i. bracketMatch i (the (eventRecs d eventID i))"
  let ?top = "deepest D ?order"
  have "concat (map RoundMatches (treeRounds d eventID D))
      = map ?B (concat (map (\<lambda>rn. filter (\<lambda>i. ?top - int (D i) + 1 = rn) ?order) [1..?top + 1]))"
    by (simp add: treeRounds_def Let_def map_concat comp_def)
  moreover have "filter (\<lambda>i. ?top - int (D i) + 1 \<in> set [1..?top + 1]) ?order = ?order"
    by (rule filter_True) (use deepest_ge [of _ ?order D] in auto)
  ultimately have "mset (concat (map RoundMatches (treeRounds d eventID D))) = mset (map ?B ?order)"
    using mset_filter_key [of "[1..?top + 1]" "\<lambda>i. ?top - int (D i) + 1" ?order] by (simp only: mset_map distinct_upto)
  also have "map ?B ?order = map (\<lambda>m. bracketMatch (M_id m) (bracketRec d m)) (eventRows d eventID)"
    using eventRecs_row [OF assms] by simp
  finally show ?thesis .
qed

lemma treeRounds_at:
  assumes "db_wf d" and "x \<in> set (eventRows d eventID)" and "r = length (treeRounds d eventID D) - 1 - D (M_id x)"
  shows "r < length (treeRounds d eventID D) \<and> D (M_id x) < length (treeRounds d eventID D)
    \<and> bracketMatch (M_id x) (bracketRec d x) \<in> set (RoundMatches (treeRounds d eventID D ! r))"
proof -
  have le: "int (D (M_id x)) \<le> deepest D (map M_id (eventRows d eventID))" using assms(2) by (intro deepest_ge) simp
  then have lt: "r < length (treeRounds d eventID D)" "D (M_id x) < length (treeRounds d eventID D)"
    using length_treeRounds [of d eventID D] assms(3) by linarith+
  moreover have "deepest D (map M_id (eventRows d eventID)) - int (D (M_id x)) = int r"
    using length_treeRounds [of d eventID D] assms(3) lt by linarith
  ultimately show ?thesis unfolding treeRounds_nth [OF lt(1)] using assms(2) eventRecs_row [OF assms(1,2)] by force
qed

lemma treeRounds_next:
  assumes "db_wf d" and "chains_end d eventID D" and "x \<in> set (eventRows d eventID)" and "y \<in> set (eventRows d eventID)"
    and "M_next_match_id x = Some (M_id y)"
  shows "\<exists>r. Suc r < length (treeRounds d eventID D)
    \<and> bracketMatch (M_id x) (bracketRec d x) \<in> set (RoundMatches (treeRounds d eventID D ! r))
    \<and> bracketMatch (M_id y) (bracketRec d y) \<in> set (RoundMatches (treeRounds d eventID D ! Suc r))"
proof -
  have "nextOf (eventRecs d eventID) (M_id x) = Some (M_id y)"
    using eventRecs_row [OF assms(1,3)] assms(5) by (simp add: nextOf_def bracketRec_def)
  moreover have "ends_after (eventRecs d eventID) (D (M_id x)) (M_id x)" using assms(2,3) by blast
  ultimately obtain n where n: "D (M_id x) = Suc n" "ends_after (eventRecs d eventID) n (M_id y)"
    by (cases "D (M_id x)") auto
  have "D (M_id y) = n" using n(2) assms(2,4) ends_after_unique by blast
  then show ?thesis
    using treeRounds_at [OF assms(1,3) refl, of D] treeRounds_at [OF assms(1,4) refl, of D] n(1)
    by (intro exI [of _ "length (treeRounds d eventID D) - 1 - D (M_id x)"]) (simp add: Suc_diff_Suc)
qed

text \<open>The rounds of a bracket. Reading an event's bracket returns exactly when every chain of next
  matches ends (on a cycle the recursion never returns). Then the rounds are numbered from 1, every
  match of the event is in exactly one round, with the data of its row, and the match a winner goes to
  stands in the round right after.\<close>

theorem GetBracket_rounds:
  assumes "db_wf d" and "List.find (\<lambda>e. E_id e = eventID) (events d) = Some e"
  shows "((\<exists>b. GetBracket d eventID = Some b)
      \<longleftrightarrow> (\<forall>m \<in> set (eventRows d eventID). \<exists>n. ends_after (eventRecs d eventID) n (M_id m)))
    \<and> (\<forall>b. GetBracket d eventID = Some (Inr b) \<longrightarrow>
        BracketFormat b = E_format e \<and> map RoundNumber (BracketRounds b) = [1..int (length (BracketRounds b))]
      \<and> mset (concat (map RoundMatches (BracketRounds b)))
          = mset (map (\<lambda>m. bracketMatch (M_id m) (bracketRec d m)) (eventRows d eventID))
      \<and> (\<forall>x \<in> set (eventRows d eventID). \<forall>y \<in> set (eventRows d eventID). M_next_match_id x = Some (M_id y) \<longrightarrow>
          (\<exists>r. Suc r < length (BracketRounds b)
             \<and> bracketMatch (M_id x) (bracketRec d x) \<in> set (RoundMatches (BracketRounds b ! r))
             \<and> bracketMatch (M_id y) (bracketRec d y) \<in> set (RoundMatches (BracketRounds b ! Suc r)))))"
proof -
  have A: "\<exists>D. chains_end d eventID D" if "\<forall>m \<in> set (eventRows d eventID). \<exists>n. ends_after (eventRecs d eventID) n (M_id m)"
  proof -
    have "\<exists>D. \<forall>i \<in> M_id ` set (eventRows d eventID). ends_after (eventRecs d eventID) (D i) i"
      by (rule bchoice) (use that in simp)
    then show ?thesis by auto
  qed
  have B: "BracketFormat b = E_format e \<and> map RoundNumber (BracketRounds b) = [1..int (length (BracketRounds b))]
      \<and> (\<exists>D. chains_end d eventID D \<and> BracketRounds b = treeRounds d eventID D)"
    if g: "GetBracket d eventID = Some (Inr b)" for b
  proof -
    obtain D where D: "chains_end d eventID D" using GetBracket_returns [OF assms(2) g] by blast
    have "map RoundNumber (treeRounds d eventID D) = [1..int (length (treeRounds d eventID D))]"
      unfolding length_treeRounds by (simp add: treeRounds_def Let_def comp_def)
    then show ?thesis using GetBracket_tree [OF assms(2) D] g D by auto
  qed
  have R: "(\<exists>b. GetBracket d eventID = Some b)
      \<longleftrightarrow> (\<forall>m \<in> set (eventRows d eventID). \<exists>n. ends_after (eventRecs d eventID) n (M_id m))"
  proof
    assume "\<exists>b. GetBracket d eventID = Some b"
    then show "\<forall>m \<in> set (eventRows d eventID). \<exists>n. ends_after (eventRecs d eventID) n (M_id m)"
      using GetBracket_returns [OF assms(2)] by metis
  next
    assume "\<forall>m \<in> set (eventRows d eventID). \<exists>n. ends_after (eventRecs d eventID) n (M_id m)"
    then show "\<exists>b. GetBracket d eventID = Some b" using A GetBracket_tree [OF assms(2)] by blast
  qed
  show ?thesis
    by (intro conjI allI impI R ballI; frule B; elim conjE exE; simp add: treeRounds_partition [OF assms(1)] treeRounds_next [OF assms(1)])
qed

subsection \<open>The bracket of a built draw\<close>

lemma eventRows_stored:
  assumes "draw_stored d eventID env ids ms"
  shows "eventRows d eventID = storedMatches eventID env ids ms"
proof -
  have "sorted (map M_match_no (storedMatches eventID env ids ms))"
    by (simp add: storedMatches_def comp_def sorted_iff_nth_mono)
  then show ?thesis
    using assms unfolding eventRows_def draw_stored_def by (simp add: sort_key_id_if_sorted)
qed

lemma storedMatches_nth:
  "i < length ms \<Longrightarrow> storedMatches ev env ids ms ! i = wiredRow ids (ms ! i) (newMatchRow ev env (ids ! i) i (ms ! i))"
  by (simp add: storedMatches_def)

definition toGo :: "dmatch list \<Rightarrow> uuid list \<Rightarrow> nat \<Rightarrow> uuid \<Rightarrow> nat" where
  "toGo ms ids R i = the (map_of (zip ids (map (\<lambda>m. R - Round m) ms)) i)"

lemma toGo_nth: "distinct ids \<Longrightarrow> length ids = length ms \<Longrightarrow> j < length ms \<Longrightarrow> toGo ms ids R (ids ! j) = R - Round (ms ! j)"
  unfolding toGo_def by (subst map_of_zip_nth) simp_all

lemma stored_chains_end:
  assumes st: "draw_stored d eventID env ids ms" and "progression_ok ms"
    and R: "\<And>j. j < length ms \<Longrightarrow> Round (ms ! j) \<le> R" and last: "Round (ms ! (length ms - 1)) = R"
  shows "chains_end d eventID (toGo ms ids R)"
proof -
  have ids: "distinct ids" "length ids = length ms" using st by (simp_all add: draw_stored_def)
  have rows: "eventRows d eventID = storedMatches eventID env ids ms" by (rule eventRows_stored [OF st])
  have dist: "distinct (map M_id (eventRows d eventID))" unfolding rows using ids by (simp add: map_M_id_stored)
  have nx: "nextOf (eventRecs d eventID) (ids ! j) = (if 0 \<le> NextMatchIdx (ms ! j) then Some (ids ! nat (NextMatchIdx (ms ! j))) else None)"
    if "j < length ms" for j
  proof -
    let ?m = "wiredRow ids (ms ! j) (newMatchRow eventID env (ids ! j) j (ms ! j))"
    have "?m \<in> set (eventRows d eventID)"
      unfolding rows storedMatches_def set_map by (rule image_eqI [of _ _ j]) (simp_all add: that)
    from recMap_row [OF dist this, of "bracketRec d"] have "eventRecs d eventID (ids ! j) = Some (bracketRec d ?m)"
      by (simp add: eventRecs_def)
    then show ?thesis by (simp add: nextOf_def bracketRec_def wiredRow_def)
  qed
  have "ends_after (eventRecs d eventID) (R - Round (ms ! j)) (ids ! j)" if "j < length ms" for j
    using that
  proof (induction "length ms - j" arbitrary: j rule: less_induct)
    case less
    note p = progression_next [OF assms(2) less.prems]
    show ?case
    proof (cases "j = length ms - 1")
      case True
      then have "NextMatchIdx (ms ! j) = -1" using p(1) by simp
      then show ?thesis using nx [OF less.prems] last True by simp
    next
      case False
      let ?k = "nat (NextMatchIdx (ms ! j))"
      have k: "j < ?k" "?k < length ms" "0 \<le> NextMatchIdx (ms ! j)" using p(2) [OF False] by linarith+
      have rk: "Round (ms ! ?k) = Suc (Round (ms ! j))" using assms(2) less.prems False unfolding progression_ok_def by blast
      have "ends_after (eventRecs d eventID) (R - Round (ms ! ?k)) (ids ! ?k)" using less.hyps [of ?k] k less.prems by simp
      moreover have "R - Round (ms ! j) = Suc (R - Round (ms ! ?k))" using R [OF k(2)] rk by simp
      ultimately show ?thesis using nx [OF less.prems] k(3) by simp
    qed
  qed
  then show ?thesis unfolding rows using ids by (auto simp: storedMatches_def toGo_nth)
qed

lemma stored_rounds:
  assumes st: "draw_stored d eventID env ids ms" and "progression_ok ms"
    and R: "\<And>j. j < length ms \<Longrightarrow> 1 \<le> Round (ms ! j) \<and> Round (ms ! j) \<le> R" and last: "Round (ms ! (length ms - 1)) = R"
    and one: "0 < length ms" "Round (ms ! 0) = 1" and r: "r < R"
  shows "length (treeRounds d eventID (toGo ms ids R)) = R
    \<and> map BkID (RoundMatches (treeRounds d eventID (toGo ms ids R) ! r))
        = map (\<lambda>j. ids ! j) (filter (\<lambda>j. Round (ms ! j) = Suc r) [0..<length ms])
    \<and> RoundName (treeRounds d eventID (toGo ms ids R) ! r) = roundName (int R - 1 - int r)"
proof -
  have ids: "distinct ids" "length ids = length ms" using st by (simp_all add: draw_stored_def)
  have order: "map M_id (eventRows d eventID) = ids" unfolding eventRows_stored [OF st] by (rule map_M_id_stored [OF ids(2)])
  have top: "deepest (toGo ms ids R) ids = int (R - 1)"
  proof (rule deepest_eqI)
    fix i assume "i \<in> set ids"
    then obtain j where "j < length ms" "i = ids ! j" using ids(2) by (auto simp: in_set_conv_nth)
    then show "toGo ms ids R i \<le> R - 1" using toGo_nth [OF ids] R [of j] by (simp add: diff_le_mono2)
  next
    show "ids ! 0 \<in> set ids" using one ids(2) by simp
    show "toGo ms ids R (ids ! 0) = R - 1" using toGo_nth [OF ids one(1)] one(2) by simp
  qed
  have len: "length (treeRounds d eventID (toGo ms ids R)) = R"
    using length_treeRounds [of d eventID "toGo ms ids R"] top order r by simp
  have idsj: "ids = map (\<lambda>j. ids ! j) [0..<length ms]" using ids(2) by (metis map_nth)
  have "filter (\<lambda>i. int (R - 1) - int (toGo ms ids R i) = int r) ids
      = map (\<lambda>j. ids ! j) (filter (\<lambda>j. int (R - 1) - int (toGo ms ids R (ids ! j)) = int r) [0..<length ms])"
    by (subst idsj) (simp add: filter_map comp_def)
  also have "filter (\<lambda>j. int (R - 1) - int (toGo ms ids R (ids ! j)) = int r) [0..<length ms]
      = filter (\<lambda>j. Round (ms ! j) = Suc r) [0..<length ms]"
  proof (rule filter_cong [OF refl])
    fix j assume "j \<in> set [0..<length ms]"
    then have j: "j < length ms" by simp
    show "(int (R - 1) - int (toGo ms ids R (ids ! j)) = int r) = (Round (ms ! j) = Suc r)"
      unfolding toGo_nth [OF ids j] using R [OF j] r by linarith
  qed
  finally show ?thesis
    using treeRounds_nth [of r d eventID "toGo ms ids R"] len r
    by (simp add: top order comp_def bracketMatch_def of_nat_diff)
qed

lemma stored_built:
  assumes "db_wf d" and "Build eventID orgID ps d = Inr (n, d')"
  obtains env ids e where "cleanPairs ps \<noteq> []" and "draw_stored d' eventID env ids (GenerateFromPairs ps)"
    and "List.find (\<lambda>e. E_id e = eventID) (events d') = Some e" and "E_format e = ''single_elim''"
proof -
  obtain env ids d1 where ne: "cleanPairs ps \<noteq> []" and st: "draw_stored d1 eventID env ids (GenerateFromPairs ps)"
    and d': "d' = d1\<lparr>events := update_where (\<lambda>e. E_id e = eventID) (\<lambda>e. e\<lparr>E_pairing_mode := ''manual''\<rparr>) (events d1)\<rparr>"
    and ev: "events d1 = events d"
    using Build_Inr [OF assms] by metis
  have ds: "draw_stored d' eventID env ids (GenerateFromPairs ps)" unfolding d' draw_stored_events by (rule st)
  obtain e t where e: "eventTournament d eventID = Some (e, t)" "E_format e = ''single_elim''"
    using Build_checked [OF assms(2)] unfolding may_edit_def by blast
  then have f: "List.find (\<lambda>e. E_id e = eventID) (events d) = Some e"
    by (auto simp: eventTournament_def split: option.splits)
  have "List.find (\<lambda>e. E_id e = eventID) (events d') = Some (e\<lparr>E_pairing_mode := ''manual''\<rparr>)"
    using find_Some_in [OF f] by (simp add: d' ev find_update_where f)
  then show ?thesis using that [OF ne ds] e(2) by simp
qed


subsection \<open>Witnesses\<close>

theorem GetBracket_rounds_witness: "\<exists>b. GetBracket group_db 3 = Some b"
proof -
  have "List.find (\<lambda>e. E_id e = 3) (events group_db) = Some (hd (events (sample_db ''group_knockout'')))"
    by (simp add: group_db_sel) (simp add: sample_db_def)
  note g = conjunct1 [OF GetBracket_rounds [OF group_db_wf this]]
  have "ends_after (eventRecs group_db 3) 0 (M_id m)" if "m \<in> set (eventRows group_db 3)" for m
  proof -
    have "m \<in> set (matches group_db)" using that by (simp add: eventRows_def)
    then have "M_next_match_id m = None" by (auto simp: group_db_sel)
    then show ?thesis using eventRecs_row [OF group_db_wf that] by (simp add: nextOf_def bracketRec_def)
  qed
  then show ?thesis unfolding g by blast
qed


end
