(* ===== verification/GoText.thy ===== *)
theory GoText
  imports DrawStore
begin

section \<open>Text helpers and slugs\<close>

text \<open>
  Go strings are byte strings. \<open>trimSpace\<close> is \<open>strings.TrimSpace\<close> over the UTF-8 encodings of
  the white-space runes; a multi-byte encoding matched as a prefix or suffix is the rune Go
  decodes there. \<open>toLower\<close> is \<open>strings.ToLower\<close> as far as a slug can see it: ASCII letters, and
  the two other runes with an ASCII lower case (U+212A and U+0130); any other rune stays outside
  ASCII, and its bytes are kept.

  Then the three slug functions: event.Slugify and buildSlug (internal/event/slug.go),
  tournament.slugify (internal/tournament/service.go) and platform.slugify
  (internal/platform/service.go). The accent foldAccents of golang.org/x/text is the parameter
  \<open>foldAccents\<close> of the first two; \<open>None\<close> is its error.
\<close>

subsection \<open>strings.TrimSpace\<close>

definition spaceBytes :: "string list" where
  "spaceBytes = map (\<lambda>c. [c]) (map char_of [9::nat, 10, 11, 12, 13, 32])
     @ map (map char_of) ([[0xC2::nat, 0x85], [0xC2, 0xA0], [0xE1, 0x9A, 0x80]]
       @ map (\<lambda>b. [0xE2, 0x80, b]) ([0x80..<0x8B] @ [0xA8, 0xA9, 0xAF])
       @ [[0xE2, 0x81, 0x9F], [0xE3, 0x80, 0x80]])"

definition cutOne :: "string list \<Rightarrow> string \<Rightarrow> string option" where
  "cutOne ws s = map_option (\<lambda>w. drop (length w) s) (List.find (\<lambda>w. w \<noteq> [] \<and> take (length w) s = w) ws)"

lemma cutOne_shorter: "cutOne ws s = Some r \<Longrightarrow> length r < length s"
  by (cases s) (auto simp: cutOne_def find_Some_iff)

function trimBy :: "string list \<Rightarrow> string \<Rightarrow> string" where
  "trimBy ws s = (case cutOne ws s of None \<Rightarrow> s | Some r \<Rightarrow> trimBy ws r)"
  by pat_completeness auto
termination by (relation "measure (length \<circ> snd)") (auto dest: cutOne_shorter)

declare trimBy.simps [simp del]

definition trimSpace :: "string \<Rightarrow> string" where
  "trimSpace s = rev (trimBy (map rev spaceBytes) (rev (trimBy spaceBytes s)))"

text \<open>A text that begins and ends with a printable ASCII byte is trimmed already.\<close>

definition inkByte :: "char \<Rightarrow> bool" where
  "inkByte c \<longleftrightarrow> 33 \<le> (of_char c :: nat) \<and> (of_char c :: nat) < 127"

lemma spaceBytes_no_ink: "w \<in> set spaceBytes \<Longrightarrow> c \<in> set w \<Longrightarrow> \<not> inkByte c"
  by (auto simp: spaceBytes_def inkByte_def)

lemma trimBy_ink:
  assumes "\<forall>w \<in> set ws. \<forall>c \<in> set w. \<not> inkByte c" and "s \<noteq> []" and "inkByte (hd s)"
  shows "trimBy ws s = s"
proof -
  have "\<not> (w \<noteq> [] \<and> take (length w) s = w)" if "w \<in> set ws" for w
    using assms that by (cases s; cases w) auto
  then have "cutOne ws s = None" by (auto simp: cutOne_def find_None_iff)
  then show ?thesis by (simp add: trimBy.simps [of ws s])
qed

lemma trimSpace_ink: "s \<noteq> [] \<Longrightarrow> inkByte (hd s) \<Longrightarrow> inkByte (last s) \<Longrightarrow> trimSpace s = s"
  using trimBy_ink [of spaceBytes s] trimBy_ink [of "map rev spaceBytes" "rev s"] spaceBytes_no_ink
  by (force simp: trimSpace_def hd_rev)

subsection \<open>strings.ToLower\<close>

definition kelvinSign :: string where
  "kelvinSign = map char_of [0xE2::nat, 0x84, 0xAA]"

definition dottedI :: string where
  "dottedI = map char_of [0xC4::nat, 0xB0]"

definition lowerByte :: "char \<Rightarrow> char" where
  "lowerByte c = (let n = of_char c :: nat in if 65 \<le> n \<and> n \<le> 90 then char_of (n + 32) else c)"

fun toLower :: "string \<Rightarrow> string" where
  "toLower [] = []"
| "toLower (c # s) =
     (if take 3 (c # s) = kelvinSign then CHR ''k'' # toLower (drop 2 s)
      else if take 2 (c # s) = dottedI then CHR ''i'' # toLower (drop 1 s)
      else lowerByte c # toLower s)"

subsection \<open>Slugs\<close>

definition slugChar :: "char \<Rightarrow> bool" where
  "slugChar c = (let n = of_char c :: nat in (97 \<le> n \<and> n \<le> 122) \<or> (48 \<le> n \<and> n \<le> 57))"

definition slugStep :: "char \<Rightarrow> string \<times> bool \<Rightarrow> string \<times> bool" where
  "slugStep c st = (case st of (b, lastDash) \<Rightarrow>
     if slugChar c then (b @ [c], False) else if \<not> lastDash then (b @ ''-'', True) else (b, lastDash))"

definition trimSuffix :: "string \<Rightarrow> char \<Rightarrow> string" where
  "trimSuffix s c = (if s \<noteq> [] \<and> last s = c then butlast s else s)"

definition Slugify :: "(string \<Rightarrow> string option) \<Rightarrow> string \<Rightarrow> string" where
  "Slugify foldAccents s = trimSuffix (fst (fold slugStep
     (toLower (case foldAccents s of None \<Rightarrow> s | Some f \<Rightarrow> f)) ([], True))) (CHR ''-'')"

definition reservedSlugs :: "string list" where
  "reservedSlugs = [''schedule'', ''players'', ''participants'', ''matches'', ''bracket'', ''groups'',
     ''about'', ''admin'', ''api'']"

definition slugCandidates :: "(string \<Rightarrow> string option) \<Rightarrow> string \<Rightarrow> string \<Rightarrow> string \<Rightarrow> string list" where
  "slugCandidates foldAccents base name category =
     (if category \<noteq> [] then
        let q = Slugify foldAccents (name @ '' '' @ category) in if q \<noteq> [] \<and> q \<noteq> base then [base, q] else [base]
      else [base])"

definition slugFree :: "(string \<Rightarrow> bool) \<Rightarrow> string \<Rightarrow> bool" where
  "slugFree taken c \<longleftrightarrow> \<not> taken c \<and> c \<notin> set reservedSlugs"

partial_function (option) numberedSlug :: "(string \<Rightarrow> bool) \<Rightarrow> string \<Rightarrow> int \<Rightarrow> string option" where
  "numberedSlug taken base n =
     (let c = base @ ''-'' @ dec n in if slugFree taken c then Some c else numberedSlug taken base (n + 1))"

definition buildSlug :: "(string \<Rightarrow> string option) \<Rightarrow> string \<Rightarrow> string \<Rightarrow> (string \<Rightarrow> bool) \<Rightarrow> string option" where
  "buildSlug foldAccents name category taken =
     (let base = Slugify foldAccents name; base = (if base = [] then ''division'' else base)
      in case List.find (slugFree taken) (slugCandidates foldAccents base name category) of
           Some c \<Rightarrow> Some c
         | None \<Rightarrow> numberedSlug taken base 2)"

text \<open>\<open>nonSlug.ReplaceAllString(s, "-")\<close> and \<open>strings.Trim(s, "-")\<close>.\<close>

fun replaceRuns :: "bool \<Rightarrow> string \<Rightarrow> string" where
  "replaceRuns inRun [] = []"
| "replaceRuns inRun (c # s) =
     (if slugChar c then c # replaceRuns False s
      else if inRun then replaceRuns True s else CHR ''-'' # replaceRuns True s)"

definition trimDash :: "string \<Rightarrow> string" where
  "trimDash s = rev (dropWhile (\<lambda>c. c = CHR ''-'') (rev (dropWhile (\<lambda>c. c = CHR ''-'') s)))"

definition platformSlugify :: "string \<Rightarrow> string" where
  "platformSlugify s = trimDash (replaceRuns False (toLower (trimSpace s)))"

definition tournamentSlugify :: "string \<Rightarrow> string" where
  "tournamentSlugify s = (let s = trimDash (replaceRuns False (toLower (trimSpace s)))
     in if s = [] then ''tournament'' else s)"

subsection \<open>The three functions join the words of a name\<close>

text \<open>The maximal runs of slug characters, as the reference for the three implementations.\<close>

fun slugWords :: "string \<Rightarrow> string list" where
  "slugWords [] = []"
| "slugWords (c # s) =
     (if \<not> slugChar c then slugWords s
      else case s of
        [] \<Rightarrow> [[c]]
      | c' # _ \<Rightarrow> if slugChar c' then (case slugWords s of [] \<Rightarrow> [[c]] | w # ws \<Rightarrow> (c # w) # ws)
          else [c] # slugWords s)"

fun joinDash :: "string list \<Rightarrow> string" where
  "joinDash [] = []"
| "joinDash [w] = w"
| "joinDash (w # ws) = w @ CHR ''-'' # joinDash ws"

lemma dash_not_slugChar [simp]: "\<not> slugChar (CHR ''-'')"
  by (simp add: slugChar_def)

lemma slugWords_ne: "slugChar c \<Longrightarrow> slugWords (c # s) \<noteq> []"
  by (auto split: list.splits)

lemma slugWords_cons:
  "slugChar c \<Longrightarrow> slugWords (c # s) =
     (if s \<noteq> [] \<and> slugChar (hd s) then (c # hd (slugWords s)) # tl (slugWords s) else [c] # slugWords s)"
  using slugWords_ne by (auto split: list.splits)

lemma slugWords_skip: "\<not> slugChar c \<Longrightarrow> slugWords (c # s) = slugWords s"
  by simp

declare slugWords.simps(2) [simp del]

lemma slugWords_ok: "\<forall>w \<in> set (slugWords s). w \<noteq> [] \<and> (\<forall>c \<in> set w. slugChar c)"
proof (induction s)
  case (Cons c s)
  show ?case
  proof (cases "slugChar c \<and> s \<noteq> [] \<and> slugChar (hd s)")
    case True
    then have "slugWords s \<noteq> []" using slugWords_ne [of "hd s" "tl s"] by simp
    then have "hd (slugWords s) \<in> set (slugWords s)" "set (tl (slugWords s)) \<subseteq> set (slugWords s)"
      by (auto dest: list.set_sel(2))
    then show ?thesis using True Cons by (auto simp: slugWords_cons)
  next
    case False
    then show ?thesis using Cons by (cases "slugChar c") (auto simp: slugWords_cons slugWords_skip)
  qed
qed simp

lemma slugWords_none: "slugWords s = [] \<Longrightarrow> s \<noteq> [] \<Longrightarrow> \<not> slugChar (last s)"
proof (induction s)
  case (Cons c s)
  then have "\<not> slugChar c" using slugWords_ne by blast
  then show ?case using Cons by (cases "s = []") (auto simp: slugWords_skip)
qed simp

lemma joinDash_cons: "joinDash (w # ws) = w @ (if ws = [] then [] else CHR ''-'' # joinDash ws)"
  by (cases ws) auto

lemma joinDash_cons_head: "ws \<noteq> [] \<Longrightarrow> joinDash ((c # hd ws) # tl ws) = c # joinDash ws"
  by (cases ws; cases "tl ws") (auto simp: joinDash_cons)

text \<open>One pass of a replacement that suppresses a second dash in a row.\<close>

lemma fold_slugStep:
  "fst (fold slugStep s (b, lastDash)) = b @ replaceRuns lastDash s"
  by (induction s arbitrary: b lastDash) (auto simp: slugStep_def)

lemma replaceRuns_words:
  "replaceRuns r s = (if slugWords s = [] then (if r \<or> s = [] then [] else ''-'')
     else (if r \<or> slugChar (hd s) then [] else ''-'') @ joinDash (slugWords s)
       @ (if slugChar (last s) then [] else ''-''))"
proof (induction s arbitrary: r)
  case Nil
  then show ?case by simp
next
  case (Cons c s)
  show ?case
  proof (cases "slugChar c")
    case False
    then show ?thesis using Cons.IH by (auto simp: slugWords_skip)
  next
    case True
    show ?thesis
    proof (cases "s = []")
      case True
      then show ?thesis using \<open>slugChar c\<close> by (simp add: slugWords_cons)
    next
      case s: False
      show ?thesis
      proof (cases "slugChar (hd s)")
        case True
        then have ne: "slugWords s \<noteq> []" using s slugWords_ne [of "hd s" "tl s"] by (cases s) simp_all
        have "slugWords (c # s) = (c # hd (slugWords s)) # tl (slugWords s)"
          using slugWords_cons [OF \<open>slugChar c\<close>, of s] s True by simp
        then show ?thesis using Cons.IH [of False] ne s True \<open>slugChar c\<close>
          by (simp add: joinDash_cons_head)
      next
        case False
        have "slugWords (c # s) = [c] # slugWords s"
          using slugWords_cons [OF \<open>slugChar c\<close>, of s] False by simp
        moreover have "slugWords s = [] \<Longrightarrow> \<not> slugChar (last s)"
          using slugWords_none s by blast
        ultimately show ?thesis using Cons.IH [of False] s False \<open>slugChar c\<close>
          by (auto simp: joinDash_cons)
      qed
    qed
  qed
qed

lemma joinDash_ends:
  assumes "ws \<noteq> []" and "\<forall>w \<in> set ws. w \<noteq> [] \<and> (\<forall>c \<in> set w. slugChar c)"
  shows "joinDash ws \<noteq> []" and "slugChar (hd (joinDash ws))" and "slugChar (last (joinDash ws))"
proof -
  have "joinDash ws \<noteq> [] \<and> slugChar (hd (joinDash ws)) \<and> slugChar (last (joinDash ws))"
    using assms
  proof (induction ws)
    case (Cons w ws)
    then show ?case by (cases "ws = []") (auto simp: joinDash_cons)
  qed simp
  then show "joinDash ws \<noteq> []" "slugChar (hd (joinDash ws))" "slugChar (last (joinDash ws))" by blast+
qed

lemma slugChar_not_dash: "slugChar c \<Longrightarrow> c \<noteq> CHR ''-''"
  by auto

lemma trimSuffix_runs: "trimSuffix (replaceRuns True s) (CHR ''-'') = joinDash (slugWords s)"
proof (cases "slugWords s = []")
  case False
  then show ?thesis using joinDash_ends [OF False slugWords_ok]
    by (auto simp: replaceRuns_words trimSuffix_def butlast_append dest: slugChar_not_dash)
qed (simp add: replaceRuns_words trimSuffix_def)

lemma dropWhile_dash: "w = [] \<or> w = ''-'' \<Longrightarrow> x \<noteq> [] \<Longrightarrow> hd x \<noteq> CHR ''-''
    \<Longrightarrow> dropWhile (\<lambda>c. c = CHR ''-'') (w @ x) = x"
  by (cases x) auto

lemma trimDash_runs: "trimDash (replaceRuns False s) = joinDash (slugWords s)"
proof (cases "slugWords s = []")
  case False
  let ?j = "joinDash (slugWords s)"
  let ?a = "if slugChar (hd s) then [] else ''-''" and ?b = "if slugChar (last s) then [] else ''-''"
  have e: "?j \<noteq> []" "hd ?j \<noteq> CHR ''-''" "last ?j \<noteq> CHR ''-''"
    using joinDash_ends [OF False slugWords_ok] by (auto dest: slugChar_not_dash)
  have "replaceRuns False s = ?a @ ?j @ ?b" using False by (simp add: replaceRuns_words)
  moreover have "dropWhile (\<lambda>c. c = CHR ''-'') (?a @ ?j @ ?b) = ?j @ ?b"
    using e by (intro dropWhile_dash) auto
  moreover have "dropWhile (\<lambda>c. c = CHR ''-'') (rev ?b @ rev ?j) = rev ?j"
    using e by (intro dropWhile_dash) (auto simp: hd_rev)
  ultimately show ?thesis by (simp add: trimDash_def)
qed (simp add: replaceRuns_words trimDash_def)

lemma Slugify_eq:
  "Slugify foldAccents s = joinDash (slugWords (toLower (case foldAccents s of None \<Rightarrow> s | Some f \<Rightarrow> f)))"
  by (simp add: Slugify_def fold_slugStep trimSuffix_runs)

text \<open>Surrounding white space holds no slug character, so \<open>TrimSpace\<close> does not change the words.\<close>

lemma slugWords_prefix: "\<forall>c \<in> set a. \<not> slugChar c \<Longrightarrow> slugWords (a @ s) = slugWords s"
  by (induction a) (simp_all add: slugWords_skip)

lemma slugWords_suffix: "\<forall>c \<in> set a. \<not> slugChar c \<Longrightarrow> slugWords (s @ a) = slugWords s"
proof (induction s)
  case Nil
  then show ?case using slugWords_prefix [of a "[]"] by simp
next
  case (Cons c s)
  have "slugChar (hd (s @ a)) \<and> s @ a \<noteq> [] \<longleftrightarrow> slugChar (hd s) \<and> s \<noteq> []"
    using Cons.prems by (cases s; cases a) auto
  then show ?case using Cons by (cases "slugChar c") (auto simp: slugWords_cons slugWords_skip)
qed

lemma toLower_append:
  assumes "w = [] \<or> hd w \<notin> {char_of (0x84 :: nat), char_of (0xAA :: nat), char_of (0xB0 :: nat)}"
  shows "toLower (s @ w) = toLower s @ toLower w"
  using assms
proof (induction s rule: toLower.induct)
  case (2 c s)
  have k: "take 3 (c # s @ w) = kelvinSign \<longleftrightarrow> take 3 (c # s) = kelvinSign"
    using 2(4) by (cases s; cases w; cases "tl s"; cases "tl w") (auto simp: kelvinSign_def numeral_eq_Suc)
  have i: "take 2 (c # s @ w) = dottedI \<longleftrightarrow> take 2 (c # s) = dottedI"
    using 2(4) by (cases s; cases w) (auto simp: dottedI_def numeral_eq_Suc)
  have "take 3 (c # s) = kelvinSign \<Longrightarrow> 2 \<le> length s" "take 2 (c # s) = dottedI \<Longrightarrow> 1 \<le> length s"
    by (auto simp: kelvinSign_def dottedI_def numeral_eq_Suc dest!: arg_cong [of _ _ length])
  then show ?case using 2 k i by auto
qed simp

definition quietBytes :: "string \<Rightarrow> bool" where
  "quietBytes w \<longleftrightarrow> (\<forall>c \<in> set w. \<not> slugChar c) \<and> toLower w = w \<and> (\<forall>s. toLower (w @ s) = w @ toLower s)
     \<and> hd w \<notin> {char_of (0x84 :: nat), char_of (0xAA :: nat), char_of (0xB0 :: nat)}"

lemma toLower_step:
  assumes "of_char c \<noteq> (0xE2 :: nat) \<or> s = [] \<or> of_char (hd s) \<noteq> (0x84 :: nat)" and "of_char c \<noteq> (0xC4 :: nat)"
  shows "toLower (c # s) = lowerByte c # toLower s"
proof -
  have "take 3 (c # s) \<noteq> kelvinSign" "take 2 (c # s) \<noteq> dottedI"
    using assms by (cases s; auto simp: kelvinSign_def dottedI_def)+
  then show ?thesis by (simp del: take_Suc_Cons)
qed

lemma quietBytes_multi:
  assumes "\<forall>c \<in> set (a # w). 128 \<le> (of_char c :: nat)" and "of_char a \<noteq> (0x84 :: nat)"
    and "of_char a \<noteq> (0xAA :: nat)" and "of_char a \<noteq> (0xB0 :: nat)" and "of_char a \<noteq> (0xC4 :: nat)"
    and "of_char a = (0xE2 :: nat) \<longrightarrow> w \<noteq> [] \<and> of_char (hd w) \<noteq> (0x84 :: nat)"
    and "\<forall>c \<in> set w. of_char c \<noteq> (0xE2 :: nat) \<and> of_char c \<noteq> (0xC4 :: nat)"
  shows "quietBytes (a # w)"
proof -
  have low: "lowerByte c = c" if "128 \<le> (of_char c :: nat)" for c using that by (simp add: lowerByte_def Let_def)
  have w: "toLower (v @ s) = v @ toLower s" if "set v \<subseteq> set w" for v s
    using that by (induction v) (use assms(1,7) in \<open>simp_all add: toLower_step low del: toLower.simps(2)\<close>)
  have all: "toLower ((a # w) @ s) = (a # w) @ toLower s" for s
    using toLower_step [of a "w @ s"] w [of w s] assms(1,5,6) low by (cases w) auto
  moreover have "\<forall>c \<in> set (a # w). \<not> slugChar c" using assms(1) by (fastforce simp: slugChar_def Let_def)
  ultimately show ?thesis using all [of "[]"] assms(2-4) by (auto simp: quietBytes_def simp del: toLower.simps(2))
qed

lemma quietBytes_ascii:
  assumes "of_char c < (48 :: nat)"
  shows "quietBytes [c]"
proof -
  have "toLower (c # s) = c # toLower s" for s
    using assms by (subst toLower_step) (auto simp: lowerByte_def Let_def)
  then show ?thesis using assms by (auto simp: quietBytes_def slugChar_def Let_def simp del: toLower.simps(2))
qed

lemma spaceBytes_quiet: "w \<in> set spaceBytes \<Longrightarrow> quietBytes w"
  by (auto simp: spaceBytes_def intro!: quietBytes_multi quietBytes_ascii)

lemma cutOne_Some:
  assumes "cutOne ws s = Some r"
  obtains w where "w \<in> set ws" and "s = w @ r"
proof -
  obtain w where "List.find (\<lambda>w. w \<noteq> [] \<and> take (length w) s = w) ws = Some w" and "r = drop (length w) s"
    using assms by (auto simp: cutOne_def)
  then have "w \<in> set ws" "take (length w) s = w" "r = drop (length w) s"
    by (auto simp: find_Some_iff)
  then show thesis using that [of w] by (metis append_take_drop_id)
qed

lemma trim_left_words: "slugWords (toLower (trimBy spaceBytes s)) = slugWords (toLower s)"
proof (induction "length s" arbitrary: s rule: less_induct)
  case less
  show ?case
  proof (cases "cutOne spaceBytes s")
    case None
    then show ?thesis by (simp add: trimBy.simps [of _ s])
  next
    case (Some r)
    then obtain w where w: "w \<in> set spaceBytes" "s = w @ r" by (rule cutOne_Some)
    then have "quietBytes w" using spaceBytes_quiet by blast
    then have "slugWords (toLower s) = slugWords (toLower r)"
      using w by (simp add: quietBytes_def slugWords_prefix)
    then show ?thesis using less [of r] cutOne_shorter [OF Some] Some by (simp add: trimBy.simps [of _ s])
  qed
qed

lemma trim_right_words:
  "slugWords (toLower (rev (trimBy (map rev spaceBytes) s))) = slugWords (toLower (rev s))"
proof (induction "length s" arbitrary: s rule: less_induct)
  case less
  show ?case
  proof (cases "cutOne (map rev spaceBytes) s")
    case None
    then show ?thesis by (simp add: trimBy.simps [of _ s])
  next
    case (Some r)
    then obtain v where "v \<in> set (map rev spaceBytes)" "s = v @ r" by (rule cutOne_Some)
    then obtain w where w: "w \<in> set spaceBytes" "rev s = rev r @ w" by auto
    then have "quietBytes w" using spaceBytes_quiet by blast
    then have "slugWords (toLower (rev s)) = slugWords (toLower (rev r))"
      using w by (simp add: quietBytes_def toLower_append slugWords_suffix)
    then show ?thesis using less [of r] cutOne_shorter [OF Some] Some by (simp add: trimBy.simps [of _ s])
  qed
qed

lemma trimSpace_words: "slugWords (toLower (trimSpace s)) = slugWords (toLower s)"
  by (simp add: trimSpace_def trim_right_words trim_left_words)

lemma platformSlugify_eq: "platformSlugify s = joinDash (slugWords (toLower s))"
  by (simp add: platformSlugify_def trimDash_runs trimSpace_words)

lemma tournamentSlugify_eq: "tournamentSlugify s = (if platformSlugify s = [] then ''tournament'' else platformSlugify s)"
  by (simp add: tournamentSlugify_def platformSlugify_def Let_def)

text \<open>A slug: words of \<open>[a-z0-9]\<close> joined by single dashes.\<close>

definition isSlug :: "string \<Rightarrow> bool" where
  "isSlug s \<longleftrightarrow> slugWords s \<noteq> [] \<and> joinDash (slugWords s) = s"

lemma slugWords_word: "w \<noteq> [] \<Longrightarrow> \<forall>c \<in> set w. slugChar c \<Longrightarrow> s = [] \<or> \<not> slugChar (hd s) \<Longrightarrow> slugWords (w @ s) = w # slugWords s"
proof (induction w)
  case (Cons c w)
  then show ?case by (cases w) (auto simp: slugWords_cons)
qed simp

lemma slugWords_join:
  assumes "\<forall>w \<in> set ws. w \<noteq> [] \<and> (\<forall>c \<in> set w. slugChar c)"
  shows "slugWords (joinDash ws) = ws"
  using assms
proof (induction ws)
  case (Cons w ws)
  then show ?case
    using slugWords_word [of w "[]"] slugWords_word [of w "CHR ''-'' # joinDash ws"]
    by (cases "ws = []") (auto simp: joinDash_cons slugWords_skip)
qed simp

lemma joinDash_isSlug: "joinDash (slugWords s) = [] \<or> isSlug (joinDash (slugWords s))"
  using joinDash_ends(1) [OF _ slugWords_ok] by (auto simp: isSlug_def slugWords_join slugWords_ok)

lemma isSlug_not_empty [simp]: "\<not> isSlug []"
  by (simp add: isSlug_def)

lemma slug_toLower: "\<forall>c \<in> set s. slugChar c \<or> c = CHR ''-'' \<Longrightarrow> toLower s = s"
proof (induction s)
  case (Cons c s)
  then have c: "slugChar c \<or> c = CHR ''-''" by simp
  then have "of_char c \<noteq> (0xE2 :: nat)" "of_char c \<noteq> (0xC4 :: nat)" "lowerByte c = c"
    by (auto simp: slugChar_def lowerByte_def Let_def)
  then show ?case using Cons by (simp add: toLower_step del: toLower.simps(2))
qed simp

lemma joinDash_chars: "c \<in> set (joinDash ws) \<Longrightarrow> (\<exists>w \<in> set ws. c \<in> set w) \<or> c = CHR ''-''"
  by (induction ws rule: joinDash.induct) auto

lemma isSlug_join: "ws \<noteq> [] \<Longrightarrow> \<forall>w \<in> set ws. w \<noteq> [] \<and> (\<forall>c \<in> set w. slugChar c) \<Longrightarrow> isSlug (joinDash ws)"
  by (simp add: isSlug_def slugWords_join)

lemma isSlug_word: "w \<noteq> [] \<Longrightarrow> \<forall>c \<in> set w. slugChar c \<Longrightarrow> isSlug w"
  using isSlug_join [of "[w]"] by simp

lemma joinDash_snoc: "ws \<noteq> [] \<Longrightarrow> joinDash (ws @ [w]) = joinDash ws @ CHR ''-'' # w"
  by (induction ws) (auto simp: joinDash_cons)

lemma isSlug_append: "isSlug b \<Longrightarrow> isSlug w \<Longrightarrow> slugWords w = [w] \<Longrightarrow> isSlug (b @ ''-'' @ w)"
  using isSlug_join [of "slugWords b @ [w]"] slugWords_ok [of b] slugWords_ok [of w]
  by (auto simp: isSlug_def joinDash_snoc)

lemma dec_nat_digits: "dec_nat n \<noteq> [] \<and> (\<forall>c \<in> set (dec_nat n). slugChar c)"
proof (induction n rule: dec_nat.induct)
  case (1 n)
  have "slugChar (char_of (48 + k))" if "k < 10" for k :: nat using that by (simp add: slugChar_def of_char_of)
  then show ?case using 1 by (subst (1 2) dec_nat.simps) auto
qed

lemma isSlug_numbered: "isSlug b \<Longrightarrow> 0 \<le> n \<Longrightarrow> isSlug (b @ ''-'' @ dec n)"
  using dec_nat_digits [of "nat n"] slugWords_word [of "dec_nat (nat n)" "[]"]
    isSlug_append [of b "dec_nat (nat n)"] isSlug_word [of "dec_nat (nat n)"]
  by (simp add: dec_def)

lemma isSlug_toLower: "isSlug s \<Longrightarrow> toLower s = s"
  using joinDash_chars [of _ "slugWords s"] slugWords_ok [of s]
  by (intro slug_toLower) (metis isSlug_def)

lemma platformSlugify_slug: "isSlug s \<Longrightarrow> platformSlugify s = s"
  by (simp add: platformSlugify_eq isSlug_toLower) (simp add: isSlug_def)

text \<open>The three slug functions of the event, tournament and platform packages, written with a
  rune loop and with a regular expression, compute the same text: the maximal runs of letters and
  digits of the lower-cased name, joined by single dashes. The result is empty (the tournament
  package then says \<open>tournament\<close>) or a slug, and slugifying it again changes nothing.\<close>

theorem slugs_agree:
  "platformSlugify s = joinDash (slugWords (toLower s))
   \<and> Slugify foldAccents s = platformSlugify (case foldAccents s of None \<Rightarrow> s | Some f \<Rightarrow> f)
   \<and> tournamentSlugify s = (if platformSlugify s = [] then ''tournament'' else platformSlugify s)
   \<and> platformSlugify s \<in> insert [] {t. isSlug t} \<and> isSlug (tournamentSlugify s)
   \<and> platformSlugify (platformSlugify s) = platformSlugify s"
proof -
  have e: "platformSlugify s \<in> insert [] {t. isSlug t}"
    using joinDash_isSlug [of "toLower s"] by (simp add: platformSlugify_eq)
  have "isSlug ''tournament''" by (rule isSlug_word) (auto simp: slugChar_def)
  moreover have "platformSlugify [] = []" by (simp add: platformSlugify_eq)
  ultimately show ?thesis using e platformSlugify_slug [of "platformSlugify s"]
    by (auto simp: platformSlugify_eq Slugify_eq tournamentSlugify_eq)
qed

subsection \<open>A free slug is found\<close>

lemma numberedSlug_search:
  assumes "slugFree taken (base @ ''-'' @ dec (n + int k))"
    and "\<forall>j < k. \<not> slugFree taken (base @ ''-'' @ dec (n + int j))"
  shows "numberedSlug taken base n = Some (base @ ''-'' @ dec (n + int k))"
  using assms
proof (induction k arbitrary: n)
  case 0
  then show ?case by (simp add: numberedSlug.simps [of _ _ n] Let_def)
next
  case (Suc k)
  have "numberedSlug taken base (n + 1) = Some (base @ ''-'' @ dec (n + 1 + int k))"
  proof (rule Suc.IH)
    show "slugFree taken (base @ ''-'' @ dec (n + 1 + int k))" using Suc.prems(1) by (simp add: algebra_simps)
    show "\<forall>j<k. \<not> slugFree taken (base @ ''-'' @ dec (n + 1 + int j))"
    proof (intro allI impI)
      fix j assume "j < k"
      then show "\<not> slugFree taken (base @ ''-'' @ dec (n + 1 + int j))"
        using Suc.prems(2) [rule_format, of "Suc j"] by (simp add: algebra_simps)
    qed
  qed
  moreover have "\<not> slugFree taken (base @ ''-'' @ dec n)" using Suc.prems(2) by (auto dest: spec [of _ 0])
  ultimately show ?case by (simp add: numberedSlug.simps [of _ _ n] Let_def algebra_simps)
qed

lemma numberedSlug_total:
  assumes "finite {c. taken c}" and "0 \<le> n"
  obtains k where "numberedSlug taken base n = Some (base @ ''-'' @ dec (n + int k))"
    and "slugFree taken (base @ ''-'' @ dec (n + int k))"
    and "\<forall>j < k. \<not> slugFree taken (base @ ''-'' @ dec (n + int j))"
proof -
  let ?c = "\<lambda>j. base @ ''-'' @ dec (n + int j)"
  have "inj ?c" using \<open>0 \<le> n\<close> by (intro injI) (auto simp: dec_def dest!: inj_dec_nat)
  then have "infinite (range ?c)" using finite_imageD infinite_UNIV_nat by blast
  moreover have "finite ({c. taken c} \<union> set reservedSlugs)" using assms(1) by simp
  ultimately have "\<not> range ?c \<subseteq> {c. taken c} \<union> set reservedSlugs" using finite_subset by blast
  then obtain j where "slugFree taken (?c j)" by (auto simp: slugFree_def)
  define k where "k = (LEAST j. slugFree taken (?c j))"
  have f: "slugFree taken (?c k)" unfolding k_def by (rule LeastI) fact
  moreover have "\<forall>j < k. \<not> slugFree taken (?c j)" unfolding k_def using not_less_Least by blast
  ultimately show thesis using that [OF numberedSlug_search] by blast
qed

definition slugBase :: "(string \<Rightarrow> string option) \<Rightarrow> string \<Rightarrow> string" where
  "slugBase foldAccents name = (if Slugify foldAccents name = [] then ''division'' else Slugify foldAccents name)"

lemma Slugify_isSlug: "Slugify foldAccents s \<noteq> [] \<Longrightarrow> isSlug (Slugify foldAccents s)"
  using joinDash_isSlug by (auto simp: Slugify_eq)

lemma slugBase_isSlug: "isSlug (slugBase foldAccents name)"
proof -
  have "isSlug ''division''" by (rule isSlug_word) (auto simp: slugChar_def)
  then show ?thesis using Slugify_isSlug by (simp add: slugBase_def)
qed

lemma buildSlug_free:
  assumes "finite {c. taken c}"
  shows "\<exists>c. buildSlug foldAccents name category taken = Some c \<and> slugFree taken c \<and> isSlug c
    \<and> (slugFree taken (slugBase foldAccents name) \<longrightarrow> c = slugBase foldAccents name)"
proof -
  let ?base = "slugBase foldAccents name"
  let ?cs = "slugCandidates foldAccents ?base name category"
  have cs: "isSlug c" if "c \<in> set ?cs" for c
    using that slugBase_isSlug Slugify_isSlug by (auto simp: slugCandidates_def Let_def split: if_splits)
  have h: "?cs = ?base # tl ?cs" by (auto simp: slugCandidates_def Let_def)
  show ?thesis
  proof (cases "List.find (slugFree taken) ?cs")
    case None
    then have "\<not> slugFree taken ?base" by (subst (asm) h) (auto split: if_splits)
    moreover obtain k where "numberedSlug taken ?base 2 = Some (?base @ ''-'' @ dec (2 + int k))"
      "slugFree taken (?base @ ''-'' @ dec (2 + int k))"
      using numberedSlug_total [OF assms, of 2 ?base] by auto
    ultimately show ?thesis using None isSlug_numbered [OF slugBase_isSlug]
      by (auto simp: buildSlug_def Let_def slugBase_def [symmetric])
  next
    case (Some c)
    then have "slugFree taken c" "c \<in> set ?cs" by (auto simp: find_Some_iff)
    moreover have "slugFree taken ?base \<Longrightarrow> c = ?base" using Some by (subst (asm) h) auto
    ultimately show ?thesis using Some cs by (auto simp: buildSlug_def Let_def slugBase_def [symmetric])
  qed
qed

text \<open>C26. However a division is named, buildSlug finds a slug when finitely many are taken: its
  loop ends, and the slug is well-formed, not taken and not a reserved path segment. It is the plain
  name whenever that one is free.\<close>

theorem buildSlug_finds_free:
  assumes "finite {c. taken c}"
  shows "\<exists>c. buildSlug foldAccents name category taken = Some c \<and> \<not> taken c \<and> c \<notin> set reservedSlugs \<and> isSlug c
    \<and> (slugFree taken (slugBase foldAccents name) \<longrightarrow> c = slugBase foldAccents name)"
  using buildSlug_free [OF assms] by (simp add: slugFree_def)

theorem buildSlug_finds_free_witness:
  "\<exists>c. buildSlug (\<lambda>_. None) ''Bracket'' [] (\<lambda>c. c = ''bracket-2'') = Some c \<and> c \<noteq> ''bracket-2''
     \<and> c \<noteq> ''bracket'' \<and> isSlug c"
proof -
  have "finite {c. c = ''bracket-2''}" by simp
  from buildSlug_finds_free [where taken = "\<lambda>c. c = ''bracket-2''", OF this, of "\<lambda>_. None" "''Bracket''" "[]"]
  show ?thesis by (auto simp: reservedSlugs_def)
qed

end
