(* ===== verification/Schedule.thy ===== *)
theory Schedule
  imports MatchOps GoText
begin

section \<open>Courts and the order of play (internal/schedule)\<close>

text \<open>
  Courts, schedule slots and their conflict rules. Every slot write runs under the per-tournament
  advisory lock in one transaction, so an operation is one step. The constraints of the table
  (00010_schedule_conflicts.sql) are those of \<open>slotConstraints\<close>. \<open>uuid.Parse\<close> and \<open>time.Parse\<close>
  are arguments of the service operations. Times are nanoseconds; the database keeps microseconds,
  which is not modelled.
\<close>

record conflict =
  CfType :: string
  CfSlotID :: uuid
  CfCourtID :: uuid
  CfCourtName :: string
  CfMatchID :: "uuid option"
  CfMatchLabel :: "string option"
  CfStartsAt :: gotime
  CfEndsAt :: gotime

datatype sched_error = SchedNotFound | SchedForbidden | SchedStateConflict
  | SchedConflicts "conflict list" "conflict list" | SchedInvalid string | SchedInternal

definition restBuffer :: int where
  "restBuffer = 30 * 60 * 10 ^ 9"

record court_view =
  CtID :: uuid
  CtName :: string
  CtSortOrder :: int

record sched_slot =
  SsID :: uuid
  SsCourtID :: uuid
  SsCourtName :: string
  SsMatchID :: "uuid option"
  SsMatchLabel :: "string option"
  SsEventID :: "uuid option"
  SsEventName :: "string option"
  SsMatchStatus :: "string option"
  SsStartsAt :: gotime
  SsEndsAt :: gotime

record slot_write =
  WrSlot :: "uuid option"
  WrTournament :: uuid
  WrCourt :: uuid
  WrMatch :: "uuid option"
  WrStarts :: gotime
  WrEnds :: gotime
  WrOverrideRest :: bool
  WrActor :: uuid
  WrOrg :: uuid

subsection \<open>Reads\<close>

definition findTournament :: "db \<Rightarrow> uuid \<Rightarrow> tournament_row option" where
  "findTournament d tid = List.find (\<lambda>t. T_id t = tid) (tournaments d)"

definition TournamentSlugPublished :: "db \<Rightarrow> uuid \<Rightarrow> sched_error + string \<times> bool" where
  "TournamentSlugPublished d tid = (case findTournament d tid of
     None \<Rightarrow> Inl SchedNotFound | Some t \<Rightarrow> Inr (T_slug t, T_status t = ''published''))"

definition TournamentOrg :: "db \<Rightarrow> uuid \<Rightarrow> sched_error + uuid" where
  "TournamentOrg d tid = (case findTournament d tid of None \<Rightarrow> Inl SchedNotFound | Some t \<Rightarrow> Inr (T_org_id t))"

definition findSlot :: "db \<Rightarrow> uuid \<Rightarrow> schedule_row option" where
  "findSlot d sid = List.find (\<lambda>s. Sl_id s = sid) (schedule_slots d)"

definition SlotTournamentOrg :: "db \<Rightarrow> uuid \<Rightarrow> sched_error + uuid" where
  "SlotTournamentOrg d sid = (case findSlot d sid of
     None \<Rightarrow> Inl SchedNotFound | Some s \<Rightarrow> TournamentOrg d (Sl_tournament_id s))"

definition PublishedTournamentBySlug :: "db \<Rightarrow> string \<Rightarrow> sched_error + uuid" where
  "PublishedTournamentBySlug d slug =
     (case List.find (\<lambda>t. T_slug t = slug \<and> T_status t = ''published'') (tournaments d) of
        None \<Rightarrow> Inl SchedNotFound | Some t \<Rightarrow> Inr (T_id t))"

text \<open>\<open>string_agg(p.display_name, ' vs ' ORDER BY mp.slot)\<close>: NULL names do not count.\<close>

fun joinVs :: "string list \<Rightarrow> string" where
  "joinVs [] = []"
| "joinVs [n] = n"
| "joinVs (n # ns) = n @ '' vs '' @ joinVs ns"

definition matchLabel :: "db \<Rightarrow> uuid option \<Rightarrow> string option" where
  "matchLabel d m = (case m of
     None \<Rightarrow> None
   | Some mid \<Rightarrow>
       let names = List.map_filter (\<lambda>s. map_option P_display_name (participantOf d (S_participant_id s))) (slotsOf d mid)
       in if names = [] then None else Some (joinVs names))"

definition courtOf :: "db \<Rightarrow> uuid \<Rightarrow> court_row option" where
  "courtOf d cid = List.find (\<lambda>c. C_id c = cid) (courts d)"

definition courtView :: "court_row \<Rightarrow> court_view" where
  "courtView c = \<lparr>CtID = C_id c, CtName = C_name c, CtSortOrder = C_sort_order c\<rparr>"

definition listCourts :: "db \<Rightarrow> uuid \<Rightarrow> court_view list" where
  "listCourts d tid = map courtView (sort_key C_sort_order (sort_key (\<lambda>c. Collation d (C_name c))
     (filter (\<lambda>c. \<exists>v \<in> set (venues d). V_id v = C_venue_id c \<and> V_tournament_id v = tid) (courts d))))"

definition slotEvent :: "db \<Rightarrow> schedule_row \<Rightarrow> event_row option" where
  "slotEvent d s = Option.bind (Option.bind (Sl_match_id s) (findMatch d))
     (\<lambda>m. List.find (\<lambda>e. E_id e = M_event_id m) (events d))"

definition listSlots :: "db \<Rightarrow> uuid \<Rightarrow> bool \<Rightarrow> sched_slot list" where
  "listSlots d tid publicOnly =
     (let rows = concat (map (\<lambda>s. case courtOf d (Sl_court_id s) of None \<Rightarrow> [] | Some c \<Rightarrow> [(s, c)])
            (filter (\<lambda>s. Sl_tournament_id s = tid
               \<and> (publicOnly \<longrightarrow> Sl_match_id s \<noteq> None \<and> (\<exists>e. slotEvent d s = Some e \<and> E_is_public e)))
             (schedule_slots d)))
      in map (\<lambda>(s, c). \<lparr>SsID = Sl_id s, SsCourtID = Sl_court_id s, SsCourtName = C_name c, SsMatchID = Sl_match_id s,
            SsMatchLabel = matchLabel d (Sl_match_id s),
            SsEventID = map_option M_event_id (Option.bind (Sl_match_id s) (findMatch d)),
            SsEventName = map_option (\<lambda>e. case E_public_display_name e of Some n \<Rightarrow> n | None \<Rightarrow> E_name e) (slotEvent d s),
            SsMatchStatus = map_option M_status (Option.bind (Sl_match_id s) (findMatch d)),
            SsStartsAt = Sl_starts_at s, SsEndsAt = Sl_ends_at s\<rparr>)
          (sort_key (\<lambda>(s, c). Sl_starts_at s) (sort_key (\<lambda>(s, c). C_sort_order c) rows)))"

definition getSlot :: "db \<Rightarrow> uuid \<Rightarrow> sched_error + sched_slot" where
  "getSlot d sid = (case findSlot d sid of
     None \<Rightarrow> Inl SchedNotFound
   | Some s \<Rightarrow> (case courtOf d (Sl_court_id s) of
       None \<Rightarrow> Inl SchedNotFound
     | Some c \<Rightarrow> Inr \<lparr>SsID = Sl_id s, SsCourtID = Sl_court_id s, SsCourtName = C_name c, SsMatchID = Sl_match_id s,
         SsMatchLabel = matchLabel d (Sl_match_id s), SsEventID = None, SsEventName = None, SsMatchStatus = None,
         SsStartsAt = Sl_starts_at s, SsEndsAt = Sl_ends_at s\<rparr>))"

subsection \<open>Courts\<close>

definition int4 :: "int \<Rightarrow> bool" where
  "int4 n \<longleftrightarrow> - (2 ^ 31) \<le> n \<and> n < 2 ^ 31"

definition defaultVenue :: "uuid \<Rightarrow> db \<Rightarrow> uuid \<times> db" where
  "defaultVenue tid d = (case sort_key V_id (filter (\<lambda>v. V_tournament_id v = tid) (venues d)) of
     v # _ \<Rightarrow> (V_id v, d)
   | [] \<Rightarrow> let (i, d) = gen_random_uuid d
       in (i, d\<lparr>venues := venues d @ [\<lparr>V_id = i, V_tournament_id = tid, V_name = ''Main Venue''\<rparr>]\<rparr>))"

definition createCourt :: "uuid \<Rightarrow> string \<Rightarrow> int \<Rightarrow> db \<Rightarrow> sched_error + court_view \<times> db" where
  "createCourt tid name sortOrder d =
     (if \<not> int4 sortOrder then Inl SchedInternal else
      let (venueID, d) = defaultVenue tid d; (i, d) = gen_random_uuid d;
          c = \<lparr>C_id = i, C_venue_id = venueID, C_name = name, C_sort_order = sortOrder\<rparr>
      in Inr (courtView c, d\<lparr>courts := courts d @ [c]\<rparr>))"

subsection \<open>Conflicts\<close>

text \<open>\<open>tstzrange(a, b, '[)') && tstzrange(c, e, '[)')\<close> on ranges that are not reversed.\<close>

definition rangesOverlap :: "gotime \<Rightarrow> gotime \<Rightarrow> gotime \<Rightarrow> gotime \<Rightarrow> bool" where
  "rangesOverlap a b c e \<longleftrightarrow> a < b \<and> c < e \<and> a < e \<and> c < b"

definition scanConflicts :: "db \<Rightarrow> string \<Rightarrow> schedule_row list \<Rightarrow> conflict list" where
  "scanConflicts d typ rows = concat (map (\<lambda>s. case courtOf d (Sl_court_id s) of
     None \<Rightarrow> []
   | Some c \<Rightarrow> [\<lparr>CfType = typ, CfSlotID = Sl_id s, CfCourtID = Sl_court_id s, CfCourtName = C_name c,
       CfMatchID = Sl_match_id s, CfMatchLabel = matchLabel d (Sl_match_id s),
       CfStartsAt = Sl_starts_at s, CfEndsAt = Sl_ends_at s\<rparr>]) rows)"

definition courtClash :: "slot_write \<Rightarrow> schedule_row \<Rightarrow> bool" where
  "courtClash w s \<longleftrightarrow> Sl_court_id s = WrCourt w \<and> WrSlot w \<noteq> Some (Sl_id s)
     \<and> rangesOverlap (Sl_starts_at s) (Sl_ends_at s) (WrStarts w) (WrEnds w)"

definition playersOf :: "db \<Rightarrow> uuid \<Rightarrow> uuid set" where
  "playersOf d mid = {p. \<exists>s \<in> set (match_participants d). S_match_id s = mid \<and> S_participant_id s = Some p}"

definition sharesPlayer :: "db \<Rightarrow> uuid \<Rightarrow> uuid \<Rightarrow> bool" where
  "sharesPlayer d mid mid2 \<longleftrightarrow> (\<exists>s \<in> set (match_participants d). S_match_id s = mid \<and> S_participant_id s \<noteq> None
     \<and> (\<exists>s2 \<in> set (match_participants d). S_match_id s2 = mid2 \<and> S_participant_id s2 = S_participant_id s))"

definition openMatch :: "db \<Rightarrow> uuid \<Rightarrow> bool" where
  "openMatch d mid \<longleftrightarrow> (\<exists>m \<in> set (matches d). M_id m = mid \<and> undecided m)"

definition pairCandidate :: "db \<Rightarrow> slot_write \<Rightarrow> uuid \<Rightarrow> schedule_row \<Rightarrow> bool" where
  "pairCandidate d w mid s \<longleftrightarrow> WrSlot w \<noteq> Some (Sl_id s)
     \<and> (\<exists>mid2. Sl_match_id s = Some mid2 \<and> openMatch d mid2 \<and> sharesPlayer d mid mid2)
     \<and> rangesOverlap (Sl_starts_at s) (Sl_ends_at s) (WrStarts w - restBuffer) (WrEnds w + restBuffer)"

definition classify :: "slot_write \<Rightarrow> conflict \<Rightarrow> conflict list \<times> conflict list \<Rightarrow> conflict list \<times> conflict list" where
  "classify w cf hr = (case hr of (hard, rest) \<Rightarrow>
     if CfStartsAt cf < WrEnds w \<and> WrStarts w < CfEndsAt cf
     then (hard @ [cf\<lparr>CfType := ''participant_overlap''\<rparr>], rest)
     else (hard, rest @ [cf\<lparr>CfType := ''rest_buffer''\<rparr>]))"

definition validateSlotWrite :: "db \<Rightarrow> slot_write \<Rightarrow> sched_error option" where
  "validateSlotWrite d w =
     (let hard = scanConflicts d ''court_overlap'' (sort_key Sl_starts_at (filter (courtClash w) (schedule_slots d)));
          (hard, rest) = (case WrMatch w of
              None \<Rightarrow> (hard, [])
            | Some mid \<Rightarrow> fold (classify w)
                (scanConflicts d [] (sort_key Sl_starts_at (filter (pairCandidate d w mid) (schedule_slots d)))) (hard, []))
      in if length hard > 0 \<or> (length rest > 0 \<and> \<not> WrOverrideRest w) then Some (SchedConflicts hard rest) else None)"

subsection \<open>Writing and deleting slots\<close>

text \<open>The table's CHECK, its exclusion constraint, then the foreign keys.\<close>

definition slotConstraints :: "db \<Rightarrow> schedule_row \<Rightarrow> sched_error option" where
  "slotConstraints d row =
     (if \<not> Sl_starts_at row < Sl_ends_at row then Some SchedInternal
      else if \<exists>s \<in> set (schedule_slots d). Sl_id s \<noteq> Sl_id row \<and> Sl_court_id s = Sl_court_id row
         \<and> rangesOverlap (Sl_starts_at s) (Sl_ends_at s) (Sl_starts_at row) (Sl_ends_at row) then Some SchedStateConflict
      else if findTournament d (Sl_tournament_id row) = None \<or> courtOf d (Sl_court_id row) = None
         \<or> (\<exists>mid. Sl_match_id row = Some mid \<and> findMatch d mid = None) then Some SchedInternal
      else None)"

definition unstampMatch :: "match_row \<Rightarrow> match_row" where
  "unstampMatch m = m\<lparr>M_scheduled_at := None, M_court_id := None,
     M_status := (if M_status m = ''scheduled'' then ''pending'' else M_status m)\<rparr>"

definition stampMatch :: "gotime \<Rightarrow> uuid \<Rightarrow> match_row \<Rightarrow> match_row" where
  "stampMatch startsAt courtID m = m\<lparr>M_scheduled_at := Some startsAt, M_court_id := Some courtID,
     M_status := (if M_status m = ''pending'' then ''scheduled'' else M_status m)\<rparr>"

definition updateMatch :: "uuid \<Rightarrow> (match_row \<Rightarrow> match_row) \<Rightarrow> db \<Rightarrow> db" where
  "updateMatch mid f d = d\<lparr>matches := update_where (\<lambda>m. M_id m = mid) f (matches d)\<rparr>"

definition slotFields :: "uuid \<Rightarrow> uuid option \<Rightarrow> gotime \<Rightarrow> gotime \<Rightarrow> diffval" where
  "slotFields courtID matchID startsAt endsAt = DObj [(''court_id'', DUuid courtID), (''match_id'', uuidPtrStr matchID),
     (''starts_at'', DTime startsAt), (''ends_at'', DTime endsAt)]"

definition writeEntry :: "slot_write \<Rightarrow> schedule_row option \<Rightarrow> uuid \<Rightarrow> audit_entry" where
  "writeEntry w old slotID = entry_zero\<lparr>ActorUserID := WrActor w, OrgID := Some (WrOrg w), TournamentID := Some (WrTournament w),
     Action := (if WrSlot w = None then ''schedule.slot.create'' else ''schedule.slot.update''),
     TargetType := ''schedule_slot'', TargetID := uuid_str slotID,
     Diff := Some [(''before'', (case old of None \<Rightarrow> DNull
            | Some s \<Rightarrow> slotFields (Sl_court_id s) (Sl_match_id s) (Sl_starts_at s) (Sl_ends_at s))),
       (''after'', slotFields (WrCourt w) (WrMatch w) (WrStarts w) (WrEnds w)),
       (''rest_override'', DBool (WrOverrideRest w))]\<rparr>"

definition storeSlot :: "slot_write \<Rightarrow> db \<Rightarrow> sched_error + uuid \<times> db" where
  "storeSlot w d = (case WrSlot w of
     None \<Rightarrow>
       let (i, d) = gen_random_uuid d;
           row = \<lparr>Sl_id = i, Sl_tournament_id = WrTournament w, Sl_court_id = WrCourt w, Sl_match_id = WrMatch w,
             Sl_starts_at = WrStarts w, Sl_ends_at = WrEnds w\<rparr>
       in (case slotConstraints d row of
             Some e \<Rightarrow> Inl e | None \<Rightarrow> Inr (i, d\<lparr>schedule_slots := schedule_slots d @ [row]\<rparr>))
   | Some i \<Rightarrow> (case findSlot d i of
       None \<Rightarrow> Inr (i, d)
     | Some s \<Rightarrow>
         let row = s\<lparr>Sl_court_id := WrCourt w, Sl_match_id := WrMatch w, Sl_starts_at := WrStarts w, Sl_ends_at := WrEnds w\<rparr>
         in (case slotConstraints d row of
               Some e \<Rightarrow> Inl e
             | None \<Rightarrow> Inr (i, d\<lparr>schedule_slots := update_where (\<lambda>s. Sl_id s = i) (\<lambda>_. row) (schedule_slots d)\<rparr>))))"

definition restamp :: "slot_write \<Rightarrow> schedule_row option \<Rightarrow> db \<Rightarrow> db" where
  "restamp w old d =
     (let d = (case Option.bind old Sl_match_id of
           None \<Rightarrow> d | Some prev \<Rightarrow> if WrMatch w \<noteq> Some prev then updateMatch prev unstampMatch d else d)
      in case WrMatch w of None \<Rightarrow> d | Some mid \<Rightarrow> updateMatch mid (stampMatch (WrStarts w) (WrCourt w)) d)"

definition WriteSlot :: "ctx \<Rightarrow> slot_write \<Rightarrow> db \<Rightarrow> sched_error + sched_slot \<times> db" where
  "WriteSlot ctx w d =
     (let old = Option.bind (WrSlot w) (findSlot d) in
      if WrSlot w \<noteq> None \<and> old = None then Inl SchedNotFound
      else case validateSlotWrite d w of
        Some e \<Rightarrow> Inl e
      | None \<Rightarrow> (case storeSlot w d of
          Inl e \<Rightarrow> Inl e
        | Inr (slotID, d) \<Rightarrow>
            let d = RecordTx ctx (writeEntry w old slotID) (restamp w old d)
            in (case getSlot d slotID of Inl e \<Rightarrow> Inl e | Inr s \<Rightarrow> Inr (s, d))))"

definition deleteSlotRow :: "ctx \<Rightarrow> uuid \<Rightarrow> uuid \<Rightarrow> uuid \<Rightarrow> db \<Rightarrow> sched_error + uuid \<times> db" where
  "deleteSlotRow ctx sid actor orgID d = (case findSlot d sid of
     None \<Rightarrow> Inl SchedNotFound
   | Some s \<Rightarrow>
       let d = d\<lparr>schedule_slots := delete_where (\<lambda>r. Sl_id r = sid) (schedule_slots d)\<rparr>;
           d = (case Sl_match_id s of
               None \<Rightarrow> d
             | Some mid \<Rightarrow> if \<exists>r \<in> set (schedule_slots d). Sl_match_id r = Some mid then d
                 else updateMatch mid unstampMatch d)
       in Inr (Sl_tournament_id s, RecordTx ctx (entry_zero\<lparr>ActorUserID := actor, OrgID := Some orgID,
            TournamentID := Some (Sl_tournament_id s), Action := ''schedule.slot.delete'', TargetType := ''schedule_slot'',
            TargetID := uuid_str sid, Diff := Some [(''before'', slotFields (Sl_court_id s) (Sl_match_id s)
              (Sl_starts_at s) (Sl_ends_at s))]\<rparr>) d))"

subsection \<open>The service (service.go)\<close>

record create_court_request =
  CcName :: string
  CcSortOrder :: int

record update_slot_request =
  RqCourtID :: string
  RqMatchID :: "string option"
  RqStartsAt :: string
  RqEndsAt :: string
  RqOverrideRestBuffer :: bool

record create_slot_request = update_slot_request +
  RqTournamentID :: string

definition authorizeTournament :: "db \<Rightarrow> uuid \<Rightarrow> uuid option \<Rightarrow> sched_error + unit" where
  "authorizeTournament d tid orgID = (case TournamentOrg d tid of
     Inl e \<Rightarrow> Inl e | Inr own \<Rightarrow> if foreignOrg orgID own then Inl SchedForbidden else Inr ())"

definition ListCourts :: "db \<Rightarrow> uuid \<Rightarrow> uuid option \<Rightarrow> sched_error + court_view list" where
  "ListCourts d tid orgID = (case authorizeTournament d tid orgID of Inl e \<Rightarrow> Inl e | Inr _ \<Rightarrow> Inr (listCourts d tid))"

definition CreateCourt :: "uuid \<Rightarrow> uuid option \<Rightarrow> create_court_request \<Rightarrow> db \<Rightarrow> sched_error + court_view \<times> db" where
  "CreateCourt tid orgID req d = (case authorizeTournament d tid orgID of
     Inl e \<Rightarrow> Inl e | Inr _ \<Rightarrow> createCourt tid (trimSpace (CcName req)) (CcSortOrder req) d)"

definition ListSlots :: "db \<Rightarrow> uuid \<Rightarrow> uuid option \<Rightarrow> sched_error + sched_slot list" where
  "ListSlots d tid orgID = (case authorizeTournament d tid orgID of Inl e \<Rightarrow> Inl e | Inr _ \<Rightarrow> Inr (listSlots d tid False))"

definition ListPublicSlots :: "db \<Rightarrow> string \<Rightarrow> sched_error + sched_slot list" where
  "ListPublicSlots d slug = (case PublishedTournamentBySlug d slug of
     Inl e \<Rightarrow> Inl e | Inr tid \<Rightarrow> Inr (listSlots d tid True))"

text \<open>\<open>uuid.Parse\<close> and \<open>time.Parse(time.RFC3339, _)\<close> are the first two arguments.\<close>

definition parseSlotFields ::
  "(string \<Rightarrow> uuid option) \<Rightarrow> (string \<Rightarrow> gotime option) \<Rightarrow> string \<Rightarrow> string option \<Rightarrow> string \<Rightarrow> string
   \<Rightarrow> sched_error + uuid \<times> uuid option \<times> gotime \<times> gotime" where
  "parseSlotFields parseUUID parseTime courtID matchID startsAt endsAt =
     (case parseUUID courtID of
        None \<Rightarrow> Inl (SchedInvalid ''invalid court_id'')
      | Some cid \<Rightarrow>
          (case (if matchID \<noteq> None \<and> matchID \<noteq> Some [] then map_option Some (parseUUID (the matchID)) else Some None) of
             None \<Rightarrow> Inl (SchedInvalid ''invalid match_id'')
           | Some mid \<Rightarrow>
               (case parseTime startsAt of
                  None \<Rightarrow> Inl (SchedInvalid ''starts_at must be RFC3339'')
                | Some starts \<Rightarrow>
                    (case parseTime endsAt of
                       None \<Rightarrow> Inl (SchedInvalid ''ends_at must be RFC3339'')
                     | Some ends \<Rightarrow> if \<not> starts < ends then Inl (SchedInvalid ''ends_at must be after starts_at'')
                         else Inr (cid, mid, starts, ends)))))"

definition broadcastSlug :: "db \<Rightarrow> uuid \<Rightarrow> string" where
  "broadcastSlug d tid = (case TournamentSlugPublished d tid of
     Inl _ \<Rightarrow> [] | Inr (slug, published) \<Rightarrow> if \<not> published then [] else slug)"

definition CreateSlot ::
  "(string \<Rightarrow> uuid option) \<Rightarrow> (string \<Rightarrow> gotime option) \<Rightarrow> ctx \<Rightarrow> uuid \<Rightarrow> uuid option \<Rightarrow> create_slot_request
   \<Rightarrow> db \<Rightarrow> sched_error + (sched_slot \<times> string) \<times> db" where
  "CreateSlot parseUUID parseTime ctx actor orgID req d =
     (case parseUUID (RqTournamentID req) of
        None \<Rightarrow> Inl (SchedInvalid ''invalid tournament_id'')
      | Some tid \<Rightarrow> (case TournamentOrg d tid of
          Inl e \<Rightarrow> Inl e
        | Inr own \<Rightarrow>
            if foreignOrg orgID own then Inl SchedForbidden
            else (case parseSlotFields parseUUID parseTime (RqCourtID req) (RqMatchID req) (RqStartsAt req) (RqEndsAt req) of
                Inl e \<Rightarrow> Inl e
              | Inr (courtID, matchID, starts, ends) \<Rightarrow>
                  (case WriteSlot ctx \<lparr>WrSlot = None, WrTournament = tid, WrCourt = courtID, WrMatch = matchID,
                      WrStarts = starts, WrEnds = ends, WrOverrideRest = RqOverrideRestBuffer req,
                      WrActor = actor, WrOrg = own\<rparr> d of
                     Inl e \<Rightarrow> Inl e
                   | Inr (slot, d) \<Rightarrow> Inr ((slot, broadcastSlug d tid), d)))))"

definition UpdateSlot ::
  "(string \<Rightarrow> uuid option) \<Rightarrow> (string \<Rightarrow> gotime option) \<Rightarrow> ctx \<Rightarrow> uuid \<Rightarrow> uuid \<Rightarrow> uuid option \<Rightarrow> update_slot_request
   \<Rightarrow> db \<Rightarrow> sched_error + (sched_slot \<times> string) \<times> db" where
  "UpdateSlot parseUUID parseTime ctx slotID actor orgID req d =
     (case SlotTournamentOrg d slotID of
        Inl e \<Rightarrow> Inl e
      | Inr own \<Rightarrow>
          if foreignOrg orgID own then Inl SchedForbidden
          else (case map_option Sl_tournament_id (findSlot d slotID) of
              None \<Rightarrow> Inl SchedNotFound
            | Some tid \<Rightarrow>
                (case parseSlotFields parseUUID parseTime (RqCourtID req) (RqMatchID req) (RqStartsAt req) (RqEndsAt req) of
                   Inl e \<Rightarrow> Inl e
                 | Inr (courtID, matchID, starts, ends) \<Rightarrow>
                     (case WriteSlot ctx \<lparr>WrSlot = Some slotID, WrTournament = tid, WrCourt = courtID, WrMatch = matchID,
                         WrStarts = starts, WrEnds = ends, WrOverrideRest = RqOverrideRestBuffer req,
                         WrActor = actor, WrOrg = own\<rparr> d of
                        Inl e \<Rightarrow> Inl e
                      | Inr (slot, d) \<Rightarrow> Inr ((slot, broadcastSlug d tid), d)))))"

definition DeleteSlot :: "ctx \<Rightarrow> uuid \<Rightarrow> uuid \<Rightarrow> uuid option \<Rightarrow> db \<Rightarrow> sched_error + string \<times> db" where
  "DeleteSlot ctx slotID actor orgID d =
     (case SlotTournamentOrg d slotID of
        Inl e \<Rightarrow> Inl e
      | Inr own \<Rightarrow>
          if foreignOrg orgID own then Inl SchedForbidden
          else (case deleteSlotRow ctx slotID actor own d of
              Inl e \<Rightarrow> Inl e
            | Inr (tid, d) \<Rightarrow> Inr (broadcastSlug d tid, d)))"

subsection \<open>The conflicts of a write\<close>

text \<open>The stored order of play: its ids, its CHECK and its foreign keys.\<close>

definition sched_wf :: "db \<Rightarrow> bool" where
  "sched_wf d \<longleftrightarrow> fresh_supply d \<and> distinct (map Sl_id (schedule_slots d))
     \<and> (\<forall>s \<in> set (schedule_slots d). Sl_starts_at s < Sl_ends_at s \<and> findTournament d (Sl_tournament_id s) \<noteq> None
          \<and> courtOf d (Sl_court_id s) \<noteq> None \<and> (\<forall>m. Sl_match_id s = Some m \<longrightarrow> findMatch d m \<noteq> None))"

lemma sched_wfD:
  assumes "sched_wf d"
  shows "fresh_supply d" and "distinct (map Sl_id (schedule_slots d))"
    and "s \<in> set (schedule_slots d) \<Longrightarrow> Sl_starts_at s < Sl_ends_at s"
    and "s \<in> set (schedule_slots d) \<Longrightarrow> findTournament d (Sl_tournament_id s) \<noteq> None"
    and "s \<in> set (schedule_slots d) \<Longrightarrow> courtOf d (Sl_court_id s) \<noteq> None"
    and "s \<in> set (schedule_slots d) \<Longrightarrow> Sl_match_id s = Some m \<Longrightarrow> findMatch d m \<noteq> None"
  using assms unfolding sched_wf_def by blast+

text \<open>The two open matches of a slot and of a write share a player, and the slots meet.\<close>

definition pairClash :: "db \<Rightarrow> slot_write \<Rightarrow> schedule_row \<Rightarrow> bool" where
  "pairClash d w s \<longleftrightarrow> WrSlot w \<noteq> Some (Sl_id s)
     \<and> (\<exists>mid mid2. WrMatch w = Some mid \<and> Sl_match_id s = Some mid2 \<and> openMatch d mid2 \<and> sharesPlayer d mid mid2)"

definition playersClash :: "db \<Rightarrow> slot_write \<Rightarrow> schedule_row \<Rightarrow> bool" where
  "playersClash d w s \<longleftrightarrow> pairClash d w s \<and> Sl_starts_at s < WrEnds w \<and> WrStarts w < Sl_ends_at s"

definition shortRest :: "db \<Rightarrow> slot_write \<Rightarrow> schedule_row \<Rightarrow> bool" where
  "shortRest d w s \<longleftrightarrow> pairClash d w s \<and> \<not> (Sl_starts_at s < WrEnds w \<and> WrStarts w < Sl_ends_at s)
     \<and> Sl_starts_at s < WrEnds w + restBuffer \<and> WrStarts w - restBuffer < Sl_ends_at s"

definition hardConflicts :: "db \<Rightarrow> slot_write \<Rightarrow> conflict list" where
  "hardConflicts d w = scanConflicts d ''court_overlap'' (sort_key Sl_starts_at (filter (courtClash w) (schedule_slots d)))
     @ scanConflicts d ''participant_overlap'' (sort_key Sl_starts_at (filter (playersClash d w) (schedule_slots d)))"

definition restConflicts :: "db \<Rightarrow> slot_write \<Rightarrow> conflict list" where
  "restConflicts d w = scanConflicts d ''rest_buffer'' (sort_key Sl_starts_at (filter (shortRest d w) (schedule_slots d)))"

lemma scanConflicts_simps:
  "scanConflicts d typ [] = []"
  "scanConflicts d typ (s # ss) = (case courtOf d (Sl_court_id s) of None \<Rightarrow> scanConflicts d typ ss
     | Some c \<Rightarrow> \<lparr>CfType = typ, CfSlotID = Sl_id s, CfCourtID = Sl_court_id s, CfCourtName = C_name c,
         CfMatchID = Sl_match_id s, CfMatchLabel = matchLabel d (Sl_match_id s),
         CfStartsAt = Sl_starts_at s, CfEndsAt = Sl_ends_at s\<rparr> # scanConflicts d typ ss)"
  by (simp_all add: scanConflicts_def split: option.splits)

lemma fold_classify:
  "fold (classify w) (scanConflicts d t ss) (h, r)
   = (h @ scanConflicts d ''participant_overlap'' (filter (\<lambda>s. Sl_starts_at s < WrEnds w \<and> WrStarts w < Sl_ends_at s) ss),
      r @ scanConflicts d ''rest_buffer'' (filter (\<lambda>s. \<not> (Sl_starts_at s < WrEnds w \<and> WrStarts w < Sl_ends_at s)) ss))"
proof (induction ss arbitrary: h r)
  case (Cons s ss)
  then show ?case
    by (cases "courtOf d (Sl_court_id s)"; cases "Sl_starts_at s < WrEnds w \<and> WrStarts w < Sl_ends_at s")
      (simp_all add: scanConflicts_simps classify_def)
qed (simp add: scanConflicts_simps)

lemma restBuffer_pos: "0 < restBuffer"
  by (simp add: restBuffer_def)

lemma validateSlotWrite_eq:
  assumes "sched_wf d" and "WrStarts w < WrEnds w"
  shows "validateSlotWrite d w =
    (if hardConflicts d w \<noteq> [] \<or> (restConflicts d w \<noteq> [] \<and> \<not> WrOverrideRest w)
     then Some (SchedConflicts (hardConflicts d w) (restConflicts d w)) else None)"
proof (cases "WrMatch w")
  case None
  then have "filter (playersClash d w) (schedule_slots d) = []" "filter (shortRest d w) (schedule_slots d) = []"
    by (auto simp: playersClash_def shortRest_def pairClash_def)
  then show ?thesis using None
    by (simp add: validateSlotWrite_def hardConflicts_def restConflicts_def scanConflicts_simps)
next
  case (Some mid)
  have "filter (\<lambda>s. Sl_starts_at s < WrEnds w \<and> WrStarts w < Sl_ends_at s) (filter (pairCandidate d w mid) (schedule_slots d))
      = filter (playersClash d w) (schedule_slots d)"
    "filter (\<lambda>s. \<not> (Sl_starts_at s < WrEnds w \<and> WrStarts w < Sl_ends_at s)) (filter (pairCandidate d w mid) (schedule_slots d))
      = filter (shortRest d w) (schedule_slots d)"
    using assms(2) sched_wfD(3) [OF assms(1)] restBuffer_pos Some
    by (auto simp: playersClash_def shortRest_def pairClash_def pairCandidate_def rangesOverlap_def intro!: filter_cong)
  then show ?thesis using Some
    by (simp add: validateSlotWrite_def hardConflicts_def restConflicts_def fold_classify filter_sort Let_def split_def)
qed

lemma scanConflicts_empty:
  assumes "sched_wf d"
  shows "scanConflicts d typ (sort_key Sl_starts_at (filter P (schedule_slots d))) = []
    \<longleftrightarrow> (\<forall>s \<in> set (schedule_slots d). \<not> P s)"
  using sched_wfD(5) [OF assms] by (fastforce simp: scanConflicts_def split: option.splits)

lemma hardConflicts_empty:
  "sched_wf d \<Longrightarrow> hardConflicts d w = [] \<longleftrightarrow> (\<forall>s \<in> set (schedule_slots d). \<not> courtClash w s \<and> \<not> playersClash d w s)"
  by (auto simp: hardConflicts_def scanConflicts_empty)

subsection \<open>The effect of a write\<close>

definition writtenRow :: "slot_write \<Rightarrow> db \<Rightarrow> schedule_row" where
  "writtenRow w d = (case Option.bind (WrSlot w) (findSlot d) of
     None \<Rightarrow> \<lparr>Sl_id = UuidGen d (Drawn d), Sl_tournament_id = WrTournament w, Sl_court_id = WrCourt w,
       Sl_match_id = WrMatch w, Sl_starts_at = WrStarts w, Sl_ends_at = WrEnds w\<rparr>
   | Some s \<Rightarrow> s\<lparr>Sl_court_id := WrCourt w, Sl_match_id := WrMatch w, Sl_starts_at := WrStarts w, Sl_ends_at := WrEnds w\<rparr>)"

definition writtenSlots :: "slot_write \<Rightarrow> db \<Rightarrow> schedule_row list" where
  "writtenSlots w d = (case WrSlot w of
     None \<Rightarrow> schedule_slots d @ [writtenRow w d]
   | Some i \<Rightarrow> update_where (\<lambda>s. Sl_id s = i) (\<lambda>_. writtenRow w d) (schedule_slots d))"

definition slotWritten :: "slot_write \<Rightarrow> db \<Rightarrow> db" where
  "slotWritten w d = restamp w (Option.bind (WrSlot w) (findSlot d))
     (d\<lparr>schedule_slots := writtenSlots w d, Drawn := Drawn d + (if WrSlot w = None then 1 else 0)\<rparr>)"

text \<open>What the request names exists.\<close>

definition targetsExist :: "slot_write \<Rightarrow> db \<Rightarrow> bool" where
  "targetsExist w d \<longleftrightarrow> (WrSlot w = None \<longrightarrow> findTournament d (WrTournament w) \<noteq> None) \<and> courtOf d (WrCourt w) \<noteq> None
     \<and> (\<forall>m. WrMatch w = Some m \<longrightarrow> findMatch d m \<noteq> None) \<and> (\<forall>i. WrSlot w = Some i \<longrightarrow> findSlot d i \<noteq> None)"

lemma findSlot_Some: "findSlot d i = Some s \<Longrightarrow> s \<in> set (schedule_slots d) \<and> Sl_id s = i"
  by (auto simp: findSlot_def find_Some_iff)

lemma oldSlot_cases:
  assumes "targetsExist w d"
  obtains "WrSlot w = None" and "Option.bind (WrSlot w) (findSlot d) = None"
  | s where "WrSlot w = Some (Sl_id s)" and "Option.bind (WrSlot w) (findSlot d) = Some s" and "s \<in> set (schedule_slots d)"
  using assms findSlot_Some by (cases "WrSlot w") (fastforce simp: targetsExist_def)+

lemma writtenRow_fields [simp]:
  "Sl_court_id (writtenRow w d) = WrCourt w" "Sl_match_id (writtenRow w d) = WrMatch w"
  "Sl_starts_at (writtenRow w d) = WrStarts w" "Sl_ends_at (writtenRow w d) = WrEnds w"
  by (simp_all add: writtenRow_def split: option.splits)

lemma writtenRow_id:
  "targetsExist w d \<Longrightarrow> Sl_id (writtenRow w d) = (case WrSlot w of None \<Rightarrow> UuidGen d (Drawn d) | Some i \<Rightarrow> i)"
  by (auto simp: targetsExist_def writtenRow_def dest: findSlot_Some split: option.splits)

lemma find_replaced: "List.find Q t = Some s \<Longrightarrow> Q r \<Longrightarrow> List.find Q (update_where Q (\<lambda>_. r) t) = Some r"
  by (induction t) (auto simp: update_where_def)

lemma find_skip: "List.find P xs = None \<Longrightarrow> List.find P (xs @ ys) = List.find P ys"
  by (induction xs) (auto split: if_splits)

lemma writtenRow_tournament:
  assumes "sched_wf d" and "targetsExist w d"
  shows "findTournament d (Sl_tournament_id (writtenRow w d)) \<noteq> None"
  using assms(2)
proof (cases rule: oldSlot_cases)
  case 1
  then show ?thesis using assms(2) by (simp add: writtenRow_def targetsExist_def)
next
  case (2 s)
  then show ?thesis using sched_wfD(4) [OF assms(1)] by (simp add: writtenRow_def)
qed

lemma slotConstraints_ok:
  assumes "sched_wf d" and "WrStarts w < WrEnds w" and "targetsExist w d"
    and "\<forall>s \<in> set (schedule_slots d). \<not> courtClash w s"
    and "tournaments d' = tournaments d" "courts d' = courts d" "matches d' = matches d" "schedule_slots d' = schedule_slots d"
  shows "slotConstraints d' (writtenRow w d) = None"
proof -
  have "findTournament d (Sl_tournament_id (writtenRow w d)) \<noteq> None" by (rule writtenRow_tournament) fact+
  moreover have "\<not> (Sl_id s \<noteq> Sl_id (writtenRow w d) \<and> Sl_court_id s = WrCourt w
      \<and> rangesOverlap (Sl_starts_at s) (Sl_ends_at s) (WrStarts w) (WrEnds w))" if "s \<in> set (schedule_slots d)" for s
    using that assms(4) writtenRow_id [OF assms(3)] by (auto simp: courtClash_def split: option.splits)
  ultimately show ?thesis using assms(2,3,5-)
    by (auto simp: slotConstraints_def targetsExist_def findTournament_def courtOf_def findMatch_def)
qed

lemma storeSlot_eq:
  assumes "sched_wf d" and "WrStarts w < WrEnds w" and "targetsExist w d"
    and "\<forall>s \<in> set (schedule_slots d). \<not> courtClash w s"
  shows "storeSlot w d = Inr (Sl_id (writtenRow w d), d\<lparr>schedule_slots := writtenSlots w d,
     Drawn := Drawn d + (if WrSlot w = None then 1 else 0)\<rparr>)"
proof (cases "WrSlot w")
  case None
  then show ?thesis using slotConstraints_ok [OF assms, of "d\<lparr>Drawn := Suc (Drawn d)\<rparr>"]
    by (simp add: storeSlot_def writtenSlots_def writtenRow_def gen_random_uuid_def)
next
  case (Some i)
  then obtain s where "findSlot d i = Some s" using assms(3) by (auto simp: targetsExist_def)
  then show ?thesis using slotConstraints_ok [OF assms, of d] Some findSlot_Some [of d i s]
    by (simp add: storeSlot_def writtenSlots_def writtenRow_def)
qed

lemma restamp_frame [frame_simps]:
  "schedule_slots (restamp w old d) = schedule_slots d" "tournaments (restamp w old d) = tournaments d"
  "courts (restamp w old d) = courts d" "match_participants (restamp w old d) = match_participants d"
  "participants (restamp w old d) = participants d" "audit_logs (restamp w old d) = audit_logs d"
  "UuidGen (restamp w old d) = UuidGen d" "Drawn (restamp w old d) = Drawn d" "events (restamp w old d) = events d"
  by (simp_all add: restamp_def updateMatch_def Let_def split: option.splits)

lemma writtenSlots_find:
  assumes "sched_wf d" and "targetsExist w d"
  shows "List.find (\<lambda>s. Sl_id s = Sl_id (writtenRow w d)) (writtenSlots w d) = Some (writtenRow w d)"
proof (cases "WrSlot w")
  case None
  have "UuidGen d (Drawn d) \<notin> Sl_id ` set (schedule_slots d)"
    using drawn_fresh [OF sched_wfD(1) [OF assms(1)]] by (auto simp: ids_in_use_def)
  then have "List.find (\<lambda>s. Sl_id s = UuidGen d (Drawn d)) (schedule_slots d) = None"
    by (force simp: find_None_iff)
  then show ?thesis using None writtenRow_id [OF assms(2)] by (simp add: writtenSlots_def find_skip)
next
  case (Some i)
  then obtain s where "findSlot d i = Some s" using assms(2) by (auto simp: targetsExist_def)
  then show ?thesis using Some writtenRow_id [OF assms(2)]
    by (simp add: writtenSlots_def findSlot_def find_replaced)
qed

text \<open>The slot a successful write answers with.\<close>

definition slotShown :: "db \<Rightarrow> schedule_row \<Rightarrow> sched_slot" where
  "slotShown d s = \<lparr>SsID = Sl_id s, SsCourtID = Sl_court_id s, SsCourtName = C_name (the (courtOf d (Sl_court_id s))),
     SsMatchID = Sl_match_id s, SsMatchLabel = matchLabel d (Sl_match_id s), SsEventID = None, SsEventName = None,
     SsMatchStatus = None, SsStartsAt = Sl_starts_at s, SsEndsAt = Sl_ends_at s\<rparr>"

lemma matchLabel_cong:
  "match_participants d' = match_participants d \<Longrightarrow> participants d' = participants d \<Longrightarrow> matchLabel d' m = matchLabel d m"
  by (simp add: matchLabel_def slotsOf_def participantOf_def cong: option.case_cong)

lemma WriteSlot_eq:
  assumes "sched_wf d" and "WrStarts w < WrEnds w" and "targetsExist w d"
  shows "WriteSlot ctx w d =
    (if hardConflicts d w \<noteq> [] \<or> (restConflicts d w \<noteq> [] \<and> \<not> WrOverrideRest w)
     then Inl (SchedConflicts (hardConflicts d w) (restConflicts d w))
     else Inr (slotShown d (writtenRow w d),
       RecordTx ctx (writeEntry w (Option.bind (WrSlot w) (findSlot d)) (Sl_id (writtenRow w d))) (slotWritten w d)))"
proof -
  have old: "\<not> (WrSlot w \<noteq> None \<and> Option.bind (WrSlot w) (findSlot d) = None)"
    using assms(3) by (cases rule: oldSlot_cases) auto
  show ?thesis
  proof (cases "hardConflicts d w \<noteq> [] \<or> (restConflicts d w \<noteq> [] \<and> \<not> WrOverrideRest w)")
  case True
  then show ?thesis using validateSlotWrite_eq [OF assms(1,2)] old by (simp add: WriteSlot_def Let_def)
next
  case False
  define d' where "d' = RecordTx ctx (writeEntry w (Option.bind (WrSlot w) (findSlot d)) (Sl_id (writtenRow w d))) (slotWritten w d)"
  have "\<forall>s \<in> set (schedule_slots d). \<not> courtClash w s" using False hardConflicts_empty [OF assms(1)] by blast
  note st = storeSlot_eq [OF assms this]
  obtain c where c: "courtOf d (WrCourt w) = Some c" using assms(3) by (auto simp: targetsExist_def)
  have "matchLabel d' m = matchLabel d m" for m
    by (rule matchLabel_cong) (simp_all add: d'_def slotWritten_def frame_simps)
  moreover have "findSlot d' (Sl_id (writtenRow w d)) = Some (writtenRow w d)" "courtOf d' (WrCourt w) = Some c"
    using writtenSlots_find [OF assms(1,3)] c
    by (simp_all add: findSlot_def courtOf_def d'_def slotWritten_def frame_simps)
  ultimately have "getSlot d' (Sl_id (writtenRow w d)) = Inr (slotShown d (writtenRow w d))"
    using c by (simp add: getSlot_def slotShown_def)
  then show ?thesis using st False validateSlotWrite_eq [OF assms(1,2)] old
    by (simp add: WriteSlot_def Let_def d'_def slotWritten_def)
qed
qed

subsection \<open>No double booking\<close>

definition no_double_booking :: "db \<Rightarrow> bool" where
  "no_double_booking d \<longleftrightarrow> (\<forall>s \<in> set (schedule_slots d). \<forall>t \<in> set (schedule_slots d).
     Sl_id s \<noteq> Sl_id t \<longrightarrow> rangesOverlap (Sl_starts_at s) (Sl_ends_at s) (Sl_starts_at t) (Sl_ends_at t) \<longrightarrow>
       Sl_court_id s \<noteq> Sl_court_id t
       \<and> (\<forall>a b. Sl_match_id s = Some a \<longrightarrow> Sl_match_id t = Some b \<longrightarrow> openMatch d a \<longrightarrow> openMatch d b \<longrightarrow> \<not> sharesPlayer d a b))"

lemma WriteSlot_targets:
  assumes "WriteSlot ctx w d = Inr r"
  shows "targetsExist w d"
proof -
  obtain i d' where st: "storeSlot w d = Inr (i, d')" and old: "WrSlot w \<noteq> None \<longrightarrow> Option.bind (WrSlot w) (findSlot d) \<noteq> None"
    using assms by (auto simp: WriteSlot_def Let_def split: if_splits option.splits sum.splits)
  show ?thesis
  proof (cases "WrSlot w")
    case None
    then show ?thesis using st
      by (auto simp: storeSlot_def gen_random_uuid_def slotConstraints_def targetsExist_def findTournament_def courtOf_def
          findMatch_def Let_def split: option.splits if_splits)
  next
    case (Some j)
    then obtain s where "findSlot d j = Some s" using old by auto
    then show ?thesis using st Some
      by (auto simp: storeSlot_def slotConstraints_def targetsExist_def Let_def split: option.splits if_splits)
  qed
qed

lemma openMatch_updateMatch:
  assumes "\<And>m. M_id (f m) = M_id m" and "\<And>m. undecided (f m) = undecided m"
  shows "openMatch (updateMatch i f d) a = openMatch d a"
proof -
  have "(M_id (if M_id m = i then f m else m) = a \<and> undecided (if M_id m = i then f m else m))
      = (M_id m = a \<and> undecided m)" for m
    using assms by simp
  moreover have "openMatch (updateMatch i f d) a \<longleftrightarrow> (\<exists>m \<in> set (matches d).
      M_id (if M_id m = i then f m else m) = a \<and> undecided (if M_id m = i then f m else m))"
    unfolding openMatch_def updateMatch_def update_where_def by auto
  ultimately show ?thesis by (simp add: openMatch_def)
qed

lemma openMatch_stamps [simp]:
  "openMatch (updateMatch m unstampMatch d) a = openMatch d a" "openMatch (updateMatch m (stampMatch t c) d) a = openMatch d a"
  by (simp_all add: openMatch_updateMatch unstampMatch_def stampMatch_def undecided_def)

lemma openMatch_cong: "matches d' = matches d \<Longrightarrow> openMatch d' a = openMatch d a"
  by (simp add: openMatch_def)

lemma openMatch_restamp [simp]: "openMatch (restamp w old d) a = openMatch d a"
  by (simp add: restamp_def Let_def split: option.splits)

lemma findMatch_updateMatch:
  assumes "\<And>m. M_id (f m) = M_id m"
  shows "findMatch (updateMatch i f d) a = map_option (\<lambda>m. if M_id m = i then f m else m) (findMatch d a)"
  by (simp add: findMatch_def updateMatch_def find_update_where assms)

lemma findMatch_stamps [simp]:
  "findMatch (updateMatch i unstampMatch d) a = map_option (\<lambda>m. if M_id m = i then unstampMatch m else m) (findMatch d a)"
  "findMatch (updateMatch i (stampMatch t c) d) a = map_option (\<lambda>m. if M_id m = i then stampMatch t c m else m) (findMatch d a)"
  by (simp_all add: findMatch_updateMatch unstampMatch_def stampMatch_def)

lemma findMatch_restamp: "findMatch (restamp w old d) a = None \<longleftrightarrow> findMatch d a = None"
  by (simp add: restamp_def Let_def split: option.splits)

lemma writtenSlots_set:
  assumes "sched_wf d" and "targetsExist w d"
  shows "distinct (map Sl_id (writtenSlots w d))"
    and "s \<in> set (writtenSlots w d) \<Longrightarrow> s = writtenRow w d \<or> (s \<in> set (schedule_slots d) \<and> WrSlot w \<noteq> Some (Sl_id s))"
proof -
  have fresh: "UuidGen d (Drawn d) \<notin> Sl_id ` set (schedule_slots d)"
    using drawn_fresh [OF sched_wfD(1) [OF assms(1)]] by (auto simp: ids_in_use_def)
  have "map Sl_id (update_where (\<lambda>s. Sl_id s = i) (\<lambda>_. writtenRow w d) (schedule_slots d)) = map Sl_id (schedule_slots d)"
    if "WrSlot w = Some i" for i
    using that writtenRow_id [OF assms(2)] by (simp add: update_where_def)
  then show "distinct (map Sl_id (writtenSlots w d))"
    using fresh sched_wfD(2) [OF assms(1)] writtenRow_id [OF assms(2)]
    by (auto simp: writtenSlots_def split: option.splits)
  show "s \<in> set (writtenSlots w d) \<Longrightarrow> s = writtenRow w d \<or> (s \<in> set (schedule_slots d) \<and> WrSlot w \<noteq> Some (Sl_id s))"
    by (auto simp: writtenSlots_def set_update_where split: option.splits if_splits)
qed

lemma ids_updateMatch: "(\<And>m. M_id (f m) = M_id m) \<Longrightarrow> M_id ` set (matches (updateMatch i f d)) = M_id ` set (matches d)"
  unfolding set_map [symmetric] by (simp add: updateMatch_def map_update_where)

lemma grows_restamp: "grows d (restamp w old d)"
proof -
  have "M_id ` set (matches (restamp w old d)) = M_id ` set (matches d)"
    by (simp add: restamp_def Let_def ids_updateMatch unstampMatch_def stampMatch_def split: option.splits)
  moreover have "stages (restamp w old d) = stages d" "groups (restamp w old d) = groups d"
    by (simp_all add: restamp_def updateMatch_def Let_def split: option.splits)
  ultimately show ?thesis by (simp add: grows_def ids_in_use_def frame_simps)
qed

lemma slotWritten_wf:
  assumes "sched_wf d" and "targetsExist w d" and "WrStarts w < WrEnds w"
  shows "sched_wf (slotWritten w d)"
proof -
  define d1 where "d1 = d\<lparr>schedule_slots := writtenSlots w d, Drawn := Drawn d + (if WrSlot w = None then 1 else 0)\<rparr>"
  let ?d = "restamp w (Option.bind (WrSlot w) (findSlot d)) d1"
  have "Sl_id ` set (writtenSlots w d) \<subseteq> Sl_id ` set (schedule_slots d) \<union> (if WrSlot w = None then {UuidGen d (Drawn d)} else {})"
  proof
    fix i assume "i \<in> Sl_id ` set (writtenSlots w d)"
    then obtain s where s: "s \<in> set (writtenSlots w d)" "i = Sl_id s" by blast
    from writtenSlots_set(2) [OF assms(1,2) s(1)]
    show "i \<in> Sl_id ` set (schedule_slots d) \<union> (if WrSlot w = None then {UuidGen d (Drawn d)} else {})"
      using s(2) writtenRow_id [OF assms(2)] by (cases rule: oldSlot_cases [OF assms(2)]) auto
  qed
  then have "grows d d1" by (auto simp: grows_def ids_in_use_def d1_def split: if_splits)
  then have fresh: "fresh_supply ?d" using grows_fresh sched_wfD(1) [OF assms(1)] grows_restamp by blast
  note row = writtenRow_tournament [OF assms(1,2)]
  have same: "findTournament ?d t = findTournament d t" "courtOf ?d c = courtOf d c" "findMatch ?d m = None \<longleftrightarrow> findMatch d m = None" for t c m
    by (simp_all add: findTournament_def courtOf_def frame_simps findMatch_restamp d1_def) (simp add: findMatch_def)
  have slots: "schedule_slots ?d = writtenSlots w d" by (simp add: frame_simps d1_def)
  have "Sl_starts_at s < Sl_ends_at s \<and> findTournament ?d (Sl_tournament_id s) \<noteq> None \<and> courtOf ?d (Sl_court_id s) \<noteq> None
      \<and> (\<forall>m. Sl_match_id s = Some m \<longrightarrow> findMatch ?d m \<noteq> None)" if "s \<in> set (writtenSlots w d)" for s
    using writtenSlots_set(2) [OF assms(1,2) that]
  proof
    assume "s = writtenRow w d"
    then show ?thesis using row assms(2,3) unfolding same by (simp add: targetsExist_def)
  next
    assume "s \<in> set (schedule_slots d) \<and> WrSlot w \<noteq> Some (Sl_id s)"
    then show ?thesis using sched_wfD(3-6) [OF assms(1)] unfolding same by blast
  qed
  then have "sched_wf ?d" using fresh writtenSlots_set(1) [OF assms(1,2)] unfolding sched_wf_def slots by blast
  then show ?thesis by (simp add: slotWritten_def d1_def)
qed

lemma sharesPlayer_sym: "sharesPlayer d a b \<longleftrightarrow> sharesPlayer d b a"
  unfolding sharesPlayer_def by metis

lemma sharesPlayer_cong: "match_participants d' = match_participants d \<Longrightarrow> sharesPlayer d' a b = sharesPlayer d a b"
  by (simp add: sharesPlayer_def)

lemma no_double_booking_restrict:
  assumes "no_double_booking d" and "set (schedule_slots d') \<subseteq> set (schedule_slots d)"
    and "\<And>m. openMatch d' m = openMatch d m" and "match_participants d' = match_participants d"
  shows "no_double_booking d'"
  using assms(1,2) unfolding no_double_booking_def assms(3) sharesPlayer_cong [OF assms(4)] by blast

definition bookedApart :: "db \<Rightarrow> schedule_row \<Rightarrow> schedule_row \<Rightarrow> bool" where
  "bookedApart d s t \<longleftrightarrow> (rangesOverlap (Sl_starts_at s) (Sl_ends_at s) (Sl_starts_at t) (Sl_ends_at t) \<longrightarrow>
       Sl_court_id s \<noteq> Sl_court_id t
       \<and> (\<forall>a b. Sl_match_id s = Some a \<longrightarrow> Sl_match_id t = Some b \<longrightarrow> openMatch d a \<longrightarrow> openMatch d b \<longrightarrow> \<not> sharesPlayer d a b))"

lemma no_double_booking_eq:
  "no_double_booking d \<longleftrightarrow> (\<forall>s \<in> set (schedule_slots d). \<forall>t \<in> set (schedule_slots d). Sl_id s \<noteq> Sl_id t \<longrightarrow> bookedApart d s t)"
  by (simp add: no_double_booking_def bookedApart_def)

lemma bookedApart_sym: "bookedApart d s t \<longleftrightarrow> bookedApart d t s"
  unfolding bookedApart_def rangesOverlap_def using sharesPlayer_sym by metis

lemma hardConflicts_apart:
  assumes "sched_wf d" and "hardConflicts d w = []" and "s \<in> set (schedule_slots d)" and "WrSlot w \<noteq> Some (Sl_id s)"
  shows "bookedApart d s (writtenRow w d)"
proof -
  have c: "\<not> courtClash w s" "\<not> playersClash d w s" using assms hardConflicts_empty by blast+
  show ?thesis unfolding bookedApart_def writtenRow_fields
  proof (intro impI conjI allI)
    assume o: "rangesOverlap (Sl_starts_at s) (Sl_ends_at s) (WrStarts w) (WrEnds w)"
    show "Sl_court_id s \<noteq> WrCourt w" using c(1) o assms(4) by (simp add: courtClash_def)
    fix a b assume "Sl_match_id s = Some a" "WrMatch w = Some b" "openMatch d a"
    then show "\<not> sharesPlayer d a b"
      using c(2) o assms(4) sharesPlayer_sym [of d a b] by (simp add: playersClash_def pairClash_def rangesOverlap_def)
  qed
qed

lemma slotWritten_apart:
  assumes "sched_wf d" and "targetsExist w d" and "no_double_booking d" and "hardConflicts d w = []"
  shows "no_double_booking (slotWritten w d)"
proof -
  let ?d = "slotWritten w d"
  have open_eq: "openMatch ?d m = openMatch d m" for m by (simp add: slotWritten_def) (simp add: openMatch_def)
  have "match_participants ?d = match_participants d" by (simp add: slotWritten_def frame_simps)
  then have share: "sharesPlayer ?d a b = sharesPlayer d a b" for a b by (rule sharesPlayer_cong)
  have same: "bookedApart ?d s t = bookedApart d s t" for s t
    unfolding bookedApart_def open_eq share ..
  have slots: "schedule_slots ?d = writtenSlots w d" by (simp add: slotWritten_def frame_simps)
  have "bookedApart d s t" if st: "s \<in> set (writtenSlots w d)" "t \<in> set (writtenSlots w d)" "Sl_id s \<noteq> Sl_id t" for s t
    using writtenSlots_set(2) [OF assms(1,2) st(1)] writtenSlots_set(2) [OF assms(1,2) st(2)] st(3)
      hardConflicts_apart [OF assms(1,4)] bookedApart_sym assms(3) unfolding no_double_booking_eq by metis
  then show ?thesis unfolding no_double_booking_eq same slots by blast
qed

definition order_of_play :: "db \<Rightarrow> bool" where
  "order_of_play d \<longleftrightarrow> sched_wf d \<and> no_double_booking d"

lemma order_of_play_cong:
  assumes "order_of_play d" and "schedule_slots d' = schedule_slots d" and "match_participants d' = match_participants d"
    and "\<And>m. openMatch d' m = openMatch d m" and "\<And>m. findMatch d' m = None \<longleftrightarrow> findMatch d m = None"
    and "\<And>c. courtOf d c \<noteq> None \<Longrightarrow> courtOf d' c \<noteq> None" and "tournaments d' = tournaments d" and "fresh_supply d'"
  shows "order_of_play d'"
proof -
  have "findTournament d' t = findTournament d t" for t using assms(7) by (simp add: findTournament_def)
  then have "sched_wf d'" using assms(1,2,5,6,8) unfolding order_of_play_def sched_wf_def by metis
  moreover have "no_double_booking d'"
    using assms(1-4) by (intro no_double_booking_restrict [of d d']) (simp_all add: order_of_play_def)
  ultimately show ?thesis by (simp add: order_of_play_def)
qed

lemma order_of_play_RecordTx:
  assumes "order_of_play d"
  shows "order_of_play (RecordTx c e d)"
proof (rule order_of_play_cong [OF assms])
  have "grows d (RecordTx c e d)" by (simp add: grows_def frame_simps)
  then show "fresh_supply (RecordTx c e d)" using assms grows_fresh unfolding order_of_play_def sched_wf_def by blast
qed (simp_all add: frame_simps openMatch_def findMatch_def courtOf_def)

lemma WriteSlot_order_of_play:
  assumes "order_of_play d" and "WriteSlot ctx w d = Inr (s, d')" and "WrStarts w < WrEnds w"
  shows "order_of_play d'"
proof -
  have wf: "sched_wf d" "no_double_booking d" using assms(1) by (simp_all add: order_of_play_def)
  note t = WriteSlot_targets [OF assms(2)]
  have "hardConflicts d w = []" and d': "d' = RecordTx ctx (writeEntry w (Option.bind (WrSlot w) (findSlot d)) (Sl_id (writtenRow w d))) (slotWritten w d)"
    using assms(2) WriteSlot_eq [OF wf(1) assms(3) t] by (auto split: if_splits)
  then have "order_of_play (slotWritten w d)"
    using slotWritten_wf [OF wf(1) t assms(3)] slotWritten_apart [OF wf(1) t wf(2)] by (simp add: order_of_play_def)
  then show ?thesis unfolding d' by (rule order_of_play_RecordTx)
qed

lemma createCourt_order_of_play:
  assumes "order_of_play d" and "createCourt tid name so d = Inr (c, d')"
  shows "order_of_play d'"
proof (rule order_of_play_cong [OF assms(1)])
  have e: "schedule_slots d' = schedule_slots d \<and> match_participants d' = match_participants d \<and> matches d' = matches d
      \<and> tournaments d' = tournaments d \<and> (\<exists>c. courts d' = courts d @ [c]) \<and> grows d d'"
    using assms(2)
    by (auto simp: createCourt_def defaultVenue_def gen_random_uuid_def Let_def grows_def ids_in_use_def
        split: if_splits list.splits)
  then show "schedule_slots d' = schedule_slots d" "match_participants d' = match_participants d"
    "\<And>m. openMatch d' m = openMatch d m" "\<And>m. findMatch d' m = None \<longleftrightarrow> findMatch d m = None"
    "tournaments d' = tournaments d"
    by (simp_all add: openMatch_def findMatch_def)
  show "courtOf d' c \<noteq> None" if "courtOf d c \<noteq> None" for c
    using e that by (auto simp: courtOf_def find_None_iff)
  show "fresh_supply d'" using e assms(1) grows_fresh unfolding order_of_play_def sched_wf_def by blast
qed

lemma order_of_play_drop:
  assumes "order_of_play d"
  shows "order_of_play (d\<lparr>schedule_slots := delete_where P (schedule_slots d)\<rparr>)"
proof -
  let ?d = "d\<lparr>schedule_slots := delete_where P (schedule_slots d)\<rparr>"
  have wf: "sched_wf d" "no_double_booking d" using assms(1) by (simp_all add: order_of_play_def)
  have "grows d ?d" by (auto simp: grows_def ids_in_use_def)
  then have f: "fresh_supply ?d" using wf(1) grows_fresh sched_wfD(1) by blast
  have i: "distinct (map Sl_id (schedule_slots ?d))"
    using sched_wfD(2) [OF wf(1)] by (simp add: delete_where_def distinct_map_filter)
  have sub: "set (schedule_slots ?d) \<subseteq> set (schedule_slots d)" by auto
  have "findTournament ?d x = findTournament d x" "courtOf ?d x = courtOf d x" "findMatch ?d x = findMatch d x" for x
    by (simp_all add: findTournament_def courtOf_def findMatch_def)
  then have "sched_wf ?d" using f i sub sched_wfD(3-6) [OF wf(1)] unfolding sched_wf_def by (metis subsetD)
  moreover have "no_double_booking ?d"
    using wf(2) sub by (rule no_double_booking_restrict) (simp_all add: openMatch_def)
  ultimately show ?thesis by (simp add: order_of_play_def)
qed

lemma order_of_play_unstamp:
  assumes "order_of_play d"
  shows "order_of_play (updateMatch mid unstampMatch d)"
proof (rule order_of_play_cong [OF assms])
  have "M_id ` set (matches (updateMatch mid unstampMatch d)) = M_id ` set (matches d)"
    by (simp add: ids_updateMatch unstampMatch_def)
  then have "ids_in_use (updateMatch mid unstampMatch d) = ids_in_use d"
    unfolding ids_in_use_def by (simp add: updateMatch_def)
  then have "grows d (updateMatch mid unstampMatch d)" by (simp add: grows_def) (simp add: updateMatch_def)
  then show "fresh_supply (updateMatch mid unstampMatch d)"
    using assms grows_fresh unfolding order_of_play_def sched_wf_def by blast
  show "openMatch (updateMatch mid unstampMatch d) m = openMatch d m" for m by simp
  show "findMatch (updateMatch mid unstampMatch d) m = None \<longleftrightarrow> findMatch d m = None" for m by simp
qed (simp_all add: updateMatch_def courtOf_def)

lemma deleteSlotRow_order_of_play:
  assumes "order_of_play d" and "deleteSlotRow ctx sid actor orgID d = Inr (t, d')"
  shows "order_of_play d'"
proof -
  obtain s where s: "findSlot d sid = Some s" using assms(2) by (cases "findSlot d sid") (simp_all add: deleteSlotRow_def)
  note one = order_of_play_drop [OF assms(1), of "\<lambda>r. Sl_id r = sid"]
  show ?thesis
  proof (cases "Sl_match_id s")
    case None
    then show ?thesis using assms(2) s order_of_play_RecordTx [OF one] unfolding deleteSlotRow_def Let_def by auto
  next
    case (Some mid)
    then show ?thesis
      using assms(2) s order_of_play_RecordTx [OF one] order_of_play_RecordTx [OF order_of_play_unstamp [OF one]]
      unfolding deleteSlotRow_def Let_def by (auto simp del: bex_simps set_delete_where split: if_split_asm)
  qed
qed

text \<open>One served request of the schedule package.\<close>

inductive sched_step :: "db \<Rightarrow> db \<Rightarrow> bool" where
  court: "CreateCourt tid orgID creq d = Inr (c, d') \<Longrightarrow> sched_step d d'"
| create: "CreateSlot parseUUID parseTime ctx actor orgID sreq d = Inr (s, d') \<Longrightarrow> sched_step d d'"
| update: "UpdateSlot parseUUID parseTime ctx slotID actor orgID ureq d = Inr (s, d') \<Longrightarrow> sched_step d d'"
| delete: "DeleteSlot ctx slotID actor orgID d = Inr (slug, d') \<Longrightarrow> sched_step d d'"

lemma parseSlotFields_times:
  "parseSlotFields parseUUID parseTime c m a b = Inr (cid, mid, starts, ends) \<Longrightarrow> starts < ends"
  by (auto simp: parseSlotFields_def split: option.splits if_splits)

lemma sched_step_order_of_play: "sched_step d d' \<Longrightarrow> order_of_play d \<Longrightarrow> order_of_play d'"
proof (induction rule: sched_step.induct)
  case (court tid orgID creq d c d')
  then show ?case using createCourt_order_of_play by (auto simp: CreateCourt_def split: sum.splits)
next
  case (create parseUUID parseTime ctx actor orgID sreq d s d')
  from create.hyps obtain w t where "WriteSlot ctx w d = Inr (t, d')" "WrStarts w < WrEnds w"
    by (auto simp: CreateSlot_def dest!: parseSlotFields_times split: option.splits sum.splits if_splits prod.splits)
  then show ?case using create.prems by (blast intro: WriteSlot_order_of_play)
next
  case (update parseUUID parseTime ctx slotID actor orgID ureq d s d')
  from update.hyps obtain w t where "WriteSlot ctx w d = Inr (t, d')" "WrStarts w < WrEnds w"
    by (auto simp: UpdateSlot_def dest!: parseSlotFields_times split: option.splits sum.splits if_splits prod.splits)
  then show ?case using update.prems by (blast intro: WriteSlot_order_of_play)
next
  case (delete ctx slotID actor orgID d slug d')
  then show ?case using deleteSlotRow_order_of_play
    by (auto simp: DeleteSlot_def split: sum.splits if_splits)
qed

interpretation sched: transitions sched_step order_of_play
  by unfold_locales (rule sched_step_order_of_play)

lemma findMatch_key: "findMatch d i = Some m \<Longrightarrow> M_id m = i"
  by (auto simp: findMatch_def find_Some_iff)

lemma findMatch_self:
  "map_option (\<lambda>m. if M_id m = i then f m else m) (findMatch d i) = map_option f (findMatch d i)"
  "a \<noteq> i \<Longrightarrow> map_option (\<lambda>m. if M_id m = a then f m else m) (findMatch d i) = findMatch d i"
  by (cases "findMatch d i"; use findMatch_key [of d i] in auto)+

lemma findMatch_restamped:
  "WrMatch w = Some m \<Longrightarrow> findMatch (restamp w old d) m = map_option (stampMatch (WrStarts w) (WrCourt w)) (findMatch d m)"
  "Option.bind old Sl_match_id = Some p \<Longrightarrow> WrMatch w \<noteq> Some p
    \<Longrightarrow> findMatch (restamp w old d) p = map_option unstampMatch (findMatch d p)"
proof -
  show "WrMatch w = Some m \<Longrightarrow> findMatch (restamp w old d) m = map_option (stampMatch (WrStarts w) (WrCourt w)) (findMatch d m)"
    by (cases "findMatch d m") (auto simp: restamp_def Let_def unstampMatch_def dest: findMatch_key split: option.splits)
  show "findMatch (restamp w old d) p = map_option unstampMatch (findMatch d p)"
    if "Option.bind old Sl_match_id = Some p" "WrMatch w \<noteq> Some p"
    using that by (cases "findMatch d p") (auto simp: restamp_def Let_def unstampMatch_def dest: findMatch_key split: option.splits)
qed

definition writtenDb :: "ctx \<Rightarrow> slot_write \<Rightarrow> db \<Rightarrow> db" where
  "writtenDb ctx w d =
     RecordTx ctx (writeEntry w (Option.bind (WrSlot w) (findSlot d)) (Sl_id (writtenRow w d))) (slotWritten w d)"

lemma writtenDb_effect:
  "schedule_slots (writtenDb ctx w d) = writtenSlots w d"
  "WrMatch w = Some m \<Longrightarrow> findMatch (writtenDb ctx w d) m = map_option (stampMatch (WrStarts w) (WrCourt w)) (findMatch d m)"
  "Option.bind (Option.bind (WrSlot w) (findSlot d)) Sl_match_id = Some p \<Longrightarrow> WrMatch w \<noteq> Some p
    \<Longrightarrow> findMatch (writtenDb ctx w d) p = map_option unstampMatch (findMatch d p)"
  "length (audit_logs (writtenDb ctx w d)) = length (audit_logs d) + 1"
proof -
  define d1 where "d1 = d\<lparr>schedule_slots := writtenSlots w d, Drawn := Drawn d + (if WrSlot w = None then 1 else 0)\<rparr>"
  let ?old = "Option.bind (WrSlot w) (findSlot d)"
  have f: "findMatch (writtenDb ctx w d) i = findMatch (restamp w ?old d1) i" "findMatch d1 i = findMatch d i" for i
    by (simp_all add: findMatch_def slotWritten_def frame_simps d1_def writtenDb_def)
  show "findMatch (writtenDb ctx w d) m = map_option (stampMatch (WrStarts w) (WrCourt w)) (findMatch d m)"
    if "WrMatch w = Some m" using findMatch_restamped(1) [OF that, of ?old d1] f by simp
  show "findMatch (writtenDb ctx w d) p = map_option unstampMatch (findMatch d p)"
    if "Option.bind ?old Sl_match_id = Some p" "WrMatch w \<noteq> Some p"
    using findMatch_restamped(2) [OF that, of d1] f by simp
qed (simp_all add: writtenDb_def slotWritten_def frame_simps RecordTx_def)

lemma WriteSlot_cases:
  assumes "sched_wf d" and "WrStarts w < WrEnds w" and "targetsExist w d"
  shows "WriteSlot ctx w d = (if (\<exists>s \<in> set (schedule_slots d). courtClash w s \<or> playersClash d w s)
      \<or> ((\<exists>s \<in> set (schedule_slots d). shortRest d w s) \<and> \<not> WrOverrideRest w)
    then Inl (SchedConflicts (hardConflicts d w) (restConflicts d w))
    else Inr (slotShown d (writtenRow w d), writtenDb ctx w d))"
proof -
  have "hardConflicts d w \<noteq> [] \<longleftrightarrow> (\<exists>s \<in> set (schedule_slots d). courtClash w s \<or> playersClash d w s)"
    using hardConflicts_empty [OF assms(1)] by blast
  moreover have "restConflicts d w \<noteq> [] \<longleftrightarrow> (\<exists>s \<in> set (schedule_slots d). shortRest d w s)"
    using scanConflicts_empty [OF assms(1)] by (simp add: restConflicts_def)
  ultimately show ?thesis unfolding WriteSlot_eq [OF assms] writtenDb_def by argo
qed

text \<open>C20. A slot write on existing rows refuses exactly when it meets a conflict: another slot on the
  court at an overlapping time, or an open match sharing a player at an overlapping time, or (unless
  overridden) one closer than the thirty-minute rest; the refusal lists the conflicting slots in
  order of time. Otherwise it stores the slot, moves the court and time stamps from the match the
  slot held to the one it holds now, and writes one audit row; the exclusion constraint never fires.\<close>

theorem WriteSlot_outcome:
  assumes "sched_wf d" and "WrStarts w < WrEnds w" and "targetsExist w d"
  shows "if (\<exists>s \<in> set (schedule_slots d). courtClash w s \<or> playersClash d w s)
      \<or> ((\<exists>s \<in> set (schedule_slots d). shortRest d w s) \<and> \<not> WrOverrideRest w)
    then WriteSlot ctx w d = Inl (SchedConflicts (hardConflicts d w) (restConflicts d w))
    else \<exists>d'. WriteSlot ctx w d = Inr (slotShown d (writtenRow w d), d') \<and> schedule_slots d' = writtenSlots w d
      \<and> (\<forall>m. WrMatch w = Some m \<longrightarrow> findMatch d' m = map_option (stampMatch (WrStarts w) (WrCourt w)) (findMatch d m))
      \<and> (\<forall>p. Option.bind (Option.bind (WrSlot w) (findSlot d)) Sl_match_id = Some p \<longrightarrow> WrMatch w \<noteq> Some p
           \<longrightarrow> findMatch d' p = map_option unstampMatch (findMatch d p))
      \<and> length (audit_logs d') = length (audit_logs d) + 1"
  unfolding WriteSlot_cases [OF assms]
  using writtenDb_effect(1,4) [of ctx w d] writtenDb_effect(2) [of w _ ctx d] writtenDb_effect(3) [of w d _ ctx]
  by simp


definition createdWrite :: "create_slot_request \<Rightarrow> uuid \<Rightarrow> uuid \<Rightarrow> uuid \<Rightarrow> gotime \<Rightarrow> gotime \<Rightarrow> uuid \<Rightarrow> uuid \<Rightarrow> slot_write" where
  "createdWrite req tid court mid starts ends actor own = \<lparr>WrSlot = None, WrTournament = tid, WrCourt = court,
     WrMatch = Some mid, WrStarts = starts, WrEnds = ends, WrOverrideRest = RqOverrideRestBuffer req, WrActor = actor, WrOrg = own\<rparr>"

lemma CreateSlot_writes:
  assumes "sched_wf d" and "parseUUID (RqTournamentID req) = Some tid" and "TournamentOrg d tid = Inr own"
    and "\<not> foreignOrg orgID own"
    and "parseSlotFields parseUUID parseTime (RqCourtID req) (RqMatchID req) (RqStartsAt req) (RqEndsAt req)
      = Inr (court, Some mid, starts, ends)"
    and "courtOf d court = Some c" and "findMatch d mid = Some m"
    and "\<forall>s \<in> set (schedule_slots d). Sl_ends_at s + restBuffer \<le> starts \<or> ends + restBuffer \<le> Sl_starts_at s"
  shows "\<exists>r. CreateSlot parseUUID parseTime ctx actor orgID req d
    = Inr (r, writtenDb ctx (createdWrite req tid court mid starts ends actor own) d)"
proof -
  let ?w = "createdWrite req tid court mid starts ends actor own"
  have lt: "WrStarts ?w < WrEnds ?w" using parseSlotFields_times [OF assms(5)] by (simp add: createdWrite_def)
  have "targetsExist ?w d" using assms(3,6,7)
    by (auto simp: targetsExist_def createdWrite_def TournamentOrg_def split: option.splits)
  moreover have "\<not> courtClash ?w s \<and> \<not> playersClash d ?w s \<and> \<not> shortRest d ?w s" if "s \<in> set (schedule_slots d)" for s
    using assms(8) that restBuffer_pos
    by (fastforce simp: courtClash_def playersClash_def shortRest_def rangesOverlap_def createdWrite_def)
  ultimately have "WriteSlot ctx ?w d = Inr (slotShown d (writtenRow ?w d), writtenDb ctx ?w d)"
    using WriteSlot_cases [OF assms(1) lt] by auto
  then show ?thesis using assms(2-5) by (simp add: CreateSlot_def createdWrite_def)
qed

text \<open>Creating a slot asks only that the tournament belongs to the caller: any existing court and
  match is accepted, and the match is stamped and scheduled, whichever organization owns them.\<close>

theorem CreateSlot_any_match:
  assumes "sched_wf d" and "parseUUID (RqTournamentID req) = Some tid" and "TournamentOrg d tid = Inr own"
    and "\<not> foreignOrg orgID own"
    and "parseSlotFields parseUUID parseTime (RqCourtID req) (RqMatchID req) (RqStartsAt req) (RqEndsAt req)
      = Inr (court, Some mid, starts, ends)"
    and "courtOf d court = Some c" and "findMatch d mid = Some m"
    and "\<forall>s \<in> set (schedule_slots d). Sl_ends_at s + restBuffer \<le> starts \<or> ends + restBuffer \<le> Sl_starts_at s"
  shows "\<exists>r d'. CreateSlot parseUUID parseTime ctx actor orgID req d = Inr (r, d')
    \<and> findMatch d' mid = Some (stampMatch starts court m)"
  using CreateSlot_writes [OF assms, of ctx actor] assms(7)
    writtenDb_effect(2) [of "createdWrite req tid court mid starts ends actor own" mid ctx d]
  by (auto simp: createdWrite_def)

subsection \<open>Witnesses\<close>

text \<open>Two organizations: the tournament 1 of the first, and the tournament 5, venue 7, court 8, event 9
  and match 33 of the second, which has two slots on two courts.\<close>

definition sched_db :: db where
  "sched_db = (sample_db ''single_elim'')\<lparr>
     tournaments := tournaments (sample_db ''single_elim'') @
       [(hd (tournaments (sample_db ''single_elim'')))\<lparr>T_id := 5, T_org_id := 6, T_slug := ''open''\<rparr>],
     events := events (sample_db ''single_elim'') @ [(hd (events (sample_db ''single_elim'')))\<lparr>E_id := 9, E_tournament_id := 5\<rparr>],
     venues := [\<lparr>V_id = 7, V_tournament_id = 5, V_name = ''Main Venue''\<rparr>],
     courts := [\<lparr>C_id = 8, C_venue_id = 7, C_name = ''Centre'', C_sort_order = 0\<rparr>,
       \<lparr>C_id = 10, C_venue_id = 7, C_name = ''One'', C_sort_order = 1\<rparr>],
     matches := [\<lparr>M_id = 33, M_event_id = 9, M_stage_id = None, M_group_id = None, M_court_id = None, M_match_no = 1,
       M_status = ''pending'', M_scheduled_at = None, M_started_at = None, M_completed_at = None, M_winner = None,
       M_next_match_id = None, M_next_slot = None\<rparr>],
     schedule_slots := [\<lparr>Sl_id = 40, Sl_tournament_id = 5, Sl_court_id = 8, Sl_match_id = None, Sl_starts_at = 0, Sl_ends_at = 100\<rparr>,
       \<lparr>Sl_id = 41, Sl_tournament_id = 5, Sl_court_id = 10, Sl_match_id = None, Sl_starts_at = 50, Sl_ends_at = 150\<rparr>]\<rparr>"

definition sched_write :: "gotime \<Rightarrow> gotime \<Rightarrow> slot_write" where
  "sched_write a b = \<lparr>WrSlot = None, WrTournament = 1, WrCourt = 8, WrMatch = Some 33, WrStarts = a, WrEnds = b,
     WrOverrideRest = False, WrActor = 1, WrOrg = 2\<rparr>"

definition sched_request :: create_slot_request where
  "sched_request = \<lparr>RqCourtID = ''c'', RqMatchID = Some ''m'', RqStartsAt = ''s'', RqEndsAt = ''e'', RqOverrideRestBuffer = False,
     RqTournamentID = ''t''\<rparr>"

definition sched_uuid :: "string \<Rightarrow> uuid option" where
  "sched_uuid s = (if s = ''t'' then Some 1 else if s = ''c'' then Some 8 else if s = ''m'' then Some 33 else None)"

definition sched_time :: "string \<Rightarrow> gotime option" where
  "sched_time s = (if s = ''s'' then Some (150 + restBuffer) else if s = ''e'' then Some (250 + restBuffer) else None)"

lemma sched_db_wf: "order_of_play sched_db"
  by (simp add: order_of_play_def sched_wf_def no_double_booking_def sched_db_def sample_db_def fresh_supply_def ids_in_use_def
      inj_def findTournament_def courtOf_def)

theorem WriteSlot_outcome_witness:
  "WriteSlot sample_ctx (sched_write 50 60) sched_db
     = Inl (SchedConflicts (hardConflicts sched_db (sched_write 50 60)) (restConflicts sched_db (sched_write 50 60)))
   \<and> (\<exists>s d'. WriteSlot sample_ctx (sched_write 100 160) sched_db = Inr (s, d')
        \<and> findMatch d' 33 = map_option (stampMatch 100 8) (findMatch sched_db 33))"
proof -
  have wf: "sched_wf sched_db" using sched_db_wf by (simp add: order_of_play_def)
  have t: "targetsExist (sched_write a b) sched_db" for a b
    by (simp add: targetsExist_def sched_write_def sched_db_def sample_db_def findTournament_def courtOf_def findMatch_def)
  have "\<exists>s \<in> set (schedule_slots sched_db). courtClash (sched_write 50 60) s"
    by (simp add: sched_db_def courtClash_def sched_write_def rangesOverlap_def)
  then have "WriteSlot sample_ctx (sched_write 50 60) sched_db
     = Inl (SchedConflicts (hardConflicts sched_db (sched_write 50 60)) (restConflicts sched_db (sched_write 50 60)))"
    using WriteSlot_outcome [OF wf _ t, of 50 60 sample_ctx] by (auto simp: sched_write_def split: if_splits)
  moreover have "\<not> courtClash (sched_write 100 160) s \<and> \<not> playersClash sched_db (sched_write 100 160) s
      \<and> \<not> shortRest sched_db (sched_write 100 160) s" if "s \<in> set (schedule_slots sched_db)" for s
    using that by (auto simp: sched_db_def courtClash_def sched_write_def rangesOverlap_def playersClash_def shortRest_def pairClash_def)
  ultimately show ?thesis
    using WriteSlot_outcome [OF wf _ t, of 100 160 sample_ctx] by (fastforce simp: sched_write_def split: if_splits)
qed

lemma sched_created:
  "sched_wf sched_db" "sched_uuid (RqTournamentID sched_request) = Some 1" "TournamentOrg sched_db 1 = Inr 2"
  "\<not> foreignOrg (Some 2) 2"
  "parseSlotFields sched_uuid sched_time (RqCourtID sched_request) (RqMatchID sched_request)
      (RqStartsAt sched_request) (RqEndsAt sched_request) = Inr (8, Some 33, 150 + restBuffer, 250 + restBuffer)"
  "courtOf sched_db 8 = Some (hd (courts sched_db))" "findMatch sched_db 33 = Some (hd (matches sched_db))"
  "\<forall>s \<in> set (schedule_slots sched_db). Sl_ends_at s + restBuffer \<le> 150 + restBuffer
      \<or> 250 + restBuffer + restBuffer \<le> Sl_starts_at s"
  using sched_db_wf
  by (simp_all add: order_of_play_def sched_uuid_def sched_time_def sched_request_def TournamentOrg_def findTournament_def
      foreignOrg_def parseSlotFields_def courtOf_def findMatch_def) (simp_all add: sched_db_def sample_db_def)

theorem CreateSlot_any_match_witness:
  "\<exists>r d'. CreateSlot sched_uuid sched_time sample_ctx 1 (Some 2) sched_request sched_db = Inr (r, d')
    \<and> findMatch d' 33 = Some (stampMatch (150 + restBuffer) 8 (hd (matches sched_db)))"
  by (rule CreateSlot_any_match [OF sched_created])


end
