(* ===== verification/Roster.thy ===== *)
theory Roster
  imports DrawBuild GoText
begin

section \<open>Participants (internal/participant)\<close>

text \<open>
  The entries of an event: a singles entry points at a player, a doubles entry at a team, and the
  entry's display name is kept equal to the name of the record it points at. The delete follows the
  foreign keys of the schema: the match slots the entry held go with it (ON DELETE CASCADE), the
  matches it won lose their winner (ON DELETE SET NULL). A Go \<open>int\<close> outside the INTEGER column is an
  error of the statement.
\<close>

datatype roster_error = RsNotFound | RsForbidden | RsValidation | RsInternal

definition int4Opt :: "int option \<Rightarrow> bool" where
  "int4Opt n \<longleftrightarrow> (case n of None \<Rightarrow> True | Some n \<Rightarrow> - (2 ^ 31) \<le> n \<and> n < 2 ^ 31)"

subsection \<open>The repository\<close>

definition eventOrg :: "db \<Rightarrow> uuid \<Rightarrow> roster_error + uuid \<times> string" where
  "eventOrg d eventID = (case eventTournament d eventID of
     None \<Rightarrow> Inl RsNotFound | Some (e, t) \<Rightarrow> Inr (T_org_id t, E_discipline e))"

definition listRoster :: "db \<Rightarrow> uuid \<Rightarrow> participant_row list" where
  "listRoster d eventID = sort_key (\<lambda>p. case P_seed p of None \<Rightarrow> 9999 | Some n \<Rightarrow> n)
     (sort_key (\<lambda>p. Collation d (P_display_name p)) (filter (\<lambda>p. P_event_id p = eventID) (participants d)))"

definition findParticipant :: "db \<Rightarrow> uuid \<Rightarrow> participant_row option" where
  "findParticipant d i = List.find (\<lambda>p. P_id p = i) (participants d)"

definition insertEntry :: "uuid \<Rightarrow> string \<Rightarrow> int option \<Rightarrow> uuid option \<Rightarrow> uuid option \<Rightarrow> db
   \<Rightarrow> roster_error + participant_row \<times> db" where
  "insertEntry eventID name seed playerID teamID d =
     (if \<not> int4Opt seed then Inl RsInternal
      else let (i, d) = gen_random_uuid d;
               p = \<lparr>P_id = i, P_event_id = eventID, P_display_name = name, P_seed = seed, P_player_id = playerID, P_team_id = teamID\<rparr>
           in Inr (p, d\<lparr>participants := participants d @ [p]\<rparr>))"

definition CreateSingles :: "uuid \<Rightarrow> uuid \<Rightarrow> string \<Rightarrow> int option \<Rightarrow> db \<Rightarrow> roster_error + participant_row \<times> db" where
  "CreateSingles orgID eventID name seed d =
     (let name = trimSpace name; (playerID, d) = gen_random_uuid d
      in insertEntry eventID name seed (Some playerID) None
           (d\<lparr>players := players d @ [\<lparr>Pl_id = playerID, Pl_org_id = orgID, Pl_name = name\<rparr>]\<rparr>))"

definition CreateDoubles :: "uuid \<Rightarrow> string \<Rightarrow> int option \<Rightarrow> db \<Rightarrow> roster_error + participant_row \<times> db" where
  "CreateDoubles eventID name seed d =
     (let name = trimSpace name; (teamID, d) = gen_random_uuid d
      in insertEntry eventID name seed None (Some teamID)
           (d\<lparr>teams := teams d @ [\<lparr>Tm_id = teamID, Tm_event_id = eventID, Tm_name = Some name\<rparr>]\<rparr>))"

definition updateEntry :: "uuid \<Rightarrow> (participant_row \<Rightarrow> participant_row) \<Rightarrow> db \<Rightarrow> roster_error + participant_row \<times> db" where
  "updateEntry i f d = (case findParticipant d i of
     None \<Rightarrow> Inl RsNotFound
   | Some p \<Rightarrow> Inr (f p, d\<lparr>participants := update_where (\<lambda>p. P_id p = i) f (participants d)\<rparr>))"

definition renamePlayer :: "uuid option \<Rightarrow> string \<Rightarrow> db \<Rightarrow> db" where
  "renamePlayer playerID name d = (case playerID of None \<Rightarrow> d
     | Some i \<Rightarrow> d\<lparr>players := update_where (\<lambda>p. Pl_id p = i) (\<lambda>p. p\<lparr>Pl_name := name\<rparr>) (players d)\<rparr>)"

definition renameTeam :: "uuid option \<Rightarrow> string \<Rightarrow> db \<Rightarrow> db" where
  "renameTeam teamID name d = (case teamID of None \<Rightarrow> d
     | Some i \<Rightarrow> d\<lparr>teams := update_where (\<lambda>t. Tm_id t = i) (\<lambda>t. t\<lparr>Tm_name := Some name\<rparr>) (teams d)\<rparr>)"

definition renameEntry :: "uuid \<Rightarrow> string \<Rightarrow> db \<Rightarrow> roster_error + participant_row \<times> db" where
  "renameEntry i name d =
     (let name = trimSpace name in
      case updateEntry i (\<lambda>p. p\<lparr>P_display_name := name\<rparr>) d of
        Inl e \<Rightarrow> Inl e
      | Inr (p, d) \<Rightarrow> Inr (p, renameTeam (P_team_id p) name (renamePlayer (P_player_id p) name d)))"

definition seedEntry :: "uuid \<Rightarrow> int option \<Rightarrow> db \<Rightarrow> roster_error + participant_row \<times> db" where
  "seedEntry i seed d = (if \<not> int4Opt seed then Inl RsInternal else updateEntry i (\<lambda>p. p\<lparr>P_seed := seed\<rparr>) d)"

definition deleteParticipants :: "(participant_row \<Rightarrow> bool) \<Rightarrow> db \<Rightarrow> db" where
  "deleteParticipants P d =
     (let gone = P_id ` set (filter P (participants d)) in
      d\<lparr>participants := delete_where P (participants d),
        match_participants := delete_where (\<lambda>s. \<exists>p \<in> gone. S_participant_id s = Some p) (match_participants d),
        matches := map (\<lambda>m. m\<lparr>M_winner := nullIfIn gone (M_winner m)\<rparr>) (matches d)\<rparr>)"

definition deleteEntry :: "uuid \<Rightarrow> db \<Rightarrow> roster_error + uuid \<times> db" where
  "deleteEntry i d = (case findParticipant d i of
     None \<Rightarrow> Inl RsNotFound | Some p \<Rightarrow> Inr (P_event_id p, deleteParticipants (\<lambda>p. P_id p = i) d))"

definition EventTournamentPublished :: "db \<Rightarrow> uuid \<Rightarrow> roster_error + bool" where
  "EventTournamentPublished d eventID = (case eventTournament d eventID of
     None \<Rightarrow> Inl RsNotFound | Some (e, t) \<Rightarrow> Inr (T_status t = ''published''))"

definition EventOrgFor :: "db \<Rightarrow> uuid \<Rightarrow> roster_error + uuid" where
  "EventOrgFor d i = (case findParticipant d i of
     None \<Rightarrow> Inl RsNotFound
   | Some p \<Rightarrow> (case eventTournament d (P_event_id p) of None \<Rightarrow> Inl RsNotFound | Some (e, t) \<Rightarrow> Inr (T_org_id t)))"

subsection \<open>The service\<close>

definition authorizeRoster :: "db \<Rightarrow> uuid \<Rightarrow> uuid option \<Rightarrow> roster_error + string" where
  "authorizeRoster d eventID orgID = (case eventOrg d eventID of
     Inl e \<Rightarrow> Inl e | Inr (own, discipline) \<Rightarrow> if foreignOrg orgID own then Inl RsForbidden else Inr discipline)"

definition authorizeParticipant :: "db \<Rightarrow> uuid \<Rightarrow> uuid option \<Rightarrow> roster_error + unit" where
  "authorizeParticipant d i orgID = (case EventOrgFor d i of
     Inl e \<Rightarrow> Inl e | Inr own \<Rightarrow> if foreignOrg orgID own then Inl RsForbidden else Inr ())"

definition RosterList :: "db \<Rightarrow> uuid \<Rightarrow> uuid option \<Rightarrow> roster_error + participant_row list" where
  "RosterList d eventID orgID = (case authorizeRoster d eventID orgID of Inl e \<Rightarrow> Inl e | Inr _ \<Rightarrow> Inr (listRoster d eventID))"

definition RosterListPublic :: "db \<Rightarrow> uuid \<Rightarrow> roster_error + participant_row list" where
  "RosterListPublic d eventID = (case EventTournamentPublished d eventID of
     Inl e \<Rightarrow> Inl e | Inr published \<Rightarrow> if \<not> published then Inl RsNotFound else Inr (listRoster d eventID))"

definition AddEntry :: "uuid \<Rightarrow> uuid option \<Rightarrow> string \<Rightarrow> int option \<Rightarrow> db \<Rightarrow> roster_error + participant_row \<times> db" where
  "AddEntry eventID orgID name seed d = (case authorizeRoster d eventID orgID of
     Inl e \<Rightarrow> Inl e
   | Inr discipline \<Rightarrow>
       let ownerOrg = (case eventOrg d eventID of Inl _ \<Rightarrow> uuid_Nil | Inr (own, _) \<Rightarrow> own)
       in if discipline = ''doubles'' then CreateDoubles eventID name seed d else CreateSingles ownerOrg eventID name seed d)"

definition SetSeed :: "uuid \<Rightarrow> uuid option \<Rightarrow> int option \<Rightarrow> db \<Rightarrow> roster_error + participant_row \<times> db" where
  "SetSeed i orgID seed d = (case authorizeParticipant d i orgID of Inl e \<Rightarrow> Inl e | Inr _ \<Rightarrow> seedEntry i seed d)"

definition Rename :: "uuid \<Rightarrow> uuid option \<Rightarrow> string \<Rightarrow> db \<Rightarrow> roster_error + participant_row \<times> db" where
  "Rename i orgID name d = (case authorizeParticipant d i orgID of
     Inl e \<Rightarrow> Inl e | Inr _ \<Rightarrow> if trimSpace name = [] then Inl RsValidation else renameEntry i name d)"

definition DeleteEntry :: "uuid \<Rightarrow> uuid option \<Rightarrow> db \<Rightarrow> roster_error + unit \<times> db" where
  "DeleteEntry i orgID d = (case authorizeParticipant d i orgID of
     Inl e \<Rightarrow> Inl e | Inr _ \<Rightarrow> (case deleteEntry i d of Inl e \<Rightarrow> Inl e | Inr (_, d) \<Rightarrow> Inr ((), d)))"

subsection \<open>An entry and the record it points at agree\<close>

definition entryRecord :: "db \<Rightarrow> participant_row \<Rightarrow> bool" where
  "entryRecord d p \<longleftrightarrow> (case (P_player_id p, P_team_id p) of
     (Some i, None) \<Rightarrow> \<exists>r \<in> set (players d). Pl_id r = i \<and> Pl_name r = P_display_name p
   | (None, Some i) \<Rightarrow> \<exists>r \<in> set (teams d). Tm_id r = i \<and> Tm_name r = Some (P_display_name p)
   | _ \<Rightarrow> False)"

definition record_ids :: "db \<Rightarrow> uuid set" where
  "record_ids d = Pl_id ` set (players d) \<union> Tm_id ` set (teams d)"

definition roster_ok :: "db \<Rightarrow> bool" where
  "roster_ok d \<longleftrightarrow> fresh_supply d \<and> (\<forall>n \<ge> Drawn d. UuidGen d n \<notin> record_ids d)
     \<and> distinct (map P_id (participants d)) \<and> (\<forall>p \<in> set (participants d). entryRecord d p)
     \<and> (\<forall>p \<in> set (participants d). \<forall>q \<in> set (participants d). P_player_id p = P_player_id q \<longrightarrow> P_team_id p = P_team_id q \<longrightarrow> p = q)"

inductive roster_step :: "db \<Rightarrow> db \<Rightarrow> bool" where
  add: "AddEntry eventID orgID name seed d = Inr (p, d') \<Longrightarrow> roster_step d d'"
| seed: "SetSeed i orgID seed d = Inr (p, d') \<Longrightarrow> roster_step d d'"
| rename: "Rename i orgID name d = Inr (p, d') \<Longrightarrow> roster_step d d'"
| delete: "DeleteEntry i orgID d = Inr (u, d') \<Longrightarrow> roster_step d d'"

lemma entryRecord_player:
  "P_player_id p = Some i \<Longrightarrow> P_team_id p = None \<Longrightarrow> r \<in> set (players d) \<Longrightarrow> Pl_id r = i \<Longrightarrow> Pl_name r = P_display_name p \<Longrightarrow> entryRecord d p"
  by (auto simp: entryRecord_def)

lemma entryRecord_team:
  "P_player_id p = None \<Longrightarrow> P_team_id p = Some i \<Longrightarrow> r \<in> set (teams d) \<Longrightarrow> Tm_id r = i \<Longrightarrow> Tm_name r = Some (P_display_name p) \<Longrightarrow> entryRecord d p"
  by (auto simp: entryRecord_def)

lemma roster_okI:
  assumes "fresh_supply d" and "\<And>n. Drawn d \<le> n \<Longrightarrow> UuidGen d n \<notin> record_ids d" and "distinct (map P_id (participants d))"
    and "\<And>p. p \<in> set (participants d) \<Longrightarrow> entryRecord d p"
    and "\<And>p q. p \<in> set (participants d) \<Longrightarrow> q \<in> set (participants d) \<Longrightarrow> P_player_id p = P_player_id q \<Longrightarrow> P_team_id p = P_team_id q \<Longrightarrow> p = q"
  shows "roster_ok d"
  using assms unfolding roster_ok_def by blast

lemma roster_okD:
  assumes "roster_ok d"
  shows "fresh_supply d" and "Drawn d \<le> n \<Longrightarrow> UuidGen d n \<notin> record_ids d" and "distinct (map P_id (participants d))"
    and "p \<in> set (participants d) \<Longrightarrow> entryRecord d p"
    and "p \<in> set (participants d) \<Longrightarrow> q \<in> set (participants d) \<Longrightarrow> P_player_id p = P_player_id q \<Longrightarrow> P_team_id p = P_team_id q \<Longrightarrow> p = q"
  using assms unfolding roster_ok_def by blast+

lemma entryRecord_mono:
  assumes "entryRecord d p" and "set (players d) \<subseteq> set (players d')" and "set (teams d) \<subseteq> set (teams d')"
  shows "entryRecord d' p"
  using assms unfolding entryRecord_def by (auto split: option.splits)

lemma entryRecord_ids:
  assumes "entryRecord d p"
  shows "set_option (P_player_id p) \<union> set_option (P_team_id p) \<subseteq> record_ids d"
  using assms unfolding entryRecord_def record_ids_def by (auto split: option.splits)

lemma roster_ok_add:
  assumes "roster_ok d" and "participants d' = participants d @ [p]" and "P_id p = UuidGen d (Suc (Drawn d))"
    and "Drawn d' = Suc (Suc (Drawn d))" and "UuidGen d' = UuidGen d" and "ids_in_use d' = insert (P_id p) (ids_in_use d)"
    and "record_ids d' = insert (UuidGen d (Drawn d)) (record_ids d)"
    and "set (players d) \<subseteq> set (players d')" and "set (teams d) \<subseteq> set (teams d')" and "entryRecord d' p"
    and "P_player_id p = Some (UuidGen d (Drawn d)) \<or> P_team_id p = Some (UuidGen d (Drawn d))"
  shows "roster_ok d'"
proof -
  have inj: "UuidGen d m = UuidGen d n \<longleftrightarrow> m = n" for m n
    using assms(1) by (auto simp: roster_ok_def fresh_supply_def dest: injD)
  have old: "fresh_supply d" "\<And>n. Drawn d \<le> n \<Longrightarrow> UuidGen d n \<notin> record_ids d" "distinct (map P_id (participants d))"
    "\<And>q. q \<in> set (participants d) \<Longrightarrow> entryRecord d q"
    "\<And>q r. q \<in> set (participants d) \<Longrightarrow> r \<in> set (participants d) \<Longrightarrow> P_player_id q = P_player_id r \<Longrightarrow> P_team_id q = P_team_id r \<Longrightarrow> q = r"
    using assms(1) unfolding roster_ok_def by blast+
  have fresh: "fresh_supply d'"
    using old(1) assms(3-6) by (auto simp: fresh_supply_def inj)
  have pid: "P_id p \<notin> P_id ` set (participants d)"
    using drawn_fresh [OF old(1), of "Suc (Drawn d)"] assms(3) by (auto simp: ids_in_use_def)
  have new: "\<not> (P_player_id q = P_player_id p \<and> P_team_id q = P_team_id p)" if "q \<in> set (participants d)" for q
    using entryRecord_ids [OF old(4) [OF that]] old(2) [of "Drawn d"] assms(11) by auto
  have recs: "entryRecord d' q" if "q \<in> set (participants d')" for q
    using that assms(2,10) old(4) entryRecord_mono [OF _ assms(8,9)] by auto
  have "UuidGen d' n \<notin> record_ids d'" if "Drawn d' \<le> n" for n
    using that assms(4,5,7) old(2) [of n] by (auto simp: inj)
  moreover have "distinct (map P_id (participants d'))" using old(3) pid assms(2) by simp
  moreover have "q = r" if "q \<in> set (participants d')" "r \<in> set (participants d')" "P_player_id q = P_player_id r"
      "P_team_id q = P_team_id r" for q r
    using that old(5) new unfolding assms(2) by (metis Un_iff empty_iff empty_set insert_iff list.simps(15) set_append)
  ultimately show ?thesis using fresh recs unfolding roster_ok_def by blast
qed

lemma AddEntry_ok:
  assumes "roster_ok d" and "AddEntry eventID orgID name seed d = Inr (p, d')"
  shows "roster_ok d'"
proof -
  consider (single) own where "CreateSingles own eventID name seed d = Inr (p, d')"
    | (double) "CreateDoubles eventID name seed d = Inr (p, d')"
    using assms(2) by (auto simp: AddEntry_def Let_def split: sum.splits if_splits)
  then show ?thesis
  proof cases
    case single
    then show ?thesis
      by (intro roster_ok_add [OF assms(1), of d' p])
        (auto simp: CreateSingles_def insertEntry_def gen_random_uuid_def Let_def ids_in_use_def record_ids_def
          entryRecord_def split: if_splits)
  next
    case double
    then show ?thesis
      by (intro roster_ok_add [OF assms(1), of d' p])
        (auto simp: CreateDoubles_def insertEntry_def gen_random_uuid_def Let_def ids_in_use_def record_ids_def
          entryRecord_def split: if_splits)
  qed
qed

text \<open>An update of the entries in place, with the records the entries point at.\<close>

lemma roster_ok_update:
  assumes "roster_ok d" and "participants d' = update_where (\<lambda>p. P_id p = i) f (participants d)"
    and "\<And>p. P_id (f p) = P_id p \<and> P_player_id (f p) = P_player_id p \<and> P_team_id (f p) = P_team_id p"
    and "UuidGen d' = UuidGen d" and "Drawn d' = Drawn d" and "ids_in_use d' = ids_in_use d" and "record_ids d' = record_ids d"
    and "\<And>p. p \<in> set (participants d) \<Longrightarrow> entryRecord d p \<Longrightarrow> entryRecord d' (if P_id p = i then f p else p)"
  shows "roster_ok d'"
proof -
  let ?u = "\<lambda>p. if P_id p = i then f p else p"
  have P: "participants d' = map ?u (participants d)" by (simp add: assms(2) update_where_def)
  have same: "P_id (?u p) = P_id p" "P_player_id (?u p) = P_player_id p" "P_team_id (?u p) = P_team_id p" for p
    using assms(3) by simp_all
  show ?thesis
  proof (rule roster_okI)
    show "fresh_supply d'" using roster_okD(1) [OF assms(1)] assms(4-6) by (simp add: fresh_supply_def)
    show "UuidGen d' n \<notin> record_ids d'" if "Drawn d' \<le> n" for n
      using roster_okD(2) [OF assms(1)] that assms(4,5,7) by simp
    have "map P_id (participants d') = map P_id (participants d)" using same(1) by (simp add: P)
    then show "distinct (map P_id (participants d'))" using roster_okD(3) [OF assms(1)] by simp
  next
    fix p assume "p \<in> set (participants d')"
    then obtain p0 where "p0 \<in> set (participants d)" "p = ?u p0" unfolding P set_map by blast
    then show "entryRecord d' p" using assms(8) roster_okD(4) [OF assms(1)] by blast
  next
    fix p q assume "p \<in> set (participants d')" "q \<in> set (participants d')" and e: "P_player_id p = P_player_id q" "P_team_id p = P_team_id q"
    then obtain p0 q0 where pq: "p0 \<in> set (participants d)" "p = ?u p0" "q0 \<in> set (participants d)" "q = ?u q0"
      unfolding P set_map by blast
    then have "p0 = q0" using e same(2,3) roster_okD(5) [OF assms(1)] by metis
    then show "p = q" using pq by simp
  qed
qed

lemma ids_update_participants:
  assumes "\<And>p. P_id (f p) = P_id p"
  shows "P_id ` set (update_where Q f (participants d)) = P_id ` set (participants d)"
  unfolding set_map [symmetric] by (simp add: map_update_where assms)

lemma SetSeed_ok:
  assumes "roster_ok d" and "SetSeed i orgID seed d = Inr (p, d')"
  shows "roster_ok d'"
proof -
  have d': "d' = d\<lparr>participants := update_where (\<lambda>p. P_id p = i) (\<lambda>p. p\<lparr>P_seed := seed\<rparr>) (participants d)\<rparr>"
    using assms(2) by (auto simp: SetSeed_def seedEntry_def updateEntry_def split: sum.splits option.splits if_splits)
  show ?thesis
    by (rule roster_ok_update [OF assms(1), of d' i "\<lambda>p. p\<lparr>P_seed := seed\<rparr>"])
      (simp_all add: d' ids_in_use_def ids_update_participants record_ids_def entryRecord_def cong: option.case_cong)
qed

lemma Rename_Inr:
  assumes "Rename i orgID name d = Inr (p', d')"
  obtains p where "findParticipant d i = Some p" and "trimSpace name \<noteq> []" and "p' = p\<lparr>P_display_name := trimSpace name\<rparr>"
    and "d' = renameTeam (P_team_id p) (trimSpace name) (renamePlayer (P_player_id p) (trimSpace name)
      (d\<lparr>participants := update_where (\<lambda>p. P_id p = i) (\<lambda>p. p\<lparr>P_display_name := trimSpace name\<rparr>) (participants d)\<rparr>))"
  using assms that by (auto simp: Rename_def renameEntry_def updateEntry_def Let_def split: sum.splits option.splits if_splits)

lemma ids_update_records:
  "Pl_id ` set (update_where Q (\<lambda>p. p\<lparr>Pl_name := n\<rparr>) rs) = Pl_id ` set rs"
  "Tm_id ` set (update_where R (\<lambda>t. t\<lparr>Tm_name := m\<rparr>) ts) = Tm_id ` set ts"
  unfolding set_map [symmetric] by (simp_all add: map_update_where)

lemma rename_frame:
  "participants (renameTeam t n d) = participants d" "participants (renamePlayer q n d) = participants d"
  "UuidGen (renameTeam t n d) = UuidGen d" "UuidGen (renamePlayer q n d) = UuidGen d"
  "Drawn (renameTeam t n d) = Drawn d" "Drawn (renamePlayer q n d) = Drawn d"
  "ids_in_use (renameTeam t n d) = ids_in_use d" "ids_in_use (renamePlayer q n d) = ids_in_use d"
  "record_ids (renameTeam t n d) = record_ids d" "record_ids (renamePlayer q n d) = record_ids d"
  by (simp_all add: ids_in_use_def record_ids_def renameTeam_def renamePlayer_def ids_update_records split: option.splits)

lemma rename_records:
  "r \<in> set (players d) \<Longrightarrow> Pl_id r = j \<Longrightarrow> (if q = Some j then r\<lparr>Pl_name := n\<rparr> else r) \<in> set (players (renameTeam t m (renamePlayer q n d)))"
  "u \<in> set (teams d) \<Longrightarrow> Tm_id u = j \<Longrightarrow> (if t = Some j then u\<lparr>Tm_name := Some m\<rparr> else u) \<in> set (teams (renameTeam t m (renamePlayer q n d)))"
  by (auto simp: renameTeam_def renamePlayer_def set_update_where image_iff split: option.splits)

lemma Rename_ok:
  assumes "roster_ok d" and "Rename i orgID name d = Inr (p', d')"
  shows "roster_ok d'"
proof -
  let ?n = "trimSpace name" and ?f = "\<lambda>p. p\<lparr>P_display_name := trimSpace name\<rparr>"
  obtain p where p: "findParticipant d i = Some p"
    and d': "d' = renameTeam (P_team_id p) ?n (renamePlayer (P_player_id p) ?n (d\<lparr>participants := update_where (\<lambda>p. P_id p = i) ?f (participants d)\<rparr>))"
    using assms(2) by (rule Rename_Inr)
  have pin: "p \<in> set (participants d)" "P_id p = i" using p by (auto simp: findParticipant_def find_Some_iff)
  have only: "P_id q = i \<longleftrightarrow> q = p" if "q \<in> set (participants d)" for q
    using that pin assms(1) unfolding roster_ok_def by (metis distinct_map inj_onD)
  have apart: "P_player_id q = P_player_id p \<Longrightarrow> P_team_id q = P_team_id p \<Longrightarrow> q = p" if "q \<in> set (participants d)" for q
    using that pin assms(1) unfolding roster_ok_def by blast
  have ep: "entryRecord d p" using assms(1) pin by (simp add: roster_ok_def)
  show ?thesis
  proof (rule roster_ok_update [OF assms(1), of d' i ?f])
    fix q assume q: "q \<in> set (participants d)" "entryRecord d q"
    show "entryRecord d' (if P_id q = i then ?f q else q)"
    proof (cases "P_player_id q")
      case None
      then obtain j u where j: "P_team_id q = Some j" "u \<in> set (teams d)" "Tm_id u = j" "Tm_name u = Some (P_display_name q)"
        using q(2) by (auto simp: entryRecord_def split: option.splits)
      have "(if P_team_id p = Some j then u\<lparr>Tm_name := Some ?n\<rparr> else u) \<in> set (teams d')"
        using rename_records(2) [of u "d\<lparr>participants := _\<rparr>" j] j(2,3) unfolding d' by simp
      moreover have "P_team_id p = Some j \<longleftrightarrow> q = p"
        using ep apart [OF q(1)] j(1) None by (auto simp: entryRecord_def split: option.splits)
      ultimately show ?thesis using None j only [OF q(1)]
        by (intro entryRecord_team [where i = j and r = "if P_team_id p = Some j then u\<lparr>Tm_name := Some ?n\<rparr> else u"]) auto
    next
      case (Some j)
      then obtain u where j: "P_team_id q = None" "u \<in> set (players d)" "Pl_id u = j" "Pl_name u = P_display_name q"
        using q(2) by (auto simp: entryRecord_def split: option.splits)
      have "(if P_player_id p = Some j then u\<lparr>Pl_name := ?n\<rparr> else u) \<in> set (players d')"
        using rename_records(1) [of u "d\<lparr>participants := _\<rparr>" j] j(2,3) unfolding d' by simp
      moreover have "P_player_id p = Some j \<longleftrightarrow> q = p"
        using ep apart [OF q(1)] j(1) Some by (auto simp: entryRecord_def split: option.splits)
      ultimately show ?thesis using Some j only [OF q(1)]
        by (intro entryRecord_player [where i = j and r = "if P_player_id p = Some j then u\<lparr>Pl_name := ?n\<rparr> else u"]) auto
    qed
  qed (simp_all add: d' rename_frame, simp_all add: ids_in_use_def ids_update_participants record_ids_def)
qed

lemma DeleteEntry_ok:
  assumes "roster_ok d" and "DeleteEntry i orgID d = Inr (u, d')"
  shows "roster_ok d'"
proof -
  have d': "d' = deleteParticipants (\<lambda>p. P_id p = i) d"
    using assms(2) by (auto simp: DeleteEntry_def deleteEntry_def split: sum.splits option.splits)
  have sub: "set (participants d') \<subseteq> set (participants d)" by (auto simp: d' deleteParticipants_def Let_def)
  have "M_id ` set (matches d') = M_id ` set (matches d)" by (simp add: d' deleteParticipants_def Let_def image_image)
  moreover have "set (match_participants d') \<subseteq> set (match_participants d)"
    by (auto simp: d' deleteParticipants_def Let_def)
  moreover have "tournaments d' = tournaments d" "events d' = events d" "stages d' = stages d" "groups d' = groups d"
    "schedule_slots d' = schedule_slots d" "UuidGen d' = UuidGen d" "Drawn d' = Drawn d"
    by (simp_all add: d' deleteParticipants_def Let_def)
  ultimately have "grows d d'" using sub unfolding grows_def ids_in_use_def by (auto dest: subsetD)
  then have fresh: "fresh_supply d'" using roster_okD(1) [OF assms(1)] grows_fresh by blast
  have same: "players d' = players d" "teams d' = teams d" "UuidGen d' = UuidGen d" "Drawn d' = Drawn d"
    by (simp_all add: d' deleteParticipants_def Let_def)
  have ids: "distinct (map P_id (participants d'))"
    using roster_okD(3) [OF assms(1)] by (simp add: d' deleteParticipants_def Let_def delete_where_def distinct_map_filter)
  show ?thesis
  proof (rule roster_okI [OF fresh _ ids])
    show "UuidGen d' n \<notin> record_ids d'" if "Drawn d' \<le> n" for n
      using roster_okD(2) [OF assms(1)] that by (simp add: record_ids_def same)
    show "entryRecord d' p" if "p \<in> set (participants d')" for p
      using entryRecord_mono [OF roster_okD(4) [OF assms(1)], of p d'] that sub by (auto simp: same)
    show "p = q" if "p \<in> set (participants d')" "q \<in> set (participants d')" "P_player_id p = P_player_id q" "P_team_id p = P_team_id q" for p q
      using that sub roster_okD(5) [OF assms(1)] by blast
  qed
qed

lemma roster_step_ok: "roster_step d d' \<Longrightarrow> roster_ok d \<Longrightarrow> roster_ok d'"
  by (induction rule: roster_step.induct) (auto intro: AddEntry_ok SetSeed_ok Rename_ok DeleteEntry_ok)

interpretation roster: transitions roster_step roster_ok
  by unfold_locales (rule roster_step_ok)


lemma sample_roster_ok: "roster_ok (sample_db format)"
proof (rule roster_okI)
  show "fresh_supply (sample_db format)" using sample_db_wf by (simp add: db_wf_def)
qed (auto simp: sample_db_def record_ids_def entryRecord_def)


text \<open>Deleting an entry also deletes the slots it held in the draw, so its matches are left short of a slot.\<close>

lemma DeleteEntry_drops_slots:
  "DeleteEntry i orgID d = Inr (u, d') \<Longrightarrow> map M_id (matches d') = map M_id (matches d)
     \<and> match_participants d' = filter (\<lambda>s. S_participant_id s \<noteq> Some i) (match_participants d)"
proof -
  assume "DeleteEntry i orgID d = Inr (u, d')"
  then obtain p where "findParticipant d i = Some p" and d': "d' = deleteParticipants (\<lambda>p. P_id p = i) d"
    by (auto simp: DeleteEntry_def deleteEntry_def split: sum.splits option.splits)
  then have "p \<in> set (participants d)" "P_id p = i" by (auto simp: findParticipant_def find_Some_iff)
  then have "P_id ` set (filter (\<lambda>p. P_id p = i) (participants d)) = {i}"
    by auto
  then show ?thesis by (auto simp: d' deleteParticipants_def Let_def delete_where_def intro!: filter_cong)
qed

end
