(* ===== verification/Tournament.thy ===== *)
theory Tournament
  imports DrawBuild GoText
begin

section \<open>Tournaments (internal/tournament)\<close>

text \<open>
  The tournament service with the statements of its repository: slugs made unique, partial updates,
  publishing, and the public reads. \<open>time.Parse("2006-01-02", _)\<close> and \<open>time.LoadLocation\<close>
  read data outside the repository and are the parameters \<open>parseDay\<close> and \<open>loadLocation\<close>. A nil
  branding map is SQL NULL. Create's read of the slugs and its insert are two statements; here no
  other request comes between them.
\<close>

datatype tournament_error = TnNotFound | TnSlugTaken | TnInvalidTimezone string | TnBadDate string | TnInternal

record create_tournament_request =
  CtrName :: string
  CtrSlug :: string
  CtrSport :: string
  CtrDescription :: string
  CtrLocation :: string
  CtrStartsOn :: string
  CtrEndsOn :: string
  CtrTimezone :: string
  CtrBranding :: "(string \<times> json) list option"

record update_tournament_request =
  UtrName :: "string option"
  UtrDescription :: "string option"
  UtrLocation :: "string option"
  UtrStartsOn :: "string option"
  UtrEndsOn :: "string option"
  UtrTimezone :: "string option"
  UtrBranding :: "(string \<times> json) list option"

record tournament_input =
  TiOrg :: uuid
  TiName :: string
  TiSlug :: string
  TiSport :: string
  TiDescription :: "string option"
  TiLocation :: "string option"
  TiStartsOn :: "gotime option"
  TiEndsOn :: "gotime option"
  TiTimezone :: string
  TiBranding :: "(string \<times> json) list option"

record tournament_patch =
  TpName :: "string option"
  TpDescription :: "string option"
  TpLocation :: "string option"
  TpStartsOn :: "gotime option"
  TpEndsOn :: "gotime option"
  TpTimezone :: "string option"
  TpBranding :: "(string \<times> json) list option"

record public_event =
  PeID :: uuid
  PeName :: string
  PeSlug :: string
  PeDiscipline :: string
  PeFormat :: string
  PeCategory :: "string option"
  PeGender :: string
  PePublicDisplayName :: "string option"
  PePublicOrder :: int
  PeHasGroupStage :: bool
  PeHasKnockoutStage :: bool

record tournament = tournament_row +
  EventCount :: int
  TournamentEvents :: "public_event list"

subsection \<open>Reads\<close>

definition deriveStages :: "string \<Rightarrow> bool \<times> bool" where
  "deriveStages format = (if format = ''group_knockout'' then (True, True)
     else if format = ''round_robin'' then (True, False) else (False, True))"

definition eventCount :: "db \<Rightarrow> uuid \<Rightarrow> int" where
  "eventCount d tid = int (length (filter (\<lambda>e. E_tournament_id e = tid) (events d)))"

definition withCount :: "int \<Rightarrow> tournament_row \<Rightarrow> tournament" where
  "withCount n t = tournament_row.extend t (tournament.fields n [])"

definition visibleTo :: "uuid \<Rightarrow> uuid option \<Rightarrow> tournament_row \<Rightarrow> bool" where
  "visibleTo tid orgID t \<longleftrightarrow> T_id t = tid \<and> (orgID = None \<or> orgID = Some (T_org_id t))"

text \<open>The second component is the total of \<open>COUNT(*) OVER()\<close>, which no row carries on an empty page.\<close>

definition ListByOrg :: "db \<Rightarrow> uuid \<Rightarrow> nat \<Rightarrow> nat \<Rightarrow> tournament list \<times> int" where
  "ListByOrg d orgID limit offset =
     (let rows = filter (\<lambda>t. T_org_id t = orgID) (tournaments d);
          page = take limit (drop offset (sort_key (\<lambda>t. - T_created_at t) rows))
      in (map (\<lambda>t. (withCount (eventCount d (T_id t)) t)\<lparr>T_branding := []\<rparr>) page,
          if page = [] then 0 else int (length rows)))"

definition GetByID :: "db \<Rightarrow> uuid \<Rightarrow> uuid option \<Rightarrow> tournament_error + tournament" where
  "GetByID d tid orgID = (case List.find (visibleTo tid orgID) (tournaments d) of
     None \<Rightarrow> Inl TnNotFound | Some t \<Rightarrow> Inr (withCount (eventCount d (T_id t)) t))"

definition GetBySlug :: "db \<Rightarrow> string \<Rightarrow> tournament_error + tournament" where
  "GetBySlug d slug = (case List.find (\<lambda>t. T_slug t = slug) (tournaments d) of
     None \<Rightarrow> Inl TnNotFound | Some t \<Rightarrow> Inr (withCount (eventCount d (T_id t)) t))"

definition publicEvent :: "event_row \<Rightarrow> public_event" where
  "publicEvent e = \<lparr>PeID = E_id e, PeName = E_name e, PeSlug = E_slug e, PeDiscipline = E_discipline e,
     PeFormat = E_format e, PeCategory = E_category e, PeGender = E_gender e,
     PePublicDisplayName = E_public_display_name e, PePublicOrder = E_public_order e,
     PeHasGroupStage = fst (deriveStages (E_format e)), PeHasKnockoutStage = snd (deriveStages (E_format e))\<rparr>"

definition EventsFor :: "db \<Rightarrow> uuid \<Rightarrow> public_event list" where
  "EventsFor d tid = map publicEvent (sort_key E_public_order (sort_key E_created_at
     (filter (\<lambda>e. E_tournament_id e = tid \<and> E_is_public e) (events d))))"

definition IsPublishedSlug :: "db \<Rightarrow> string \<Rightarrow> bool" where
  "IsPublishedSlug d slug \<longleftrightarrow> (\<exists>t \<in> set (tournaments d). T_slug t = slug \<and> T_status t = ''published'')"

definition SlugExists :: "db \<Rightarrow> string \<Rightarrow> bool" where
  "SlugExists d slug \<longleftrightarrow> (\<exists>t \<in> set (tournaments d). T_slug t = slug)"

definition GetPublicTournament :: "db \<Rightarrow> string \<Rightarrow> tournament_error + tournament" where
  "GetPublicTournament d slug = (case GetBySlug d slug of
     Inl e \<Rightarrow> Inl e | Inr t \<Rightarrow> Inr (t\<lparr>TournamentEvents := EventsFor d (T_id t)\<rparr>))"

subsection \<open>Writes\<close>

definition newTournament :: "ctx \<Rightarrow> tournament_input \<Rightarrow> uuid \<Rightarrow> tournament_row" where
  "newTournament ctx i tid = \<lparr>T_id = tid, T_org_id = TiOrg i, T_name = TiName i, T_slug = TiSlug i, T_status = ''draft'',
     T_published_at = None, T_sport = TiSport i, T_description = TiDescription i, T_location = TiLocation i,
     T_starts_on = TiStartsOn i, T_ends_on = TiEndsOn i, T_timezone = TiTimezone i,
     T_branding = (case TiBranding i of None \<Rightarrow> [] | Some b \<Rightarrow> b), T_created_at = CtxNow ctx\<rparr>"

definition insertTournament :: "ctx \<Rightarrow> tournament_input \<Rightarrow> db \<Rightarrow> tournament_error + tournament \<times> db" where
  "insertTournament ctx i d =
     (if SlugExists d (TiSlug i) then Inl TnInternal
      else let (tid, d) = gen_random_uuid d; t = newTournament ctx i tid
           in Inr (withCount 0 t, d\<lparr>tournaments := tournaments d @ [t]\<rparr>))"

definition coalesce :: "'a option \<Rightarrow> 'a \<Rightarrow> 'a" where
  "coalesce v old = (case v of None \<Rightarrow> old | Some x \<Rightarrow> x)"

definition patchTournament :: "tournament_patch \<Rightarrow> tournament_row \<Rightarrow> tournament_row" where
  "patchTournament p t = t\<lparr>T_name := coalesce (TpName p) (T_name t),
     T_description := (if TpDescription p = None then T_description t else TpDescription p),
     T_location := (if TpLocation p = None then T_location t else TpLocation p),
     T_starts_on := (if TpStartsOn p = None then T_starts_on t else TpStartsOn p),
     T_ends_on := (if TpEndsOn p = None then T_ends_on t else TpEndsOn p),
     T_branding := coalesce (TpBranding p) (T_branding t), T_timezone := coalesce (TpTimezone p) (T_timezone t)\<rparr>"

text \<open>\<open>UPDATE ... WHERE id = $1 AND ($2 IS NULL OR org_id = $2) RETURNING\<close>\<close>

definition updateTournament ::
  "uuid \<Rightarrow> uuid option \<Rightarrow> (tournament_row \<Rightarrow> tournament_row) \<Rightarrow> db \<Rightarrow> tournament_error + tournament \<times> db" where
  "updateTournament tid orgID f d = (case List.find (visibleTo tid orgID) (tournaments d) of
     None \<Rightarrow> Inl TnNotFound
   | Some t \<Rightarrow> Inr (withCount (eventCount d tid) (f t), d\<lparr>tournaments := update_where (visibleTo tid orgID) f (tournaments d)\<rparr>))"

definition statusTournament :: "ctx \<Rightarrow> string \<Rightarrow> tournament_row \<Rightarrow> tournament_row" where
  "statusTournament ctx status t = t\<lparr>T_status := status,
     T_published_at := (if status = ''published'' then Some (CtxNow ctx) else T_published_at t)\<rparr>"

subsection \<open>The service\<close>

definition validateTimezone :: "(string \<Rightarrow> bool) \<Rightarrow> string \<Rightarrow> tournament_error option" where
  "validateTimezone loadLocation tz = (if tz = [] \<or> tz = ''Local'' then Some (TnInvalidTimezone tz)
     else if \<not> loadLocation tz then Some (TnInvalidTimezone tz) else None)"

definition parseDate :: "(string \<Rightarrow> gotime option) \<Rightarrow> string \<Rightarrow> gotime option option" where
  "parseDate parseDay s = (let s = trimSpace s in if s = [] then Some None else map_option Some (parseDay s))"

definition strPtr :: "string \<Rightarrow> string option" where
  "strPtr s = (let s = trimSpace s in if s = [] then None else Some s)"

function ensureLoop :: "(string \<Rightarrow> bool) \<Rightarrow> string \<Rightarrow> string \<Rightarrow> int \<Rightarrow> string option" where
  "ensureLoop slugExists base candidate i =
     (if \<not> slugExists candidate then Some candidate
      else if i > 100 then None
      else ensureLoop slugExists base (base @ ''-'' @ dec i) (i + 1))"
  by pat_completeness auto
termination by (relation "measure (\<lambda>(_, _, _, i). nat (102 - i))") auto

declare ensureLoop.simps [simp del]

definition ensureUniqueSlug :: "db \<Rightarrow> string \<Rightarrow> tournament_error + string" where
  "ensureUniqueSlug d base = (case ensureLoop (SlugExists d) base base 2 of None \<Rightarrow> Inl TnSlugTaken | Some s \<Rightarrow> Inr s)"

definition DefaultTimezone :: string where
  "DefaultTimezone = ''Asia/Makassar''"

definition createZone :: "(string \<Rightarrow> bool) \<Rightarrow> string \<Rightarrow> tournament_error + string" where
  "createZone loadLocation tz = (if trimSpace tz = [] then Inr DefaultTimezone
     else case validateTimezone loadLocation (trimSpace tz) of Some e \<Rightarrow> Inl e | None \<Rightarrow> Inr (trimSpace tz))"

definition CreateTournament ::
  "(string \<Rightarrow> gotime option) \<Rightarrow> (string \<Rightarrow> bool) \<Rightarrow> ctx \<Rightarrow> uuid \<Rightarrow> create_tournament_request \<Rightarrow> db
   \<Rightarrow> tournament_error + tournament \<times> db" where
  "CreateTournament parseDay loadLocation ctx orgID req d =
     (let slug = trimSpace (CtrSlug req);
          slug = (if slug = [] then tournamentSlugify (CtrName req) else tournamentSlugify slug)
      in case ensureUniqueSlug d slug of
           Inl e \<Rightarrow> Inl e
         | Inr unique \<Rightarrow> (case parseDate parseDay (CtrStartsOn req) of
             None \<Rightarrow> Inl (TnBadDate ''starts_on'')
           | Some starts \<Rightarrow> (case parseDate parseDay (CtrEndsOn req) of
               None \<Rightarrow> Inl (TnBadDate ''ends_on'')
             | Some ends \<Rightarrow> (case createZone loadLocation (CtrTimezone req) of
                 Inl e \<Rightarrow> Inl e
               | Inr tz \<Rightarrow> insertTournament ctx \<lparr>TiOrg = orgID, TiName = trimSpace (CtrName req), TiSlug = unique,
                   TiSport = CtrSport req, TiDescription = strPtr (CtrDescription req), TiLocation = strPtr (CtrLocation req),
                   TiStartsOn = starts, TiEndsOn = ends, TiTimezone = tz, TiBranding = CtrBranding req\<rparr> d))))"

text \<open>An absent field is not parsed; a present blank date is parsed to nil, which leaves the column.\<close>

definition patchDate :: "(string \<Rightarrow> gotime option) \<Rightarrow> string option \<Rightarrow> gotime option option" where
  "patchDate parseDay s = (case s of None \<Rightarrow> Some None | Some s \<Rightarrow> parseDate parseDay s)"

definition patchZone :: "(string \<Rightarrow> bool) \<Rightarrow> string option \<Rightarrow> tournament_error + string option" where
  "patchZone loadLocation tz = (case tz of None \<Rightarrow> Inr None
     | Some tz \<Rightarrow> (case validateTimezone loadLocation (trimSpace tz) of Some e \<Rightarrow> Inl e | None \<Rightarrow> Inr (Some (trimSpace tz))))"

definition UpdateTournament ::
  "(string \<Rightarrow> gotime option) \<Rightarrow> (string \<Rightarrow> bool) \<Rightarrow> uuid \<Rightarrow> uuid option \<Rightarrow> update_tournament_request \<Rightarrow> db
   \<Rightarrow> tournament_error + tournament \<times> db" where
  "UpdateTournament parseDay loadLocation tid orgID req d =
     (case patchZone loadLocation (UtrTimezone req) of
        Inl e \<Rightarrow> Inl e
      | Inr tz \<Rightarrow> (case patchDate parseDay (UtrStartsOn req) of
          None \<Rightarrow> Inl (TnBadDate ''starts_on'')
        | Some starts \<Rightarrow> (case patchDate parseDay (UtrEndsOn req) of
            None \<Rightarrow> Inl (TnBadDate ''ends_on'')
          | Some ends \<Rightarrow> updateTournament tid orgID (patchTournament \<lparr>TpName = UtrName req, TpDescription = UtrDescription req,
              TpLocation = UtrLocation req, TpStartsOn = starts, TpEndsOn = ends, TpTimezone = tz, TpBranding = UtrBranding req\<rparr>) d)))"

definition setTournamentStatus ::
  "ctx \<Rightarrow> uuid \<Rightarrow> uuid \<Rightarrow> uuid option \<Rightarrow> string \<Rightarrow> string \<Rightarrow> db \<Rightarrow> tournament_error + tournament \<times> db" where
  "setTournamentStatus ctx actor tid orgID status action d =
     (case updateTournament tid orgID (statusTournament ctx status) d of
        Inl e \<Rightarrow> Inl e
      | Inr (t, d) \<Rightarrow> Inr (t, RecordTx ctx (entry_zero\<lparr>ActorUserID := actor, OrgID := Some (T_org_id t),
          TournamentID := Some (T_id t), Action := action, TargetType := ''tournament'', TargetID := uuid_str (T_id t),
          Diff := Some [(''status'', DStr (T_status t))]\<rparr>) d))"

definition Publish :: "ctx \<Rightarrow> uuid \<Rightarrow> uuid \<Rightarrow> uuid option \<Rightarrow> db \<Rightarrow> tournament_error + tournament \<times> db" where
  "Publish ctx actor tid orgID = setTournamentStatus ctx actor tid orgID ''published'' ''tournament.publish''"

definition Unpublish :: "ctx \<Rightarrow> uuid \<Rightarrow> uuid \<Rightarrow> uuid option \<Rightarrow> db \<Rightarrow> tournament_error + tournament \<times> db" where
  "Unpublish ctx actor tid orgID = setTournamentStatus ctx actor tid orgID ''draft'' ''tournament.unpublish''"

subsection \<open>Creating a tournament\<close>

definition slugCandidatesOf :: "string \<Rightarrow> string list" where
  "slugCandidatesOf base = base # map (\<lambda>i. base @ ''-'' @ dec i) [2..100]"

lemma upto_first: "i \<le> j \<Longrightarrow> [i..j] = i # [i + 1..j]"
  by (simp add: upto_rec1)

lemma ensureLoop_find:
  assumes "2 \<le> i" and "i \<le> 101"
  shows "ensureLoop P base c i = List.find (\<lambda>s. \<not> P s) (c # map (\<lambda>i. base @ ''-'' @ dec i) [i..100])"
  using assms
proof (induction "nat (101 - i)" arbitrary: c i)
  case 0
  then have "i = 101" by simp
  then show ?case by (simp add: ensureLoop.simps)
next
  case (Suc n)
  then have "n = nat (101 - (i + 1))" "2 \<le> i + 1" "i + 1 \<le> 101" "i \<le> 100" by linarith+
  then show ?case using Suc.hyps(1) [of "i + 1" "base @ ''-'' @ dec i"]
    by (simp add: ensureLoop.simps [of P base c i] upto_first)
qed

lemma ensureUniqueSlug_eq:
  "ensureUniqueSlug d base = (case List.find (\<lambda>s. \<not> SlugExists d s) (slugCandidatesOf base) of
     None \<Rightarrow> Inl TnSlugTaken | Some s \<Rightarrow> Inr s)"
  using ensureLoop_find [of 2 "SlugExists d" base base] by (simp add: ensureUniqueSlug_def slugCandidatesOf_def)

lemma slugCandidatesOf_isSlug: "isSlug base \<Longrightarrow> c \<in> set (slugCandidatesOf base) \<Longrightarrow> isSlug c"
  using isSlug_numbered by (auto simp: slugCandidatesOf_def)

definition requestedSlug :: "create_tournament_request \<Rightarrow> string" where
  "requestedSlug req = tournamentSlugify (if trimSpace (CtrSlug req) = [] then CtrName req else trimSpace (CtrSlug req))"

definition zoneOk :: "(string \<Rightarrow> bool) \<Rightarrow> string \<Rightarrow> bool" where
  "zoneOk loadLocation tz \<longleftrightarrow> tz = DefaultTimezone \<or> (tz \<noteq> [] \<and> tz \<noteq> ''Local'' \<and> loadLocation tz)"

lemma validateTimezone_None: "validateTimezone loadLocation tz = None \<Longrightarrow> zoneOk loadLocation tz"
  by (auto simp: validateTimezone_def zoneOk_def split: if_splits)

lemma createZone_ok: "createZone loadLocation tz = Inr z \<Longrightarrow> zoneOk loadLocation z"
  using validateTimezone_None by (auto simp: createZone_def zoneOk_def split: if_splits option.splits)

lemma tournamentSlugify_isSlug: "isSlug (tournamentSlugify s)"
proof -
  have "isSlug ''tournament''" by (rule isSlug_word) (auto simp: slugChar_def)
  then show ?thesis using joinDash_isSlug [of "toLower s"] by (auto simp: tournamentSlugify_eq platformSlugify_eq)
qed

definition createInput ::
  "uuid \<Rightarrow> create_tournament_request \<Rightarrow> string \<Rightarrow> gotime option \<Rightarrow> gotime option \<Rightarrow> string \<Rightarrow> tournament_input" where
  "createInput orgID req slug starts ends tz = \<lparr>TiOrg = orgID, TiName = trimSpace (CtrName req), TiSlug = slug,
     TiSport = CtrSport req, TiDescription = strPtr (CtrDescription req), TiLocation = strPtr (CtrLocation req),
     TiStartsOn = starts, TiEndsOn = ends, TiTimezone = tz, TiBranding = CtrBranding req\<rparr>"

lemma CreateTournament_Inr:
  "CreateTournament parseDay loadLocation ctx orgID req d = Inr r \<longleftrightarrow>
    (\<exists>slug starts ends tz. List.find (\<lambda>s. \<not> SlugExists d s) (slugCandidatesOf (requestedSlug req)) = Some slug
      \<and> parseDate parseDay (CtrStartsOn req) = Some starts \<and> parseDate parseDay (CtrEndsOn req) = Some ends
      \<and> createZone loadLocation (CtrTimezone req) = Inr tz
      \<and> insertTournament ctx (createInput orgID req slug starts ends tz) d = Inr r)"
  by (auto simp: CreateTournament_def ensureUniqueSlug_eq requestedSlug_def createInput_def Let_def
      split: option.splits sum.splits)

lemma find_free: "List.find (\<lambda>s. \<not> P s) cs = Some c \<Longrightarrow> \<not> P c \<and> c \<in> set cs"
  by (auto simp: find_Some_iff)

lemma insertTournament_free:
  "\<not> SlugExists d (TiSlug i) \<Longrightarrow> insertTournament ctx i d = Inr (withCount 0 (newTournament ctx i (UuidGen d (Drawn d))),
     d\<lparr>Drawn := Suc (Drawn d), tournaments := tournaments d @ [newTournament ctx i (UuidGen d (Drawn d))]\<rparr>)"
  by (simp add: insertTournament_def gen_random_uuid_def Let_def)

text \<open>C22. Creating a tournament succeeds exactly when one of the slug and its numbered variants up to
  100 is free, both dates parse or are blank, and the zone is blank or loadable. It then appends one
  draft of the caller's organization under the first free candidate, which is a well-formed slug no
  tournament had, with the parsed dates and a zone that loads; nothing becomes public.\<close>

theorem CreateTournament_outcome:
  "((\<exists>r. CreateTournament parseDay loadLocation ctx orgID req d = Inr r) \<longleftrightarrow>
      (\<exists>c \<in> set (slugCandidatesOf (requestedSlug req)). \<not> SlugExists d c)
      \<and> parseDate parseDay (CtrStartsOn req) \<noteq> None \<and> parseDate parseDay (CtrEndsOn req) \<noteq> None
      \<and> (\<exists>tz. createZone loadLocation (CtrTimezone req) = Inr tz))
   \<and> (\<forall>t d'. CreateTournament parseDay loadLocation ctx orgID req d = Inr (t, d') \<longrightarrow>
      (\<exists>row. t = withCount 0 row \<and> tournaments d' = tournaments d @ [row]
        \<and> List.find (\<lambda>s. \<not> SlugExists d s) (slugCandidatesOf (requestedSlug req)) = Some (T_slug row)
        \<and> isSlug (T_slug row) \<and> \<not> SlugExists d (T_slug row) \<and> T_org_id row = orgID \<and> T_status row = ''draft''
        \<and> parseDate parseDay (CtrStartsOn req) = Some (T_starts_on row) \<and> parseDate parseDay (CtrEndsOn req) = Some (T_ends_on row)
        \<and> zoneOk loadLocation (T_timezone row))
      \<and> (\<forall>s. IsPublishedSlug d' s = IsPublishedSlug d s))"
proof (intro conjI allI impI)
  let ?free = "List.find (\<lambda>s. \<not> SlugExists d s) (slugCandidatesOf (requestedSlug req))"
  have free: "?free \<noteq> None \<longleftrightarrow> (\<exists>c \<in> set (slugCandidatesOf (requestedSlug req)). \<not> SlugExists d c)"
    by (auto simp: find_None_iff)
  have ins: "\<exists>r. insertTournament ctx (createInput orgID req slug a b z) d = Inr r" if "?free = Some slug" for slug a b z
    using insertTournament_free [of d "createInput orgID req slug a b z" ctx] find_free [OF that] by (auto simp: createInput_def)
  show "(\<exists>r. CreateTournament parseDay loadLocation ctx orgID req d = Inr r) \<longleftrightarrow>
      (\<exists>c \<in> set (slugCandidatesOf (requestedSlug req)). \<not> SlugExists d c)
      \<and> parseDate parseDay (CtrStartsOn req) \<noteq> None \<and> parseDate parseDay (CtrEndsOn req) \<noteq> None
      \<and> (\<exists>tz. createZone loadLocation (CtrTimezone req) = Inr tz)"
    unfolding CreateTournament_Inr free [symmetric] using ins by blast
next
  fix t d' assume "CreateTournament parseDay loadLocation ctx orgID req d = Inr (t, d')"
  then obtain slug starts ends tz where c: "List.find (\<lambda>s. \<not> SlugExists d s) (slugCandidatesOf (requestedSlug req)) = Some slug"
      "parseDate parseDay (CtrStartsOn req) = Some starts" "parseDate parseDay (CtrEndsOn req) = Some ends"
      "createZone loadLocation (CtrTimezone req) = Inr tz"
      "insertTournament ctx (createInput orgID req slug starts ends tz) d = Inr (t, d')"
    unfolding CreateTournament_Inr by blast
  let ?i = "createInput orgID req slug starts ends tz"
  have slug: "\<not> SlugExists d slug" "isSlug slug"
    using find_free [OF c(1)] slugCandidatesOf_isSlug tournamentSlugify_isSlug by (auto simp: requestedSlug_def)
  then obtain row where row: "t = withCount 0 row" "tournaments d' = tournaments d @ [row]" "T_slug row = slug"
      "T_org_id row = orgID" "T_status row = ''draft''" "T_timezone row = tz" "T_starts_on row = starts" "T_ends_on row = ends"
    using insertTournament_free [of d ?i ctx] c(5) by (auto simp: createInput_def newTournament_def)
  then show "\<exists>row. t = withCount 0 row \<and> tournaments d' = tournaments d @ [row]
        \<and> List.find (\<lambda>s. \<not> SlugExists d s) (slugCandidatesOf (requestedSlug req)) = Some (T_slug row)
        \<and> isSlug (T_slug row) \<and> \<not> SlugExists d (T_slug row) \<and> T_org_id row = orgID \<and> T_status row = ''draft''
        \<and> parseDate parseDay (CtrStartsOn req) = Some (T_starts_on row) \<and> parseDate parseDay (CtrEndsOn req) = Some (T_ends_on row)
        \<and> zoneOk loadLocation (T_timezone row)"
    using c(1-3) slug createZone_ok [OF c(4)] by auto
  show "IsPublishedSlug d' s = IsPublishedSlug d s" for s using row(2,5) by (auto simp: IsPublishedSlug_def)
qed

subsection \<open>The stored tournaments\<close>

definition tournaments_ok :: "(string \<Rightarrow> bool) \<Rightarrow> db \<Rightarrow> bool" where
  "tournaments_ok loadLocation d \<longleftrightarrow> fresh_supply d \<and> distinct (map T_id (tournaments d)) \<and> distinct (map T_slug (tournaments d))
     \<and> (\<forall>t \<in> set (tournaments d). isSlug (T_slug t) \<and> zoneOk loadLocation (T_timezone t)
          \<and> (T_status t = ''published'' \<longrightarrow> T_published_at t \<noteq> None))"

inductive tournament_step :: "(string \<Rightarrow> gotime option) \<Rightarrow> (string \<Rightarrow> bool) \<Rightarrow> db \<Rightarrow> db \<Rightarrow> bool"
  for parseDay loadLocation where
  create: "CreateTournament parseDay loadLocation ctx orgID creq d = Inr r \<Longrightarrow> tournament_step parseDay loadLocation d (snd r)"
| update: "UpdateTournament parseDay loadLocation tid scope ureq d = Inr r \<Longrightarrow> tournament_step parseDay loadLocation d (snd r)"
| publish: "Publish ctx actor tid scope d = Inr r \<Longrightarrow> tournament_step parseDay loadLocation d (snd r)"
| unpublish: "Unpublish ctx actor tid scope d = Inr r \<Longrightarrow> tournament_step parseDay loadLocation d (snd r)"

lemma tournaments_ok_update:
  assumes "tournaments_ok L d" and "\<And>t. T_id (f t) = T_id t" and "\<And>t. T_slug (f t) = T_slug t"
    and "\<And>t. t \<in> set (tournaments d) \<Longrightarrow> zoneOk L (T_timezone (f t))
      \<and> (T_status (f t) = ''published'' \<longrightarrow> T_published_at (f t) \<noteq> None)"
  shows "tournaments_ok L (d\<lparr>tournaments := update_where P f (tournaments d)\<rparr>)"
proof -
  let ?d = "d\<lparr>tournaments := update_where P f (tournaments d)\<rparr>"
  have m: "map T_id (tournaments ?d) = map T_id (tournaments d)" "map T_slug (tournaments ?d) = map T_slug (tournaments d)"
    using assms(2,3) by (simp_all add: map_update_where)
  have "T_id ` set (tournaments ?d) = T_id ` set (tournaments d)" using m(1) by (metis set_map)
  then have "grows d ?d" by (auto simp: grows_def ids_in_use_def)
  then have "fresh_supply ?d" using assms(1) grows_fresh unfolding tournaments_ok_def by blast
  moreover have "isSlug (T_slug t) \<and> zoneOk L (T_timezone t) \<and> (T_status t = ''published'' \<longrightarrow> T_published_at t \<noteq> None)"
    if "t \<in> set (tournaments ?d)" for t
  proof -
    have "t \<in> set (update_where P f (tournaments d))" using that by simp
    then obtain m where "m \<in> set (tournaments d)" "t = m \<or> t = f m" by (rule in_update_where)
    then show ?thesis using assms(1,3,4) unfolding tournaments_ok_def by metis
  qed
  ultimately show ?thesis using assms(1) m unfolding tournaments_ok_def by metis
qed

lemma tournaments_ok_RecordTx: "tournaments_ok L d \<Longrightarrow> tournaments_ok L (RecordTx c e d)"
  by (simp add: tournaments_ok_def fresh_supply_def frame_simps)

lemma insertTournament_ok:
  assumes "tournaments_ok L d" and "insertTournament ctx i d = Inr r" and "isSlug (TiSlug i)" and "zoneOk L (TiTimezone i)"
  shows "tournaments_ok L (snd r)"
proof -
  let ?t = "newTournament ctx i (UuidGen d (Drawn d))"
  let ?d = "d\<lparr>Drawn := Suc (Drawn d), tournaments := tournaments d @ [?t]\<rparr>"
  have free: "\<not> SlugExists d (TiSlug i)" using assms(2) by (auto simp: insertTournament_def)
  have "grows d ?d" by (auto simp: grows_def ids_in_use_def newTournament_def)
  then have "fresh_supply ?d" using assms(1) grows_fresh unfolding tournaments_ok_def by blast
  moreover have "UuidGen d (Drawn d) \<notin> T_id ` set (tournaments d)"
    using assms(1) drawn_fresh [of d "Drawn d"] by (auto simp: tournaments_ok_def ids_in_use_def)
  moreover have "TiSlug i \<notin> T_slug ` set (tournaments d)" using free by (auto simp: SlugExists_def)
  ultimately have "tournaments_ok L ?d"
    using assms(1,3,4) by (auto simp: tournaments_ok_def newTournament_def)
  then show ?thesis using insertTournament_free [OF free, of ctx] assms(2) by auto
qed

lemma patchZone_ok: "patchZone L z = Inr (Some tz) \<Longrightarrow> zoneOk L tz"
  using validateTimezone_None by (auto simp: patchZone_def split: option.splits)

lemma updateTournament_Inr:
  "updateTournament tid scope f d = Inr r \<longleftrightarrow> (\<exists>t. List.find (visibleTo tid scope) (tournaments d) = Some t
     \<and> r = (withCount (eventCount d tid) (f t), d\<lparr>tournaments := update_where (visibleTo tid scope) f (tournaments d)\<rparr>))"
  by (auto simp: updateTournament_def split: option.splits)

lemma setTournamentStatus_ok:
  assumes "tournaments_ok L d" and "setTournamentStatus ctx actor tid scope status action d = Inr r"
  shows "tournaments_ok L (snd r)"
proof -
  obtain t d1 e where "updateTournament tid scope (statusTournament ctx status) d = Inr (t, d1)" and r: "snd r = RecordTx ctx e d1"
    using assms(2) by (auto simp: setTournamentStatus_def split: sum.splits)
  then have "d1 = d\<lparr>tournaments := update_where (visibleTo tid scope) (statusTournament ctx status) (tournaments d)\<rparr>"
    by (auto simp: updateTournament_Inr)
  moreover have "tournaments_ok L (d\<lparr>tournaments := update_where (visibleTo tid scope) (statusTournament ctx status) (tournaments d)\<rparr>)"
    using assms(1) by (intro tournaments_ok_update) (auto simp: statusTournament_def tournaments_ok_def)
  ultimately show ?thesis using r tournaments_ok_RecordTx by metis
qed

lemma UpdateTournament_ok:
  assumes "tournaments_ok L d" and "UpdateTournament parseDay L tid scope req d = Inr r"
  shows "tournaments_ok L (snd r)"
proof -
  obtain p where p: "updateTournament tid scope (patchTournament p) d = Inr r" and z: "\<forall>tz. TpTimezone p = Some tz \<longrightarrow> zoneOk L tz"
    using assms(2) patchZone_ok by (fastforce simp: UpdateTournament_def split: sum.splits option.splits)
  have "tournaments_ok L (d\<lparr>tournaments := update_where (visibleTo tid scope) (patchTournament p) (tournaments d)\<rparr>)"
    using assms(1) z
    by (intro tournaments_ok_update) (auto simp: patchTournament_def coalesce_def tournaments_ok_def split: option.splits)
  then show ?thesis using p by (auto simp: updateTournament_Inr)
qed

lemma tournament_step_ok: "tournament_step parseDay L d d' \<Longrightarrow> tournaments_ok L d \<Longrightarrow> tournaments_ok L d'"
proof (induction rule: tournament_step.induct)
  case (create ctx orgID creq d r)
  from create.hyps obtain slug starts ends tz where "List.find (\<lambda>s. \<not> SlugExists d s) (slugCandidatesOf (requestedSlug creq)) = Some slug"
      "createZone L (CtrTimezone creq) = Inr tz" "insertTournament ctx (createInput orgID creq slug starts ends tz) d = Inr r"
    unfolding CreateTournament_Inr by blast
  then show ?case
    using insertTournament_ok [OF create.prems, of ctx "createInput orgID creq slug starts ends tz" r] createZone_ok [of L]
      find_free slugCandidatesOf_isSlug tournamentSlugify_isSlug
    by (force simp: createInput_def requestedSlug_def)
qed (auto simp: Publish_def Unpublish_def intro: UpdateTournament_ok setTournamentStatus_ok)

interpretation tournaments: transitions "tournament_step parseDay loadLocation" "tournaments_ok loadLocation"
  for parseDay loadLocation
  by unfold_locales (rule tournament_step_ok)


subsection \<open>Publishing\<close>

lemma eventTournament_updated:
  assumes "\<And>t. T_id (f t) = T_id t" and "tournaments d' = update_where P f (tournaments d)" and "events d' = events d"
  shows "eventTournament d' eid = map_option (\<lambda>(e, t). (e, if P t then f t else t)) (eventTournament d eid)"
  using assms by (auto simp: eventTournament_def find_update_where split: option.splits)

lemma find_visible:
  assumes "List.find (visibleTo tid scope) ts = Some t" and "distinct (map T_id ts)" and "u \<in> set ts"
  shows "visibleTo tid scope u \<longleftrightarrow> u = t"
proof -
  have "t \<in> set ts" "visibleTo tid scope t" using assms(1) by (auto simp: find_Some_iff)
  then show ?thesis using assms(2,3) by (auto simp: visibleTo_def distinct_map dest: inj_onD)
qed

text \<open>A statement that sets the status of one tournament, whoever issues it, moves the public gates of
  that tournament and no other.\<close>

lemma status_moves_gates:
  assumes "distinct (map T_id (tournaments d))" and "distinct (map T_slug (tournaments d))"
    and t0: "t0 \<in> set (tournaments d)" and P: "\<And>u. u \<in> set (tournaments d) \<Longrightarrow> P u \<longleftrightarrow> u = t0"
    and d': "tournaments d' = update_where P f (tournaments d)" "events d' = events d"
    and f: "\<And>u. T_status (f u) = status" "\<And>u. T_slug (f u) = T_slug u" "\<And>u. T_id (f u) = T_id u"
  shows "IsPublishedSlug d' s = (if s = T_slug t0 then status = ''published'' else IsPublishedSlug d s)"
    and "RequirePublic d' eid = (case eventTournament d eid of None \<Rightarrow> Inl DrawNotFound
       | Some (e, u) \<Rightarrow> if E_is_public e \<and> (if T_id u = T_id t0 then status = ''published'' else T_status u = ''published'')
                      then Inr () else Inl DrawNotFound)"
proof -
  have slug: "u = t0 \<longleftrightarrow> T_slug u = T_slug t0" if "u \<in> set (tournaments d)" for u
    using that t0 assms(2) by (auto simp: distinct_map dest: inj_onD)
  have "(T_slug (if P u then f u else u) = s \<and> T_status (if P u then f u else u) = ''published'')
      \<longleftrightarrow> (T_slug u = s \<and> (if u = t0 then status = ''published'' else T_status u = ''published''))" if "u \<in> set (tournaments d)" for u
    using P [OF that] by (simp add: f)
  then have pub: "IsPublishedSlug d' s \<longleftrightarrow> (\<exists>u \<in> set (tournaments d). T_slug u = s \<and> (if u = t0 then status = ''published'' else T_status u = ''published''))"
    unfolding IsPublishedSlug_def d'(1) update_where_def set_map bex_simps(7) by (rule bex_cong [OF refl])
  show "IsPublishedSlug d' s = (if s = T_slug t0 then status = ''published'' else IsPublishedSlug d s)"
    unfolding pub using t0 slug by (auto simp: IsPublishedSlug_def)
  have et: "eventTournament d' eid = map_option (\<lambda>(e, u). (e, if P u then f u else u)) (eventTournament d eid)"
    using f(3) d' by (rule eventTournament_updated)
  have "P u \<longleftrightarrow> T_id u = T_id t0" if "eventTournament d eid = Some (e, u)" for e u
  proof -
    have u: "u \<in> set (tournaments d)" using that by (auto simp: eventTournament_def find_Some_iff split: option.splits)
    then show ?thesis using P [OF u] t0 assms(1) by (auto simp: distinct_map dest: inj_onD)
  qed
  then show "RequirePublic d' eid = (case eventTournament d eid of None \<Rightarrow> Inl DrawNotFound
       | Some (e, u) \<Rightarrow> if E_is_public e \<and> (if T_id u = T_id t0 then status = ''published'' else T_status u = ''published'')
                      then Inr () else Inl DrawNotFound)"
    by (cases "eventTournament d eid") (auto simp: RequirePublic_def et f)
qed

text \<open>C21. Publishing and unpublishing decide what the public sees: afterwards the public stream and the
  public schedule know the tournament's slug exactly if it was published, every other slug is as
  before, and the public bracket, standings and groups of an event answer exactly if the event is
  public and its tournament is published now.\<close>

theorem publishing_controls_visibility:
  assumes "distinct (map T_id (tournaments d))" and "distinct (map T_slug (tournaments d))"
    and "(change, public) \<in> {(Publish, True), (Unpublish, False)}" and "change ctx actor tid scope d = Inr (t, d')"
  shows "IsPublishedSlug d' s = (if s = T_slug t then public else IsPublishedSlug d s)
    \<and> RequirePublic d' eid = (case eventTournament d eid of
         None \<Rightarrow> Inl DrawNotFound
       | Some (e, u) \<Rightarrow> if E_is_public e \<and> (if T_id u = tid then public else T_status u = ''published'') then Inr () else Inl DrawNotFound)"
proof -
  define status where "status = (if public then ''published'' else ''draft'')"
  define f where "f = statusTournament ctx status"
  have "\<exists>action. setTournamentStatus ctx actor tid scope status action d = Inr (t, d')"
    using assms(3,4) by (auto simp: Publish_def Unpublish_def status_def)
  then obtain t0 where find: "List.find (visibleTo tid scope) (tournaments d) = Some t0" and t: "T_slug t = T_slug t0"
    and d': "tournaments d' = update_where (visibleTo tid scope) f (tournaments d)" "events d' = events d"
    by (auto simp: setTournamentStatus_def updateTournament_def frame_simps f_def withCount_def statusTournament_def tournament_row.defs tournament.defs split: option.splits)
  have t0: "t0 \<in> set (tournaments d)" "T_id t0 = tid" using find by (auto simp: find_Some_iff visibleTo_def)
  have vis: "visibleTo tid scope u \<longleftrightarrow> u = t0" if "u \<in> set (tournaments d)" for u
    by (rule find_visible [OF find assms(1) that])
  have st: "T_status (f u) = status" "T_slug (f u) = T_slug u" "T_id (f u) = T_id u" for u
    by (simp_all add: f_def statusTournament_def)
  have pub: "status = ''published'' \<longleftrightarrow> public" by (simp add: status_def)
  show ?thesis
    using status_moves_gates(1) [OF assms(1,2) t0(1) vis d' st, of s] status_moves_gates(2) [OF assms(1,2) t0(1) vis d' st, of eid]
    unfolding t t0(2) pub by blast
qed

subsection \<open>Witnesses\<close>

definition sample_tournament_request :: create_tournament_request where
  "sample_tournament_request = \<lparr>CtrName = ''cup'', CtrSlug = [], CtrSport = ''tennis'', CtrDescription = [], CtrLocation = [],
     CtrStartsOn = [], CtrEndsOn = [], CtrTimezone = [], CtrBranding = None\<rparr>"

lemma sample_published:
  "\<exists>t d'. Publish sample_ctx 1 1 (Some 2) (sample_db format) = Inr (t, d') \<and> T_slug t = ''cup''"
  "\<exists>t d'. Unpublish sample_ctx 1 1 (Some 2) (sample_db format) = Inr (t, d') \<and> T_slug t = ''cup''"
  by (simp_all add: Publish_def Unpublish_def setTournamentStatus_def updateTournament_def sample_db_def visibleTo_def
      withCount_def tournament_row.defs tournament.defs statusTournament_def)

lemma sample_distinct: "distinct (map T_id (tournaments (sample_db f)))" "distinct (map T_slug (tournaments (sample_db f)))"
  by (simp_all add: sample_db_def)

theorem publishing_controls_visibility_witness:
  "\<exists>t d'. Unpublish sample_ctx 1 1 (Some 2) (sample_db ''single_elim'') = Inr (t, d') \<and> \<not> IsPublishedSlug d' ''cup''
     \<and> RequirePublic d' 3 = Inl DrawNotFound \<and> RequirePublic (sample_db ''single_elim'') 3 = Inr ()"
proof -
  obtain t d' where u: "Unpublish sample_ctx 1 1 (Some 2) (sample_db ''single_elim'') = Inr (t, d')" "T_slug t = ''cup''"
    using sample_published(2) by blast
  have "RequirePublic (sample_db ''single_elim'') 3 = Inr ()"
    by (simp add: RequirePublic_def sample_db_event) (simp add: sample_db_def)
  then show ?thesis
    using u publishing_controls_visibility [where change = Unpublish and public = False and ctx = sample_ctx and actor = 1
        and tid = 1 and scope = "Some 2" and s = "''cup''" and eid = 3, OF sample_distinct _ u(1)]
      sample_db_event [of "''single_elim''"]
    by (simp add: sample_db_def)
qed


theorem CreateTournament_outcome_witness:
  "\<exists>t d'. CreateTournament (\<lambda>_. None) (\<lambda>_. False) sample_ctx 2 sample_tournament_request (sample_db ''single_elim'') = Inr (t, d')
     \<and> map T_slug (tournaments d') = [''cup'', ''cup-2'']"
proof -
  have "cutOne ws [] = None" for ws using cutOne_shorter [of ws "[]"] by (cases "cutOne ws []") auto
  then have "trimBy ws [] = []" for ws by (simp add: trimBy.simps)
  then have trim: "trimSpace [] = []" by (simp add: trimSpace_def)
  have "isSlug ''cup''" by (rule isSlug_word) (simp_all add: slugChar_def)
  then have slug: "requestedSlug sample_tournament_request = ''cup''"
    by (simp add: requestedSlug_def sample_tournament_request_def trim tournamentSlugify_eq platformSlugify_slug)
  have "dec 2 = ''2''" by code_simp
  then have cs: "slugCandidatesOf ''cup'' = ''cup'' # ''cup-2'' # map (\<lambda>i. ''cup'' @ ''-'' @ dec i) [3..100]"
    unfolding slugCandidatesOf_def by (subst upto_first) simp_all
  have "SlugExists (sample_db ''single_elim'') ''cup''" "\<not> SlugExists (sample_db ''single_elim'') ''cup-2''"
    by (simp_all add: SlugExists_def sample_db_def)
  then have free: "List.find (\<lambda>s. \<not> SlugExists (sample_db ''single_elim'') s) (slugCandidatesOf ''cup'') = Some ''cup-2''"
    unfolding cs by (simp only: List.find.simps) simp
  then have "\<exists>c \<in> set (slugCandidatesOf ''cup''). \<not> SlugExists (sample_db ''single_elim'') c" by (auto simp: find_Some_iff)
  moreover have "parseDate (\<lambda>_. None) [] = Some None" "createZone (\<lambda>_. False) [] = Inr DefaultTimezone"
    by (simp_all add: parseDate_def createZone_def trim)
  ultimately obtain t d' row where "CreateTournament (\<lambda>_. None) (\<lambda>_. False) sample_ctx 2 sample_tournament_request (sample_db ''single_elim'') = Inr (t, d')"
      "tournaments d' = tournaments (sample_db ''single_elim'') @ [row]" "T_slug row = ''cup-2''"
    using CreateTournament_outcome [of "\<lambda>_. None" "\<lambda>_. False" sample_ctx 2 sample_tournament_request "sample_db ''single_elim''"] slug free
    by (auto simp: sample_tournament_request_def)
  then show ?thesis by (simp add: sample_db_def)
qed

end
