(* ===== verification/Event.thy ===== *)
theory Event
  imports Roster Tournament
begin

section \<open>Events (internal/event)\<close>

text \<open>
  The divisions of a tournament. \<open>Create\<close> picks the slug from a read of the tournament's events and
  relies on the unique index when another request takes it in between: \<open>race k\<close> is what the other
  requests did to the database between the read and the insert of attempt \<open>k\<close>. The result of
  \<open>CreateEvent\<close> is an option because \<open>buildSlug\<close> searches without a bound. The delete follows the
  foreign keys of the schema.
\<close>

datatype event_error = EvNotFound | EvInvalidScoring "violation list" | EvUniqueViolation | EvInternal

record create_event_request =
  CerName :: string
  CerDiscipline :: string
  CerFormat :: string
  CerCategory :: string

record event_input =
  EiTournament :: uuid
  EiName :: string
  EiSlug :: string
  EiCategory :: string
  EiDiscipline :: string
  EiFormat :: string

record event_patch =
  EpCategory :: "string option"
  EpGender :: "string option"
  EpIsPublic :: "bool option"
  EpPublicDisplayName :: "string option"
  EpPublicOrder :: "int option"
  EpScoring :: "raw_config option"

record event_view = event_row +
  EvParticipantCount :: int
  EvMatchCount :: int
  EvHasGroupStage :: bool
  EvHasKnockoutStage :: bool

subsection \<open>The repository\<close>

definition eventView :: "int \<Rightarrow> int \<Rightarrow> event_row \<Rightarrow> event_view" where
  "eventView pc mc e = event_row.extend e
     (event_view.fields pc mc (fst (deriveStages (E_format e))) (snd (deriveStages (E_format e))))"

definition participantCount :: "db \<Rightarrow> uuid \<Rightarrow> int" where
  "participantCount d eid = int (length (filter (\<lambda>p. P_event_id p = eid) (participants d)))"

definition matchCount :: "db \<Rightarrow> uuid \<Rightarrow> int" where
  "matchCount d eid = int (length (filter (\<lambda>m. M_event_id m = eid) (matches d)))"

definition tournamentOwned :: "db \<Rightarrow> uuid \<Rightarrow> uuid option \<Rightarrow> event_error + unit" where
  "tournamentOwned d tid orgID = (if \<exists>t \<in> set (tournaments d). visibleTo tid orgID t then Inr () else Inl EvNotFound)"

definition ListByTournament :: "db \<Rightarrow> uuid \<Rightarrow> event_view list" where
  "ListByTournament d tid = map (\<lambda>e. eventView (participantCount d (E_id e)) (matchCount d (E_id e)) e)
     (sort_key E_public_order (sort_key E_created_at (filter (\<lambda>e. E_tournament_id e = tid) (events d))))"

definition getEvent :: "db \<Rightarrow> uuid \<Rightarrow> event_error + event_view" where
  "getEvent d eid = (case List.find (\<lambda>e. E_id e = eid) (events d) of
     None \<Rightarrow> Inl EvNotFound | Some e \<Rightarrow> Inr (eventView (participantCount d eid) (matchCount d eid) e))"

text \<open>\<open>NULLIF(btrim(x), '')\<close>: btrim strips spaces only.\<close>

definition btrim :: "string \<Rightarrow> string" where
  "btrim s = rev (dropWhile (\<lambda>c. c = CHR '' '') (rev (dropWhile (\<lambda>c. c = CHR '' '') s)))"

definition nullIfBlank :: "string \<Rightarrow> string option" where
  "nullIfBlank s = (if btrim s = [] then None else Some (btrim s))"

definition eventFormats :: "string list" where
  "eventFormats = [''single_elim'', ''round_robin'', ''group_knockout'']"

definition newEvent :: "ctx \<Rightarrow> event_input \<Rightarrow> uuid \<Rightarrow> event_row" where
  "newEvent ctx i eid = \<lparr>E_id = eid, E_tournament_id = EiTournament i, E_name = EiName i, E_slug = EiSlug i,
     E_format = EiFormat i, E_is_public = True, E_pairing_mode = ''auto'', E_scoring = RawDoc [],
     E_discipline = EiDiscipline i, E_category = nullIfBlank (EiCategory i), E_gender = ''mixed'',
     E_public_display_name = None, E_public_order = 0, E_scoring_profile_id = None, E_created_at = CtxNow ctx\<rparr>"

definition slugTaken :: "db \<Rightarrow> uuid \<Rightarrow> string \<Rightarrow> bool" where
  "slugTaken d tid slug \<longleftrightarrow> (\<exists>e \<in> set (events d). E_tournament_id e = tid \<and> E_slug e = slug)"

text \<open>The casts to the enums, the unique index, the foreign key.\<close>

definition insertEvent :: "ctx \<Rightarrow> event_input \<Rightarrow> db \<Rightarrow> event_error + event_view \<times> db" where
  "insertEvent ctx i d =
     (if EiDiscipline i \<notin> {''singles'', ''doubles''} \<or> EiFormat i \<notin> set eventFormats then Inl EvInternal
      else if slugTaken d (EiTournament i) (EiSlug i) then Inl EvUniqueViolation
      else if \<not> (\<exists>t \<in> set (tournaments d). T_id t = EiTournament i) then Inl EvInternal
      else let (eid, d) = gen_random_uuid d; e = newEvent ctx i eid
           in Inr (eventView 0 0 e, d\<lparr>events := events d @ [e]\<rparr>))"

definition patchText :: "string option \<Rightarrow> string option \<Rightarrow> string option" where
  "patchText v old = (case v of None \<Rightarrow> old | Some s \<Rightarrow> nullIfBlank s)"

definition patchEvent :: "event_patch \<Rightarrow> event_row \<Rightarrow> event_row" where
  "patchEvent p e = e\<lparr>E_category := patchText (EpCategory p) (E_category e),
     E_gender := coalesce (EpGender p) (E_gender e), E_is_public := coalesce (EpIsPublic p) (E_is_public e),
     E_public_display_name := patchText (EpPublicDisplayName p) (E_public_display_name e),
     E_public_order := coalesce (EpPublicOrder p) (E_public_order e),
     E_scoring := coalesce (EpScoring p) (E_scoring e)\<rparr>"

definition patchStorable :: "event_patch \<Rightarrow> bool" where
  "patchStorable p \<longleftrightarrow> (\<forall>g \<in> set_option (EpGender p). g \<in> {''men'', ''women'', ''mixed''}) \<and> int4Opt (EpPublicOrder p)
     \<and> EpScoring p \<noteq> Some RawEmpty"

definition updateEvent :: "uuid \<Rightarrow> event_patch \<Rightarrow> db \<Rightarrow> event_error + event_view \<times> db" where
  "updateEvent eid p d =
     (if \<not> patchStorable p then Inl EvInternal
      else case List.find (\<lambda>e. E_id e = eid) (events d) of
        None \<Rightarrow> Inl EvNotFound
      | Some e \<Rightarrow> Inr (eventView (participantCount d eid) (matchCount d eid) (patchEvent p e),
          d\<lparr>events := update_where (\<lambda>e. E_id e = eid) (patchEvent p) (events d)\<rparr>))"

text \<open>\<open>DELETE FROM events\<close> takes its matches, stages, participants and teams with it.\<close>

definition deleteEventRow :: "uuid \<Rightarrow> db \<Rightarrow> event_error + unit \<times> db" where
  "deleteEventRow eid d =
     (if \<not> (\<exists>e \<in> set (events d). E_id e = eid) then Inl EvNotFound
      else let d = deleteMatches (\<lambda>m. M_event_id m = eid) d;
               d = deleteStages (\<lambda>s. St_event_id s = eid) d;
               gone = Tm_id ` set (filter (\<lambda>t. Tm_event_id t = eid) (teams d));
               d = deleteParticipants (\<lambda>p. P_event_id p = eid \<or> (\<exists>t \<in> gone. P_team_id p = Some t)) d
           in Inr ((), d\<lparr>teams := delete_where (\<lambda>t. Tm_event_id t = eid) (teams d),
                events := delete_where (\<lambda>e. E_id e = eid) (events d)\<rparr>))"

subsection \<open>The service\<close>

definition ListForTournament :: "db \<Rightarrow> uuid \<Rightarrow> uuid option \<Rightarrow> event_error + event_view list" where
  "ListForTournament d tid orgID = (case tournamentOwned d tid orgID of Inl e \<Rightarrow> Inl e | Inr _ \<Rightarrow> Inr (ListByTournament d tid))"

definition AuthorizeEvent :: "db \<Rightarrow> uuid \<Rightarrow> uuid option \<Rightarrow> event_error + unit" where
  "AuthorizeEvent d eid orgID = (case getEvent d eid of
     Inl e \<Rightarrow> Inl e | Inr ev \<Rightarrow> tournamentOwned d (E_tournament_id ev) orgID)"

fun createAttempts ::
  "(nat \<Rightarrow> db \<Rightarrow> db) \<Rightarrow> (string \<Rightarrow> string option) \<Rightarrow> ctx \<Rightarrow> uuid \<Rightarrow> create_event_request \<Rightarrow> nat \<Rightarrow> nat \<Rightarrow> db
   \<Rightarrow> (event_error + event_view \<times> db) option" where
  "createAttempts race foldAccents ctx tid req k 0 d = Some (Inl EvUniqueViolation)"
| "createAttempts race foldAccents ctx tid req k (Suc n) d =
     Option.bind (buildSlug foldAccents (trimSpace (CerName req)) (trimSpace (CerCategory req)) (slugTaken d tid))
       (\<lambda>slug. let d = race k d in
         case insertEvent ctx \<lparr>EiTournament = tid, EiName = trimSpace (CerName req), EiSlug = slug,
             EiCategory = trimSpace (CerCategory req), EiDiscipline = CerDiscipline req, EiFormat = CerFormat req\<rparr> d of
           Inr r \<Rightarrow> Some (Inr r)
         | Inl e \<Rightarrow> if e \<noteq> EvUniqueViolation then Some (Inl e)
             else createAttempts race foldAccents ctx tid req (Suc k) n d)"

definition CreateEvent ::
  "(nat \<Rightarrow> db \<Rightarrow> db) \<Rightarrow> (string \<Rightarrow> string option) \<Rightarrow> ctx \<Rightarrow> uuid \<Rightarrow> uuid option \<Rightarrow> create_event_request \<Rightarrow> db
   \<Rightarrow> (event_error + event_view \<times> db) option" where
  "CreateEvent race foldAccents ctx tid orgID req d = (case tournamentOwned d tid orgID of
     Inl e \<Rightarrow> Some (Inl e) | Inr _ \<Rightarrow> createAttempts race foldAccents ctx tid req 0 3 d)"

definition UpdatePublicSettings :: "uuid \<Rightarrow> uuid option \<Rightarrow> event_patch \<Rightarrow> db \<Rightarrow> event_error + event_view \<times> db" where
  "UpdatePublicSettings eid orgID p d = (case getEvent d eid of
     Inl e \<Rightarrow> Inl e
   | Inr ev \<Rightarrow> (case tournamentOwned d (E_tournament_id ev) orgID of
       Inl e \<Rightarrow> Inl e
     | Inr _ \<Rightarrow>
         let vs = (case EpScoring p of None \<Rightarrow> [] | Some s \<Rightarrow> snd (ParseScoringConfig s))
         in if length vs > 0 then Inl (EvInvalidScoring vs) else updateEvent eid p d))"

definition DeleteEvent :: "uuid \<Rightarrow> uuid option \<Rightarrow> db \<Rightarrow> event_error + unit \<times> db" where
  "DeleteEvent eid orgID d = (case getEvent d eid of
     Inl e \<Rightarrow> Inl e
   | Inr ev \<Rightarrow> (case tournamentOwned d (E_tournament_id ev) orgID of Inl e \<Rightarrow> Inl e | Inr _ \<Rightarrow> deleteEventRow eid d))"

subsection \<open>Creating an event against concurrent requests\<close>

text \<open>The database attempt \<open>k\<close> reads, and the slug it picks from it.\<close>

fun readBy :: "(nat \<Rightarrow> db \<Rightarrow> db) \<Rightarrow> db \<Rightarrow> nat \<Rightarrow> db" where
  "readBy race d 0 = d"
| "readBy race d (Suc k) = race k (readBy race d k)"

definition slugPicked :: "(nat \<Rightarrow> db \<Rightarrow> db) \<Rightarrow> (string \<Rightarrow> string option) \<Rightarrow> uuid \<Rightarrow> create_event_request \<Rightarrow> db \<Rightarrow> nat \<Rightarrow> string" where
  "slugPicked race foldAccents tid req d k =
     the (buildSlug foldAccents (trimSpace (CerName req)) (trimSpace (CerCategory req)) (slugTaken (readBy race d k) tid))"

definition eventInput :: "uuid \<Rightarrow> create_event_request \<Rightarrow> string \<Rightarrow> event_input" where
  "eventInput tid req slug = \<lparr>EiTournament = tid, EiName = trimSpace (CerName req), EiSlug = slug,
     EiCategory = trimSpace (CerCategory req), EiDiscipline = CerDiscipline req, EiFormat = CerFormat req\<rparr>"

lemma finite_slugTaken: "finite {c. slugTaken d tid c}"
proof -
  have "{c. slugTaken d tid c} \<subseteq> E_slug ` set (events d)" by (auto simp: slugTaken_def)
  then show ?thesis by (rule finite_subset) simp
qed

lemma slugPicked_ok:
  "buildSlug foldAccents (trimSpace (CerName req)) (trimSpace (CerCategory req)) (slugTaken (readBy race d k) tid)
     = Some (slugPicked race foldAccents tid req d k)"
  "slugFree (slugTaken (readBy race d k) tid) (slugPicked race foldAccents tid req d k)"
  "isSlug (slugPicked race foldAccents tid req d k)"
  using buildSlug_free [OF finite_slugTaken, of foldAccents "trimSpace (CerName req)" "trimSpace (CerCategory req)"
      "readBy race d k" tid]
  by (auto simp: slugPicked_def)

text \<open>A valid request, and a tournament that is not deleted while it is served.\<close>

definition creatable :: "(nat \<Rightarrow> db \<Rightarrow> db) \<Rightarrow> uuid \<Rightarrow> uuid option \<Rightarrow> create_event_request \<Rightarrow> db \<Rightarrow> bool" where
  "creatable race tid orgID req d \<longleftrightarrow> tournamentOwned d tid orgID = Inr ()
     \<and> CerDiscipline req \<in> {''singles'', ''doubles''} \<and> CerFormat req \<in> set eventFormats
     \<and> (\<forall>k \<le> 3. \<exists>t \<in> set (tournaments (readBy race d k)). T_id t = tid)"

definition insertedEvent :: "ctx \<Rightarrow> event_input \<Rightarrow> db \<Rightarrow> event_view \<times> db" where
  "insertedEvent ctx i d = (let e = newEvent ctx i (UuidGen d (Drawn d))
     in (eventView 0 0 e, d\<lparr>Drawn := Suc (Drawn d), events := events d @ [e]\<rparr>))"

lemma createAttempts_cases:
  assumes "creatable race tid orgID req d" and "k + n \<le> 3"
  shows "(\<exists>j < n. (\<forall>i < j. slugTaken (readBy race d (Suc (k + i))) tid (slugPicked race foldAccents tid req d (k + i)))
        \<and> \<not> slugTaken (readBy race d (Suc (k + j))) tid (slugPicked race foldAccents tid req d (k + j))
        \<and> createAttempts race foldAccents ctx tid req k n (readBy race d k)
          = Some (Inr (insertedEvent ctx (eventInput tid req (slugPicked race foldAccents tid req d (k + j))) (readBy race d (Suc (k + j))))))
    \<or> ((\<forall>i < n. slugTaken (readBy race d (Suc (k + i))) tid (slugPicked race foldAccents tid req d (k + i)))
        \<and> createAttempts race foldAccents ctx tid req k n (readBy race d k) = Some (Inl EvUniqueViolation))"
  using assms(2)
proof (induction n arbitrary: k)
  case 0
  then show ?case by simp
next
  case (Suc n)
  let ?slug = "slugPicked race foldAccents tid req d" and ?d = "readBy race d"
  have ins: "insertEvent ctx (eventInput tid req (?slug k)) (?d (Suc k)) = (if slugTaken (?d (Suc k)) tid (?slug k)
      then Inl EvUniqueViolation else Inr (insertedEvent ctx (eventInput tid req (?slug k)) (?d (Suc k))))"
  proof -
    have "\<exists>t \<in> set (tournaments (?d (Suc k))). T_id t = tid" "CerDiscipline req \<in> {''singles'', ''doubles''}"
      "CerFormat req \<in> set eventFormats"
      using assms(1) Suc.prems by (auto simp: creatable_def simp del: readBy.simps)
    then show ?thesis
      by (auto simp: insertEvent_def eventInput_def insertedEvent_def gen_random_uuid_def Let_def simp del: readBy.simps)
  qed
  have step: "createAttempts race foldAccents ctx tid req k (Suc n) (?d k) =
      (if slugTaken (?d (Suc k)) tid (?slug k) then createAttempts race foldAccents ctx tid req (Suc k) n (?d (Suc k))
       else Some (Inr (insertedEvent ctx (eventInput tid req (?slug k)) (?d (Suc k)))))"
    using ins slugPicked_ok(1) [of foldAccents req race d k tid] by (simp add: eventInput_def Let_def)
  show ?case
  proof (cases "slugTaken (?d (Suc k)) tid (?slug k)")
    case False
    then show ?thesis using step by (intro disjI1 exI [of _ 0]) (simp del: readBy.simps createAttempts.simps)
  next
    case True
    have shift: "(\<forall>i < Suc m. P i) \<longleftrightarrow> P 0 \<and> (\<forall>i < m. P (Suc i))" for m and P :: "nat \<Rightarrow> bool"
      by (auto simp: less_Suc_eq_0_disj)
    have "Suc k + n \<le> 3" using Suc.prems by simp
    from Suc.IH [OF this] show ?thesis
    proof (elim disjE exE conjE)
      fix j assume j: "j < n" "\<forall>i<j. slugTaken (?d (Suc (Suc k + i))) tid (?slug (Suc k + i))"
        "\<not> slugTaken (?d (Suc (Suc k + j))) tid (?slug (Suc k + j))"
        "createAttempts race foldAccents ctx tid req (Suc k) n (?d (Suc k))
          = Some (Inr (insertedEvent ctx (eventInput tid req (?slug (Suc k + j))) (?d (Suc (Suc k + j)))))"
      then show ?thesis using True step
        by (intro disjI1 exI [of _ "Suc j"]) (simp add: shift del: readBy.simps createAttempts.simps)
    next
      assume "\<forall>i<n. slugTaken (?d (Suc (Suc k + i))) tid (?slug (Suc k + i))"
        "createAttempts race foldAccents ctx tid req (Suc k) n (?d (Suc k)) = Some (Inl EvUniqueViolation)"
      then show ?thesis using True step
        by (intro disjI2) (simp add: shift del: readBy.simps createAttempts.simps)
    qed
  qed
qed

text \<open>C24. Creating an event answers whatever other requests do meanwhile. Each attempt picks a
  well-formed, unreserved slug that was free when it read; the first of three attempts whose slug is
  still free at its insert stores exactly one event under it, and only three lost races in a row end
  in the unique violation.\<close>

theorem CreateEvent_outcome:
  assumes "creatable race tid orgID req d"
  shows "\<exists>slug. (\<forall>k. isSlug (slug k) \<and> slug k \<notin> set reservedSlugs \<and> \<not> slugTaken (readBy race d k) tid (slug k))
    \<and> CreateEvent race foldAccents ctx tid orgID req d =
      Some (case List.find (\<lambda>k. \<not> slugTaken (readBy race d (Suc k)) tid (slug k)) [0, 1, 2] of
        None \<Rightarrow> Inl EvUniqueViolation
      | Some k \<Rightarrow> Inr (insertedEvent ctx (eventInput tid req (slug k)) (readBy race d (Suc k))))"
proof (intro exI conjI allI)
  let ?slug = "slugPicked race foldAccents tid req d"
  fix k
  show "isSlug (?slug k)" by (rule slugPicked_ok)
  show "?slug k \<notin> set reservedSlugs" "\<not> slugTaken (readBy race d k) tid (?slug k)"
    using slugPicked_ok(2) by (simp_all add: slugFree_def)
next
  let ?slug = "slugPicked race foldAccents tid req d"
  have "CreateEvent race foldAccents ctx tid orgID req d = createAttempts race foldAccents ctx tid req 0 3 (readBy race d 0)"
    using assms by (simp add: CreateEvent_def creatable_def del: createAttempts.simps)
  moreover have three: "(\<exists>j < 3. P j) \<longleftrightarrow> P 0 \<or> P 1 \<or> P 2" "(\<forall>j < 3. P j) \<longleftrightarrow> P 0 \<and> P 1 \<and> P 2"
    "(\<forall>j < 2. P j) \<longleftrightarrow> P 0 \<and> P 1" for P :: "nat \<Rightarrow> bool"
    by (auto simp: numeral_eq_Suc less_Suc_eq)
  ultimately show "CreateEvent race foldAccents ctx tid orgID req d =
      Some (case List.find (\<lambda>k. \<not> slugTaken (readBy race d (Suc k)) tid (?slug k)) [0, 1, 2] of
        None \<Rightarrow> Inl EvUniqueViolation
      | Some k \<Rightarrow> Inr (insertedEvent ctx (eventInput tid req (?slug k)) (readBy race d (Suc k))))"
    using createAttempts_cases [OF assms, of 0 3 foldAccents ctx]
    by (auto simp: three simp del: readBy.simps createAttempts.simps)
qed

theorem CreateEvent_outcome_witness:
  "\<exists>v d'. CreateEvent (\<lambda>_ d. d) (\<lambda>_. None) sample_ctx 1 (Some 2)
      \<lparr>CerName = ''open'', CerDiscipline = ''singles'', CerFormat = ''single_elim'', CerCategory = []\<rparr> (sample_db ''single_elim'')
      = Some (Inr (v, d')) \<and> length (events d') = 2"
proof -
  let ?req = "\<lparr>CerName = ''open'', CerDiscipline = ''singles'', CerFormat = ''single_elim'', CerCategory = []\<rparr>"
  let ?d = "sample_db ''single_elim''"
  have r: "readBy (\<lambda>_ d. d) ?d k = ?d" for k by (induction k) simp_all
  have "creatable (\<lambda>_ d. d) 1 (Some 2) ?req ?d"
    by (simp add: creatable_def r) (simp add: tournamentOwned_def visibleTo_def sample_db_def eventFormats_def)
  from CreateEvent_outcome [OF this, of "\<lambda>_. None" sample_ctx]
  obtain slug where "\<not> slugTaken ?d 1 (slug (0 :: nat))" and
    "CreateEvent (\<lambda>_ d. d) (\<lambda>_. None) sample_ctx 1 (Some 2) ?req ?d =
      Some (case List.find (\<lambda>k. \<not> slugTaken ?d 1 (slug k)) [0, 1, 2] of
        None \<Rightarrow> Inl EvUniqueViolation | Some k \<Rightarrow> Inr (insertedEvent sample_ctx (eventInput 1 ?req (slug k)) ?d))"
    unfolding r by blast
  then show ?thesis by (simp add: insertedEvent_def Let_def) (simp add: sample_db_def)
qed

end
