(* ===== verification/Accounts.thy ===== *)
theory Accounts
  imports GoText
begin

section \<open>Accounts: the tables of internal/auth and their repositories\<close>

text \<open>
  The database with the tables behind sign-in: organizations, users, sessions, invitations and
  one-time codes (db/migrations 00001 and 00013 to 00016, with their unique indexes and CHECK
  constraints), and the repositories of internal/auth (repository.go, session.go, invitation.go, otp.go).

  An operation returns an error or a result, and the tables it leaves: the services here are not
  one transaction each, and several of their errors come after a committed statement. \<open>CtxNow\<close> is
  both the database's \<open>now()\<close> and \<open>time.Now()\<close>. The environment \<open>env\<close> holds the configuration and
  what lies outside the repository: the case mapping of \<open>strings.ToLower\<close> and \<open>lower()\<close>, the digests,
  the password check, and signing and parsing of JWTs. A random refresh token or code is an argument.
\<close>

subsection \<open>Rows\<close>

record org_row =
  O_id :: uuid
  O_name :: string
  O_slug :: string
  O_status :: string
  O_created_at :: gotime

record user_row =
  U_id :: uuid
  U_email :: string
  U_password_hash :: "string option"
  U_name :: string
  U_role :: string
  U_org_id :: "uuid option"
  U_status :: string
  U_last_login_at :: "gotime option"
  U_created_at :: gotime

record session_row =
  As_id :: uuid
  As_user_id :: uuid
  As_actor_user_id :: "uuid option"
  As_parent :: "uuid option"
  As_kind :: string
  As_hash :: string
  As_previous :: "string option"
  As_reason :: "string option"
  As_ip_hash :: "string option"
  As_ua_hash :: "string option"
  As_created_at :: gotime
  As_last_seen_at :: "gotime option"
  As_expires_at :: gotime
  As_revoked_at :: "gotime option"
  As_revoked_reason :: "string option"

record invite_row =
  I_id :: uuid
  I_email :: string
  I_display :: "string option"
  I_role :: string
  I_org_id :: "uuid option"
  I_status :: string
  I_invited_by :: "uuid option"
  I_note :: "string option"
  I_created_at :: gotime
  I_accepted_at :: "gotime option"
  I_revoked_at :: "gotime option"
  I_last_sent_at :: "gotime option"
  I_expires_at :: gotime

record otp_row =
  Oc_id :: uuid
  Oc_email :: string
  Oc_purpose :: string
  Oc_code_hash :: string
  Oc_invitation_id :: "uuid option"
  Oc_attempts :: int
  Oc_max_attempts :: int
  Oc_created_at :: gotime
  Oc_expires_at :: gotime
  Oc_consumed_at :: "gotime option"
  Oc_invalidated_at :: "gotime option"
  Oc_last_attempt_at :: "gotime option"
  Oc_ip_hash :: "string option"
  Oc_ua_hash :: "string option"

record accounts = db +
  organizations :: "org_row list"
  users :: "user_row list"
  auth_sessions :: "session_row list"
  invitations :: "invite_row list"
  otp_challenges :: "otp_row list"

subsection \<open>The environment and errors\<close>

text \<open>The payload of an access token; the identifiers in it are text.\<close>

record access_claims =
  AcSubject :: string
  AcRole :: string
  AcOrgID :: "string option"
  AcSID :: string
  AcIssuedAt :: gotime
  AcExpiresAt :: gotime

record env =
  Lowercase :: "string \<Rightarrow> string"
  PgLower :: "string \<Rightarrow> string"
  PgLike :: "string \<Rightarrow> string \<Rightarrow> bool"
  Sha256Hex :: "string \<Rightarrow> string"
  HmacHex :: "string \<Rightarrow> string \<Rightarrow> string"
  PasswordMatches :: "string \<Rightarrow> string \<Rightarrow> bool"
  ParseUUID :: "string \<Rightarrow> uuid option"
  SignToken :: "access_claims \<Rightarrow> string"
  ParseToken :: "gotime \<Rightarrow> string \<Rightarrow> access_claims option"
  PasswordLoginEnabled :: bool
  AccessTTL :: gotime
  RefreshTTL :: gotime
  Pepper :: string

datatype auth_error = ErrInvalidCredentials | ErrAccountSuspended | ErrPasswordLoginDisabled
  | ErrInvalidEmail | ErrDeliveryFailed | ErrSessionNotFound | ErrRefreshReused | ErrUserNotFound
  | ErrNotInvited | ErrInvitationExpired | ErrInvitationExists | ErrImpersonationDenied
  | ErrNotImpersonating | ErrRateLimited | ErrOTPNotFound | ErrOTPExpired | ErrOTPInvalid | ErrOTPLocked
  | ErrInvalidToken | ErrAuthInternal

type_synonym 'a auth_result = "(auth_error + 'a) \<times> accounts"

definition minutes :: "int \<Rightarrow> gotime" where
  "minutes n = n * 60 * 1000000000"

definition NormalizeEmail :: "env \<Rightarrow> string \<Rightarrow> string" where
  "NormalizeEmail env email = Lowercase env (trimSpace email)"

subsection \<open>Users\<close>

definition IsActiveUser :: "user_row \<Rightarrow> bool" where
  "IsActiveUser u \<longleftrightarrow> U_status u = ''active''"

definition FindByEmail :: "env \<Rightarrow> accounts \<Rightarrow> string \<Rightarrow> auth_error + user_row" where
  "FindByEmail env a email = (case List.find (\<lambda>u. PgLower env (U_email u) = NormalizeEmail env email) (users a) of
     None \<Rightarrow> Inl ErrUserNotFound | Some u \<Rightarrow> Inr u)"

definition FindUserByID :: "accounts \<Rightarrow> uuid \<Rightarrow> auth_error + user_row" where
  "FindUserByID a uid = (case List.find (\<lambda>u. U_id u = uid) (users a) of
     None \<Rightarrow> Inl ErrUserNotFound | Some u \<Rightarrow> Inr u)"

definition TouchLastLogin :: "ctx \<Rightarrow> uuid \<Rightarrow> accounts \<Rightarrow> accounts" where
  "TouchLastLogin ctx uid a = a\<lparr>users := update_where (\<lambda>u. U_id u = uid) (U_last_login_at_update (\<lambda>_. Some (CtxNow ctx))) (users a)\<rparr>"

subsection \<open>Sessions\<close>

record create_params =
  CpUserID :: uuid
  CpActorUserID :: "uuid option"
  CpParentSessionID :: "uuid option"
  CpKind :: string
  CpRefreshHash :: string
  CpExpiresAt :: gotime
  CpIPHash :: "string option"
  CpUserAgentHash :: "string option"
  CpReason :: "string option"

definition IsImpersonation :: "session_row \<Rightarrow> bool" where
  "IsImpersonation s \<longleftrightarrow> As_kind s = ''impersonation''"

definition HashRefreshToken :: "env \<Rightarrow> string \<Rightarrow> string" where
  "HashRefreshToken env raw = Sha256Hex env raw"

text \<open>The CHECK constraint \<open>auth_sessions_shape\<close>.\<close>

definition sessionShape :: "session_row \<Rightarrow> bool" where
  "sessionShape s \<longleftrightarrow>
     (As_kind s = ''normal'' \<and> As_actor_user_id s = None \<and> As_parent s = None)
   \<or> (As_kind s = ''impersonation'' \<and> As_actor_user_id s \<noteq> None \<and> As_parent s \<noteq> None
      \<and> As_actor_user_id s \<noteq> Some (As_user_id s))"

definition newSession :: "ctx \<Rightarrow> create_params \<Rightarrow> uuid \<Rightarrow> session_row" where
  "newSession ctx p sid = \<lparr>As_id = sid, As_user_id = CpUserID p, As_actor_user_id = CpActorUserID p,
     As_parent = CpParentSessionID p, As_kind = CpKind p, As_hash = CpRefreshHash p, As_previous = None,
     As_reason = CpReason p, As_ip_hash = CpIPHash p, As_ua_hash = CpUserAgentHash p, As_created_at = CtxNow ctx,
     As_last_seen_at = None, As_expires_at = CpExpiresAt p, As_revoked_at = None, As_revoked_reason = None\<rparr>"

definition CreateSession :: "ctx \<Rightarrow> create_params \<Rightarrow> accounts \<Rightarrow> session_row auth_result" where
  "CreateSession ctx p a = (let (sid, a') = gen_random_uuid a; s = newSession ctx p sid
     in if \<not> sessionShape s \<or> CpUserID p \<notin> U_id ` set (users a)
          \<or> \<not> optionIn (CpActorUserID p) (U_id ` set (users a))
          \<or> \<not> optionIn (CpParentSessionID p) (As_id ` set (auth_sessions a))
          \<or> CpRefreshHash p \<in> As_hash ` set (auth_sessions a)
        then (Inl ErrAuthInternal, a)
        else (Inr s, a'\<lparr>auth_sessions := auth_sessions a @ [s]\<rparr>))"

definition liveAt :: "gotime \<Rightarrow> session_row \<Rightarrow> bool" where
  "liveAt now s \<longleftrightarrow> As_revoked_at s = None \<and> now < As_expires_at s"

definition FindActive :: "ctx \<Rightarrow> accounts \<Rightarrow> uuid \<Rightarrow> auth_error + session_row" where
  "FindActive ctx a sid = (case List.find (\<lambda>s. As_id s = sid \<and> liveAt (CtxNow ctx) s) (auth_sessions a) of
     None \<Rightarrow> Inl ErrSessionNotFound | Some s \<Rightarrow> Inr s)"

definition FindByRefreshToken :: "env \<Rightarrow> accounts \<Rightarrow> string \<Rightarrow> auth_error + session_row" where
  "FindByRefreshToken env a raw = (case List.find (\<lambda>s. As_hash s = HashRefreshToken env raw) (auth_sessions a) of
     None \<Rightarrow> Inl ErrSessionNotFound | Some s \<Rightarrow> Inr s)"

definition endSession :: "ctx \<Rightarrow> string \<Rightarrow> session_row \<Rightarrow> session_row" where
  "endSession ctx reason s = s\<lparr>As_revoked_at := Some (CtxNow ctx), As_revoked_reason := Some reason\<rparr>"

definition Revoke :: "ctx \<Rightarrow> uuid \<Rightarrow> string \<Rightarrow> accounts \<Rightarrow> accounts" where
  "Revoke ctx sid reason a = a\<lparr>auth_sessions :=
     update_where (\<lambda>s. As_id s = sid \<and> As_revoked_at s = None) (endSession ctx reason) (auth_sessions a)\<rparr>"

definition RevokeChildren :: "ctx \<Rightarrow> uuid \<Rightarrow> string \<Rightarrow> accounts \<Rightarrow> accounts" where
  "RevokeChildren ctx parentID reason a = a\<lparr>auth_sessions :=
     update_where (\<lambda>s. As_parent s = Some parentID \<and> As_revoked_at s = None) (endSession ctx reason) (auth_sessions a)\<rparr>"

definition RevokeAllForUser :: "ctx \<Rightarrow> uuid \<Rightarrow> string \<Rightarrow> accounts \<Rightarrow> accounts" where
  "RevokeAllForUser ctx uid reason a = a\<lparr>auth_sessions :=
     update_where (\<lambda>s. As_revoked_at s = None \<and> (As_user_id s = uid \<or> As_actor_user_id s = Some uid))
       (endSession ctx reason) (auth_sessions a)\<rparr>"

text \<open>A new refresh hash for a session, the old one kept as its previous.\<close>

definition newHash :: "ctx \<Rightarrow> string \<Rightarrow> session_row \<Rightarrow> session_row" where
  "newHash ctx h s = s\<lparr>As_previous := Some (As_hash s), As_hash := h, As_last_seen_at := Some (CtxNow ctx)\<rparr>"

text \<open>The unique index on \<open>refresh_token_hash\<close> refuses the update when another session has the hash.\<close>

definition setHash :: "ctx \<Rightarrow> uuid \<Rightarrow> string \<Rightarrow> accounts \<Rightarrow> unit auth_result" where
  "setHash ctx sid h a = (if h \<in> As_hash ` {s \<in> set (auth_sessions a). As_id s \<noteq> sid} then (Inl ErrAuthInternal, a)
     else (Inr (), a\<lparr>auth_sessions := update_where (\<lambda>s. As_id s = sid) (newHash ctx h) (auth_sessions a)\<rparr>))"

definition Rotate :: "env \<Rightarrow> ctx \<Rightarrow> string \<Rightarrow> string \<Rightarrow> accounts \<Rightarrow> (session_row \<times> string) auth_result" where
  "Rotate env ctx newRaw rawToken a =
     (let hash = HashRefreshToken env rawToken
      in case List.find (\<lambda>s. As_hash s = hash) (auth_sessions a) of
           None \<Rightarrow> (case List.find (\<lambda>s. As_previous s = Some hash \<and> As_revoked_at s = None) (auth_sessions a) of
               Some r \<Rightarrow> (Inl ErrRefreshReused, a\<lparr>auth_sessions :=
                   update_where (\<lambda>s. As_id s = As_id r) (endSession ctx ''refresh_token_reuse'') (auth_sessions a)\<rparr>)
             | None \<Rightarrow> (Inl ErrSessionNotFound, a))
         | Some sess \<Rightarrow>
             if As_revoked_at sess \<noteq> None \<or> \<not> As_expires_at sess > CtxNow ctx then (Inl ErrSessionNotFound, a)
             else (case setHash ctx (As_id sess) (HashRefreshToken env newRaw) a of
                 (Inl e, a) \<Rightarrow> (Inl e, a)
               | (Inr _, a) \<Rightarrow> (Inr (sess, newRaw), a)))"

subsection \<open>Invitations\<close>

record create_invitation_params =
  CiEmail :: string
  CiRole :: string
  CiOrganization :: "uuid option"
  CiInvitedBy :: "uuid option"
  CiNote :: "string option"
  CiTTL :: gotime

definition IsActiveInvitation :: "ctx \<Rightarrow> invite_row \<Rightarrow> bool" where
  "IsActiveInvitation ctx i = (if I_status i = ''revoked'' then False
     else if I_status i = ''accepted'' then True else CtxNow ctx < I_expires_at i)"

definition FindActiveByEmail :: "env \<Rightarrow> ctx \<Rightarrow> accounts \<Rightarrow> string \<Rightarrow> auth_error + invite_row" where
  "FindActiveByEmail env ctx a email =
     (case List.find (\<lambda>i. I_email i = NormalizeEmail env email \<and> I_status i \<noteq> ''revoked'') (invitations a) of
        None \<Rightarrow> Inl ErrNotInvited
      | Some i \<Rightarrow> if \<not> IsActiveInvitation ctx i then Inl ErrInvitationExpired else Inr i)"

definition FindInvitation :: "accounts \<Rightarrow> uuid \<Rightarrow> auth_error + invite_row" where
  "FindInvitation a iid = (case List.find (\<lambda>i. I_id i = iid) (invitations a) of
     None \<Rightarrow> Inl ErrNotInvited | Some i \<Rightarrow> Inr i)"

text \<open>The CHECK constraints \<open>users_org_scope\<close> and \<open>invitations_org_scope\<close>; the enum has no other role.\<close>

definition orgScope :: "string \<Rightarrow> uuid option \<Rightarrow> bool" where
  "orgScope role org \<longleftrightarrow> (role = ''organizer'' \<and> org \<noteq> None) \<or> (role = ''super_admin'' \<and> org = None)"

definition newInvitation :: "env \<Rightarrow> ctx \<Rightarrow> create_invitation_params \<Rightarrow> uuid \<Rightarrow> invite_row" where
  "newInvitation env ctx p iid = \<lparr>I_id = iid, I_email = NormalizeEmail env (CiEmail p), I_display = Some (CiEmail p),
     I_role = CiRole p, I_org_id = CiOrganization p, I_status = ''pending'', I_invited_by = CiInvitedBy p,
     I_note = CiNote p, I_created_at = CtxNow ctx, I_accepted_at = None, I_revoked_at = None, I_last_sent_at = None,
     I_expires_at = (if CiTTL p \<noteq> 0 then CtxNow ctx + CiTTL p else CtxNow ctx + minutes (14 * 24 * 60))\<rparr>"

definition CreateInvitationRow :: "env \<Rightarrow> ctx \<Rightarrow> create_invitation_params \<Rightarrow> accounts \<Rightarrow> invite_row auth_result" where
  "CreateInvitationRow env ctx p a = (let (iid, a') = gen_random_uuid a; i = newInvitation env ctx p iid
     in if \<not> orgScope (I_role i) (I_org_id i) then (Inl ErrAuthInternal, a)
        else if \<exists>j \<in> set (invitations a). I_email j = I_email i \<and> I_status j \<noteq> ''revoked'' then (Inl ErrInvitationExists, a)
        else if \<not> optionIn (CiOrganization p) (O_id ` set (organizations a))
             \<or> \<not> optionIn (CiInvitedBy p) (U_id ` set (users a)) then (Inl ErrAuthInternal, a)
        else (Inr i, a'\<lparr>invitations := invitations a @ [i]\<rparr>))"

definition MarkAccepted :: "ctx \<Rightarrow> uuid \<Rightarrow> accounts \<Rightarrow> accounts" where
  "MarkAccepted ctx iid a = a\<lparr>invitations := update_where (\<lambda>i. I_id i = iid \<and> I_status i = ''pending'')
     (\<lambda>i. i\<lparr>I_status := ''accepted'', I_accepted_at := Some (CtxNow ctx)\<rparr>) (invitations a)\<rparr>"

definition RevokeInvitationRow :: "ctx \<Rightarrow> uuid \<Rightarrow> accounts \<Rightarrow> accounts" where
  "RevokeInvitationRow ctx iid a = a\<lparr>invitations := update_where (\<lambda>i. I_id i = iid \<and> I_status i \<noteq> ''revoked'')
     (\<lambda>i. i\<lparr>I_status := ''revoked'', I_revoked_at := Some (CtxNow ctx)\<rparr>) (invitations a)\<rparr>"

definition TouchLastSent :: "ctx \<Rightarrow> uuid \<Rightarrow> accounts \<Rightarrow> accounts" where
  "TouchLastSent ctx iid a = a\<lparr>invitations := update_where (\<lambda>i. I_id i = iid)
     (\<lambda>i. i\<lparr>I_last_sent_at := Some (CtxNow ctx)\<rparr>) (invitations a)\<rparr>"

end
