(* ===== verification/Sessions.thy ===== *)
theory Sessions
  imports Accounts
begin

section \<open>Sign-in sessions, impersonation and the request identity\<close>

text \<open>
  internal/auth/service.go, impersonation.go, token.go and verifier.go, with the authentication and
  role middleware of internal/server/middleware. A session is as good as its row: the verifier reads
  the row and the user on every request.
\<close>

subsection \<open>Access tokens\<close>

record token_pair =
  AccessToken :: string
  RefreshToken :: string

record claims =
  ClUserID :: uuid
  ClRole :: string
  ClOrgID :: "uuid option"
  ClSessionID :: uuid
  ClActorUserID :: "uuid option"

definition IssueAccess :: "env \<Rightarrow> ctx \<Rightarrow> uuid \<Rightarrow> string \<Rightarrow> uuid option \<Rightarrow> uuid \<Rightarrow> string" where
  "IssueAccess env ctx userID role orgID sessionID = SignToken env
     \<lparr>AcSubject = uuid_str userID, AcRole = role, AcOrgID = map_option uuid_str orgID, AcSID = uuid_str sessionID,
      AcIssuedAt = CtxNow ctx, AcExpiresAt = CtxNow ctx + AccessTTL env\<rparr>"

definition parseAccess :: "env \<Rightarrow> ctx \<Rightarrow> string \<Rightarrow> auth_error + claims" where
  "parseAccess env ctx raw = (case ParseToken env (CtxNow ctx) raw of
     None \<Rightarrow> Inl ErrInvalidToken
   | Some c \<Rightarrow> (case ParseUUID env (AcSubject c) of
       None \<Rightarrow> Inl ErrInvalidToken
     | Some uid \<Rightarrow> (case (if AcSID c \<noteq> [] then ParseUUID env (AcSID c) else Some uuid_Nil) of
         None \<Rightarrow> Inl ErrInvalidToken
       | Some sid \<Rightarrow> (case (case AcOrgID c of None \<Rightarrow> Some None | Some o' \<Rightarrow> map_option Some (ParseUUID env o')) of
           None \<Rightarrow> Inl ErrInvalidToken
         | Some org \<Rightarrow> Inr \<lparr>ClUserID = uid, ClRole = AcRole c, ClOrgID = org, ClSessionID = sid, ClActorUserID = None\<rparr>))))"

definition VerifyAccessToken :: "env \<Rightarrow> ctx \<Rightarrow> accounts \<Rightarrow> string \<Rightarrow> auth_error + claims" where
  "VerifyAccessToken env ctx a raw = (case parseAccess env ctx raw of
     Inl e \<Rightarrow> Inl e
   | Inr c \<Rightarrow> if ClSessionID c = uuid_Nil then Inl ErrSessionNotFound
       else (case FindActive ctx a (ClSessionID c) of
         Inl e \<Rightarrow> Inl e
       | Inr sess \<Rightarrow> (case FindUserByID a (As_user_id sess) of
           Inl e \<Rightarrow> Inl e
         | Inr user \<Rightarrow> if \<not> IsActiveUser user then Inl ErrAccountSuspended
             else Inr (c\<lparr>ClUserID := U_id user, ClRole := U_role user, ClOrgID := U_org_id user,
                         ClSessionID := As_id sess, ClActorUserID := As_actor_user_id sess\<rparr>))))"

subsection \<open>The middleware\<close>

text \<open>
  The identity \<open>Auth\<close> sets on the gin context; \<open>uuid.Nil\<close> and the empty role stand for a key that
  is not set. \<open>attributionOf\<close> is \<open>Attribution\<close>. The header's scheme is compared with
  \<open>strings.EqualFold\<close>, here on ASCII letters.
\<close>

record identity =
  IdUserID :: uuid
  IdRole :: string
  IdOrgID :: uuid
  IdSessionID :: uuid
  IdActorUserID :: uuid

definition splitHeader :: "string \<Rightarrow> (string \<times> string) option" where
  "splitHeader h = (case dropWhile (\<lambda>c. c \<noteq> CHR '' '') h of
     [] \<Rightarrow> None | _ # rest \<Rightarrow> Some (takeWhile (\<lambda>c. c \<noteq> CHR '' '') h, rest))"

definition identityOf :: "claims \<Rightarrow> identity" where
  "identityOf c = \<lparr>IdUserID = ClUserID c, IdRole = ClRole c,
     IdOrgID = (case ClOrgID c of None \<Rightarrow> uuid_Nil | Some o' \<Rightarrow> o'), IdSessionID = ClSessionID c,
     IdActorUserID = (case ClActorUserID c of None \<Rightarrow> uuid_Nil | Some u \<Rightarrow> u)\<rparr>"

definition IsImpersonating :: "identity \<Rightarrow> bool" where
  "IsImpersonating i \<longleftrightarrow> IdActorUserID i \<noteq> uuid_Nil"

definition attributionOf :: "identity \<Rightarrow> attribution" where
  "attributionOf i = (if IsImpersonating i
     then \<lparr>Actor = IdActorUserID i, Effective = Some (IdUserID i), Session = Some (IdSessionID i)\<rparr>
     else \<lparr>Actor = IdUserID i, Effective = None, Session = None\<rparr>)"

text \<open>\<open>None\<close> is a 401.\<close>

definition AuthMiddleware :: "env \<Rightarrow> ctx \<Rightarrow> accounts \<Rightarrow> string \<Rightarrow> (identity \<times> ctx) option" where
  "AuthMiddleware env ctx a header = (if header = [] then None
     else case splitHeader header of
       None \<Rightarrow> None
     | Some (scheme, token) \<Rightarrow> if map lowerByte scheme \<noteq> ''bearer'' then None
         else (case VerifyAccessToken env ctx a token of
           Inl _ \<Rightarrow> None
         | Inr c \<Rightarrow> Some (identityOf c, ctx\<lparr>CtxAttribution := Some (attributionOf (identityOf c))\<rparr>)))"

definition RequireRole :: "string list \<Rightarrow> identity \<Rightarrow> bool" where
  "RequireRole roles i \<longleftrightarrow> IdRole i \<in> set roles"

definition RequireSuperAdmin :: "identity \<Rightarrow> bool" where
  "RequireSuperAdmin i \<longleftrightarrow> \<not> IsImpersonating i \<and> RequireRole [''super_admin''] i"

subsection \<open>Password sign-in and sign-out\<close>

definition openSession :: "env \<Rightarrow> ctx \<Rightarrow> string \<Rightarrow> user_row \<Rightarrow> accounts \<Rightarrow> token_pair auth_result" where
  "openSession env ctx raw user a =
     (case CreateSession ctx \<lparr>CpUserID = U_id user, CpActorUserID = None, CpParentSessionID = None, CpKind = ''normal'',
          CpRefreshHash = HashRefreshToken env raw, CpExpiresAt = CtxNow ctx + RefreshTTL env,
          CpIPHash = None, CpUserAgentHash = None, CpReason = None\<rparr> a of
        (Inl e, a) \<Rightarrow> (Inl e, a)
      | (Inr sess, a) \<Rightarrow> (Inr \<lparr>AccessToken = IssueAccess env ctx (U_id user) (U_role user) (U_org_id user) (As_id sess),
          RefreshToken = raw\<rparr>, a))"

definition Login :: "env \<Rightarrow> ctx \<Rightarrow> string \<Rightarrow> string \<Rightarrow> string \<Rightarrow> accounts \<Rightarrow> (token_pair \<times> user_row) auth_result" where
  "Login env ctx raw email password a =
     (if \<not> PasswordLoginEnabled env then (Inl ErrPasswordLoginDisabled, a)
      else case FindByEmail env a email of
        Inl _ \<Rightarrow> (Inl ErrInvalidCredentials, a)
      | Inr user \<Rightarrow> (case U_password_hash user of
          None \<Rightarrow> (Inl ErrInvalidCredentials, a)
        | Some h \<Rightarrow> if \<not> PasswordMatches env password h then (Inl ErrInvalidCredentials, a)
            else if \<not> IsActiveUser user then (Inl ErrAccountSuspended, a)
            else (case openSession env ctx raw user a of
              (Inl e, a) \<Rightarrow> (Inl e, a)
            | (Inr pair, a) \<Rightarrow> (Inr (pair, user), TouchLastLogin ctx (U_id user) a))))"

definition setStatusOf :: "uuid \<Rightarrow> string \<Rightarrow> accounts \<Rightarrow> accounts" where
  "setStatusOf uid st a = a\<lparr>users := update_where (\<lambda>u. U_id u = uid) (U_status_update (\<lambda>_. st)) (users a)\<rparr>"

definition SuspendUser :: "ctx \<Rightarrow> uuid \<Rightarrow> string \<Rightarrow> accounts \<Rightarrow> accounts" where
  "SuspendUser ctx uid reason a = RevokeAllForUser ctx uid reason (setStatusOf uid ''suspended'' a)"

definition ReactivateUser :: "uuid \<Rightarrow> accounts \<Rightarrow> accounts" where
  "ReactivateUser uid a = setStatusOf uid ''active'' a"

definition RevokeInvitation :: "env \<Rightarrow> ctx \<Rightarrow> uuid \<Rightarrow> string \<Rightarrow> accounts \<Rightarrow> unit auth_result" where
  "RevokeInvitation env ctx iid reason a = (case FindInvitation a iid of
     Inl e \<Rightarrow> (Inl e, a)
   | Inr i \<Rightarrow> (case FindByEmail env a (I_email i) of
       Inl _ \<Rightarrow> (Inr (), RevokeInvitationRow ctx iid a)
     | Inr user \<Rightarrow> (Inr (), RevokeAllForUser ctx (U_id user) reason (RevokeInvitationRow ctx iid a))))"

definition Refresh :: "env \<Rightarrow> ctx \<Rightarrow> string \<Rightarrow> string \<Rightarrow> accounts \<Rightarrow> token_pair auth_result" where
  "Refresh env ctx newRaw refreshToken a = (case Rotate env ctx newRaw refreshToken a of
     (Inl _, a) \<Rightarrow> (Inl ErrInvalidCredentials, a)
   | (Inr (sess, newRefresh), a) \<Rightarrow> (case FindUserByID a (As_user_id sess) of
       Inl _ \<Rightarrow> (Inl ErrInvalidCredentials, a)
     | Inr user \<Rightarrow> (Inr \<lparr>AccessToken = IssueAccess env ctx (U_id user) (U_role user) (U_org_id user) (As_id sess),
         RefreshToken = newRefresh\<rparr>, a)))"

definition Logout :: "ctx \<Rightarrow> uuid \<Rightarrow> accounts \<Rightarrow> accounts" where
  "Logout ctx sid a = (if sid = uuid_Nil then a
     else let a = (case FindActive ctx a sid of
                Inr sess \<Rightarrow> (case As_parent sess of
                    Some p \<Rightarrow> if IsImpersonation sess then Revoke ctx p ''logout'' a else a
                  | None \<Rightarrow> a)
              | Inl _ \<Rightarrow> a)
       in Revoke ctx sid ''logout'' (RevokeChildren ctx sid ''parent_logout'' a))"

definition LogoutByRefreshToken :: "env \<Rightarrow> ctx \<Rightarrow> string \<Rightarrow> accounts \<Rightarrow> unit auth_result" where
  "LogoutByRefreshToken env ctx raw a = (case FindByRefreshToken env a raw of
     Inl e \<Rightarrow> (Inl e, a) | Inr sess \<Rightarrow> (Inr (), Logout ctx (As_id sess) a))"

subsection \<open>Impersonation\<close>

definition ImpersonationTTL :: gotime where
  "ImpersonationTTL = minutes 30"

definition denyImpersonation :: "ctx \<Rightarrow> uuid \<Rightarrow> uuid \<Rightarrow> string \<Rightarrow> accounts \<Rightarrow> (token_pair \<times> user_row) auth_result" where
  "denyImpersonation ctx targetID actorID why a = (Inl ErrImpersonationDenied,
     RecordTx ctx (entry_zero\<lparr>ActorUserID := actorID, Action := ''admin.impersonation_denied'', TargetType := ''user'',
       TargetID := uuid_str targetID, Diff := Some [(''reason'', DStr why)]\<rparr>) a)"

definition liveImpersonations :: "gotime \<Rightarrow> uuid \<Rightarrow> accounts \<Rightarrow> session_row list" where
  "liveImpersonations now actor a = filter (\<lambda>s. As_actor_user_id s = Some actor \<and> IsImpersonation s \<and> liveAt now s) (auth_sessions a)"

definition StartImpersonation ::
  "env \<Rightarrow> ctx \<Rightarrow> string \<Rightarrow> uuid \<Rightarrow> uuid \<Rightarrow> string option \<Rightarrow> accounts \<Rightarrow> (token_pair \<times> user_row) auth_result" where
  "StartImpersonation env ctx raw callerSessionID targetID reason a =
     (case FindActive ctx a callerSessionID of
        Inl _ \<Rightarrow> (Inl ErrSessionNotFound, a)
      | Inr callerSess \<Rightarrow>
          if IsImpersonation callerSess then denyImpersonation ctx targetID (the (As_actor_user_id callerSess)) ''nested impersonation'' a
          else (case FindUserByID a (As_user_id callerSess) of
            Inl _ \<Rightarrow> denyImpersonation ctx targetID (As_user_id callerSess) ''caller is not an active super admin'' a
          | Inr caller \<Rightarrow>
              if U_role caller \<noteq> ''super_admin'' \<or> \<not> IsActiveUser caller
              then denyImpersonation ctx targetID (As_user_id callerSess) ''caller is not an active super admin'' a
              else if targetID = U_id caller then denyImpersonation ctx targetID (U_id caller) ''self'' a
              else (case FindUserByID a targetID of
                Inl _ \<Rightarrow> denyImpersonation ctx targetID (U_id caller) ''target not found'' a
              | Inr target \<Rightarrow>
                  if U_role target \<noteq> ''organizer'' then denyImpersonation ctx targetID (U_id caller) ''target is not an organizer'' a
                  else if \<not> IsActiveUser target then denyImpersonation ctx targetID (U_id caller) ''target is suspended'' a
                  else if liveImpersonations (CtxNow ctx) (U_id caller) a \<noteq> []
                  then denyImpersonation ctx targetID (U_id caller) ''an impersonation is already active'' a
                  else (case CreateSession ctx \<lparr>CpUserID = U_id target, CpActorUserID = Some (U_id caller),
                          CpParentSessionID = Some (As_id callerSess), CpKind = ''impersonation'',
                          CpRefreshHash = HashRefreshToken env raw, CpExpiresAt = CtxNow ctx + ImpersonationTTL,
                          CpIPHash = None, CpUserAgentHash = None, CpReason = reason\<rparr> a of
                      (Inl e, a) \<Rightarrow> (Inl e, a)
                    | (Inr sess, a) \<Rightarrow>
                        (Inr (\<lparr>AccessToken = IssueAccess env ctx (U_id target) (U_role target) (U_org_id target) (As_id sess),
                               RefreshToken = raw\<rparr>, target),
                         RecordTx ctx (entry_zero\<lparr>ActorUserID := U_id caller, EffectiveUserID := Some (U_id target),
                           ImpersonationSessionID := Some (As_id sess), Reason := reason, OrgID := U_org_id target,
                           Action := ''admin.impersonation_started'', TargetType := ''user'',
                           TargetID := uuid_str (U_id target)\<rparr>) a)))))"

definition ExitImpersonation :: "env \<Rightarrow> ctx \<Rightarrow> string \<Rightarrow> uuid \<Rightarrow> accounts \<Rightarrow> (token_pair \<times> user_row) auth_result" where
  "ExitImpersonation env ctx raw currentSessionID a =
     (case FindActive ctx a currentSessionID of
        Inl _ \<Rightarrow> (Inl ErrSessionNotFound, a)
      | Inr cur \<Rightarrow> (case (IsImpersonation cur, As_parent cur) of
          (True, Some parentID) \<Rightarrow>
            (let ended = Revoke ctx (As_id cur) ''impersonation_ended'' a
             in case FindActive ctx a parentID of
                  Inl _ \<Rightarrow> (Inl ErrSessionNotFound, ended)
                | Inr parent \<Rightarrow> (case FindUserByID a (As_user_id parent) of
                    Inl _ \<Rightarrow> (Inl ErrSessionNotFound, ended)
                  | Inr admin \<Rightarrow>
                      if U_role admin \<noteq> ''super_admin'' \<or> \<not> IsActiveUser admin then (Inl ErrSessionNotFound, ended)
                      else let logged = RecordTx ctx (entry_zero\<lparr>ActorUserID := U_id admin, EffectiveUserID := Some (As_user_id cur),
                                 ImpersonationSessionID := Some (As_id cur), Action := ''admin.impersonation_ended'',
                                 TargetType := ''user'', TargetID := uuid_str (As_user_id cur)\<rparr>) ended
                        in (case setHash ctx (As_id parent) (HashRefreshToken env raw) logged of
                              (Inl e, a) \<Rightarrow> (Inl e, a)
                            | (Inr _, a) \<Rightarrow> (Inr (\<lparr>AccessToken = IssueAccess env ctx (U_id admin) (U_role admin) (U_org_id admin) (As_id parent),
                                RefreshToken = raw\<rparr>, admin), a))))
        | _ \<Rightarrow> (Inl ErrNotImpersonating, a)))"

text \<open>The display block of /me: actor, start and end of an impersonation, \<open>None\<close> for a normal session.
  The CHECK constraint \<open>sessionShape\<close> gives an impersonation its actor.\<close>

definition ImpersonationFor :: "ctx \<Rightarrow> accounts \<Rightarrow> uuid \<Rightarrow> auth_error + (user_row \<times> gotime \<times> gotime) option" where
  "ImpersonationFor ctx a sid = (case FindActive ctx a sid of
     Inl e \<Rightarrow> Inl e
   | Inr sess \<Rightarrow> if \<not> IsImpersonation sess then Inr None
       else (case FindUserByID a (the (As_actor_user_id sess)) of
         Inl e \<Rightarrow> Inl e
       | Inr actor \<Rightarrow> Inr (Some (actor, As_created_at sess, As_expires_at sess))))"


subsection \<open>What every operation does to the sessions\<close>

text \<open>A session keeps who it is for and when it ends; once revoked, it keeps when and why.\<close>

definition keeps :: "session_row \<Rightarrow> session_row \<Rightarrow> bool" where
  "keeps s s' \<longleftrightarrow> As_id s' = As_id s \<and> As_user_id s' = As_user_id s \<and> As_actor_user_id s' = As_actor_user_id s
     \<and> As_parent s' = As_parent s \<and> As_kind s' = As_kind s \<and> As_expires_at s' = As_expires_at s
     \<and> (As_revoked_at s \<noteq> None \<longrightarrow> As_revoked_at s' = As_revoked_at s \<and> As_revoked_reason s' = As_revoked_reason s)"

definition hashes_distinct :: "accounts \<Rightarrow> bool" where
  "hashes_distinct a \<longleftrightarrow> distinct (map As_hash (auth_sessions a))"

definition evolves :: "accounts \<Rightarrow> accounts \<Rightarrow> bool" where
  "evolves a a' \<longleftrightarrow> UuidGen a' = UuidGen a \<and> Drawn a \<le> Drawn a' \<and> U_id ` set (users a) \<subseteq> U_id ` set (users a')
     \<and> list_all2 keeps (auth_sessions a) (auth_sessions a') \<and> (hashes_distinct a \<longrightarrow> hashes_distinct a')"

lemma keeps_refl [simp]: "keeps s s"
  by (simp add: keeps_def)

lemma keeps_trans: "keeps a b \<Longrightarrow> keeps b c \<Longrightarrow> keeps a c"
  by (auto simp: keeps_def)

lemma list_all2_keeps_refl [simp]: "list_all2 keeps xs xs"
  by (simp add: list_all2_refl)

lemma evolves_refl [simp]: "evolves a a"
  by (simp add: evolves_def)

lemma evolves_trans: "evolves a b \<Longrightarrow> evolves b c \<Longrightarrow> evolves a c"
  unfolding evolves_def by (auto intro: list_all2_trans [of keeps keeps keeps, OF keeps_trans])

lemma list_all2_update_where:
  "(\<And>r. r \<in> set t \<Longrightarrow> P r \<Longrightarrow> Q r (f r)) \<Longrightarrow> (\<And>r. Q r r) \<Longrightarrow> list_all2 Q t (update_where P f t)"
  by (induction t) (simp_all add: table_simps)

lemma evolves_end:
  assumes "\<And>s. s \<in> set (auth_sessions a) \<Longrightarrow> P s \<Longrightarrow> As_revoked_at s = None"
  shows "evolves a (a\<lparr>auth_sessions := update_where P (endSession ctx reason) (auth_sessions a)\<rparr>)"
  using assms by (auto simp: evolves_def keeps_def hashes_distinct_def endSession_def map_update_where intro!: list_all2_update_where)

lemma evolves_Revoke: "evolves a (Revoke ctx sid reason a)"
  unfolding Revoke_def by (rule evolves_end) simp

lemma evolves_RevokeChildren: "evolves a (RevokeChildren ctx sid reason a)"
  unfolding RevokeChildren_def by (rule evolves_end) simp

lemma evolves_RevokeAllForUser: "evolves a (RevokeAllForUser ctx uid reason a)"
  unfolding RevokeAllForUser_def by (rule evolves_end) simp

lemma newHash_hash [simp]: "As_hash (newHash ctx h s) = h"
  by (simp add: newHash_def)

lemma distinct_newHash:
  assumes "distinct (map As_hash t)" and "distinct (map As_id t)" and "h \<notin> As_hash ` {s \<in> set t. As_id s \<noteq> sid}"
  shows "distinct (map As_hash (update_where (\<lambda>s. As_id s = sid) (newHash ctx h) t))"
  using assms
proof (induction t)
  case (Cons s t)
  show ?case
  proof (cases "As_id s = sid")
    case True
    then have nid: "sid \<notin> As_id ` set t" using Cons.prems(2) by simp
    then have "set t \<subseteq> {r \<in> set (s # t). As_id r \<noteq> sid}" by (metis (mono_tags, lifting) imageI list.set_intros(2) mem_Collect_eq subsetI)
    then have "h \<notin> As_hash ` set t" using Cons.prems(3) by blast
    moreover have "update_where (\<lambda>s. As_id s = sid) (newHash ctx h) t = t" using nid by (intro update_where_none) (metis imageI)
    ultimately show ?thesis using Cons.prems True by (simp add: table_simps)
  next
    case False
    have "distinct (map As_hash (update_where (\<lambda>s. As_id s = sid) (newHash ctx h) t))" using Cons by auto
    moreover have "As_hash s \<noteq> h" using Cons.prems(3) False by auto
    ultimately show ?thesis using Cons.prems(1) False by (auto simp: table_simps set_update_where)
  qed
qed (simp add: table_simps)

lemma evolves_setHash:
  assumes "setHash ctx sid h a = r" and "distinct (map As_id (auth_sessions a))"
  shows "evolves a (snd r)"
proof (cases "h \<in> As_hash ` {s \<in> set (auth_sessions a). As_id s \<noteq> sid}")
  case False
  have "list_all2 keeps (auth_sessions a) (update_where (\<lambda>s. As_id s = sid) (newHash ctx h) (auth_sessions a))"
    by (rule list_all2_update_where) (simp_all add: keeps_def newHash_def)
  then show ?thesis using assms False distinct_newHash [of "auth_sessions a" h sid ctx]
    by (auto simp: setHash_def evolves_def hashes_distinct_def)
qed (use assms in \<open>auto simp: setHash_def\<close>)

lemma evolves_users: "U_id ` set (users a) \<subseteq> U_id ` set us \<Longrightarrow> evolves a (a\<lparr>users := us\<rparr>)"
  by (simp add: evolves_def hashes_distinct_def)

lemma image_update_where: "(\<And>r. g (f r) = g r) \<Longrightarrow> g ` set (update_where P f t) = g ` set t"
  using map_update_where [of g f P t] by (metis list.set_map)

lemma evolves_setStatusOf: "evolves a (setStatusOf uid st a)"
  unfolding setStatusOf_def by (rule evolves_users) (simp add: image_update_where)

lemma evolves_TouchLastLogin: "evolves a (TouchLastLogin ctx uid a)"
  unfolding TouchLastLogin_def by (rule evolves_users) (simp add: image_update_where)

lemma evolves_RecordTx: "evolves a (RecordTx ctx e a)"
  by (simp add: evolves_def hashes_distinct_def RecordTx_def)

lemma evolves_invitations: "evolves a (a\<lparr>invitations := is\<rparr>)"
  by (simp add: evolves_def hashes_distinct_def)

lemma evolves_Logout: "evolves a (Logout ctx sid a)"
  by (auto simp: Logout_def Let_def split: sum.split option.split
      intro: evolves_trans [OF evolves_RevokeChildren evolves_Revoke] evolves_trans [OF evolves_Revoke]
        evolves_trans [OF evolves_Revoke evolves_trans [OF evolves_RevokeChildren evolves_Revoke]])

lemma evolves_SuspendUser: "evolves a (SuspendUser ctx uid reason a)"
  unfolding SuspendUser_def by (rule evolves_trans [OF evolves_setStatusOf evolves_RevokeAllForUser])

lemma evolves_Rotate:
  assumes "distinct (map As_id (auth_sessions a))" and "Rotate env ctx newRaw raw a = r"
  shows "evolves a (snd r)"
proof (cases "List.find (\<lambda>s. As_hash s = HashRefreshToken env raw) (auth_sessions a)")
  case None
  show ?thesis
  proof (cases "List.find (\<lambda>s. As_previous s = Some (HashRefreshToken env raw) \<and> As_revoked_at s = None) (auth_sessions a)")
    case (Some x)
    then have x: "x \<in> set (auth_sessions a)" "As_revoked_at x = None" using find_Some_in by fastforce+
    have "s = x" if "s \<in> set (auth_sessions a)" "As_id s = As_id x" for s
      using assms(1) x(1) that by (simp add: distinct_map inj_on_def)
    then have "evolves a (a\<lparr>auth_sessions := update_where (\<lambda>s. As_id s = As_id x) (endSession ctx ''refresh_token_reuse'') (auth_sessions a)\<rparr>)"
      using x(2) by (intro evolves_end) auto
    then show ?thesis using assms(2) None Some by (auto simp: Rotate_def)
  qed (use assms(2) None in \<open>auto simp: Rotate_def\<close>)
next
  case (Some sess)
  then show ?thesis
    using assms(2) evolves_setHash [OF refl assms(1)]
    by (fastforce simp: Rotate_def split: if_splits prod.splits sum.splits dest: arg_cong [where f = snd])
qed


subsection \<open>The stored sessions\<close>

text \<open>
  Identifiers and refresh hashes are unique, a session has its shape and its user, and an
  impersonation hangs off a normal session of the admin it names; at the time \<open>now\<close> an admin has at
  most one live impersonation.
\<close>

definition parentOk :: "session_row list \<Rightarrow> session_row \<Rightarrow> bool" where
  "parentOk ss s \<longleftrightarrow> (\<forall>p. As_parent s = Some p \<longrightarrow>
     (\<exists>q \<in> set ss. As_id q = p \<and> As_kind q = ''normal'' \<and> As_actor_user_id s = Some (As_user_id q)))"

definition sessions_ok :: "gotime \<Rightarrow> accounts \<Rightarrow> bool" where
  "sessions_ok now a \<longleftrightarrow> inj (UuidGen a) \<and> (\<forall>n \<ge> Drawn a. UuidGen a n \<notin> As_id ` set (auth_sessions a))
     \<and> distinct (map As_id (auth_sessions a)) \<and> hashes_distinct a
     \<and> (\<forall>s \<in> set (auth_sessions a). sessionShape s \<and> As_user_id s \<in> U_id ` set (users a) \<and> parentOk (auth_sessions a) s)
     \<and> (\<forall>actor. length (liveImpersonations now actor a) \<le> 1)"

lemma keeps_shape: "keeps s s' \<Longrightarrow> sessionShape s' = sessionShape s"
  by (simp add: keeps_def sessionShape_def)

lemma keeps_live: "keeps s s' \<Longrightarrow> liveAt t' s' \<Longrightarrow> t \<le> t' \<Longrightarrow> liveAt t s"
  by (auto simp: keeps_def liveAt_def)

lemma list_all2_filter_le:
  assumes "list_all2 Q xs ys" and "\<And>x y. Q x y \<Longrightarrow> P' y \<Longrightarrow> P x"
  shows "length (filter P' ys) \<le> length (filter P xs)"
  using assms(1) by induction (auto dest: assms(2))

lemma liveImpersonations_le:
  assumes "list_all2 keeps (auth_sessions a) (auth_sessions a')" and "t \<le> t'"
  shows "length (liveImpersonations t' actor a') \<le> length (liveImpersonations t actor a)"
  unfolding liveImpersonations_def
proof (rule list_all2_filter_le [OF assms(1)])
  fix x y assume k: "keeps x y" and y: "As_actor_user_id y = Some actor \<and> IsImpersonation y \<and> liveAt t' y"
  then have "liveAt t x" using keeps_live [OF k _ assms(2)] by blast
  then show "As_actor_user_id x = Some actor \<and> IsImpersonation x \<and> liveAt t x"
    using k y by (simp add: keeps_def IsImpersonation_def)
qed

lemma keeps_ids: "list_all2 keeps xs ys \<Longrightarrow> map As_id ys = map As_id xs"
  by (induction rule: list_all2_induct) (auto simp: keeps_def)

lemma keeps_back:
  assumes "list_all2 keeps xs ys" and "y \<in> set ys"
  obtains x where "x \<in> set xs" and "keeps x y"
  using assms by (induction rule: list_all2_induct) auto

lemma keeps_forth:
  assumes "list_all2 keeps xs ys" and "x \<in> set xs"
  obtains y where "y \<in> set ys" and "keeps x y"
  using assms by (induction rule: list_all2_induct) auto

lemma keeps_parentOk:
  assumes "list_all2 keeps xs ys" and "parentOk xs s" and "keeps s s'"
  shows "parentOk ys s'"
  unfolding parentOk_def
proof (intro allI impI)
  fix p assume "As_parent s' = Some p"
  then have "As_parent s = Some p" using assms(3) by (simp add: keeps_def)
  then obtain q where q: "q \<in> set xs" "As_id q = p" "As_kind q = ''normal''" "As_actor_user_id s = Some (As_user_id q)"
    using assms(2) unfolding parentOk_def by blast
  obtain q' where "q' \<in> set ys" "keeps q q'" using keeps_forth [OF assms(1) q(1)] .
  then show "\<exists>q \<in> set ys. As_id q = p \<and> As_kind q = ''normal'' \<and> As_actor_user_id s' = Some (As_user_id q)"
    using q assms(3) by (intro bexI [of _ q']) (simp_all add: keeps_def)
qed

lemma sessions_ok_evolves:
  assumes "sessions_ok t a" and "evolves a a'" and "t \<le> t'"
  shows "sessions_ok t' a'"
proof -
  have k: "list_all2 keeps (auth_sessions a) (auth_sessions a')" and e: "UuidGen a' = UuidGen a" "Drawn a \<le> Drawn a'"
    "U_id ` set (users a) \<subseteq> U_id ` set (users a')" "hashes_distinct a \<longrightarrow> hashes_distinct a'"
    using assms(2) by (simp_all add: evolves_def)
  have i: "map As_id (auth_sessions a') = map As_id (auth_sessions a)" by (rule keeps_ids [OF k])
  then have "As_id ` set (auth_sessions a') = As_id ` set (auth_sessions a)" by (metis list.set_map)
  moreover have "sessionShape s' \<and> As_user_id s' \<in> U_id ` set (users a') \<and> parentOk (auth_sessions a') s'"
    if "s' \<in> set (auth_sessions a')" for s'
  proof -
    obtain s where s: "s \<in> set (auth_sessions a)" "keeps s s'" using keeps_back [OF k \<open>s' \<in> set (auth_sessions a')\<close>] .
    then have "sessionShape s" "As_user_id s \<in> U_id ` set (users a)" "parentOk (auth_sessions a) s"
      using assms(1) unfolding sessions_ok_def by blast+
    then show ?thesis using s(2) e(3) keeps_shape keeps_parentOk [OF k _ s(2)] by (auto simp: keeps_def)
  qed
  moreover have "length (liveImpersonations t' actor a') \<le> 1" for actor
    using liveImpersonations_le [OF k assms(3), of actor] assms(1) unfolding sessions_ok_def by (meson le_trans)
  ultimately show ?thesis using assms(1) e i unfolding sessions_ok_def by auto
qed

subsection \<open>Opening a session\<close>

lemma CreateSession_cases:
  "CreateSession ctx p a = (Inl ErrAuthInternal, a)
   \<or> (\<exists>s. s = newSession ctx p (UuidGen a (Drawn a)) \<and> sessionShape s \<and> CpUserID p \<in> U_id ` set (users a)
      \<and> CpRefreshHash p \<notin> As_hash ` set (auth_sessions a)
      \<and> CreateSession ctx p a = (Inr s, a\<lparr>Drawn := Suc (Drawn a), auth_sessions := auth_sessions a @ [s]\<rparr>))"
  by (auto simp: CreateSession_def gen_random_uuid_def Let_def)

lemma parentOk_append: "parentOk ss s \<Longrightarrow> parentOk (ss @ ts) s"
  by (auto simp: parentOk_def)

lemma sessions_ok_append:
  assumes "sessions_ok t a" and "t \<le> CtxNow ctx" and "s = newSession ctx p (UuidGen a (Drawn a))" and "sessionShape s"
    and "CpUserID p \<in> U_id ` set (users a)" and "CpRefreshHash p \<notin> As_hash ` set (auth_sessions a)"
    and "parentOk (auth_sessions a) s"
    and "CpKind p = ''impersonation'' \<Longrightarrow> liveImpersonations (CtxNow ctx) (the (CpActorUserID p)) a = []"
  shows "sessions_ok (CtxNow ctx) (a\<lparr>Drawn := Suc (Drawn a), auth_sessions := auth_sessions a @ [s]\<rparr>)"
    (is "sessions_ok _ ?a")
proof -
  have ok: "sessions_ok (CtxNow ctx) a" using sessions_ok_evolves [OF assms(1) evolves_refl assms(2)] .
  have s: "As_id s = UuidGen a (Drawn a)" "As_user_id s = CpUserID p" "As_hash s = CpRefreshHash p" "As_kind s = CpKind p"
    "As_actor_user_id s = CpActorUserID p" using assms(3) by (simp_all add: newSession_def)
  have "UuidGen a n \<noteq> UuidGen a (Drawn a)" if "Suc (Drawn a) \<le> n" for n
    using ok that unfolding sessions_ok_def by (metis inj_eq not_less_eq_eq order_refl)
  then have fresh: "\<forall>n \<ge> Drawn ?a. UuidGen ?a n \<notin> As_id ` set (auth_sessions ?a)"
    using ok s(1) unfolding sessions_ok_def by auto
  have "length (liveImpersonations (CtxNow ctx) actor ?a) \<le> 1" for actor
  proof (cases "As_actor_user_id s = Some actor \<and> IsImpersonation s")
    case True
    then have "liveImpersonations (CtxNow ctx) actor a = []" using assms(8) s(4,5) by (simp add: IsImpersonation_def)
    then show ?thesis by (simp add: liveImpersonations_def)
  next
    case False
    then have "liveImpersonations (CtxNow ctx) actor ?a = liveImpersonations (CtxNow ctx) actor a"
      by (auto simp: liveImpersonations_def)
    then show ?thesis using ok unfolding sessions_ok_def by simp
  qed
  moreover have "distinct (map As_id (auth_sessions ?a))" "hashes_distinct ?a"
    using ok s(1,3) assms(6) by (auto simp: sessions_ok_def hashes_distinct_def)
  moreover have "\<forall>x \<in> set (auth_sessions ?a). sessionShape x \<and> As_user_id x \<in> U_id ` set (users ?a) \<and> parentOk (auth_sessions ?a) x"
    using ok s(2) assms(4,5,7) unfolding sessions_ok_def by (auto intro: parentOk_append)
  ultimately show ?thesis using ok fresh unfolding sessions_ok_def by auto
qed

lemma sessions_ok_CreateNormal:
  assumes "sessions_ok t a" and "t \<le> CtxNow ctx" and "CpKind p = ''normal''"
  shows "sessions_ok (CtxNow ctx) (snd (CreateSession ctx p a))"
  using CreateSession_cases [of ctx p a]
proof (elim disjE exE conjE)
  assume "CreateSession ctx p a = (Inl ErrAuthInternal, a)"
  then show ?thesis using sessions_ok_evolves [OF assms(1) evolves_refl assms(2)] by simp
next
  fix s assume s: "s = newSession ctx p (UuidGen a (Drawn a))" "sessionShape s" "CpUserID p \<in> U_id ` set (users a)"
      "CpRefreshHash p \<notin> As_hash ` set (auth_sessions a)"
      "CreateSession ctx p a = (Inr s, a\<lparr>Drawn := Suc (Drawn a), auth_sessions := auth_sessions a @ [s]\<rparr>)"
  have "parentOk (auth_sessions a) s" using s(1,2) assms(3) by (auto simp: parentOk_def sessionShape_def newSession_def)
  then show ?thesis using sessions_ok_append [OF assms(1,2) s(1-4)] s(5) assms(3) by simp
qed


subsection \<open>The services keep the sessions in order\<close>

lemma sessions_ok_ids: "sessions_ok t a \<Longrightarrow> distinct (map As_id (auth_sessions a))"
  by (simp add: sessions_ok_def)

lemma session_by_id:
  "sessions_ok t a \<Longrightarrow> s \<in> set (auth_sessions a) \<Longrightarrow> r \<in> set (auth_sessions a) \<Longrightarrow> As_id s = As_id r \<Longrightarrow> s = r"
  using inj_onD [of As_id "set (auth_sessions a)"] sessions_ok_ids by (simp add: distinct_map)

lemma FindActive_Inr:
  "FindActive ctx a sid = Inr s \<Longrightarrow> s \<in> set (auth_sessions a) \<and> As_id s = sid \<and> liveAt (CtxNow ctx) s"
  by (auto simp: FindActive_def dest: find_Some_in split: option.splits)

lemma FindUserByID_Inr: "FindUserByID a uid = Inr u \<Longrightarrow> u \<in> set (users a) \<and> U_id u = uid"
  by (auto simp: FindUserByID_def dest: find_Some_in split: option.splits)

lemma openSession_ok:
  assumes "sessions_ok t a" and "t \<le> CtxNow ctx" and "openSession env ctx raw user a = r"
  shows "sessions_ok (CtxNow ctx) (snd r)"
proof -
  let ?p = "\<lparr>CpUserID = U_id user, CpActorUserID = None, CpParentSessionID = None, CpKind = ''normal'',
     CpRefreshHash = HashRefreshToken env raw, CpExpiresAt = CtxNow ctx + RefreshTTL env,
     CpIPHash = None, CpUserAgentHash = None, CpReason = None\<rparr>"
  have "sessions_ok (CtxNow ctx) (snd (CreateSession ctx ?p a))"
    by (rule sessions_ok_CreateNormal [OF assms(1,2)]) simp
  moreover have "snd r = snd (CreateSession ctx ?p a)"
    using assms(3) by (auto simp: openSession_def split: prod.splits sum.splits)
  ultimately show ?thesis by simp
qed

lemma Login_ok:
  assumes "sessions_ok t a" and "t \<le> CtxNow ctx" and "Login env ctx raw email password a = r"
  shows "sessions_ok (CtxNow ctx) (snd r)"
proof -
  have now: "sessions_ok (CtxNow ctx) a" by (rule sessions_ok_evolves [OF assms(1) evolves_refl assms(2)])
  have "snd r = a \<or> (\<exists>user. snd r = snd (openSession env ctx raw user a)
      \<or> snd r = TouchLastLogin ctx (U_id user) (snd (openSession env ctx raw user a)))"
    using assms(3) by (auto simp: Login_def split: if_splits sum.splits option.splits prod.splits) (metis snd_conv)+
  then show ?thesis
    using now openSession_ok [OF assms(1,2) refl]
      sessions_ok_evolves [OF openSession_ok [OF assms(1,2) refl] evolves_TouchLastLogin order_refl] by metis
qed

lemma evolves_RevokeInvitation: "evolves a (snd (RevokeInvitation env ctx iid reason a))"
  using evolves_invitations [of a] evolves_RevokeAllForUser evolves_trans
  by (auto simp: RevokeInvitation_def RevokeInvitationRow_def split: sum.splits) blast+

lemma evolves_Refresh:
  assumes "distinct (map As_id (auth_sessions a))" and "Refresh env ctx newRaw raw a = r"
  shows "evolves a (snd r)"
  using evolves_Rotate [OF assms(1) refl, of env ctx newRaw raw] assms(2)
  by (auto simp: Refresh_def split: prod.splits sum.splits)

lemma evolves_LogoutByRefreshToken: "evolves a (snd (LogoutByRefreshToken env ctx raw a))"
  by (auto simp: LogoutByRefreshToken_def intro: evolves_Logout split: sum.splits)

lemma evolves_ExitImpersonation:
  assumes "distinct (map As_id (auth_sessions a))" and "ExitImpersonation env ctx raw sid a = r"
  shows "evolves a (snd r)"
proof -
  have d: "distinct (map As_id (auth_sessions (RecordTx ctx e (Revoke ctx s x a))))" for e s x
    using assms(1) keeps_ids [of "auth_sessions a" "auth_sessions (Revoke ctx s x a)"] evolves_Revoke [of a ctx s x]
    by (simp add: RecordTx_def evolves_def)
  have "evolves a (snd (setHash ctx p h (RecordTx ctx e (Revoke ctx s x a))))" for p h e s x
    by (rule evolves_trans [OF evolves_trans [OF evolves_Revoke evolves_RecordTx] evolves_setHash [OF refl d]])
  note sh = this
  have "snd r = a \<or> (\<exists>s x. snd r = Revoke ctx s x a)
      \<or> (\<exists>p h e s x. snd r = snd (setHash ctx p h (RecordTx ctx e (Revoke ctx s x a))))"
    using assms(2)
    by (auto simp: ExitImpersonation_def Let_def split: sum.splits bool.splits option.splits if_splits prod.splits) (metis snd_conv)+
  then show ?thesis using sh evolves_Revoke evolves_refl by metis
qed

text \<open>The outcome of StartImpersonation: a denial that only writes the log, or one new session.\<close>

lemma StartImpersonation_cases:
  assumes "StartImpersonation env ctx raw sid target reason a = r"
  shows "(\<exists>e. r = (Inl e, a)) \<or> (\<exists>e. r = (Inl ErrImpersonationDenied, RecordTx ctx e a))
    \<or> (\<exists>parent caller tu s e pair. parent \<in> set (auth_sessions a) \<and> As_id parent = sid \<and> \<not> IsImpersonation parent
        \<and> liveAt (CtxNow ctx) parent
        \<and> caller \<in> set (users a) \<and> U_id caller = As_user_id parent \<and> U_role caller = ''super_admin'' \<and> IsActiveUser caller
        \<and> tu \<in> set (users a) \<and> U_id tu = target \<and> U_role tu = ''organizer'' \<and> IsActiveUser tu
        \<and> liveImpersonations (CtxNow ctx) (U_id caller) a = []
        \<and> s = newSession ctx \<lparr>CpUserID = target, CpActorUserID = Some (U_id caller), CpParentSessionID = Some sid,
            CpKind = ''impersonation'', CpRefreshHash = HashRefreshToken env raw, CpExpiresAt = CtxNow ctx + ImpersonationTTL,
            CpIPHash = None, CpUserAgentHash = None, CpReason = reason\<rparr> (UuidGen a (Drawn a))
        \<and> sessionShape s \<and> HashRefreshToken env raw \<notin> As_hash ` set (auth_sessions a)
        \<and> r = (Inr (pair, tu), RecordTx ctx e (a\<lparr>Drawn := Suc (Drawn a), auth_sessions := auth_sessions a @ [s]\<rparr>)))"
proof (cases "FindActive ctx a sid")
  case (Inr parent)
  note parent = this FindActive_Inr [OF this]
  show ?thesis
  proof (cases "IsImpersonation parent \<or> (\<exists>e. FindUserByID a (As_user_id parent) = Inl e)")
    case False
    then obtain caller where caller: "FindUserByID a (As_user_id parent) = Inr caller" by (metis sum.exhaust)
    show ?thesis
    proof (cases "U_role caller \<noteq> ''super_admin'' \<or> \<not> IsActiveUser caller \<or> target = U_id caller \<or> (\<exists>e. FindUserByID a target = Inl e)")
      case inner: False
      then obtain tu where tu: "FindUserByID a target = Inr tu" by (metis sum.exhaust)
      note c = FindUserByID_Inr [OF caller] FindUserByID_Inr [OF tu]
      let ?p = "\<lparr>CpUserID = target, CpActorUserID = Some (U_id caller), CpParentSessionID = Some sid,
            CpKind = ''impersonation'', CpRefreshHash = HashRefreshToken env raw, CpExpiresAt = CtxNow ctx + ImpersonationTTL,
            CpIPHash = None, CpUserAgentHash = None, CpReason = reason\<rparr>"
      show ?thesis
      proof (cases "U_role tu \<noteq> ''organizer'' \<or> \<not> IsActiveUser tu \<or> liveImpersonations (CtxNow ctx) (U_id caller) a \<noteq> []")
        case fine: False
        show ?thesis using CreateSession_cases [of ctx ?p a]
        proof (elim disjE exE conjE)
          assume "CreateSession ctx ?p a = (Inl ErrAuthInternal, a)"
          then show ?thesis using assms parent caller tu c False inner fine by (auto simp: StartImpersonation_def)
        next
          fix s assume s: "s = newSession ctx ?p (UuidGen a (Drawn a))" "sessionShape s"
            "CpRefreshHash ?p \<notin> As_hash ` set (auth_sessions a)"
            "CreateSession ctx ?p a = (Inr s, a\<lparr>Drawn := Suc (Drawn a), auth_sessions := auth_sessions a @ [s]\<rparr>)"
          then obtain e pair where "r = (Inr (pair, tu), RecordTx ctx e (a\<lparr>Drawn := Suc (Drawn a), auth_sessions := auth_sessions a @ [s]\<rparr>))"
            using assms parent caller tu c False inner fine by (auto simp: StartImpersonation_def)
          then show ?thesis using parent c False inner fine s(1-3)
            by (intro disjI2 exI [of _ parent] exI [of _ caller] exI [of _ tu] exI [of _ s] exI [of _ e] exI [of _ pair]) auto
        qed
      qed (use assms parent caller tu c False inner in \<open>auto simp: StartImpersonation_def denyImpersonation_def split: if_splits\<close>)
    qed (use assms parent caller False in \<open>auto simp: StartImpersonation_def denyImpersonation_def split: sum.splits if_splits\<close>)
  qed (use assms parent in \<open>auto simp: StartImpersonation_def denyImpersonation_def split: if_splits\<close>)
qed (use assms in \<open>auto simp: StartImpersonation_def\<close>)

lemma StartImpersonation_ok:
  assumes "sessions_ok t a" and "t \<le> CtxNow ctx" and "StartImpersonation env ctx raw sid target reason a = r"
  shows "sessions_ok (CtxNow ctx) (snd r)"
proof -
  have now: "sessions_ok (CtxNow ctx) a" by (rule sessions_ok_evolves [OF assms(1) evolves_refl assms(2)])
  show ?thesis using StartImpersonation_cases [OF assms(3)]
  proof (elim disjE exE conjE)
    fix e assume "r = (Inl ErrImpersonationDenied, RecordTx ctx e a)"
    then show ?thesis using sessions_ok_evolves [OF now evolves_RecordTx order_refl] by simp
  next
    fix parent caller tu s e pair
    let ?p = "\<lparr>CpUserID = target, CpActorUserID = Some (U_id caller), CpParentSessionID = Some sid,
            CpKind = ''impersonation'', CpRefreshHash = HashRefreshToken env raw, CpExpiresAt = CtxNow ctx + ImpersonationTTL,
            CpIPHash = None, CpUserAgentHash = None, CpReason = reason\<rparr>"
    assume p: "parent \<in> set (auth_sessions a)" "As_id parent = sid" "\<not> IsImpersonation parent"
      and u: "U_id caller = As_user_id parent" "tu \<in> set (users a)" "U_id tu = target"
      and l: "liveImpersonations (CtxNow ctx) (U_id caller) a = []"
      and s: "s = newSession ctx ?p (UuidGen a (Drawn a))" "sessionShape s" "HashRefreshToken env raw \<notin> As_hash ` set (auth_sessions a)"
      and r: "r = (Inr (pair, tu), RecordTx ctx e (a\<lparr>Drawn := Suc (Drawn a), auth_sessions := auth_sessions a @ [s]\<rparr>))"
    have "sessionShape parent" using now p(1) unfolding sessions_ok_def by blast
    then have "As_kind parent = ''normal''" using p(3) by (auto simp: sessionShape_def IsImpersonation_def)
    then have "parentOk (auth_sessions a) s" using p(1,2) u(1) s(1) by (auto simp: parentOk_def newSession_def)
    then have "sessions_ok (CtxNow ctx) (a\<lparr>Drawn := Suc (Drawn a), auth_sessions := auth_sessions a @ [s]\<rparr>)"
      using sessions_ok_append [OF now order_refl s(1,2)] s(3) u l by auto
    then show ?thesis using sessions_ok_evolves [OF _ evolves_RecordTx order_refl] r by simp
  qed (use now in simp)
qed


subsection \<open>Who a request acts as\<close>

definition users_ok :: "env \<Rightarrow> accounts \<Rightarrow> bool" where
  "users_ok env a \<longleftrightarrow> inj (UuidGen a) \<and> (\<forall>n \<ge> Drawn a. UuidGen a n \<notin> U_id ` set (users a) \<and> UuidGen a n \<noteq> uuid_Nil)
     \<and> distinct (map U_id (users a)) \<and> distinct (map (\<lambda>u. PgLower env (U_email u)) (users a))
     \<and> (\<forall>u \<in> set (users a). orgScope (U_role u) (U_org_id u) \<and> U_id u \<noteq> uuid_Nil)"

lemma FindUserByID_iff:
  "distinct (map U_id (users a)) \<Longrightarrow> FindUserByID a uid = Inr u \<longleftrightarrow> u \<in> set (users a) \<and> U_id u = uid"
  using find_by_key [of U_id "users a" u] by (auto simp: FindUserByID_def split: option.splits dest: find_Some_in)

lemma FindActive_iff:
  assumes "distinct (map As_id (auth_sessions a))"
  shows "FindActive ctx a sid = Inr s \<longleftrightarrow> s \<in> set (auth_sessions a) \<and> As_id s = sid \<and> liveAt (CtxNow ctx) s"
proof
  assume s: "s \<in> set (auth_sessions a) \<and> As_id s = sid \<and> liveAt (CtxNow ctx) s"
  then obtain r where r: "List.find (\<lambda>s. As_id s = sid \<and> liveAt (CtxNow ctx) s) (auth_sessions a) = Some r"
    by (metis (mono_tags, lifting) find_None_iff_all option.exhaust)
  then have "r \<in> set (auth_sessions a)" "As_id r = As_id s" using find_Some_in s by fastforce+
  then have "r = s" using assms s by (simp add: distinct_map inj_on_def)
  then show "FindActive ctx a sid = Inr s" using r by (simp add: FindActive_def)
qed (rule FindActive_Inr)

lemma VerifyAccessToken_iff:
  assumes "distinct (map As_id (auth_sessions a))" and "distinct (map U_id (users a))"
  shows "VerifyAccessToken env ctx a raw = Inr c \<longleftrightarrow>
    (\<exists>c0 s u. parseAccess env ctx raw = Inr c0 \<and> ClSessionID c0 \<noteq> uuid_Nil
      \<and> s \<in> set (auth_sessions a) \<and> As_id s = ClSessionID c0 \<and> liveAt (CtxNow ctx) s
      \<and> u \<in> set (users a) \<and> U_id u = As_user_id s \<and> IsActiveUser u
      \<and> c = c0\<lparr>ClUserID := U_id u, ClRole := U_role u, ClOrgID := U_org_id u,
               ClSessionID := As_id s, ClActorUserID := As_actor_user_id s\<rparr>)"
proof
  assume "VerifyAccessToken env ctx a raw = Inr c"
  then obtain c0 s u where v: "parseAccess env ctx raw = Inr c0" "ClSessionID c0 \<noteq> uuid_Nil"
      "FindActive ctx a (ClSessionID c0) = Inr s" "FindUserByID a (As_user_id s) = Inr u" "IsActiveUser u"
      "c = c0\<lparr>ClUserID := U_id u, ClRole := U_role u, ClOrgID := U_org_id u,
               ClSessionID := As_id s, ClActorUserID := As_actor_user_id s\<rparr>"
    by (auto simp: VerifyAccessToken_def split: sum.splits if_splits)
  show "\<exists>c0 s u. parseAccess env ctx raw = Inr c0 \<and> ClSessionID c0 \<noteq> uuid_Nil
      \<and> s \<in> set (auth_sessions a) \<and> As_id s = ClSessionID c0 \<and> liveAt (CtxNow ctx) s
      \<and> u \<in> set (users a) \<and> U_id u = As_user_id s \<and> IsActiveUser u
      \<and> c = c0\<lparr>ClUserID := U_id u, ClRole := U_role u, ClOrgID := U_org_id u,
               ClSessionID := As_id s, ClActorUserID := As_actor_user_id s\<rparr>"
    using v FindActive_Inr [OF v(3)] FindUserByID_Inr [OF v(4)]
    by (intro exI [of _ c0] exI [of _ s] exI [of _ u]) simp
next
  assume "\<exists>c0 s u. parseAccess env ctx raw = Inr c0 \<and> ClSessionID c0 \<noteq> uuid_Nil
      \<and> s \<in> set (auth_sessions a) \<and> As_id s = ClSessionID c0 \<and> liveAt (CtxNow ctx) s
      \<and> u \<in> set (users a) \<and> U_id u = As_user_id s \<and> IsActiveUser u
      \<and> c = c0\<lparr>ClUserID := U_id u, ClRole := U_role u, ClOrgID := U_org_id u,
               ClSessionID := As_id s, ClActorUserID := As_actor_user_id s\<rparr>"
  then obtain c0 s u where v: "parseAccess env ctx raw = Inr c0" "ClSessionID c0 \<noteq> uuid_Nil"
      "s \<in> set (auth_sessions a) \<and> As_id s = ClSessionID c0 \<and> liveAt (CtxNow ctx) s"
      "u \<in> set (users a) \<and> U_id u = As_user_id s" "IsActiveUser u"
      "c = c0\<lparr>ClUserID := U_id u, ClRole := U_role u, ClOrgID := U_org_id u,
               ClSessionID := As_id s, ClActorUserID := As_actor_user_id s\<rparr>" by blast
  have "FindActive ctx a (ClSessionID c0) = Inr s" "FindUserByID a (As_user_id s) = Inr u"
    using FindActive_iff [OF assms(1)] FindUserByID_iff [OF assms(2)] v(3,4) by blast+
  then show "VerifyAccessToken env ctx a raw = Inr c" using v by (simp add: VerifyAccessToken_def)
qed

lemma users_ok_keeps:
  assumes "users_ok env a" and "UuidGen a' = UuidGen a" and "Drawn a \<le> Drawn a'" and "users a' = update_where P f (users a)"
    and "\<And>u. U_id (f u) = U_id u" and "\<And>u. U_email (f u) = U_email u" and "\<And>u. P u \<Longrightarrow> orgScope (U_role u) (U_org_id u) \<Longrightarrow> orgScope (U_role (f u)) (U_org_id (f u))"
  shows "users_ok env a'"
proof -
  have "map U_id (users a') = map U_id (users a)" "map (\<lambda>u. PgLower env (U_email u)) (users a') = map (\<lambda>u. PgLower env (U_email u)) (users a)"
    using assms(4-6) by (simp_all add: map_update_where)
  moreover from this have "U_id ` set (users a') = U_id ` set (users a)" by (metis list.set_map)
  moreover have "\<forall>u \<in> set (users a'). orgScope (U_role u) (U_org_id u) \<and> U_id u \<noteq> uuid_Nil"
    using assms(1,5,7) unfolding users_ok_def assms(4) set_update_where by auto
  ultimately show ?thesis using assms(1-3) unfolding users_ok_def by auto
qed

lemma users_ok_same:
  "users_ok env a \<Longrightarrow> UuidGen a' = UuidGen a \<Longrightarrow> Drawn a \<le> Drawn a' \<Longrightarrow> users a' = users a \<Longrightarrow> users_ok env a'"
  by (auto simp: users_ok_def)

text \<open>The expiry of a JWT is a NumericDate, in whole seconds.\<close>

definition wholeSeconds :: "gotime \<Rightarrow> gotime" where
  "wholeSeconds t = t div 1000000000 * 1000000000"

definition issuedClaims :: "env \<Rightarrow> ctx \<Rightarrow> uuid \<Rightarrow> string \<Rightarrow> uuid option \<Rightarrow> uuid \<Rightarrow> access_claims" where
  "issuedClaims env ctx uid role org sid =
     \<lparr>AcSubject = uuid_str uid, AcRole = role, AcOrgID = map_option uuid_str org, AcSID = uuid_str sid,
      AcIssuedAt = CtxNow ctx, AcExpiresAt = CtxNow ctx + AccessTTL env\<rparr>"

lemma uuid_str_ne [simp]: "uuid_str u \<noteq> []"
  by (simp add: uuid_str_def Let_def)

text \<open>C28. An access token is worth what the database says when it is used: a token issued for a session
  verifies at a later time exactly when it has not expired, the session is neither revoked nor
  expired, and the session's user is active. The identity is then the stored one (the user's role
  and organization of that moment and the impersonating admin of the session), whatever role and
  organization the token was issued with.\<close>

theorem issued_token_verifies:
  assumes jwt: "ParseToken env (CtxNow later) (SignToken env (issuedClaims env ctx uid role org sid))
      = (if CtxNow later < wholeSeconds (CtxNow ctx + AccessTTL env)
         then Some ((issuedClaims env ctx uid role org sid)\<lparr>AcIssuedAt := wholeSeconds (CtxNow ctx),
           AcExpiresAt := wholeSeconds (CtxNow ctx + AccessTTL env)\<rparr>) else None)"
    and ids: "\<forall>u \<in> {uid, sid} \<union> set_option org. ParseUUID env (uuid_str u) = Some u" and "sid \<noteq> uuid_Nil"
    and "sessions_ok t a" and "users_ok env a"
  shows "VerifyAccessToken env later a (IssueAccess env ctx uid role org sid) = Inr c \<longleftrightarrow>
    CtxNow later < wholeSeconds (CtxNow ctx + AccessTTL env)
    \<and> (\<exists>s \<in> set (auth_sessions a). As_id s = sid \<and> liveAt (CtxNow later) s
        \<and> (\<exists>u \<in> set (users a). U_id u = As_user_id s \<and> IsActiveUser u
          \<and> c = \<lparr>ClUserID = U_id u, ClRole = U_role u, ClOrgID = U_org_id u, ClSessionID = sid,
                 ClActorUserID = As_actor_user_id s\<rparr>))"
proof -
  have "parseAccess env later (IssueAccess env ctx uid role org sid)
      = (if CtxNow later < wholeSeconds (CtxNow ctx + AccessTTL env)
         then Inr \<lparr>ClUserID = uid, ClRole = role, ClOrgID = org, ClSessionID = sid, ClActorUserID = None\<rparr> else Inl ErrInvalidToken)"
    using jwt ids by (cases org) (auto simp: parseAccess_def IssueAccess_def issuedClaims_def)
  moreover have "distinct (map U_id (users a))" using assms(5) by (simp add: users_ok_def)
  ultimately show ?thesis
    using VerifyAccessToken_iff [OF sessions_ok_ids [OF assms(4)], of env later "IssueAccess env ctx uid role org sid" c] assms(3)
    by (auto split: if_splits)
qed

text \<open>C29. The identity of a request comes from a live session. During impersonation the request runs
  as the organizer, its attribution is the admin whose normal session opened it, every audit record
  that names the organizer or nobody is stored under that admin, and the platform surface is closed;
  in any other session the attribution is the user, and the platform surface opens for active super
  admins only.\<close>

theorem requests_act_as_their_session:
  assumes "sessions_ok t a" and "users_ok env a" and "AuthMiddleware env ctx a header = Some (i, ctx')"
  shows "\<exists>s \<in> set (auth_sessions a). \<exists>u \<in> set (users a). As_id s = IdSessionID i \<and> liveAt (CtxNow ctx) s
    \<and> U_id u = As_user_id s \<and> IsActiveUser u \<and> IdUserID i = U_id u \<and> IdRole i = U_role u
    \<and> (if IsImpersonation s
       then (\<exists>p \<in> set (auth_sessions a). As_parent s = Some (As_id p) \<and> As_kind p = ''normal'' \<and> As_user_id p \<noteq> U_id u
          \<and> CtxAttribution ctx' = Some \<lparr>Actor = As_user_id p, Effective = Some (U_id u), Session = Some (As_id s)\<rparr>
          \<and> (\<forall>e. EffectiveUserID e = None \<longrightarrow> ImpersonationSessionID e = None \<longrightarrow> ActorUserID e \<in> {uuid_Nil, U_id u} \<longrightarrow>
              A_actor (auditRow ctx' e) = Some (As_user_id p) \<and> A_effective (auditRow ctx' e) = Some (U_id u)
              \<and> A_session (auditRow ctx' e) = Some (As_id s))
          \<and> \<not> RequireSuperAdmin i)
       else CtxAttribution ctx' = Some \<lparr>Actor = U_id u, Effective = None, Session = None\<rparr>
          \<and> (RequireSuperAdmin i \<longleftrightarrow> U_role u = ''super_admin''))"
proof -
  have d: "distinct (map U_id (users a))" using assms(2) by (simp add: users_ok_def)
  obtain raw c where c: "VerifyAccessToken env ctx a raw = Inr c" "i = identityOf c"
      "ctx' = ctx\<lparr>CtxAttribution := Some (attributionOf i)\<rparr>"
    using assms(3) by (auto simp: AuthMiddleware_def split: if_splits option.splits sum.splits)
  obtain c0 s u where v: "s \<in> set (auth_sessions a)" "liveAt (CtxNow ctx) s" "u \<in> set (users a)" "U_id u = As_user_id s" "IsActiveUser u"
      "c = c0\<lparr>ClUserID := U_id u, ClRole := U_role u, ClOrgID := U_org_id u, ClSessionID := As_id s, ClActorUserID := As_actor_user_id s\<rparr>"
    using c(1) unfolding VerifyAccessToken_iff [OF sessions_ok_ids [OF assms(1)] d] by blast
  have i: "IdUserID i = U_id u" "IdRole i = U_role u" "IdSessionID i = As_id s"
    "IdActorUserID i = (case As_actor_user_id s of None \<Rightarrow> uuid_Nil | Some x \<Rightarrow> x)"
    using c(2) v(6) by (simp_all add: identityOf_def)
  have sh: "sessionShape s" "parentOk (auth_sessions a) s" and
    us: "\<forall>r \<in> set (auth_sessions a). As_user_id r \<in> U_id ` set (users a)"
    using assms(1) v(1) unfolding sessions_ok_def by blast+
  have nil: "\<forall>r \<in> set (auth_sessions a). As_user_id r \<noteq> uuid_Nil" using us assms(2) by (auto simp: users_ok_def)
  show ?thesis
  proof (cases "IsImpersonation s")
    case True
    then obtain p where p: "p \<in> set (auth_sessions a)" "As_parent s = Some (As_id p)" "As_kind p = ''normal''"
        "As_actor_user_id s = Some (As_user_id p)" "As_user_id p \<noteq> As_user_id s"
      using sh by (auto simp: sessionShape_def parentOk_def IsImpersonation_def)
    then have "IsImpersonating i" using i(4) nil by (simp add: IsImpersonating_def)
    then have at: "CtxAttribution ctx' = Some \<lparr>Actor = As_user_id p, Effective = Some (U_id u), Session = Some (As_id s)\<rparr>"
      using c(3) i p(4) by (simp add: attributionOf_def)
    have "A_actor (auditRow ctx' e) = Some (As_user_id p) \<and> A_effective (auditRow ctx' e) = Some (U_id u) \<and> A_session (auditRow ctx' e) = Some (As_id s)"
      if "EffectiveUserID e = None" "ImpersonationSessionID e = None" "ActorUserID e \<in> {uuid_Nil, U_id u}" for e
      using audit_attribution [OF that(1,2), of ctx'] at that(3) nil p(1) by (auto simp: actorOrNil_def)
    then show ?thesis using \<open>IsImpersonating i\<close> True v i p at by (intro bexI [of _ s] bexI [of _ u]) (auto simp: RequireSuperAdmin_def)
  next
    case False
    then have "As_actor_user_id s = None" using sh(1) by (auto simp: sessionShape_def IsImpersonation_def)
    then have "\<not> IsImpersonating i" using i(4) by (simp add: IsImpersonating_def)
    then show ?thesis using False v i c(3)
      by (intro bexI [of _ s] bexI [of _ u]) (auto simp: RequireSuperAdmin_def RequireRole_def attributionOf_def)
  qed
qed


subsection \<open>Refresh tokens work once\<close>

lemma find_As_hash:
  "hashes_distinct a \<Longrightarrow> s \<in> set (auth_sessions a) \<Longrightarrow> List.find (\<lambda>r. As_hash r = As_hash s) (auth_sessions a) = Some s"
  unfolding hashes_distinct_def by (rule find_by_key)

lemma Rotate_Inr:
  assumes "Rotate env ctx newRaw raw a = (Inr r, a')"
  shows "\<exists>s \<in> set (auth_sessions a). r = (s, newRaw) \<and> As_hash s = HashRefreshToken env raw \<and> liveAt (CtxNow ctx) s
    \<and> a' = a\<lparr>auth_sessions := update_where (\<lambda>x. As_id x = As_id s) (newHash ctx (HashRefreshToken env newRaw)) (auth_sessions a)\<rparr>"
proof -
  obtain s where s: "List.find (\<lambda>x. As_hash x = HashRefreshToken env raw) (auth_sessions a) = Some s"
    using assms by (cases "List.find (\<lambda>x. As_hash x = HashRefreshToken env raw) (auth_sessions a)")
      (auto simp: Rotate_def split: option.splits)
  then show ?thesis using assms find_Some_in [OF s]
    by (intro bexI [of _ s]) (auto simp: Rotate_def setHash_def liveAt_def split: if_splits prod.splits sum.splits)
qed

text \<open>C30. A refresh token works once. Exchanging it needs a live session and changes only that
  session, which the new token then names. If the spent token is presented next, at whatever time, it
  is refused and the session is revoked as reused, and so the token issued in exchange is refused too.\<close>

theorem refresh_token_single_use:
  assumes ok: "sessions_ok t a" and rot: "Rotate env ctx newRaw raw a = (Inr (sess, tok), a')"
    and new: "HashRefreshToken env newRaw \<noteq> HashRefreshToken env raw"
    and unused: "Some (HashRefreshToken env raw) \<notin> As_previous ` set (auth_sessions a)"
  shows "sess \<in> set (auth_sessions a) \<and> liveAt (CtxNow ctx) sess \<and> tok = newRaw
    \<and> auth_sessions a' = update_where (\<lambda>s. As_id s = As_id sess) (newHash ctx (HashRefreshToken env newRaw)) (auth_sessions a)
    \<and> users a' = users a
    \<and> FindByRefreshToken env a' newRaw = Inr (newHash ctx (HashRefreshToken env newRaw) sess)
    \<and> (let spent = Revoke replay (As_id sess) ''refresh_token_reuse'' a' in
        Rotate env replay n raw a' = (Inl ErrRefreshReused, spent)
      \<and> Rotate env later n' newRaw spent = (Inl ErrSessionNotFound, spent))"
proof -
  let ?h = "HashRefreshToken env newRaw"
  let ?ss = "update_where (\<lambda>x. As_id x = As_id sess) (newHash ctx ?h) (auth_sessions a)"
  have s: "sess \<in> set (auth_sessions a)" "As_hash sess = HashRefreshToken env raw" "liveAt (CtxNow ctx) sess" "tok = newRaw"
    "a' = a\<lparr>auth_sessions := ?ss\<rparr>" using Rotate_Inr [OF rot] by auto
  have d: "distinct (map As_id (auth_sessions a))" "hashes_distinct a" using ok by (simp_all add: sessions_ok_def)
  have ev: "evolves a a'" using evolves_Rotate [OF d(1) rot] by simp
  have d': "distinct (map As_id (auth_sessions a'))" "hashes_distinct a'"
    using sessions_ok_evolves [OF ok ev order_refl] by (simp_all add: sessions_ok_def)
  let ?s = "newHash ctx ?h sess"
  have in': "?s \<in> set (auth_sessions a')" using s(1,5) by (auto simp: set_update_where)
  have f1: "List.find (\<lambda>r. As_hash r = ?h) (auth_sessions a') = Some ?s"
    using find_As_hash [OF d'(2) in'] by simp
  have from_a: "x = ?s \<or> (x \<in> set (auth_sessions a) \<and> x \<noteq> sess)" if x: "x \<in> set (auth_sessions a')" for x
  proof -
    obtain y where y: "y \<in> set (auth_sessions a)" "x = (if As_id y = As_id sess then newHash ctx ?h y else y)"
      using x s(5) by (auto simp: set_update_where)
    then show ?thesis using session_by_id [OF ok y(1) s(1)] by (cases "As_id y = As_id sess") auto
  qed
  have "As_hash x \<noteq> HashRefreshToken env raw" if x: "x \<in> set (auth_sessions a')" for x
    using from_a [OF x] new find_As_hash [OF d(2), of x] find_As_hash [OF d(2) s(1)] s(2) by auto
  then have f2: "List.find (\<lambda>r. As_hash r = HashRefreshToken env raw) (auth_sessions a') = None"
    by (simp add: find_None_iff_all)
  have prev: "x = ?s" if x: "x \<in> set (auth_sessions a')" and p: "As_previous x = Some (HashRefreshToken env raw)" for x
    using from_a [OF x] p unused by (metis image_eqI)
  have s': "As_previous ?s = Some (HashRefreshToken env raw)" "As_revoked_at ?s = None" "As_id ?s = As_id sess"
    using s(2,3) by (simp_all add: newHash_def liveAt_def)
  have f3: "List.find (\<lambda>s. As_previous s = Some (HashRefreshToken env raw) \<and> As_revoked_at s = None) (auth_sessions a') = Some ?s"
    (is "?find = _")
  proof (cases ?find)
    case None
    then show ?thesis using in' s' by (auto simp: find_None_iff_all)
  next
    case (Some x)
    then show ?thesis using find_Some_in [OF Some] prev by auto
  qed
  let ?spent = "Revoke replay (As_id sess) ''refresh_token_reuse'' a'"
  have "update_where (\<lambda>s. As_id s = As_id sess) f (auth_sessions a') = update_where (\<lambda>s. As_id s = As_id sess \<and> As_revoked_at s = None) f (auth_sessions a')" for f
    unfolding update_where_def using d'(1) in' s'(2,3) by (intro map_cong refl) (metis (no_types, lifting) distinct_map inj_onD)
  then have replay: "Rotate env replay n raw a' = (Inl ErrRefreshReused, ?spent)"
    using f2 f3 s'(3) by (simp add: Rotate_def Let_def Revoke_def)
  let ?e = "endSession replay ''refresh_token_reuse'' ?s"
  have "?e \<in> set (auth_sessions ?spent)" "As_hash ?e = ?h"
    using in' s' by (auto simp: Revoke_def set_update_where endSession_def)
  moreover have "hashes_distinct ?spent" using evolves_Revoke d'(2) unfolding evolves_def by blast
  ultimately have "List.find (\<lambda>r. As_hash r = ?h) (auth_sessions ?spent) = Some ?e" using find_As_hash by metis
  then have "Rotate env later n' newRaw ?spent = (Inl ErrSessionNotFound, ?spent)"
    by (simp add: Rotate_def Let_def endSession_def)
  then show ?thesis using s f1 replay by (simp add: FindByRefreshToken_def Let_def)
qed


subsection \<open>An example\<close>

text \<open>Admin 1 has the normal session 11 and acts as organizer 2 of organization 9 in session 12.\<close>

definition exUser :: "uuid \<Rightarrow> string \<Rightarrow> string \<Rightarrow> uuid option \<Rightarrow> user_row" where
  "exUser uid email role org = \<lparr>U_id = uid, U_email = email, U_password_hash = None, U_name = email, U_role = role,
     U_org_id = org, U_status = ''active'', U_last_login_at = None, U_created_at = 0\<rparr>"

definition exSession :: "uuid \<Rightarrow> uuid \<Rightarrow> (uuid \<times> uuid) option \<Rightarrow> string \<Rightarrow> session_row" where
  "exSession sid uid via h = \<lparr>As_id = sid, As_user_id = uid, As_actor_user_id = map_option fst via, As_parent = map_option snd via,
     As_kind = (if via = None then ''normal'' else ''impersonation''), As_hash = h, As_previous = None, As_reason = None,
     As_ip_hash = None, As_ua_hash = None, As_created_at = 0, As_last_seen_at = None, As_expires_at = 1000,
     As_revoked_at = None, As_revoked_reason = None\<rparr>"

definition exAccounts :: accounts where
  "exAccounts = \<lparr>tournaments = [], events = [], participants = [], stages = [], groups = [], matches = [], match_participants = [],
     match_scores = [], venues = [], courts = [], schedule_slots = [], audit_logs = [], players = [], teams = [],
     UuidGen = (\<lambda>n. n + 100), Drawn = 0, Collation = length,
     organizations = [\<lparr>O_id = 9, O_name = ''Org'', O_slug = ''org'', O_status = ''active'', O_created_at = 0\<rparr>],
     users = [exUser 1 ''a@x.y'' ''super_admin'' None, exUser 2 ''b@x.y'' ''organizer'' (Some 9)],
     auth_sessions = [exSession 11 1 None ''h1'', exSession 12 2 (Some (1, 11)) ''h2''],
     invitations = [], otp_challenges = []\<rparr>"

definition exClaims :: access_claims where
  "exClaims = \<lparr>AcSubject = ''2'', AcRole = ''organizer'', AcOrgID = None, AcSID = ''12'', AcIssuedAt = 0, AcExpiresAt = 1000000000\<rparr>"

definition exEnv :: env where
  "exEnv = \<lparr>Lowercase = (\<lambda>s. s), PgLower = (\<lambda>s. s), PgLike = (\<lambda>_ _. True), Sha256Hex = (\<lambda>s. s), HmacHex = (\<lambda>k m. k @ m),
     PasswordMatches = (\<lambda>p h. p = h),
     ParseUUID = (\<lambda>s. if s = ''12'' \<or> s = uuid_str 12 then Some 12 else if s = ''2'' \<or> s = uuid_str 2 then Some 2 else Some 9),
     SignToken = (\<lambda>_. ''t''), ParseToken = (\<lambda>now _. if now < 1000000000 then Some exClaims else None),
     PasswordLoginEnabled = True, AccessTTL = 1000000000, RefreshTTL = 1000, Pepper = ''p''\<rparr>"

definition exCtx :: "gotime \<Rightarrow> ctx" where
  "exCtx now = \<lparr>CtxAttribution = None, CtxNow = now\<rparr>"

lemma exAccounts_ok: "sessions_ok 5 exAccounts" "users_ok exEnv exAccounts"
proof -
  have "length (liveImpersonations 5 actor exAccounts) \<le> 1" for actor
    by (simp add: liveImpersonations_def exAccounts_def exSession_def IsImpersonation_def)
  then show "sessions_ok 5 exAccounts"
    by (simp add: sessions_ok_def exAccounts_def hashes_distinct_def sessionShape_def exSession_def exUser_def parentOk_def inj_def)
  show "users_ok exEnv exAccounts"
    by (simp add: users_ok_def exAccounts_def exUser_def exEnv_def orgScope_def uuid_Nil_def inj_def)
qed

lemma last_uuid_str: "last (uuid_str u) = hex_digit (u mod 16)"
proof -
  have "[0..<32] = 0 # [1..<32::nat]" by (simp add: upt_rec)
  then have h: "hex_digits 32 u = rev (map (\<lambda>i. hex_digit (u div 16 ^ i mod 16)) [1..<32]) @ [hex_digit (u mod 16)]"
    by (simp add: hex_digits_def rev_map)
  have "drop 20 (hex_digits 32 u) \<noteq> []" by (simp add: hex_digits_def)
  then show ?thesis unfolding uuid_str_def Let_def by (simp add: h)
qed

lemma length_uuid_str: "length (uuid_str u) = 36"
  by (simp add: uuid_str_def Let_def hex_digits_def)

lemma uuid_str_not_short: "length s \<noteq> 36 \<Longrightarrow> uuid_str u \<noteq> s"
  using length_uuid_str [of u] by blast

lemma uuid_str_2_12: "uuid_str 2 \<noteq> uuid_str 12" "uuid_str 2 \<noteq> ''12''" "uuid_str 12 \<noteq> ''2''"
proof -
  have "hex_digit 2 \<noteq> hex_digit 12" by (simp add: hex_digit_def char_of_eq_iff)
  moreover have "last (uuid_str 2) = hex_digit 2" "last (uuid_str 12) = hex_digit 12"
    using last_uuid_str [of 2] last_uuid_str [of 12] by simp_all
  ultimately show "uuid_str 2 \<noteq> uuid_str 12" by (intro notI) (drule arg_cong [where f = last], simp)
qed (rule uuid_str_not_short, simp)+

theorem issued_token_verifies_witness:
  "VerifyAccessToken (exEnv\<lparr>ParseToken := \<lambda>now _. if now < 1000000000 then Some
        ((issuedClaims exEnv (exCtx 1) 2 ''super_admin'' None 12)\<lparr>AcIssuedAt := 0, AcExpiresAt := 1000000000\<rparr>) else None\<rparr>)
      (exCtx 5) exAccounts (IssueAccess exEnv (exCtx 1) 2 ''super_admin'' None 12)
    = Inr \<lparr>ClUserID = 2, ClRole = ''organizer'', ClOrgID = Some 9, ClSessionID = 12, ClActorUserID = Some 1\<rparr>"
proof -
  let ?c = "(issuedClaims exEnv (exCtx 1) 2 ''super_admin'' None 12)\<lparr>AcIssuedAt := 0, AcExpiresAt := 1000000000\<rparr>"
  let ?env = "exEnv\<lparr>ParseToken := \<lambda>now _. if now < 1000000000 then Some ?c else None\<rparr>"
  have w: "CtxNow (exCtx 1) = 1" "CtxNow (exCtx 5) = 5" "wholeSeconds 1 = 0" "wholeSeconds (1 + AccessTTL exEnv) = 1000000000"
    by (simp_all add: exCtx_def wholeSeconds_def exEnv_def)
  have same: "IssueAccess exEnv c u r g i = IssueAccess ?env c u r g i" "issuedClaims exEnv c u r g i = issuedClaims ?env c u r g i"
    for c u r g i by (simp_all add: IssueAccess_def issuedClaims_def exEnv_def)
  have parse: "ParseToken ?env n x = (if n < 1000000000 then Some ?c else None)" for n x by (simp add: exEnv_def)
  have ids: "\<forall>u \<in> {2, 12} \<union> set_option None. ParseUUID ?env (uuid_str u) = Some u"
    using uuid_str_2_12 by (simp add: exEnv_def)
  have "users_ok ?env exAccounts" using exAccounts_ok(2) by (simp add: users_ok_def exEnv_def)
  moreover have "exSession 12 2 (Some (1, 11)) ''h2'' \<in> set (auth_sessions exAccounts)"
    "exUser 2 ''b@x.y'' ''organizer'' (Some 9) \<in> set (users exAccounts)" by (simp_all add: exAccounts_def)
  ultimately show ?thesis
    unfolding same(1)
    by (intro issued_token_verifies [where t = 5, THEN iffD2])
      (use ids exAccounts_ok(1) in \<open>auto simp: w same(2) parse uuid_Nil_def exSession_def exUser_def liveAt_def IsActiveUser_def
        intro!: bexI [of _ "exSession 12 2 (Some (1, 11)) ''h2''"] bexI [of _ "exUser 2 ''b@x.y'' ''organizer'' (Some 9)"]\<close>)
qed

lemma lower_Bearer: "map lowerByte ''Bearer'' = ''bearer''"
  by (simp add: lowerByte_def char_of_eq_iff)

theorem requests_act_as_their_session_witness:
  "\<exists>i ctx'. AuthMiddleware exEnv (exCtx 5) exAccounts ''Bearer t'' = Some (i, ctx') \<and> IdUserID i = 2
    \<and> A_actor (auditRow ctx' (entry_zero\<lparr>ActorUserID := 2\<rparr>)) = Some 1 \<and> \<not> RequireSuperAdmin i"
proof -
  have "VerifyAccessToken exEnv (exCtx 5) exAccounts ''t''
      = Inr \<lparr>ClUserID = 2, ClRole = ''organizer'', ClOrgID = Some 9, ClSessionID = 12, ClActorUserID = Some 1\<rparr>"
    by (simp add: VerifyAccessToken_def parseAccess_def exEnv_def exCtx_def exClaims_def uuid_Nil_def FindActive_def
        exAccounts_def exSession_def exUser_def liveAt_def FindUserByID_def IsActiveUser_def)
  then obtain i ctx' where r: "AuthMiddleware exEnv (exCtx 5) exAccounts ''Bearer t'' = Some (i, ctx')" and i: "IdUserID i = 2" "IdSessionID i = 12"
    by (simp add: AuthMiddleware_def splitHeader_def identityOf_def lower_Bearer [simplified])
  have "s \<in> set (auth_sessions exAccounts) \<Longrightarrow> As_id s = 12 \<Longrightarrow> IsImpersonation s \<and> As_parent s = Some 11" for s
    by (auto simp: exAccounts_def exSession_def IsImpersonation_def)
  moreover have "p \<in> set (auth_sessions exAccounts) \<Longrightarrow> As_id p = 11 \<Longrightarrow> As_user_id p = 1" for p
    by (auto simp: exAccounts_def exSession_def)
  ultimately show ?thesis
    using requests_act_as_their_session [OF exAccounts_ok r] r i by (fastforce simp: entry_zero_def)
qed

theorem refresh_token_single_use_witness:
  "fst (Rotate exEnv (exCtx 9) ''h4'' ''h1'' (snd (Rotate exEnv (exCtx 5) ''h3'' ''h1'' exAccounts))) = Inl ErrRefreshReused"
proof -
  have "Rotate exEnv (exCtx 5) ''h3'' ''h1'' exAccounts
      = (Inr (exSession 11 1 None ''h1'', ''h3''), snd (Rotate exEnv (exCtx 5) ''h3'' ''h1'' exAccounts))"
    by (simp add: Rotate_def exAccounts_def exSession_def exEnv_def HashRefreshToken_def setHash_def exCtx_def Let_def image_iff) auto
  from refresh_token_single_use [OF exAccounts_ok(1) this, of "exCtx 9" "''h4''" "exCtx 9" "''h5''"]
  show ?thesis by (simp add: HashRefreshToken_def exEnv_def exAccounts_def exSession_def Let_def)
qed

end
