(* ===== verification/OtpFlow.thy ===== *)
theory OtpFlow
  imports Sessions "HOL-Library.AList"
begin

section \<open>One-time codes and the sign-in flow\<close>

text \<open>
  The in-process rate limiter (internal/auth/ratelimit.go), the one-time code challenges (otp.go) and
  the service that turns a code into a session (otp_service.go). A generated code and refresh token
  are arguments. \<open>sendOTP\<close> says whether the mail provider took the message. The bucket map of the
  limiter is an association list with one entry per key.
\<close>

subsection \<open>The rate limiter\<close>

record limiter =
  Buckets :: "(string \<times> gotime list) list"
  MaxKeys :: nat

definition NewLimiter :: limiter where
  "NewLimiter = \<lparr>Buckets = [], MaxKeys = 10000\<rparr>"

definition OTPPerEmailLimit :: nat where "OTPPerEmailLimit = 3"
definition OTPPerEmailWindow :: gotime where "OTPPerEmailWindow = minutes 10"
definition OTPPerIPLimit :: nat where "OTPPerIPLimit = 10"
definition OTPPerIPWindow :: gotime where "OTPPerIPWindow = minutes 60"

definition bucket :: "limiter \<Rightarrow> string \<Rightarrow> gotime list" where
  "bucket l key = (case map_of (Buckets l) key of None \<Rightarrow> [] | Some stamps \<Rightarrow> stamps)"

definition sweepLocked :: "gotime \<Rightarrow> limiter \<Rightarrow> limiter" where
  "sweepLocked now l = l\<lparr>Buckets := filter (\<lambda>(k, stamps). \<not> (stamps = [] \<or> last stamps < now - OTPPerIPWindow)) (Buckets l)\<rparr>"

definition makeRoom :: "gotime \<Rightarrow> limiter \<Rightarrow> limiter" where
  "makeRoom now l = (if length (Buckets l) > MaxKeys l then
     (let l = sweepLocked now l in if length (Buckets l) > MaxKeys l then l\<lparr>Buckets := []\<rparr> else l) else l)"

definition Allow :: "gotime \<Rightarrow> string \<Rightarrow> nat \<Rightarrow> gotime \<Rightarrow> limiter \<Rightarrow> bool \<times> limiter" where
  "Allow now key limit window l =
     (let l = makeRoom now l;
          kept = filter (\<lambda>t. now - window < t) (bucket l key)
      in (length kept < limit, l\<lparr>Buckets := AList.update key (kept @ [now]) (Buckets l)\<rparr>))"

definition RetryAfter :: "gotime \<Rightarrow> string \<Rightarrow> gotime \<Rightarrow> limiter \<Rightarrow> gotime" where
  "RetryAfter now key window l = (case bucket l key of
     [] \<Rightarrow> 0 | t # _ \<Rightarrow> if t + window - now > 0 then t + window - now else 0)"

definition ResetKey :: "string \<Rightarrow> limiter \<Rightarrow> limiter" where
  "ResetKey key l = l\<lparr>Buckets := AList.delete key (Buckets l)\<rparr>"

subsection \<open>Challenges\<close>

definition OTPTTL :: gotime where "OTPTTL = minutes 10"
definition OTPMaxAttempts :: int where "OTPMaxAttempts = 5"

text \<open>\<open>fmt.Sprintf("%06d", n)\<close> of the number drawn below a million.\<close>

definition codeText :: "nat \<Rightarrow> string" where
  "codeText n = map (\<lambda>i. char_of (48 + n div 10 ^ i mod 10)) (rev [0..<6])"

definition HashCode :: "env \<Rightarrow> string \<Rightarrow> string \<Rightarrow> string" where
  "HashCode env email code = HmacHex env (Pepper env) (NormalizeEmail env email @ '':'' @ code)"

definition VerifyCode :: "env \<Rightarrow> string \<Rightarrow> string \<Rightarrow> string \<Rightarrow> bool" where
  "VerifyCode env email code storedHash \<longleftrightarrow> HashCode env email code = storedHash"

record issue_params =
  IpEmail :: string
  IpPurpose :: string
  IpInvitationID :: "uuid option"
  IpIPHash :: "string option"
  IpUAHash :: "string option"

definition purposeOf :: "string \<Rightarrow> string" where
  "purposeOf p = (if p = [] then ''login'' else p)"

definition openChallenge :: "string \<Rightarrow> string \<Rightarrow> otp_row \<Rightarrow> bool" where
  "openChallenge email purpose c \<longleftrightarrow> Oc_email c = email \<and> Oc_purpose c = purpose
     \<and> Oc_consumed_at c = None \<and> Oc_invalidated_at c = None"

definition newChallenge :: "env \<Rightarrow> ctx \<Rightarrow> string \<Rightarrow> issue_params \<Rightarrow> uuid \<Rightarrow> otp_row" where
  "newChallenge env ctx code p cid = (let email = NormalizeEmail env (IpEmail p) in
     \<lparr>Oc_id = cid, Oc_email = email, Oc_purpose = purposeOf (IpPurpose p), Oc_code_hash = HashCode env email code,
      Oc_invitation_id = IpInvitationID p, Oc_attempts = 0, Oc_max_attempts = OTPMaxAttempts, Oc_created_at = CtxNow ctx,
      Oc_expires_at = CtxNow ctx + OTPTTL, Oc_consumed_at = None, Oc_invalidated_at = None, Oc_last_attempt_at = None,
      Oc_ip_hash = IpIPHash p, Oc_ua_hash = IpUAHash p\<rparr>)"

definition Issue :: "env \<Rightarrow> ctx \<Rightarrow> string \<Rightarrow> issue_params \<Rightarrow> accounts \<Rightarrow> (string \<times> otp_row) auth_result" where
  "Issue env ctx code p a =
     (let (cid, a') = gen_random_uuid a; ch = newChallenge env ctx code p cid
      in if \<not> optionIn (IpInvitationID p) (I_id ` set (invitations a)) then (Inl ErrAuthInternal, a)
         else (Inr (code, ch), a'\<lparr>otp_challenges :=
           update_where (openChallenge (NormalizeEmail env (IpEmail p)) (purposeOf (IpPurpose p)))
             (Oc_invalidated_at_update (\<lambda>_. Some (CtxNow ctx))) (otp_challenges a) @ [ch]\<rparr>))"

definition LockLive :: "env \<Rightarrow> accounts \<Rightarrow> string \<Rightarrow> string \<Rightarrow> auth_error + otp_row" where
  "LockLive env a email purpose =
     (case sort_key (\<lambda>c. - Oc_created_at c) (filter (openChallenge (NormalizeEmail env email) (purposeOf purpose)) (otp_challenges a)) of
        [] \<Rightarrow> Inl ErrOTPNotFound | c # _ \<Rightarrow> Inr c)"

definition CheckLive :: "ctx \<Rightarrow> otp_row \<Rightarrow> auth_error option" where
  "CheckLive ctx ch = (if \<not> Oc_expires_at ch > CtxNow ctx then Some ErrOTPExpired
     else if Oc_attempts ch \<ge> Oc_max_attempts ch then Some ErrOTPLocked else None)"

definition Consume :: "ctx \<Rightarrow> uuid \<Rightarrow> accounts \<Rightarrow> accounts" where
  "Consume ctx cid a = a\<lparr>otp_challenges := update_where (\<lambda>c. Oc_id c = cid)
     (\<lambda>c. c\<lparr>Oc_consumed_at := Some (CtxNow ctx), Oc_last_attempt_at := Some (CtxNow ctx)\<rparr>) (otp_challenges a)\<rparr>"

definition countFailure :: "ctx \<Rightarrow> otp_row \<Rightarrow> otp_row" where
  "countFailure ctx c = c\<lparr>Oc_attempts := Oc_attempts c + 1, Oc_last_attempt_at := Some (CtxNow ctx),
     Oc_invalidated_at := (if Oc_attempts c + 1 \<ge> Oc_max_attempts c then Some (CtxNow ctx) else Oc_invalidated_at c)\<rparr>"

definition RecordFailure :: "ctx \<Rightarrow> uuid \<Rightarrow> accounts \<Rightarrow> bool auth_result" where
  "RecordFailure ctx cid a = (case List.find (\<lambda>c. Oc_id c = cid) (otp_challenges a) of
     None \<Rightarrow> (Inl ErrAuthInternal, a)
   | Some c \<Rightarrow> (Inr (Oc_attempts c + 1 \<ge> Oc_max_attempts c),
       a\<lparr>otp_challenges := update_where (\<lambda>c. Oc_id c = cid) (countFailure ctx) (otp_challenges a)\<rparr>))"

definition failedGuess :: "bool \<Rightarrow> auth_error" where
  "failedGuess locked = (if locked then ErrOTPLocked else ErrOTPInvalid)"

definition VerifyOTP :: "env \<Rightarrow> ctx \<Rightarrow> string \<Rightarrow> string \<Rightarrow> string \<Rightarrow> accounts \<Rightarrow> otp_row auth_result" where
  "VerifyOTP env ctx email purpose code a = (case LockLive env a email purpose of
     Inl e \<Rightarrow> (Inl e, a)
   | Inr ch \<Rightarrow> (case CheckLive ctx ch of
       Some e \<Rightarrow> (Inl e, a)
     | None \<Rightarrow> if \<not> VerifyCode env email code (Oc_code_hash ch)
         then (case RecordFailure ctx (Oc_id ch) a of
             (Inl e, a) \<Rightarrow> (Inl e, a)
           | (Inr locked, a) \<Rightarrow> (Inl (failedGuess locked), a))
         else (Inr ch, Consume ctx (Oc_id ch) a)))"

subsection \<open>The sign-in service\<close>

definition hashForAudit :: "env \<Rightarrow> string \<Rightarrow> string option" where
  "hashForAudit env v = (if v = [] then None else Some (take 32 (Sha256Hex env v)))"

definition goIndex :: "string \<Rightarrow> char \<Rightarrow> int" where
  "goIndex s c = (if c \<in> set s then int (length (takeWhile (\<lambda>x. x \<noteq> c) s)) else -1)"

definition looksLikeEmail :: "string \<Rightarrow> bool" where
  "looksLikeEmail s = (let at = goIndex s (CHR ''@'') in
     if at \<le> 0 \<or> at = int (length s) - 1 \<or> length (filter (\<lambda>c. c = CHR ''@'') s) \<noteq> 1 then False
     else let domain = drop (nat (at + 1)) s in
       if CHR ''.'' \<notin> set domain \<or> hd domain = CHR ''.'' \<or> last domain = CHR ''.'' then False
       else \<not> (\<exists>c \<in> set s. (of_char c :: nat) \<in> {32, 9, 13, 10}))"

definition recordAuth :: "ctx \<Rightarrow> string \<Rightarrow> string \<Rightarrow> uuid option \<Rightarrow> accounts \<Rightarrow> accounts" where
  "recordAuth ctx action addr challengeID a = RecordTx ctx (entry_zero\<lparr>Action := action, TargetType := ''auth'',
     TargetID := (case challengeID of None \<Rightarrow> addr | Some c \<Rightarrow> uuid_str c),
     Diff := Some [(''email'', DStr addr)]\<rparr>) a"

record request_params =
  RqEmail :: string
  RqIP :: string
  RqUserAgent :: string

definition emailKey :: "string \<Rightarrow> string" where
  "emailKey addr = ''otp:email:'' @ addr"

definition ipKey :: "string \<Rightarrow> string" where
  "ipKey ip = ''otp:ip:'' @ ip"

text \<open>The two rate checks, in order; \<open>None\<close> when one denies.\<close>

definition rateCheck :: "ctx \<Rightarrow> string \<Rightarrow> string \<Rightarrow> limiter \<Rightarrow> bool \<times> limiter" where
  "rateCheck ctx addr ip l = (case Allow (CtxNow ctx) (emailKey addr) OTPPerEmailLimit OTPPerEmailWindow l of
     (ok, l) \<Rightarrow> if \<not> ok then (False, l)
       else if ip \<noteq> [] then Allow (CtxNow ctx) (ipKey ip) OTPPerIPLimit OTPPerIPWindow l else (True, l))"

definition RequestOTP ::
  "env \<Rightarrow> (string \<Rightarrow> string \<Rightarrow> bool) \<Rightarrow> ctx \<Rightarrow> string \<Rightarrow> request_params \<Rightarrow> limiter \<times> accounts \<Rightarrow> (auth_error option) \<times> limiter \<times> accounts" where
  "RequestOTP env sendOTP ctx code p st = (case st of (l, a) \<Rightarrow>
     let addr = NormalizeEmail env (RqEmail p)
     in if \<not> looksLikeEmail addr then (Some ErrInvalidEmail, l, a)
        else (case rateCheck ctx addr (RqIP p) l of
          (False, l) \<Rightarrow> (Some ErrRateLimited, l, recordAuth ctx ''auth.otp_rate_limited'' addr None a)
        | (True, l) \<Rightarrow> (case FindActiveByEmail env ctx a addr of
            Inl e \<Rightarrow> (Some e, l, recordAuth ctx ''auth.otp_request_rejected'' addr None a)
          | Inr i \<Rightarrow>
              if (\<exists>u. FindByEmail env a addr = Inr u \<and> \<not> IsActiveUser u)
              then (Some ErrAccountSuspended, l, recordAuth ctx ''auth.otp_request_rejected'' addr None a)
              else (case Issue env ctx code \<lparr>IpEmail = addr, IpPurpose = [], IpInvitationID = Some (I_id i),
                      IpIPHash = hashForAudit env (RqIP p), IpUAHash = hashForAudit env (RqUserAgent p)\<rparr> a of
                (Inl e, a) \<Rightarrow> (Some e, l, a)
              | (Inr (code, ch), a) \<Rightarrow>
                  if \<not> sendOTP addr code then (Some ErrDeliveryFailed, l, a)
                  else (None, l, recordAuth ctx ''auth.otp_requested'' addr (Some (Oc_id ch)) a)))))"

definition localPart :: "string \<Rightarrow> string" where
  "localPart name = (let at = goIndex name (CHR ''@'') in if at > 0 then take (nat at) name else name)"

definition invitedName :: "invite_row \<Rightarrow> string" where
  "invitedName i = (case I_display i of
     Some d \<Rightarrow> if d \<noteq> [] then localPart (trimSpace d) else localPart (I_email i)
   | None \<Rightarrow> localPart (I_email i))"

definition invitedUser :: "ctx \<Rightarrow> invite_row \<Rightarrow> uuid \<Rightarrow> user_row" where
  "invitedUser ctx i uid = \<lparr>U_id = uid, U_email = I_email i, U_password_hash = None, U_name = invitedName i, U_role = I_role i,
     U_org_id = I_org_id i, U_status = ''active'', U_last_login_at = None, U_created_at = CtxNow ctx\<rparr>"

text \<open>
  \<open>INSERT ... ON CONFLICT (lower(email)) DO NOTHING\<close>, then the row by its address. A row that
  violates a constraint is an error; PostgreSQL draws the id before it looks for the conflict.
\<close>

definition upsertFromInvitation :: "env \<Rightarrow> ctx \<Rightarrow> invite_row \<Rightarrow> accounts \<Rightarrow> user_row auth_result" where
  "upsertFromInvitation env ctx i a =
     (let (uid, a') = gen_random_uuid a;
          conflict = (\<exists>u \<in> set (users a). PgLower env (U_email u) = PgLower env (I_email i));
          a' = (if conflict then a' else a'\<lparr>users := users a @ [invitedUser ctx i uid]\<rparr>)
      in if \<not> orgScope (I_role i) (I_org_id i) \<or> (\<not> conflict \<and> \<not> optionIn (I_org_id i) (O_id ` set (organizations a)))
         then (Inl ErrAuthInternal, a)
         else (case List.find (\<lambda>u. PgLower env (U_email u) = I_email i) (users a') of
             None \<Rightarrow> (Inl ErrAuthInternal, a)
           | Some u \<Rightarrow> (Inr u, a')))"

definition acceptPending :: "ctx \<Rightarrow> invite_row \<Rightarrow> uuid \<Rightarrow> accounts \<Rightarrow> accounts" where
  "acceptPending ctx i uid a = (if I_status i = ''pending''
     then RecordTx ctx (entry_zero\<lparr>ActorUserID := uid, Action := ''invitation.accepted'', TargetType := ''invitation'',
            TargetID := uuid_str (I_id i)\<rparr>) (MarkAccepted ctx (I_id i) a)
     else a)"

text \<open>The transaction after the code has verified: all of it, or the error and nothing.\<close>

definition signInTx ::
  "env \<Rightarrow> ctx \<Rightarrow> string \<Rightarrow> string \<Rightarrow> string \<Rightarrow> otp_row \<Rightarrow> invite_row \<Rightarrow> accounts \<Rightarrow> (token_pair \<times> user_row) auth_result" where
  "signInTx env ctx raw ip ua ch i a =
     (case upsertFromInvitation env ctx i (Consume ctx (Oc_id ch) a) of
        (Inl e, _) \<Rightarrow> (Inl e, a)
      | (Inr user, a1) \<Rightarrow>
          if \<not> IsActiveUser user then (Inl ErrAccountSuspended, a)
          else (case CreateSession ctx \<lparr>CpUserID = U_id user, CpActorUserID = None, CpParentSessionID = None, CpKind = ''normal'',
                  CpRefreshHash = HashRefreshToken env raw, CpExpiresAt = CtxNow ctx + RefreshTTL env,
                  CpIPHash = hashForAudit env ip, CpUserAgentHash = hashForAudit env ua, CpReason = None\<rparr>
                  (acceptPending ctx i (U_id user) a1) of
              (Inl e, _) \<Rightarrow> (Inl e, a)
            | (Inr sess, a2) \<Rightarrow>
                (Inr (\<lparr>AccessToken = IssueAccess env ctx (U_id user) (U_role user) (U_org_id user) (As_id sess), RefreshToken = raw\<rparr>, user),
                 RecordTx ctx (entry_zero\<lparr>ActorUserID := U_id user, Action := ''auth.otp_verified'', TargetType := ''user'',
                   TargetID := uuid_str (U_id user)\<rparr>) (TouchLastLogin ctx (U_id user) a2))))"

text \<open>
  What happens while the challenge row is locked: either the flow ends, or the code is wrong and the
  lock is released with the failure still to be counted, or the transaction signs the user in.
\<close>

datatype guess = Ended auth_error accounts | WrongCode otp_row | SignedIn "(token_pair \<times> user_row) auth_result"

definition guessTx :: "env \<Rightarrow> ctx \<Rightarrow> string \<Rightarrow> string \<Rightarrow> string \<Rightarrow> string \<Rightarrow> string \<Rightarrow> accounts \<Rightarrow> guess" where
  "guessTx env ctx raw addr code ip ua a =
     (case FindActiveByEmail env ctx a addr of
        Inl e \<Rightarrow> Ended e a
      | Inr i \<Rightarrow> (case LockLive env a addr ''login'' of
          Inl e \<Rightarrow> Ended e a
        | Inr ch \<Rightarrow> (case CheckLive ctx ch of
            Some e \<Rightarrow> Ended e (if e = ErrOTPExpired then recordAuth ctx ''auth.otp_expired'' addr (Some (Oc_id ch)) a else a)
          | None \<Rightarrow> if \<not> VerifyCode env addr code (Oc_code_hash ch) then WrongCode ch
              else SignedIn (signInTx env ctx raw ip ua ch i a))))"

definition VerifyAndSignIn ::
  "env \<Rightarrow> ctx \<Rightarrow> string \<Rightarrow> string \<Rightarrow> string \<Rightarrow> string \<Rightarrow> string \<Rightarrow> limiter \<times> accounts
   \<Rightarrow> (auth_error + token_pair \<times> user_row) \<times> limiter \<times> accounts" where
  "VerifyAndSignIn env ctx raw emailAddr code ip ua st = (case st of (l, a) \<Rightarrow>
     let addr = NormalizeEmail env emailAddr
     in if \<not> looksLikeEmail addr then (Inl ErrInvalidEmail, l, a)
        else (case guessTx env ctx raw addr code ip ua a of
          Ended e a \<Rightarrow> (Inl e, l, a)
        | WrongCode ch \<Rightarrow> (case RecordFailure ctx (Oc_id ch) a of
            (Inl e, a) \<Rightarrow> (Inl e, l, a)
          | (Inr locked, a) \<Rightarrow> (Inl (failedGuess locked), l, recordAuth ctx ''auth.otp_failed'' addr (Some (Oc_id ch)) a))
        | SignedIn (Inl e, a) \<Rightarrow> (Inl e, l, a)
        | SignedIn (Inr r, a) \<Rightarrow> (Inr r, ResetKey (emailKey addr) l, a)))"


subsection \<open>The limiter counts attempts in a sliding window\<close>

text \<open>
  The abstract limiter keeps every attempt of every key. An attempt is allowed when fewer than the
  limit fall in the window that ends now.
\<close>

datatype limiter_op = AttemptOn string | ResetOf string

type_synonym attempt_log = "string \<Rightarrow> gotime list"

definition logAllow :: "gotime \<Rightarrow> string \<Rightarrow> nat \<Rightarrow> gotime \<Rightarrow> attempt_log \<Rightarrow> bool \<times> attempt_log" where
  "logAllow now key limit window log =
     (length (filter (\<lambda>t. now - window < t) (log key)) < limit, log(key := log key @ [now]))"

definition opLimiter :: "(string \<Rightarrow> nat) \<Rightarrow> (string \<Rightarrow> gotime) \<Rightarrow> gotime \<times> limiter_op \<Rightarrow> limiter \<Rightarrow> bool \<times> limiter" where
  "opLimiter lim win x l = (case x of (now, AttemptOn k) \<Rightarrow> Allow now k (lim k) (win k) l | (now, ResetOf k) \<Rightarrow> (True, ResetKey k l))"

definition opLog :: "(string \<Rightarrow> nat) \<Rightarrow> (string \<Rightarrow> gotime) \<Rightarrow> gotime \<times> limiter_op \<Rightarrow> attempt_log \<Rightarrow> bool \<times> attempt_log" where
  "opLog lim win x log = (case x of (now, AttemptOn k) \<Rightarrow> logAllow now k (lim k) (win k) log | (now, ResetOf k) \<Rightarrow> (True, log(k := [])))"

fun outcomes :: "('x \<Rightarrow> 's \<Rightarrow> bool \<times> 's) \<Rightarrow> 'x list \<Rightarrow> 's \<Rightarrow> bool list" where
  "outcomes f [] s = []"
| "outcomes f (x # xs) s = (case f x s of (b, s') \<Rightarrow> b # outcomes f xs s')"

text \<open>No overflow: whenever the table is over its size, a sweep brings it back.\<close>

fun fits :: "(string \<Rightarrow> nat) \<Rightarrow> (string \<Rightarrow> gotime) \<Rightarrow> (gotime \<times> limiter_op) list \<Rightarrow> limiter \<Rightarrow> bool" where
  "fits lim win [] l = True"
| "fits lim win (x # xs) l \<longleftrightarrow>
     (length (Buckets l) \<le> MaxKeys l \<or> length (Buckets (sweepLocked (fst x) l)) \<le> MaxKeys l)
     \<and> fits lim win xs (snd (opLimiter lim win x l))"

definition recent :: "(string \<Rightarrow> gotime) \<Rightarrow> gotime \<Rightarrow> string \<Rightarrow> gotime list \<Rightarrow> gotime list" where
  "recent win now k ts = filter (\<lambda>t. now - win k < t) ts"

definition simulates :: "(string \<Rightarrow> gotime) \<Rightarrow> gotime \<Rightarrow> limiter \<Rightarrow> attempt_log \<Rightarrow> bool" where
  "simulates win now l log \<longleftrightarrow> distinct (map fst (Buckets l))
     \<and> (\<forall>k. recent win now k (bucket l k) = recent win now k (log k))
     \<and> (\<forall>(k, ts) \<in> set (Buckets l). sorted ts \<and> (\<forall>t \<in> set ts. t \<le> now))"

lemma recent_mono:
  assumes "now \<le> now'" and "recent win now k ts = recent win now k us"
  shows "recent win now' k ts = recent win now' k us"
proof -
  have "recent win now' k xs = filter (\<lambda>t. now' - win k < t) (recent win now k xs)" for xs
    using assms(1) unfolding recent_def filter_filter by (intro filter_cong) auto
  then show ?thesis using assms(2) by metis
qed

lemma simulates_later:
  assumes "simulates win now l log" and "now \<le> now'"
  shows "simulates win now' l log"
  unfolding simulates_def
proof (intro conjI allI)
  show "distinct (map fst (Buckets l))" using assms(1) by (simp add: simulates_def)
  show "recent win now' k (bucket l k) = recent win now' k (log k)" for k
    using assms(1) by (intro recent_mono [OF assms(2)]) (simp add: simulates_def)
  show "\<forall>(k, ts) \<in> set (Buckets l). sorted ts \<and> (\<forall>t \<in> set ts. t \<le> now')"
    using assms by (fastforce simp: simulates_def)
qed

lemma bucket_sweep:
  assumes "distinct (map fst (Buckets l))"
  shows "bucket (sweepLocked now l) k = (if bucket l k = [] \<or> last (bucket l k) < now - OTPPerIPWindow then [] else bucket l k)"
proof -
  have "map_of (filter (\<lambda>(k, ts). P ts) xs) k = (case map_of xs k of None \<Rightarrow> None | Some ts \<Rightarrow> if P ts then Some ts else None)"
    if "distinct (map fst xs)" for P and xs :: "(string \<times> gotime list) list"
    using that by (induction xs) (auto split: option.splits simp: map_of_eq_None_iff rev_image_eqI)
  from this [OF assms] show ?thesis by (auto simp: bucket_def sweepLocked_def split: option.splits)
qed

lemma bucket_in: "bucket l k \<noteq> [] \<Longrightarrow> (k, bucket l k) \<in> set (Buckets l)"
  by (auto simp: bucket_def dest: map_of_SomeD split: option.splits)

lemma sorted_le_last: "sorted ts \<Longrightarrow> t \<in> set ts \<Longrightarrow> t \<le> last ts" for t :: gotime
  by (induction ts) auto

lemma simulates_sweep:
  assumes "simulates win now l log" and "\<And>k. win k \<le> OTPPerIPWindow"
  shows "simulates win now (sweepLocked now l) log"
proof -
  have d: "distinct (map fst (Buckets l))" and b: "\<forall>(k, ts) \<in> set (Buckets l). sorted ts \<and> (\<forall>t \<in> set ts. t \<le> now)"
    and r: "\<forall>k. recent win now k (bucket l k) = recent win now k (log k)" using assms(1) by (simp_all add: simulates_def)
  have "recent win now k (bucket (sweepLocked now l) k) = recent win now k (bucket l k)" for k
  proof (cases "bucket l k \<noteq> [] \<and> last (bucket l k) < now - OTPPerIPWindow")
    case True
    then have "sorted (bucket l k)" using b bucket_in by fastforce
    then have "\<not> now - win k < t" if "t \<in> set (bucket l k)" for t
      using sorted_le_last [OF _ that] True assms(2) [of k] by linarith
    then have "recent win now k (bucket l k) = []" by (simp add: recent_def filter_empty_conv)
    then show ?thesis using True bucket_sweep [OF d] by (simp add: recent_def)
  qed (use bucket_sweep [OF d] in auto)
  moreover have "distinct (map fst (Buckets (sweepLocked now l)))" using d by (simp add: sweepLocked_def distinct_map_filter)
  ultimately show ?thesis using b r by (auto simp: simulates_def sweepLocked_def)
qed

lemma bucket_update: "bucket (l\<lparr>Buckets := AList.update k ts (Buckets l)\<rparr>) k' = (if k' = k then ts else bucket l k')"
  by (simp add: bucket_def update_conv')

lemma simulates_room:
  assumes "simulates win now l log" and "\<And>k. win k \<le> OTPPerIPWindow"
    and "length (Buckets l) \<le> MaxKeys l \<or> length (Buckets (sweepLocked now l)) \<le> MaxKeys l"
  shows "simulates win now (makeRoom now l) log"
  using assms simulates_sweep [OF assms(1,2)]
  by (auto simp: makeRoom_def Let_def sweepLocked_def)

lemma Allow_simulates:
  assumes "simulates win now l log" and "\<And>k. win k \<le> OTPPerIPWindow"
    and "length (Buckets l) \<le> MaxKeys l \<or> length (Buckets (sweepLocked now l)) \<le> MaxKeys l"
    and "Allow now k (lim k) (win k) l = (b, l')"
  shows "\<exists>log'. logAllow now k (lim k) (win k) log = (b, log') \<and> simulates win now l' log'"
proof -
  let ?l = "makeRoom now l"
  let ?kept = "recent win now k (bucket ?l k)"
  have s: "simulates win now ?l log" by (rule simulates_room [OF assms(1,2,3)])
  then have r: "?kept = recent win now k (log k)" by (simp add: simulates_def)
  have l': "b = (length ?kept < lim k)" "l' = ?l\<lparr>Buckets := AList.update k (?kept @ [now]) (Buckets ?l)\<rparr>"
    using assms(4) by (simp_all add: Allow_def recent_def Let_def)
  have "recent win now k (?kept @ [now]) = recent win now k (log k @ [now])" using r by (simp add: recent_def)
  then have "\<forall>k'. recent win now k' (bucket l' k') = recent win now k' ((log(k := log k @ [now])) k')"
    using s by (simp add: l'(2) bucket_update simulates_def)
  moreover have "distinct (map fst (Buckets l'))" using s by (simp add: l'(2) simulates_def distinct_update)
  moreover have "sorted ts \<and> (\<forall>t \<in> set ts. t \<le> now)" if x: "(k', ts) \<in> set (Buckets l')" for k' ts
  proof -
    have "map_of (Buckets l') k' = Some ts" using x \<open>distinct (map fst (Buckets l'))\<close> by simp
    then have "ts = ?kept @ [now] \<or> map_of (Buckets ?l) k' = Some ts"
      by (auto simp: l'(2) update_conv' split: if_splits)
    moreover have "sorted (bucket ?l k) \<and> (\<forall>t \<in> set (bucket ?l k). t \<le> now)"
      using s bucket_in [of ?l k] unfolding simulates_def by (cases "bucket ?l k = []") auto
    then have "sorted (?kept @ [now]) \<and> (\<forall>t \<in> set (?kept @ [now]). t \<le> now)"
      by (auto simp: recent_def sorted_append sorted_wrt_filter)
    moreover have "sorted ts \<and> (\<forall>t \<in> set ts. t \<le> now)" if "map_of (Buckets ?l) k' = Some ts"
      using s map_of_SomeD [OF that] unfolding simulates_def by blast
    ultimately show ?thesis by metis
  qed
  ultimately have "simulates win now l' (log(k := log k @ [now]))" unfolding simulates_def by blast
  then show ?thesis using l'(1) r by (simp add: logAllow_def recent_def)
qed


lemma ResetKey_simulates:
  assumes "simulates win now l log"
  shows "simulates win now (ResetKey k l) (log(k := []))"
proof -
  have "bucket (ResetKey k l) k' = (if k' = k then [] else bucket l k')" for k'
    by (simp add: bucket_def ResetKey_def delete_conv')
  moreover have "set (Buckets (ResetKey k l)) \<subseteq> set (Buckets l)" by (auto simp: ResetKey_def AList.delete_eq)
  moreover have "distinct (map fst (Buckets (ResetKey k l)))"
    using assms by (simp add: simulates_def ResetKey_def distinct_delete)
  moreover have "\<forall>(k, ts) \<in> set (Buckets l). sorted ts \<and> (\<forall>t \<in> set ts. t \<le> now)" using assms by (simp add: simulates_def)
  ultimately have "\<forall>(k, ts) \<in> set (Buckets (ResetKey k l)). sorted ts \<and> (\<forall>t \<in> set ts. t \<le> now)" by blast
  then show ?thesis using assms \<open>distinct (map fst (Buckets (ResetKey k l)))\<close>
      \<open>\<And>k'. bucket (ResetKey k l) k' = (if k' = k then [] else bucket l k')\<close> by (simp add: simulates_def)
qed

lemma opLimiter_simulates:
  assumes "simulates win now l log" and "now \<le> fst x" and "\<And>k. win k \<le> OTPPerIPWindow"
    and "length (Buckets l) \<le> MaxKeys l \<or> length (Buckets (sweepLocked (fst x) l)) \<le> MaxKeys l"
    and "opLimiter lim win x l = (b, l')"
  shows "\<exists>log'. opLog lim win x log = (b, log') \<and> simulates win (fst x) l' log'"
proof -
  have s: "simulates win (fst x) l log" by (rule simulates_later [OF assms(1,2)])
  obtain t y where x: "x = (t, y)" by (cases x)
  show ?thesis
  proof (cases y)
    case (AttemptOn k)
    then show ?thesis
      using Allow_simulates [OF s assms(3), of k lim b l'] assms(4,5) x by (auto simp: opLimiter_def opLog_def)
  next
    case (ResetOf k)
    then show ?thesis using ResetKey_simulates [OF s, of k] assms(5) x by (auto simp: opLimiter_def opLog_def)
  qed
qed

lemma outcomes_simulates:
  assumes "simulates win now l log" and "sorted (now # map fst xs)" and "\<And>k. win k \<le> OTPPerIPWindow" and "fits lim win xs l"
  shows "outcomes (opLimiter lim win) xs l = outcomes (opLog lim win) xs log"
  using assms(1,2,4)
proof (induction xs arbitrary: now l log)
  case (Cons x xs)
  obtain b l' where l': "opLimiter lim win x l = (b, l')" by (cases "opLimiter lim win x l")
  have "length (Buckets l) \<le> MaxKeys l \<or> length (Buckets (sweepLocked (fst x) l)) \<le> MaxKeys l" using Cons.prems(3) by simp
  then obtain log' where "opLog lim win x log = (b, log')" "simulates win (fst x) l' log'"
    using opLimiter_simulates [OF Cons.prems(1) _ assms(3) _ l'] Cons.prems(2) by auto
  then show ?case using Cons l' by simp
qed simp

text \<open>C31. The limiter enforces its windows: on any sequence of attempts and resets in time order, with
  windows of at most an hour, it gives the answers of the abstract limiter that keeps every attempt
  for ever and allows one when fewer than the limit fall in the window, although it stores only
  recent attempts, sweeps idle keys, and lets denied attempts count. The only condition is that
  the sweep keeps the table within its size, since otherwise every counter is dropped.\<close>

theorem limiter_counts_window:
  assumes "sorted (map fst xs)" and "\<And>k. win k \<le> OTPPerIPWindow" and "fits lim win xs NewLimiter"
  shows "outcomes (opLimiter lim win) xs NewLimiter = outcomes (opLog lim win) xs (\<lambda>_. [])"
proof (cases xs)
  case (Cons x ys)
  have "simulates win (fst x) NewLimiter (\<lambda>_. [])"
    by (simp add: simulates_def NewLimiter_def bucket_def recent_def)
  then show ?thesis using outcomes_simulates [of win "fst x" NewLimiter _ xs lim] assms Cons by simp
qed simp

theorem limiter_counts_window_witness:
  "outcomes (opLimiter (\<lambda>_. 1) (\<lambda>_. 10)) [(0, AttemptOn ''a''), (5, AttemptOn ''a''), (14, AttemptOn ''a''), (24, AttemptOn ''a''), (25, ResetOf ''a''), (26, AttemptOn ''a'')] NewLimiter
   = [True, False, False, True, True, True]"
  by (subst limiter_counts_window)
    (simp_all add: OTPPerIPWindow_def minutes_def NewLimiter_def opLimiter_def Allow_def makeRoom_def ResetKey_def
      opLog_def logAllow_def Let_def bucket_def)


subsection \<open>The stored challenges\<close>

text \<open>At most one challenge per address and purpose is open, and an open one has attempts left.\<close>

definition otp_ok :: "accounts \<Rightarrow> bool" where
  "otp_ok a \<longleftrightarrow> inj (UuidGen a) \<and> (\<forall>n \<ge> Drawn a. UuidGen a n \<notin> Oc_id ` set (otp_challenges a))
     \<and> distinct (map Oc_id (otp_challenges a))
     \<and> (\<forall>email purpose. length (filter (openChallenge email purpose) (otp_challenges a)) \<le> 1)
     \<and> (\<forall>c \<in> set (otp_challenges a). Oc_max_attempts c = OTPMaxAttempts \<and> 0 \<le> Oc_attempts c
          \<and> (Oc_invalidated_at c = None \<longrightarrow> Oc_attempts c < OTPMaxAttempts))"

text \<open>A challenge that was consumed or invalidated stays so, and its counter never falls.\<close>

definition otpKeeps :: "otp_row \<Rightarrow> otp_row \<Rightarrow> bool" where
  "otpKeeps c c' \<longleftrightarrow> Oc_id c' = Oc_id c \<and> Oc_email c' = Oc_email c \<and> Oc_purpose c' = Oc_purpose c
     \<and> Oc_code_hash c' = Oc_code_hash c \<and> Oc_max_attempts c' = Oc_max_attempts c \<and> Oc_attempts c \<le> Oc_attempts c'
     \<and> (Oc_consumed_at c \<noteq> None \<longrightarrow> Oc_consumed_at c' \<noteq> None)
     \<and> (Oc_invalidated_at c \<noteq> None \<longrightarrow> Oc_invalidated_at c' \<noteq> None)"

definition otpEvolves :: "accounts \<Rightarrow> accounts \<Rightarrow> bool" where
  "otpEvolves a a' \<longleftrightarrow> UuidGen a' = UuidGen a \<and> Drawn a \<le> Drawn a' \<and> list_all2 otpKeeps (otp_challenges a) (otp_challenges a')
     \<and> (\<forall>c \<in> set (otp_challenges a'). Oc_invalidated_at c = None \<longrightarrow> c \<in> set (otp_challenges a) \<or> Oc_attempts c < Oc_max_attempts c)"

lemma otpKeeps_refl [simp]: "otpKeeps c c"
  by (simp add: otpKeeps_def)

lemma otpEvolves_same:
  "UuidGen a' = UuidGen a \<Longrightarrow> Drawn a \<le> Drawn a' \<Longrightarrow> otp_challenges a' = otp_challenges a \<Longrightarrow> otpEvolves a a'"
  by (simp add: otpEvolves_def list_all2_refl)

lemma otpKeeps_open: "otpKeeps c c' \<Longrightarrow> openChallenge e p c' \<Longrightarrow> openChallenge e p c"
  by (auto simp: otpKeeps_def openChallenge_def)

lemma otpKeeps_ids: "list_all2 otpKeeps xs ys \<Longrightarrow> map Oc_id ys = map Oc_id xs"
  by (induction rule: list_all2_induct) (auto simp: otpKeeps_def)

lemma otpKeeps_back:
  assumes "list_all2 otpKeeps xs ys" and "y \<in> set ys"
  obtains x where "x \<in> set xs" and "otpKeeps x y"
  using assms by (induction rule: list_all2_induct) auto

lemma otp_ok_evolves:
  assumes "otp_ok a" and "otpEvolves a a'"
  shows "otp_ok a'"
proof -
  have k: "list_all2 otpKeeps (otp_challenges a) (otp_challenges a')" and e: "UuidGen a' = UuidGen a" "Drawn a \<le> Drawn a'"
    and new: "\<forall>c \<in> set (otp_challenges a'). Oc_invalidated_at c = None \<longrightarrow> c \<in> set (otp_challenges a) \<or> Oc_attempts c < Oc_max_attempts c"
    using assms(2) by (simp_all add: otpEvolves_def)
  have i: "map Oc_id (otp_challenges a') = map Oc_id (otp_challenges a)" by (rule otpKeeps_ids [OF k])
  then have "Oc_id ` set (otp_challenges a') = Oc_id ` set (otp_challenges a)" by (metis list.set_map)
  moreover have "length (filter (openChallenge em pu) (otp_challenges a')) \<le> 1" for em pu
  proof -
    have "length (filter (openChallenge em pu) (otp_challenges a')) \<le> length (filter (openChallenge em pu) (otp_challenges a))"
      by (rule list_all2_filter_le [OF k]) (rule otpKeeps_open)
    then show ?thesis using assms(1) unfolding otp_ok_def by (meson le_trans)
  qed
  moreover have "Oc_max_attempts c = OTPMaxAttempts \<and> 0 \<le> Oc_attempts c \<and> (Oc_invalidated_at c = None \<longrightarrow> Oc_attempts c < OTPMaxAttempts)"
    if c: "c \<in> set (otp_challenges a')" for c
  proof -
    obtain b where b: "b \<in> set (otp_challenges a)" "otpKeeps b c" using otpKeeps_back [OF k c] .
    then have "Oc_max_attempts b = OTPMaxAttempts" "0 \<le> Oc_attempts b" using assms(1) unfolding otp_ok_def by blast+
    then have "Oc_max_attempts c = OTPMaxAttempts" "0 \<le> Oc_attempts c" using b(2) by (auto simp: otpKeeps_def)
    then show ?thesis using new c assms(1) unfolding otp_ok_def by metis
  qed
  ultimately show ?thesis using assms(1) e i unfolding otp_ok_def by auto
qed

lemma otpEvolves_update:
  assumes "\<And>c. otpKeeps c (f c)" and "\<And>c. Oc_invalidated_at (f c) = None \<Longrightarrow> c \<in> set (otp_challenges a) \<Longrightarrow> P c
      \<Longrightarrow> Oc_attempts (f c) < Oc_max_attempts (f c)"
  shows "otpEvolves a (a\<lparr>otp_challenges := update_where P f (otp_challenges a)\<rparr>)"
  using assms by (auto simp: otpEvolves_def set_update_where intro!: list_all2_update_where)

lemma otpEvolves_RecordFailure: "otpEvolves a (snd (RecordFailure ctx cid a))"
proof -
  have "otpEvolves a (a\<lparr>otp_challenges := update_where P (countFailure ctx) (otp_challenges a)\<rparr>)" for P
    by (rule otpEvolves_update) (auto simp: otpKeeps_def countFailure_def split: if_splits)
  then show ?thesis by (auto simp: RecordFailure_def otpEvolves_same split: option.split)
qed

lemma otpEvolves_Consume: "otp_ok a \<Longrightarrow> otpEvolves a (Consume ctx cid a)"
  unfolding Consume_def by (rule otpEvolves_update) (auto simp: otpKeeps_def otp_ok_def)

lemma otpEvolves_trans:
  assumes "otpEvolves a b" and "otpEvolves b c"
  shows "otpEvolves a c"
proof -
  have t: "otpKeeps x z" if "otpKeeps x y" "otpKeeps y z" for x y z using that by (auto simp: otpKeeps_def)
  have "list_all2 otpKeeps (otp_challenges a) (otp_challenges c)"
    using assms by (auto simp: otpEvolves_def intro: list_all2_trans [of otpKeeps otpKeeps otpKeeps, OF t])
  then show ?thesis using assms unfolding otpEvolves_def by auto
qed

lemma Issue_ok:
  assumes "otp_ok a"
  shows "otp_ok (snd (Issue env ctx code p a))"
proof -
  let ?e = "NormalizeEmail env (IpEmail p)" and ?p = "purposeOf (IpPurpose p)"
  let ?ch = "newChallenge env ctx code p (UuidGen a (Drawn a))"
  let ?f = "Oc_invalidated_at_update (\<lambda>_. Some (CtxNow ctx))"
  let ?old = "a\<lparr>otp_challenges := update_where (openChallenge ?e ?p) ?f (otp_challenges a)\<rparr>"
  let ?new = "a\<lparr>Drawn := Suc (Drawn a), otp_challenges := otp_challenges ?old @ [?ch]\<rparr>"
  have "otpEvolves a ?old" by (rule otpEvolves_update) (auto simp: otpKeeps_def)
  then have old: "otp_ok ?old" by (rule otp_ok_evolves [OF assms])
  have ch: "Oc_id ?ch = UuidGen a (Drawn a)" "Oc_email ?ch = ?e" "Oc_purpose ?ch = ?p" "Oc_attempts ?ch = 0"
    "Oc_max_attempts ?ch = OTPMaxAttempts" by (simp_all add: newChallenge_def Let_def)
  have "UuidGen a n \<noteq> UuidGen a (Drawn a)" if "Suc (Drawn a) \<le> n" for n
    using assms that unfolding otp_ok_def by (metis inj_eq not_less_eq_eq order_refl)
  then have fresh: "\<forall>n \<ge> Drawn ?new. UuidGen ?new n \<notin> Oc_id ` set (otp_challenges ?new)"
    using old ch(1) unfolding otp_ok_def by auto
  have "filter (openChallenge ?e ?p) (otp_challenges ?old) = []"
    by (auto simp: filter_empty_conv set_update_where openChallenge_def)
  then have "length (filter (openChallenge em pu) (otp_challenges ?new)) \<le> 1" for em pu
    using old ch(2,3) unfolding otp_ok_def
    by (cases "em = ?e \<and> pu = ?p") (auto simp: openChallenge_def [of em pu ?ch])
  then have "otp_ok ?new" using old fresh ch unfolding otp_ok_def by (auto simp: OTPMaxAttempts_def)
  then show ?thesis using assms by (auto simp: Issue_def gen_random_uuid_def Let_def)
qed


subsection \<open>Signing in\<close>

lemma LockLive_Inr:
  assumes "LockLive env a email purpose = Inr ch"
  shows "ch \<in> set (otp_challenges a) \<and> openChallenge (NormalizeEmail env email) (purposeOf purpose) ch"
proof -
  obtain cs where cs: "sort_key (\<lambda>c. - Oc_created_at c) (filter (openChallenge (NormalizeEmail env email) (purposeOf purpose)) (otp_challenges a)) = ch # cs"
    using assms by (auto simp: LockLive_def split: list.splits)
  have "ch \<in> set (sort_key (\<lambda>c. - Oc_created_at c) (filter (openChallenge (NormalizeEmail env email) (purposeOf purpose)) (otp_challenges a)))"
    unfolding cs by simp
  then show ?thesis by simp
qed

lemma LockLive_none:
  assumes "\<And>c. c \<in> set (otp_challenges a) \<Longrightarrow> \<not> openChallenge (NormalizeEmail env email) (purposeOf purpose) c"
  shows "LockLive env a email purpose = Inl ErrOTPNotFound"
  using assms by (simp add: LockLive_def filter_empty_conv [THEN iffD2])

lemma CheckLive_None: "CheckLive ctx ch = None \<longleftrightarrow> CtxNow ctx < Oc_expires_at ch \<and> Oc_attempts ch < Oc_max_attempts ch"
  by (auto simp: CheckLive_def)

lemma FindActiveByEmail_Inr:
  "FindActiveByEmail env ctx a email = Inr i \<Longrightarrow> i \<in> set (invitations a) \<and> I_email i = NormalizeEmail env email \<and> IsActiveInvitation ctx i"
  by (auto simp: FindActiveByEmail_def dest: find_Some_in split: option.splits if_splits)

lemma upsertFromInvitation_Inr:
  assumes "upsertFromInvitation env ctx i a = (Inr u, a')"
  shows "orgScope (I_role i) (I_org_id i) \<and> PgLower env (U_email u) = I_email i \<and> u \<in> set (users a')
    \<and> (a' = a\<lparr>Drawn := Suc (Drawn a)\<rparr>
      \<or> ((\<forall>u \<in> set (users a). PgLower env (U_email u) \<noteq> PgLower env (I_email i))
         \<and> a' = a\<lparr>Drawn := Suc (Drawn a), users := users a @ [invitedUser ctx i (UuidGen a (Drawn a))]\<rparr>))"
  using assms find_Some_in
  by (fastforce simp: upsertFromInvitation_def gen_random_uuid_def Let_def split: if_splits option.splits)

lemma upsertFromInvitation_Inl: "upsertFromInvitation env ctx i a = (Inl e, a') \<Longrightarrow> a' = a"
  by (auto simp: upsertFromInvitation_def gen_random_uuid_def Let_def split: if_splits option.splits)

text \<open>The tables after a sign-in.\<close>

lemma signInTx_Inr:
  assumes "signInTx env ctx raw ip ua ch i a = (Inr (pair, u), a')"
  obtains a1 s where "upsertFromInvitation env ctx i (Consume ctx (Oc_id ch) a) = (Inr u, a1)" and "IsActiveUser u"
    and "s = newSession ctx \<lparr>CpUserID = U_id u, CpActorUserID = None, CpParentSessionID = None, CpKind = ''normal'',
                  CpRefreshHash = HashRefreshToken env raw, CpExpiresAt = CtxNow ctx + RefreshTTL env,
                  CpIPHash = hashForAudit env ip, CpUserAgentHash = hashForAudit env ua, CpReason = None\<rparr> (UuidGen a (Drawn a1))"
    and "HashRefreshToken env raw \<notin> As_hash ` set (auth_sessions a)"
    and "auth_sessions a' = auth_sessions a @ [s]" and "otp_challenges a' = otp_challenges (Consume ctx (Oc_id ch) a)"
    and "users a' = users (TouchLastLogin ctx (U_id u) a1)"
    and "invitations a' = (if I_status i = ''pending'' then invitations (MarkAccepted ctx (I_id i) a) else invitations a)"
    and "UuidGen a' = UuidGen a" and "Drawn a' = Suc (Drawn a1)"
proof -
  let ?p = "\<lparr>CpUserID = U_id u, CpActorUserID = None, CpParentSessionID = None, CpKind = ''normal'',
                  CpRefreshHash = HashRefreshToken env raw, CpExpiresAt = CtxNow ctx + RefreshTTL env,
                  CpIPHash = hashForAudit env ip, CpUserAgentHash = hashForAudit env ua, CpReason = None\<rparr>"
  obtain a1 where a1: "upsertFromInvitation env ctx i (Consume ctx (Oc_id ch) a) = (Inr u, a1)" "IsActiveUser u"
    using assms by (auto simp: signInTx_def split: prod.splits sum.splits if_splits)
  let ?a2 = "acceptPending ctx i (U_id u) a1"
  have a2: "UuidGen ?a2 = UuidGen a1" "Drawn ?a2 = Drawn a1" "auth_sessions ?a2 = auth_sessions a1" "users ?a2 = users a1"
    "otp_challenges ?a2 = otp_challenges a1" "invitations ?a2 = (if I_status i = ''pending'' then invitations (MarkAccepted ctx (I_id i) a1) else invitations a1)"
    by (simp_all add: acceptPending_def RecordTx_def MarkAccepted_def)
  have u: "UuidGen a1 = UuidGen a" "auth_sessions a1 = auth_sessions a" "otp_challenges a1 = otp_challenges (Consume ctx (Oc_id ch) a)"
    "invitations a1 = invitations a"
    using upsertFromInvitation_Inr [OF a1(1)] by (auto simp: Consume_def)
  from CreateSession_cases [of ctx ?p ?a2] show ?thesis
  proof (elim disjE exE conjE)
    assume "CreateSession ctx ?p ?a2 = (Inl ErrAuthInternal, ?a2)"
    then show ?thesis using assms a1 by (simp add: signInTx_def)
  next
    fix s assume s: "s = newSession ctx ?p (UuidGen ?a2 (Drawn ?a2))" "CpRefreshHash ?p \<notin> As_hash ` set (auth_sessions ?a2)"
      "CreateSession ctx ?p ?a2 = (Inr s, ?a2\<lparr>Drawn := Suc (Drawn ?a2), auth_sessions := auth_sessions ?a2 @ [s]\<rparr>)"
    then have "\<exists>e. a' = RecordTx ctx e (TouchLastLogin ctx (U_id u) (?a2\<lparr>Drawn := Suc (Drawn ?a2), auth_sessions := auth_sessions ?a2 @ [s]\<rparr>))"
      using assms a1 by (auto simp: signInTx_def)
    then show ?thesis using s a2 u a1
      by (intro that [of a1 s]) (auto simp: RecordTx_def TouchLastLogin_def MarkAccepted_def)
  qed
qed

lemma signInTx_Inl: "signInTx env ctx raw ip ua ch i a = (Inl e, a') \<Longrightarrow> a' = a"
  by (auto simp: signInTx_def split: prod.splits sum.splits if_splits)

lemma VerifyAndSignIn_Inr:
  assumes "VerifyAndSignIn env ctx raw email code ip ua (l, a) = (Inr (pair, u), l', a')" and "addr = NormalizeEmail env email"
  obtains i ch where "looksLikeEmail addr" and "FindActiveByEmail env ctx a addr = Inr i" and "LockLive env a addr ''login'' = Inr ch"
    and "CheckLive ctx ch = None" and "VerifyCode env addr code (Oc_code_hash ch)"
    and "signInTx env ctx raw ip ua ch i a = (Inr (pair, u), a')" and "l' = ResetKey (emailKey addr) l"
  using assms by (auto simp: VerifyAndSignIn_def guessTx_def Let_def split: if_splits guess.splits sum.splits option.splits prod.splits)

lemma VerifyAndSignIn_Inl:
  assumes "VerifyAndSignIn env ctx raw email code ip ua (l, a) = (Inl e, l', a')"
  shows "l' = l \<and> (a' = a \<or> (\<exists>x. a' = RecordTx ctx x a)
    \<or> (\<exists>ch x. ch \<in> set (otp_challenges a) \<and> a' = RecordTx ctx x (snd (RecordFailure ctx (Oc_id ch) a))))"
proof (cases "looksLikeEmail (NormalizeEmail env email)")
  case True
  show ?thesis
  proof (cases "guessTx env ctx raw (NormalizeEmail env email) code ip ua a")
    case (Ended e1 a1)
    then have "a1 = a \<or> (\<exists>x. a1 = RecordTx ctx x a)"
      by (auto simp: guessTx_def recordAuth_def split: sum.splits option.splits if_splits)
    then show ?thesis using assms True Ended by (auto simp: VerifyAndSignIn_def Let_def)
  next
    case (WrongCode ch)
    then have "ch \<in> set (otp_challenges a)"
      by (auto simp: guessTx_def dest: LockLive_Inr split: sum.splits option.splits if_splits)
    moreover obtain x r where r: "RecordFailure ctx (Oc_id ch) a = (x, r)" by (cases "RecordFailure ctx (Oc_id ch) a")
    moreover have "l' = l \<and> (a' = a \<or> (\<exists>y. a' = RecordTx ctx y r))"
    proof (cases x)
      case (Inl e1)
      then have "r = a" using r by (auto simp: RecordFailure_def split: option.splits)
      then show ?thesis using assms True WrongCode r Inl by (simp add: VerifyAndSignIn_def Let_def)
    qed (use assms True WrongCode r in \<open>auto simp: VerifyAndSignIn_def Let_def recordAuth_def\<close>)
    ultimately show ?thesis by (metis snd_conv)
  next
    case (SignedIn r)
    then obtain i ch where r: "r = signInTx env ctx raw ip ua ch i a"
      by (auto simp: guessTx_def split: sum.splits option.splits if_splits)
    obtain x y where "r = (x, y)" by (cases r)
    then show ?thesis using assms True SignedIn signInTx_Inl [of env ctx raw ip ua ch i a _ y] r
      by (cases x) (auto simp: VerifyAndSignIn_def Let_def)
  qed
qed (use assms in \<open>simp add: VerifyAndSignIn_def Let_def\<close>)


lemma keyNew: "bucket (ResetKey k l) k = []"
  by (simp add: bucket_def ResetKey_def delete_conv')

text \<open>C32. Signing in takes a usable invitation and the right code, once. When it succeeds, the address
  looks like one, its invitation is active, its open code has not expired, has attempts left and has
  the hash of that address and code, and the account is active. Afterwards no code is open
  for the address, the invitation is not pending, the account is the one of the address, with the role and organization
  it already had or, when it is new, those of the invitation, one normal live session of it is opened
  for the refresh token, and its rate limit is reset. When it fails, no user, session or invitation has
  changed, and at most the failure counter of one challenge and the audit log have.\<close>

theorem sign_in_outcome:
  assumes ok: "otp_ok a" "users_ok env a" and inv: "distinct (map I_id (invitations a))"
    and run: "VerifyAndSignIn env ctx raw email code ip ua (l, a) = (res, l', a')"
  shows "case res of
      Inl _ \<Rightarrow> l' = l \<and> users a' = users a \<and> auth_sessions a' = auth_sessions a \<and> invitations a' = invitations a
        \<and> (otp_challenges a' = otp_challenges a \<or> (\<exists>ch \<in> set (otp_challenges a).
            otp_challenges a' = update_where (\<lambda>c. Oc_id c = Oc_id ch) (countFailure ctx) (otp_challenges a)))
    | Inr (pair, u) \<Rightarrow> (let addr = NormalizeEmail env email in
        \<exists>i \<in> set (invitations a). \<exists>ch \<in> set (otp_challenges a). looksLikeEmail addr
          \<and> I_email i = NormalizeEmail env addr \<and> IsActiveInvitation ctx i
          \<and> openChallenge (NormalizeEmail env addr) ''login'' ch \<and> CtxNow ctx < Oc_expires_at ch
          \<and> Oc_attempts ch < Oc_max_attempts ch \<and> Oc_code_hash ch = HashCode env addr code \<and> IsActiveUser u
          \<and> LockLive env a' addr ''login'' = Inl ErrOTPNotFound
          \<and> (\<forall>j \<in> set (invitations a'). I_id j = I_id i \<longrightarrow> I_status j \<noteq> ''pending'')
          \<and> PgLower env (U_email u) = I_email i
          \<and> (u \<in> set (users a)
             \<or> U_role u = I_role i \<and> U_org_id u = I_org_id i \<and> U_id u \<notin> U_id ` set (users a))
          \<and> (\<exists>s. auth_sessions a' = auth_sessions a @ [s] \<and> As_user_id s = U_id u \<and> As_kind s = ''normal''
             \<and> As_revoked_at s = None \<and> As_expires_at s = CtxNow ctx + RefreshTTL env \<and> As_hash s = HashRefreshToken env raw)
          \<and> bucket l' (emailKey addr) = [])"
proof (cases res)
  case (Inl e)
  have "otp_challenges (snd (RecordFailure ctx (Oc_id ch) a)) = update_where (\<lambda>c. Oc_id c = Oc_id ch) (countFailure ctx) (otp_challenges a)"
    if "ch \<in> set (otp_challenges a)" for ch
    using that by (auto simp: RecordFailure_def find_None_iff_all split: option.split)
  moreover have "users (snd (RecordFailure ctx c a)) = users a" "auth_sessions (snd (RecordFailure ctx c a)) = auth_sessions a"
    "invitations (snd (RecordFailure ctx c a)) = invitations a" for c
    by (simp_all add: RecordFailure_def split: option.split)
  ultimately show ?thesis using VerifyAndSignIn_Inl [OF run [unfolded Inl]] Inl by (auto simp: RecordTx_def)
next
  case (Inr r)
  obtain pair u where r: "r = (pair, u)" by (cases r)
  let ?addr = "NormalizeEmail env email"
  obtain i ch where v: "looksLikeEmail ?addr" "FindActiveByEmail env ctx a ?addr = Inr i" "LockLive env a ?addr ''login'' = Inr ch"
      "CheckLive ctx ch = None" "VerifyCode env ?addr code (Oc_code_hash ch)"
      "signInTx env ctx raw ip ua ch i a = (Inr (pair, u), a')" "l' = ResetKey (emailKey ?addr) l"
    using VerifyAndSignIn_Inr [OF run [unfolded Inr r] refl] .
  note i = FindActiveByEmail_Inr [OF v(2)] and ch = LockLive_Inr [OF v(3)]
  obtain a1 s where t: "upsertFromInvitation env ctx i (Consume ctx (Oc_id ch) a) = (Inr u, a1)" "IsActiveUser u"
      "s = newSession ctx \<lparr>CpUserID = U_id u, CpActorUserID = None, CpParentSessionID = None, CpKind = ''normal'',
                  CpRefreshHash = HashRefreshToken env raw, CpExpiresAt = CtxNow ctx + RefreshTTL env,
                  CpIPHash = hashForAudit env ip, CpUserAgentHash = hashForAudit env ua, CpReason = None\<rparr> (UuidGen a (Drawn a1))"
      "HashRefreshToken env raw \<notin> As_hash ` set (auth_sessions a)" "auth_sessions a' = auth_sessions a @ [s]"
      "otp_challenges a' = otp_challenges (Consume ctx (Oc_id ch) a)" "users a' = users (TouchLastLogin ctx (U_id u) a1)"
      "invitations a' = (if I_status i = ''pending'' then invitations (MarkAccepted ctx (I_id i) a) else invitations a)"
      "UuidGen a' = UuidGen a" "Drawn a' = Suc (Drawn a1)"
    using signInTx_Inr [OF v(6)] .
  have s: "As_user_id s = U_id u" "As_kind s = ''normal''" "As_revoked_at s = None" "As_expires_at s = CtxNow ctx + RefreshTTL env"
      "As_hash s = HashRefreshToken env raw" by (simp_all add: t(3) newSession_def)
  note up = upsertFromInvitation_Inr [OF t(1)]
  have used: "\<not> openChallenge (NormalizeEmail env ?addr) ''login'' c" if c: "c \<in> set (otp_challenges a')" for c
  proof
    assume o: "openChallenge (NormalizeEmail env ?addr) ''login'' c"
    then have "c \<in> set (otp_challenges a)" "Oc_id c \<noteq> Oc_id ch"
      using c t(6) by (auto simp: Consume_def set_update_where openChallenge_def split: if_splits)
    then have "ch \<noteq> c" "{ch, c} \<subseteq> set (filter (openChallenge (NormalizeEmail env ?addr) ''login'') (otp_challenges a))"
      using o ch by (auto simp: purposeOf_def)
    moreover have "length (filter (openChallenge (NormalizeEmail env ?addr) ''login'') (otp_challenges a)) \<le> 1"
      using ok(1) unfolding otp_ok_def by blast
    ultimately show False
      by (cases "filter (openChallenge (NormalizeEmail env ?addr) ''login'') (otp_challenges a)") auto
  qed
  have "I_status j \<noteq> ''pending''" if j: "j \<in> set (invitations a')" "I_id j = I_id i" for j
  proof (cases "I_status i = ''pending''")
    case False
    then have "j \<in> set (invitations a)" using j(1) t(8) by simp
    then have "j = i" using i j(2) inv by (simp add: distinct_map inj_on_def)
    then show ?thesis using False by simp
  qed (use j t(8) in \<open>auto simp: MarkAccepted_def set_update_where split: if_splits\<close>)
  moreover have "u \<in> set (users a)
      \<or> U_role u = I_role i \<and> U_org_id u = I_org_id i \<and> U_id u \<notin> U_id ` set (users a)"
    using up ok(2) t(7)
    by (auto simp: Consume_def invitedUser_def users_ok_def)
  ultimately show ?thesis
    using i ch v(1,4,5,7) t(2,5) s up LockLive_none [of a' env ?addr "''login''"] used keyNew
    unfolding Inr r sum.case prod.case Let_def
    by (intro bexI [of _ i] bexI [of _ ch]) (simp_all add: CheckLive_None VerifyCode_def purposeOf_def)
qed


subsection \<open>The sign-in flow keeps the tables in order\<close>

lemma sessions_ok_cong:
  "UuidGen a' = UuidGen a \<Longrightarrow> Drawn a' = Drawn a \<Longrightarrow> auth_sessions a' = auth_sessions a \<Longrightarrow> users a' = users a
   \<Longrightarrow> sessions_ok t a' = sessions_ok t a"
  by (simp add: sessions_ok_def hashes_distinct_def liveImpersonations_def)

lemma otp_ok_cong:
  "UuidGen a' = UuidGen a \<Longrightarrow> Drawn a \<le> Drawn a' \<Longrightarrow> otp_challenges a' = otp_challenges a \<Longrightarrow> otp_ok a \<Longrightarrow> otp_ok a'"
  by (rule otp_ok_evolves [OF _ otpEvolves_same])

lemma users_ok_upsert:
  assumes "users_ok env a" and "upsertFromInvitation env ctx i a = (Inr u, a')"
  shows "users_ok env a' \<and> u \<in> set (users a') \<and> U_id ` set (users a) \<subseteq> U_id ` set (users a')
    \<and> UuidGen a' = UuidGen a \<and> Drawn a' = Suc (Drawn a) \<and> auth_sessions a' = auth_sessions a \<and> otp_challenges a' = otp_challenges a"
proof -
  note up = upsertFromInvitation_Inr [OF assms(2)]
  have "users_ok env a'"
  proof (cases "a' = a\<lparr>Drawn := Suc (Drawn a)\<rparr>")
    case True
    then show ?thesis using users_ok_same [OF assms(1)] by simp
  next
    case False
    then have a': "a' = a\<lparr>Drawn := Suc (Drawn a), users := users a @ [invitedUser ctx i (UuidGen a (Drawn a))]\<rparr>"
      and e: "\<forall>u \<in> set (users a). PgLower env (U_email u) \<noteq> PgLower env (I_email i)" and "orgScope (I_role i) (I_org_id i)"
      using up by auto
    moreover have "UuidGen a n \<noteq> UuidGen a (Drawn a)" if "Suc (Drawn a) \<le> n" for n
      using assms(1) that unfolding users_ok_def by (metis inj_eq not_less_eq_eq order_refl)
    ultimately show ?thesis using assms(1) unfolding users_ok_def by (auto simp: invitedUser_def)
  qed
  then show ?thesis using up by auto
qed

lemma VerifyAndSignIn_success_ok:
  assumes "sessions_ok t a" "users_ok env a" "otp_ok a" and "t \<le> CtxNow ctx"
    and "signInTx env ctx raw ip ua ch i a = (Inr (pair, u), a')"
  shows "sessions_ok (CtxNow ctx) a' \<and> users_ok env a' \<and> otp_ok a'"
proof -
  let ?p = "\<lparr>CpUserID = U_id u, CpActorUserID = None, CpParentSessionID = None, CpKind = ''normal'',
                  CpRefreshHash = HashRefreshToken env raw, CpExpiresAt = CtxNow ctx + RefreshTTL env,
                  CpIPHash = hashForAudit env ip, CpUserAgentHash = hashForAudit env ua, CpReason = None\<rparr>"
  obtain a1 s where t: "upsertFromInvitation env ctx i (Consume ctx (Oc_id ch) a) = (Inr u, a1)" "IsActiveUser u"
      "s = newSession ctx ?p (UuidGen a (Drawn a1))"
      "HashRefreshToken env raw \<notin> As_hash ` set (auth_sessions a)" "auth_sessions a' = auth_sessions a @ [s]"
      "otp_challenges a' = otp_challenges (Consume ctx (Oc_id ch) a)" "users a' = users (TouchLastLogin ctx (U_id u) a1)"
      "invitations a' = (if I_status i = ''pending'' then invitations (MarkAccepted ctx (I_id i) a) else invitations a)"
      "UuidGen a' = UuidGen a" "Drawn a' = Suc (Drawn a1)"
    using signInTx_Inr [OF assms(5)] .
  have c: "users_ok env (Consume ctx (Oc_id ch) a)" using users_ok_same [OF assms(2)] by (simp add: Consume_def)
  note up = users_ok_upsert [OF c t(1)]
  have a1: "UuidGen a1 = UuidGen a" "Drawn a1 = Suc (Drawn a)" "auth_sessions a1 = auth_sessions a" "U_id ` set (users a) \<subseteq> U_id ` set (users a1)"
    using up by (auto simp: Consume_def)
  let ?b = "TouchLastLogin ctx (U_id u) a1"
  have b: "UuidGen ?b = UuidGen a" "Drawn ?b = Drawn a1" "auth_sessions ?b = auth_sessions a" "U_id ` set (users ?b) = U_id ` set (users a1)"
    using a1 by (simp_all add: TouchLastLogin_def image_update_where)
  have "evolves a ?b" using a1 b by (auto simp: evolves_def hashes_distinct_def)
  then have "sessions_ok (CtxNow ctx) ?b" by (rule sessions_ok_evolves [OF assms(1) _ assms(4)])
  moreover have "s = newSession ctx ?p (UuidGen ?b (Drawn ?b))" using t(3) b by simp
  moreover have "sessionShape s" "parentOk (auth_sessions ?b) s" by (simp_all add: t(3) newSession_def sessionShape_def parentOk_def)
  moreover have "CpUserID ?p \<in> U_id ` set (users ?b)" "CpRefreshHash ?p \<notin> As_hash ` set (auth_sessions ?b)"
    using up b t(4) by simp_all
  ultimately have "sessions_ok (CtxNow ctx) (?b\<lparr>Drawn := Suc (Drawn ?b), auth_sessions := auth_sessions ?b @ [s]\<rparr>)"
    by (intro sessions_ok_append) auto
  moreover have "sessions_ok (CtxNow ctx) a' = sessions_ok (CtxNow ctx) (?b\<lparr>Drawn := Suc (Drawn ?b), auth_sessions := auth_sessions ?b @ [s]\<rparr>)"
    by (rule sessions_ok_cong) (use t b in simp_all)
  moreover have "users_ok env a'"
    by (rule users_ok_keeps [where a = a1 and P = "\<lambda>x. U_id x = U_id u" and f = "U_last_login_at_update (\<lambda>_. Some (CtxNow ctx))"])
      (use up t a1 in \<open>simp_all add: TouchLastLogin_def\<close>)
  moreover have "otp_ok a'"
    by (rule otp_ok_cong [where a = "Consume ctx (Oc_id ch) a"])
      (use t a1 otp_ok_evolves [OF assms(3) otpEvolves_Consume [OF assms(3)]] in \<open>simp_all add: Consume_def\<close>)
  ultimately show ?thesis by blast
qed

text \<open>Operations that touch neither sessions nor users.\<close>

lemma RecordFailure_frame:
  "auth_sessions (snd (RecordFailure ctx c a)) = auth_sessions a" "users (snd (RecordFailure ctx c a)) = users a"
  "UuidGen (snd (RecordFailure ctx c a)) = UuidGen a" "Drawn (snd (RecordFailure ctx c a)) = Drawn a"
  "invitations (snd (RecordFailure ctx c a)) = invitations a"
  by (simp_all add: RecordFailure_def split: option.split)

lemma RecordTx_accounts [simp]:
  "auth_sessions (RecordTx c e a) = auth_sessions a" "users (RecordTx c e a) = users a"
  "otp_challenges (RecordTx c e a) = otp_challenges a" "invitations (RecordTx c e a) = invitations a"
  "organizations (RecordTx c e a) = organizations a" "UuidGen (RecordTx c e a) = UuidGen a" "Drawn (RecordTx c e a) = Drawn a"
  by (simp_all add: RecordTx_def)

lemma VerifyAndSignIn_ok:
  assumes "sessions_ok t a" "users_ok env a" "otp_ok a" and "t \<le> CtxNow ctx"
    and run: "VerifyAndSignIn env ctx raw email code ip ua (l, a) = (res, l', a')"
  shows "sessions_ok (CtxNow ctx) a' \<and> users_ok env a' \<and> otp_ok a'"
proof (cases res)
  case (Inl e)
  have now: "sessions_ok (CtxNow ctx) a" by (rule sessions_ok_evolves [OF assms(1) evolves_refl assms(4)])
  have "auth_sessions a' = auth_sessions a \<and> users a' = users a \<and> UuidGen a' = UuidGen a \<and> Drawn a' = Drawn a
      \<and> (otp_challenges a' = otp_challenges a \<or> (\<exists>c. otp_challenges a' = otp_challenges (snd (RecordFailure ctx c a))))"
    using VerifyAndSignIn_Inl [OF run [unfolded Inl]] by (auto simp: RecordFailure_frame)
  moreover have "otp_ok (snd (RecordFailure ctx c a))" for c by (rule otp_ok_evolves [OF assms(3) otpEvolves_RecordFailure])
  ultimately show ?thesis
    using now assms(2,3) sessions_ok_cong [of a' a] users_ok_same [of env a a'] otp_ok_cong [of a' a]
      otp_ok_cong [of a' "snd (RecordFailure ctx c a)" for c]
    by (metis RecordFailure_frame(3,4) order_refl)
next
  case (Inr r)
  obtain pair u where r: "r = (pair, u)" by (cases r)
  obtain i ch where "signInTx env ctx raw ip ua ch i a = (Inr (pair, u), a')"
    using VerifyAndSignIn_Inr [OF run [unfolded Inr r] refl] by metis
  then show ?thesis by (rule VerifyAndSignIn_success_ok [OF assms(1-4)])
qed

lemma RequestOTP_shape:
  assumes "RequestOTP env sendOTP ctx code p (l, a) = (e, l', a')"
  shows "\<exists>b. (b = a \<or> (\<exists>c q. b = snd (Issue env ctx c q a))) \<and> (a' = b \<or> (\<exists>x. a' = RecordTx ctx x b))"
proof -
  let ?addr = "NormalizeEmail env (RqEmail p)"
  obtain ok l1 where rate: "rateCheck ctx ?addr (RqIP p) l = (ok, l1)" by (cases "rateCheck ctx ?addr (RqIP p) l")
  show ?thesis
  proof (cases "looksLikeEmail ?addr \<and> ok")
    case False
    then show ?thesis using assms rate by (cases ok) (auto simp: RequestOTP_def recordAuth_def Let_def split: if_splits)
  next
    case go: True
    show ?thesis
    proof (cases "FindActiveByEmail env ctx a ?addr")
      case (Inl e1)
      then show ?thesis using assms rate go by (auto simp: RequestOTP_def recordAuth_def Let_def)
    next
      case (Inr i)
      let ?q = "\<lparr>IpEmail = ?addr, IpPurpose = [], IpInvitationID = Some (I_id i),
                      IpIPHash = hashForAudit env (RqIP p), IpUAHash = hashForAudit env (RqUserAgent p)\<rparr>"
      obtain x b where xb: "Issue env ctx code ?q a = (x, b)" by (cases "Issue env ctx code ?q a")
      then have "b = snd (Issue env ctx code ?q a)" by simp
      moreover have "(a' = a \<or> (\<exists>x. a' = RecordTx ctx x a)) \<or> (a' = b \<or> (\<exists>x. a' = RecordTx ctx x b))"
      proof (cases "\<exists>u. FindByEmail env a ?addr = Inr u \<and> \<not> IsActiveUser u")
        case True
        then show ?thesis using assms rate go Inr by (auto simp: RequestOTP_def recordAuth_def Let_def)
      next
        case False
        then show ?thesis using assms rate go Inr xb
          by (cases x) (auto simp: RequestOTP_def recordAuth_def Let_def split: if_splits)
      qed
      ultimately show ?thesis by blast
    qed
  qed
qed

lemma RequestOTP_ok:
  assumes "sessions_ok t a" "users_ok env a" "otp_ok a" and "t \<le> CtxNow ctx"
    and "RequestOTP env sendOTP ctx code p (l, a) = (e, l', a')"
  shows "sessions_ok (CtxNow ctx) a' \<and> users_ok env a' \<and> otp_ok a'"
proof -
  obtain b where b: "b = a \<or> (\<exists>c q. b = snd (Issue env ctx c q a))" "a' = b \<or> (\<exists>x. a' = RecordTx ctx x b)"
    using RequestOTP_shape [OF assms(5)] by blast
  have "otp_ok b" using b(1) assms(3) Issue_ok by blast
  moreover have e: "UuidGen b = UuidGen a" "Drawn a \<le> Drawn b" "auth_sessions b = auth_sessions a" "users b = users a"
    using b(1) by (auto simp: Issue_def gen_random_uuid_def Let_def)
  then have "evolves a b" by (simp add: evolves_def hashes_distinct_def)
  then have "sessions_ok (CtxNow ctx) b" by (rule sessions_ok_evolves [OF assms(1) _ assms(4)])
  moreover have "users_ok env b" using users_ok_same [OF assms(2)] e by simp
  ultimately show ?thesis
    using b(2) sessions_ok_cong [of a' b] users_ok_same [of env b a'] otp_ok_cong [of a' b] by auto
qed


subsection \<open>Concurrent guesses\<close>

text \<open>
  A wrong guess is checked in one transaction and counted in another: between them the request holds
  no lock. A state is the tables and the challenges of the requests between their two transactions;
  at most \<open>k\<close> requests are in flight.
\<close>

inductive guess_step :: "env \<Rightarrow> nat \<Rightarrow> accounts \<times> uuid list \<Rightarrow> accounts \<times> uuid list \<Rightarrow> bool" for env k where
  check: "length fl < k \<Longrightarrow> guessTx env ctx raw addr code ip ua a = WrongCode ch \<Longrightarrow> guess_step env k (a, fl) (a, Oc_id ch # fl)"
| tally: "cid \<in> set fl \<Longrightarrow> RecordFailure ctx cid a = (Inr locked, a') \<Longrightarrow> guess_step env k (a, fl) (a', remove1 cid fl)"

inductive_cases guess_stepE: "guess_step env k s t"

definition attemptsOn :: "accounts \<Rightarrow> uuid \<Rightarrow> int" where
  "attemptsOn a cid = (case List.find (\<lambda>c. Oc_id c = cid) (otp_challenges a) of None \<Rightarrow> 0 | Some c \<Rightarrow> Oc_attempts c)"

lemma attemptsOn_eq: "distinct (map Oc_id (otp_challenges a)) \<Longrightarrow> c \<in> set (otp_challenges a) \<Longrightarrow> attemptsOn a (Oc_id c) = Oc_attempts c"
  using find_by_key [of Oc_id "otp_challenges a" c] by (simp add: attemptsOn_def)

lemma attemptsOn_RecordFailure:
  assumes "RecordFailure ctx cid a = (Inr locked, a')"
  shows "attemptsOn a' x = attemptsOn a x + (if x = cid then 1 else 0)"
proof -
  have a': "a' = a\<lparr>otp_challenges := update_where (\<lambda>c. Oc_id c = cid) (countFailure ctx) (otp_challenges a)\<rparr>"
    and some: "List.find (\<lambda>c. Oc_id c = cid) (otp_challenges a) \<noteq> None"
    using assms by (auto simp: RecordFailure_def split: option.splits)
  have "List.find (\<lambda>c. Oc_id c = x) (otp_challenges a')
      = map_option (\<lambda>c. if Oc_id c = cid then countFailure ctx c else c) (List.find (\<lambda>c. Oc_id c = x) (otp_challenges a))"
    unfolding a' by (simp add: find_update_where countFailure_def)
  then show ?thesis using some
    by (auto simp: attemptsOn_def countFailure_def dest: find_Some_in split: option.split)
qed

lemma guessTx_WrongCode:
  assumes "guessTx env ctx raw addr code ip ua a = WrongCode ch"
  shows "ch \<in> set (otp_challenges a) \<and> Oc_attempts ch < Oc_max_attempts ch"
  using assms by (auto simp: guessTx_def CheckLive_None dest: LockLive_Inr split: sum.splits option.splits if_splits)

lemma count_list_remove1: "count_list (remove1 y xs) x = count_list xs x - (if x = y then 1 else 0)"
  by (induction xs) (auto simp: count_notin)

lemma count_list_in: "x \<in> set xs \<Longrightarrow> 0 < count_list xs x"
  by (induction xs) auto

lemma count_list_le: "count_list xs x \<le> length xs"
  by (induction xs) auto

lemma guess_step_bound:
  assumes "guess_step env k s t" and "otp_ok (fst s)" and "length (snd s) \<le> k"
    and "attemptsOn (fst s) cid + int (count_list (snd s) cid) \<le> OTPMaxAttempts - 1 + int k"
  shows "otp_ok (fst t) \<and> length (snd t) \<le> k \<and> attemptsOn (fst t) cid + int (count_list (snd t) cid) \<le> OTPMaxAttempts - 1 + int k"
  using assms(1)
proof (cases rule: guess_step.cases)
  case (check fl ctx raw addr code ip ua a ch)
  have ch: "ch \<in> set (otp_challenges a)" "Oc_attempts ch < Oc_max_attempts ch" using guessTx_WrongCode [OF check(4)] by auto
  then have "attemptsOn a (Oc_id ch) \<le> OTPMaxAttempts - 1"
    using assms(2) check(1) attemptsOn_eq unfolding otp_ok_def by fastforce
  moreover have "count_list (Oc_id ch # fl) cid \<le> k" using count_list_le [of "Oc_id ch # fl" cid] check(3) by simp
  ultimately show ?thesis using assms(2-4) check by (cases "cid = Oc_id ch") auto
next
  case (tally y fl ctx a locked a')
  have "otp_ok a'" using otp_ok_evolves [OF _ otpEvolves_RecordFailure, of a ctx y] assms(2) tally by simp
  moreover have "length (remove1 y fl) \<le> k" using assms(3) tally by (simp add: length_remove1)
  moreover have "attemptsOn a' cid + int (count_list (remove1 y fl) cid) = attemptsOn a cid + int (count_list fl cid)"
    using attemptsOn_RecordFailure [OF tally(4), of cid] count_list_in [OF tally(3)] by (simp add: count_list_remove1)
  ultimately show ?thesis using assms(4) tally by simp
qed

text \<open>C33. How many guesses a code takes. With at most \<open>k\<close> requests in flight, no interleaving of checks
  and counts ever has more than \<open>5 - 1 + k\<close> guesses checked against an unspent challenge, counted or
  not: one at a time that is the cap of five. The cap does not bind concurrent guesses: from any
  state in which a wrong code is answered as wrong, \<open>k\<close> requests can be checked against the same
  challenge before the first of them is counted.\<close>

theorem concurrent_guesses_bound:
  assumes "otp_ok a" and "ch \<in> set (otp_challenges a)" and "Oc_invalidated_at ch = None"
  shows "((guess_step env k)\<^sup>*\<^sup>* (a, []) (a', fl) \<longrightarrow>
      attemptsOn a' (Oc_id ch) + int (count_list fl (Oc_id ch)) \<le> OTPMaxAttempts - 1 + int k)
    \<and> (guessTx env ctx raw addr code ip ua a = WrongCode ch \<longrightarrow> (guess_step env k)\<^sup>*\<^sup>* (a, []) (a, replicate k (Oc_id ch)))"
proof (intro conjI impI)
  have "attemptsOn a (Oc_id ch) = Oc_attempts ch" using assms(1,2) attemptsOn_eq unfolding otp_ok_def by blast
  then have start: "attemptsOn a (Oc_id ch) \<le> OTPMaxAttempts - 1 + int k" using assms unfolding otp_ok_def by fastforce
  have "otp_ok (fst t) \<and> length (snd t) \<le> k
      \<and> attemptsOn (fst t) (Oc_id ch) + int (count_list (snd t) (Oc_id ch)) \<le> OTPMaxAttempts - 1 + int k"
    if "(guess_step env k)\<^sup>*\<^sup>* (a, []) t" for t
    using that by induction (use start assms(1) guess_step_bound in auto)
  then show "attemptsOn a' (Oc_id ch) + int (count_list fl (Oc_id ch)) \<le> OTPMaxAttempts - 1 + int k"
    if "(guess_step env k)\<^sup>*\<^sup>* (a, []) (a', fl)" using that by fastforce
next
  assume wrong: "guessTx env ctx raw addr code ip ua a = WrongCode ch"
  have "(guess_step env k)\<^sup>*\<^sup>* (a, []) (a, replicate n (Oc_id ch))" if "n \<le> k" for n
    using that
  proof (induction n)
    case (Suc n)
    then have "guess_step env k (a, replicate n (Oc_id ch)) (a, replicate (Suc n) (Oc_id ch))"
      using guess_step.check [OF _ wrong, of "replicate n (Oc_id ch)" k] by simp
    then show ?case using Suc by (metis Suc_leD rtranclp.rtrancl_into_rtrancl)
  qed simp
  then show "(guess_step env k)\<^sup>*\<^sup>* (a, []) (a, replicate k (Oc_id ch))" by simp
qed

subsection \<open>An example\<close>

text \<open>Organizer 2 is invited and has the open code 000007.\<close>

definition exInvite :: invite_row where
  "exInvite = \<lparr>I_id = 21, I_email = ''b@x.y'', I_display = None, I_role = ''organizer'', I_org_id = Some 9, I_status = ''pending'',
     I_invited_by = Some 1, I_note = None, I_created_at = 0, I_accepted_at = None, I_revoked_at = None, I_last_sent_at = None,
     I_expires_at = 1000\<rparr>"

definition exChallenge :: otp_row where
  "exChallenge = \<lparr>Oc_id = 31, Oc_email = ''b@x.y'', Oc_purpose = ''login'', Oc_code_hash = ''pb@x.y:000007'', Oc_invitation_id = Some 21,
     Oc_attempts = 0, Oc_max_attempts = 5, Oc_created_at = 0, Oc_expires_at = 1000, Oc_consumed_at = None, Oc_invalidated_at = None,
     Oc_last_attempt_at = None, Oc_ip_hash = None, Oc_ua_hash = None\<rparr>"

definition exSignIn :: accounts where
  "exSignIn = exAccounts\<lparr>invitations := [exInvite], otp_challenges := [exChallenge]\<rparr>"

lemma exSignIn_ok: "otp_ok exSignIn" "users_ok exEnv exSignIn"
  using exAccounts_ok(2)
  by (simp_all add: otp_ok_def users_ok_def exSignIn_def exAccounts_def exChallenge_def inj_def OTPMaxAttempts_def)

lemma exTrim: "trimSpace ''b@x.y'' = ''b@x.y''"
  by (rule trimSpace_ink) (simp_all add: inkByte_def)

lemma exNormal: "NormalizeEmail exEnv ''b@x.y'' = ''b@x.y''"
  by (simp add: NormalizeEmail_def exTrim exEnv_def)

lemma exGuess: "guessTx exEnv (exCtx 5) raw ''b@x.y'' ''000008'' [] [] exSignIn = WrongCode exChallenge"
  by (simp add: guessTx_def FindActiveByEmail_def exNormal exSignIn_def exInvite_def IsActiveInvitation_def exCtx_def LockLive_def
      purposeOf_def openChallenge_def exChallenge_def CheckLive_def VerifyCode_def HashCode_def)
    (simp add: exEnv_def)

theorem concurrent_guesses_bound_witness:
  "(guess_step exEnv 9)\<^sup>*\<^sup>* (exSignIn, []) (exSignIn, replicate 9 31) \<and> 0 + int (count_list (replicate 9 31) (31::nat)) \<le> 5 - 1 + 9"
proof -
  have c: "exChallenge \<in> set (otp_challenges exSignIn)" "Oc_invalidated_at exChallenge = None" "Oc_id exChallenge = 31"
    by (simp_all add: exSignIn_def exChallenge_def)
  have a: "attemptsOn exSignIn 31 = 0" by (simp add: attemptsOn_def exSignIn_def exChallenge_def)
  note b = concurrent_guesses_bound [OF exSignIn_ok(1) c(1,2), where env = exEnv and k = 9 and ctx = "exCtx 5" and raw = "[]"
      and addr = "''b@x.y''" and code = "''000008''" and ip = "[]" and ua = "[]" and a' = exSignIn and fl = "replicate 9 31", unfolded c(3) a]
  then have r: "(guess_step exEnv 9)\<^sup>*\<^sup>* (exSignIn, []) (exSignIn, replicate 9 31)" using exGuess by blast
  then show ?thesis using b by (simp add: OTPMaxAttempts_def)
qed

theorem sign_in_outcome_witness:
  "\<exists>pair u l' a'. VerifyAndSignIn exEnv (exCtx 5) ''h9'' ''b@x.y'' ''000007'' [] [] (NewLimiter, exSignIn) = (Inr (pair, u), l', a')
    \<and> LockLive exEnv a' ''b@x.y'' ''login'' = Inl ErrOTPNotFound"
proof -
  have "looksLikeEmail ''b@x.y''" by (simp add: looksLikeEmail_def goIndex_def Let_def)
  moreover have "\<exists>pair u a'. guessTx exEnv (exCtx 5) ''h9'' ''b@x.y'' ''000007'' [] [] exSignIn = SignedIn (Inr (pair, u), a')"
    by (simp add: guessTx_def FindActiveByEmail_def exNormal exSignIn_def exInvite_def IsActiveInvitation_def exCtx_def LockLive_def
      purposeOf_def openChallenge_def exChallenge_def CheckLive_def VerifyCode_def HashCode_def signInTx_def
      upsertFromInvitation_def Consume_def gen_random_uuid_def exAccounts_def exUser_def orgScope_def update_where_def
      IsActiveUser_def CreateSession_def acceptPending_def MarkAccepted_def newSession_def sessionShape_def optionIn_def exSession_def
      HashRefreshToken_def RecordTx_def Let_def) (simp add: exEnv_def)
  ultimately obtain pair u l' a' where r:
      "VerifyAndSignIn exEnv (exCtx 5) ''h9'' ''b@x.y'' ''000007'' [] [] (NewLimiter, exSignIn) = (Inr (pair, u), l', a')"
    by (auto simp: VerifyAndSignIn_def exNormal Let_def)
  have "distinct (map I_id (invitations exSignIn))" by (simp add: exSignIn_def)
  from sign_in_outcome [OF exSignIn_ok this r] show ?thesis using r by (auto simp: exNormal Let_def)
qed

end
