(* ===== verification/Platform.thy ===== *)
theory Platform
  imports Tournament OtpFlow
begin

section \<open>The platform surface and the audit log (internal/platform, internal/audit)\<close>

text \<open>
  What super admins do: accounts and their roles and status (admin_users.go), invitations,
  organizations and force actions on tournaments (service.go, repository.go), the overview
  (admin_overview.go), and the audit query (internal/audit/service.go). \<open>LIKE\<close> is the parameter
  \<open>PgLike\<close>, the password hash is an argument. Columns of a view that are NULL in a left join
  are \<open>None\<close>.
\<close>

datatype platform_error = PfAuth auth_error | ErrLastSuperAdmin | ErrOrgRequired | ErrOrgForbidden
  | ErrPfUserNotFound | ErrBadRole | ErrBadStatus | ErrPfNotFound | ErrEmailUsed | ErrSlugUsed
  | ErrReasonRequired | ErrUnknownAction | ErrPfInternal

type_synonym 'a platform_result = "(platform_error + 'a) \<times> accounts"

definition byEntry :: "attribution \<Rightarrow> audit_entry \<Rightarrow> audit_entry" where
  "byEntry by' e = e\<lparr>ActorUserID := Actor by', EffectiveUserID := Effective by', ImpersonationSessionID := Session by'\<rparr>"

text \<open>A page of rows and the total of \<open>COUNT(*) OVER()\<close>, which no row carries on an empty page.\<close>

definition page :: "nat \<Rightarrow> nat \<Rightarrow> 'r list \<Rightarrow> 'r list \<times> int" where
  "page limit offset rows = (let p = take limit (drop offset rows) in (p, if p = [] then 0 else int (length rows)))"

definition orgName :: "accounts \<Rightarrow> uuid option \<Rightarrow> string option" where
  "orgName a org = (case org of None \<Rightarrow> None | Some g \<Rightarrow> map_option O_name (List.find (\<lambda>r. O_id r = g) (organizations a)))"

subsection \<open>Accounts\<close>

record admin_user =
  AuID :: uuid
  AuEmail :: string
  AuName :: string
  AuRole :: string
  AuStatus :: string
  AuOrgID :: "uuid option"
  AuOrgName :: "string option"
  AuLastLoginAt :: "gotime option"
  AuCreatedAt :: gotime
  AuInvitationState :: "string option"
  AuTournamentCount :: int
  AuHasPassword :: bool

record user_filter =
  UfSearch :: string
  UfRole :: string
  UfStatus :: string

definition adminUser :: "env \<Rightarrow> accounts \<Rightarrow> user_row \<Rightarrow> admin_user" where
  "adminUser env a u = \<lparr>AuID = U_id u, AuEmail = U_email u, AuName = U_name u, AuRole = U_role u, AuStatus = U_status u,
     AuOrgID = U_org_id u, AuOrgName = orgName a (U_org_id u), AuLastLoginAt = U_last_login_at u, AuCreatedAt = U_created_at u,
     AuInvitationState = map_option I_status
       (List.find (\<lambda>i. I_email i = PgLower env (U_email u) \<and> I_status i \<noteq> ''revoked'') (invitations a)),
     AuTournamentCount = int (length (filter (\<lambda>t. Some (T_org_id t) = U_org_id u) (tournaments a))),
     AuHasPassword = (U_password_hash u \<noteq> None)\<rparr>"

definition searchPattern :: "env \<Rightarrow> string \<Rightarrow> string option" where
  "searchPattern env s = (let q = trimSpace s in if q \<noteq> [] then Some (''%'' @ Lowercase env q @ ''%'') else None)"

definition nonEmpty :: "string \<Rightarrow> string option" where
  "nonEmpty s = (if s \<noteq> [] then Some s else None)"

definition matchesText :: "string option \<Rightarrow> string \<Rightarrow> bool" where
  "matchesText f s \<longleftrightarrow> f = None \<or> f = Some s"

definition ListUsers :: "env \<Rightarrow> accounts \<Rightarrow> user_filter \<Rightarrow> nat \<Rightarrow> nat \<Rightarrow> admin_user list \<times> int" where
  "ListUsers env a f limit offset =
     (let search = searchPattern env (UfSearch f);
          rows = sort_key (\<lambda>u. - U_created_at u) (filter (\<lambda>u.
            (case search of None \<Rightarrow> True | Some p \<Rightarrow> PgLike env (PgLower env (U_email u)) p \<or> PgLike env (PgLower env (U_name u)) p)
            \<and> matchesText (nonEmpty (UfRole f)) (U_role u) \<and> matchesText (nonEmpty (UfStatus f)) (U_status u)) (users a));
          (p, total) = page limit offset rows
      in (map (adminUser env a) p, total))"

definition listUsersByID :: "env \<Rightarrow> accounts \<Rightarrow> uuid \<Rightarrow> admin_user list" where
  "listUsersByID env a uid = map (adminUser env a) (filter (\<lambda>u. U_id u = uid) (users a))"

definition GetUser :: "env \<Rightarrow> accounts \<Rightarrow> uuid \<Rightarrow> platform_error + admin_user" where
  "GetUser env a uid = (case listUsersByID env a uid of [] \<Rightarrow> Inl ErrPfUserNotFound | u # _ \<Rightarrow> Inr u)"

definition isActiveSuperAdmin :: "user_row \<Rightarrow> bool" where
  "isActiveSuperAdmin u \<longleftrightarrow> U_role u = ''super_admin'' \<and> U_status u = ''active''"

definition otherActiveSuperAdmins :: "accounts \<Rightarrow> uuid \<Rightarrow> nat" where
  "otherActiveSuperAdmins a except = length (filter (\<lambda>u. isActiveSuperAdmin u \<and> U_id u \<noteq> except) (users a))"

definition fromTo :: "string \<Rightarrow> string \<Rightarrow> string \<Rightarrow> (string \<times> diffval) list option" where
  "fromTo field x y = Some [(field, DObj [(''from'', DStr x), (''to'', DStr y)])]"

definition updateUser :: "uuid \<Rightarrow> (user_row \<Rightarrow> user_row) \<Rightarrow> accounts \<Rightarrow> accounts" where
  "updateUser uid f a = a\<lparr>users := update_where (\<lambda>u. U_id u = uid) f (users a)\<rparr>"

definition ChangeRole ::
  "env \<Rightarrow> ctx \<Rightarrow> attribution \<Rightarrow> uuid \<Rightarrow> string \<Rightarrow> uuid option \<Rightarrow> string option \<Rightarrow> accounts \<Rightarrow> admin_user platform_result" where
  "ChangeRole env ctx by' targetID newRole orgID reason a =
     (if newRole \<noteq> ''organizer'' \<and> newRole \<noteq> ''super_admin'' then (Inl ErrBadRole, a)
      else if newRole = ''organizer'' \<and> orgID = None then (Inl ErrOrgRequired, a)
      else if newRole = ''super_admin'' \<and> orgID \<noteq> None then (Inl ErrOrgForbidden, a)
      else case List.find (\<lambda>u. U_id u = targetID) (users a) of
        None \<Rightarrow> (Inl ErrPfUserNotFound, a)
      | Some cur \<Rightarrow>
          if isActiveSuperAdmin cur \<and> newRole \<noteq> ''super_admin'' \<and> otherActiveSuperAdmins a targetID = 0 then (Inl ErrLastSuperAdmin, a)
          else if \<not> optionIn orgID (O_id ` set (organizations a)) then (Inl ErrPfInternal, a)
          else let a = updateUser targetID (\<lambda>u. u\<lparr>U_role := newRole, U_org_id := orgID\<rparr>) a;
                   a = (if U_role cur = ''super_admin'' \<and> newRole \<noteq> ''super_admin'' then RevokeAllForUser ctx targetID ''role_changed'' a else a);
                   a = RecordTx ctx (byEntry by' (entry_zero\<lparr>Action := ''admin.user_role_changed'', TargetType := ''user'',
                         TargetID := uuid_str targetID, Reason := reason, OrgID := orgID, Diff := fromTo ''role'' (U_role cur) newRole\<rparr>)) a
               in (GetUser env a targetID, a))"

definition SetUserStatus ::
  "env \<Rightarrow> ctx \<Rightarrow> attribution \<Rightarrow> uuid \<Rightarrow> string \<Rightarrow> string option \<Rightarrow> accounts \<Rightarrow> admin_user platform_result" where
  "SetUserStatus env ctx by' targetID status reason a =
     (if status \<noteq> ''active'' \<and> status \<noteq> ''suspended'' then (Inl ErrBadStatus, a)
      else case List.find (\<lambda>u. U_id u = targetID) (users a) of
        None \<Rightarrow> (Inl ErrPfUserNotFound, a)
      | Some cur \<Rightarrow>
          if U_status cur = status then (GetUser env a targetID, a)
          else if status = ''suspended'' \<and> isActiveSuperAdmin cur \<and> otherActiveSuperAdmins a targetID = 0 then (Inl ErrLastSuperAdmin, a)
          else let a = updateUser targetID (U_status_update (\<lambda>_. status)) a;
                   a = (if status = ''suspended'' then RevokeAllForUser ctx targetID ''suspended'' a else a);
                   a = RecordTx ctx (byEntry by' (entry_zero\<lparr>
                         Action := (if status = ''suspended'' then ''admin.user_suspended'' else ''admin.user_reactivated''),
                         TargetType := ''user'', TargetID := uuid_str targetID, Reason := reason,
                         Diff := fromTo ''status'' (U_status cur) status\<rparr>)) a
               in (GetUser env a targetID, a))"

subsection \<open>Invitations\<close>

record admin_invitation =
  AiID :: uuid
  AiEmail :: string
  AiEmailDisplay :: "string option"
  AiRole :: string
  AiOrgID :: "uuid option"
  AiOrgName :: "string option"
  AiStatus :: string
  AiActive :: bool
  AiInvitedBy :: "string option"
  AiNote :: "string option"
  AiCreatedAt :: gotime
  AiAcceptedAt :: "gotime option"
  AiRevokedAt :: "gotime option"
  AiLastSentAt :: "gotime option"
  AiExpiresAt :: gotime

record invitation_filter =
  IfSearch :: string
  IfStatus :: string
  IfRole :: string

definition adminInvitation :: "ctx \<Rightarrow> accounts \<Rightarrow> invite_row \<Rightarrow> admin_invitation" where
  "adminInvitation ctx a i = \<lparr>AiID = I_id i, AiEmail = I_email i, AiEmailDisplay = I_display i, AiRole = I_role i, AiOrgID = I_org_id i,
     AiOrgName = orgName a (I_org_id i), AiStatus = I_status i,
     AiActive = (I_status i \<noteq> ''revoked'' \<and> (I_status i = ''accepted'' \<or> CtxNow ctx < I_expires_at i)),
     AiInvitedBy = (case I_invited_by i of None \<Rightarrow> None | Some b \<Rightarrow> map_option U_email (List.find (\<lambda>u. U_id u = b) (users a))),
     AiNote = I_note i, AiCreatedAt = I_created_at i, AiAcceptedAt = I_accepted_at i, AiRevokedAt = I_revoked_at i,
     AiLastSentAt = I_last_sent_at i, AiExpiresAt = I_expires_at i\<rparr>"

definition ListInvitations :: "env \<Rightarrow> ctx \<Rightarrow> accounts \<Rightarrow> invitation_filter \<Rightarrow> nat \<Rightarrow> nat \<Rightarrow> admin_invitation list \<times> int" where
  "ListInvitations env ctx a f limit offset =
     (let search = searchPattern env (IfSearch f);
          rows = sort_key (\<lambda>i. - I_created_at i) (filter (\<lambda>i.
            (case search of None \<Rightarrow> True | Some p \<Rightarrow> PgLike env (I_email i) p)
            \<and> matchesText (nonEmpty (IfStatus f)) (I_status i) \<and> matchesText (nonEmpty (IfRole f)) (I_role i)) (invitations a));
          (p, total) = page limit offset rows
      in (map (adminInvitation ctx a) p, total))"

definition getInvitation :: "ctx \<Rightarrow> accounts \<Rightarrow> uuid \<Rightarrow> platform_error + admin_invitation" where
  "getInvitation ctx a iid = (case List.find (\<lambda>i. I_id i = iid) (invitations a) of
     None \<Rightarrow> Inl (PfAuth ErrNotInvited) | Some i \<Rightarrow> Inr (adminInvitation ctx a i))"

text \<open>\<open>send email role\<close> says whether the mail provider took the invitation.\<close>

definition CreateInvitation ::
  "env \<Rightarrow> ctx \<Rightarrow> (string \<Rightarrow> string \<Rightarrow> bool) \<Rightarrow> attribution \<Rightarrow> create_invitation_params \<Rightarrow> accounts \<Rightarrow> admin_invitation platform_result" where
  "CreateInvitation env ctx send by' p a =
     (if CiRole p \<noteq> ''organizer'' \<and> CiRole p \<noteq> ''super_admin'' then (Inl ErrBadRole, a)
      else if CiRole p = ''organizer'' \<and> CiOrganization p = None then (Inl ErrOrgRequired, a)
      else if CiRole p = ''super_admin'' \<and> CiOrganization p \<noteq> None then (Inl ErrOrgForbidden, a)
      else case CreateInvitationRow env ctx (p\<lparr>CiInvitedBy := Some (Actor by')\<rparr>) a of
        (Inl e, a) \<Rightarrow> (Inl (PfAuth e), a)
      | (Inr i, a) \<Rightarrow>
          let a = RecordTx ctx (byEntry by' (entry_zero\<lparr>Action := ''admin.invitation_created'', TargetType := ''invitation'',
                    TargetID := uuid_str (I_id i), OrgID := CiOrganization p,
                    Diff := Some [(''email'', DStr (I_email i)), (''role'', DStr (I_role i))]\<rparr>)) a;
              a = (if send (I_email i) (I_role i) then TouchLastSent ctx (I_id i) a else a)
          in (getInvitation ctx a (I_id i), a))"

definition ResendInvitation ::
  "ctx \<Rightarrow> (string \<Rightarrow> string \<Rightarrow> bool) \<Rightarrow> attribution \<Rightarrow> uuid \<Rightarrow> accounts \<Rightarrow> admin_invitation platform_result" where
  "ResendInvitation ctx send by' iid a = (case FindInvitation a iid of
     Inl e \<Rightarrow> (Inl (PfAuth e), a)
   | Inr i \<Rightarrow>
       if \<not> IsActiveInvitation ctx i then (Inl (PfAuth ErrInvitationExpired), a)
       else if \<not> send (I_email i) (I_role i) then (Inl (PfAuth ErrDeliveryFailed), a)
       else let a = RecordTx ctx (byEntry by' (entry_zero\<lparr>Action := ''admin.invitation_resent'', TargetType := ''invitation'',
                      TargetID := uuid_str (I_id i), OrgID := I_org_id i\<rparr>)) (TouchLastSent ctx (I_id i) a)
            in (getInvitation ctx a iid, a))"

definition WithdrawInvitation ::
  "env \<Rightarrow> ctx \<Rightarrow> attribution \<Rightarrow> uuid \<Rightarrow> string option \<Rightarrow> accounts \<Rightarrow> admin_invitation platform_result" where
  "WithdrawInvitation env ctx by' iid reason a = (case FindInvitation a iid of
     Inl e \<Rightarrow> (Inl (PfAuth e), a)
   | Inr i \<Rightarrow> (case RevokeInvitation env ctx iid ''invitation_revoked'' a of
       (Inl e, a) \<Rightarrow> (Inl (PfAuth e), a)
     | (Inr _, a) \<Rightarrow>
         let a = RecordTx ctx (byEntry by' (entry_zero\<lparr>Action := ''admin.invitation_revoked'', TargetType := ''invitation'',
                   TargetID := uuid_str (I_id i), OrgID := I_org_id i, Reason := reason, Diff := Some [(''email'', DStr (I_email i))]\<rparr>)) a
         in (getInvitation ctx a iid, a)))"

subsection \<open>Organizations and tournaments\<close>

record organization = org_row +
  OrganizerCount :: int
  TournamentCount :: int

record global_tournament =
  GtID :: uuid
  GtName :: string
  GtSlug :: string
  GtStatus :: string
  GtOrgID :: uuid
  GtOrgName :: string
  GtCreatedAt :: gotime

definition orgWith :: "int \<Rightarrow> int \<Rightarrow> org_row \<Rightarrow> organization" where
  "orgWith n m o' = org_row.extend o' (organization.fields n m)"

definition ListOrgs :: "accounts \<Rightarrow> nat \<Rightarrow> nat \<Rightarrow> organization list \<times> int" where
  "ListOrgs a limit offset = (let (p, total) = page limit offset (sort_key (\<lambda>r. - O_created_at r) (organizations a))
     in (map (\<lambda>r. orgWith (int (length (filter (\<lambda>u. U_org_id u = Some (O_id r)) (users a))))
                (int (length (filter (\<lambda>t. T_org_id t = O_id r) (tournaments a)))) r) p, total))"

definition newOrganizer :: "ctx \<Rightarrow> string \<Rightarrow> string \<Rightarrow> string \<Rightarrow> uuid \<Rightarrow> uuid \<Rightarrow> user_row" where
  "newOrganizer ctx email name hash org uid = \<lparr>U_id = uid, U_email = email, U_password_hash = Some hash, U_name = name,
     U_role = ''organizer'', U_org_id = Some org, U_status = ''active'', U_last_login_at = None, U_created_at = CtxNow ctx\<rparr>"

text \<open>The check on the address compares it as stored; the index on \<open>lower(email)\<close> may still refuse it.\<close>

definition CreateOrgWithOrganizer ::
  "env \<Rightarrow> ctx \<Rightarrow> string \<Rightarrow> string \<Rightarrow> string \<Rightarrow> string \<Rightarrow> string \<Rightarrow> accounts \<Rightarrow> organization platform_result" where
  "CreateOrgWithOrganizer env ctx orgNm slug email name hash a =
     (if slug \<in> O_slug ` set (organizations a) then (Inl ErrSlugUsed, a)
      else if email \<in> U_email ` set (users a) then (Inl ErrEmailUsed, a)
      else let (oid, a1) = gen_random_uuid a; (uid, a2) = gen_random_uuid a1;
               o' = \<lparr>O_id = oid, O_name = orgNm, O_slug = slug, O_status = ''active'', O_created_at = CtxNow ctx\<rparr>
           in if \<exists>u \<in> set (users a). PgLower env (U_email u) = PgLower env email then (Inl ErrPfInternal, a)
              else (Inr (orgWith 1 0 o'), a2\<lparr>organizations := organizations a @ [o'], users := users a @ [newOrganizer ctx email name hash oid uid]\<rparr>))"

record create_org_request =
  CrOrgName :: string
  CrSlug :: string
  CrOrganizerEmail :: string
  CrOrganizerName :: string

definition CreateOrg :: "env \<Rightarrow> ctx \<Rightarrow> string \<Rightarrow> uuid \<Rightarrow> create_org_request \<Rightarrow> accounts \<Rightarrow> organization platform_result" where
  "CreateOrg env ctx hash actor req a =
     (let slug = platformSlugify (CrSlug req); slug = (if slug = [] then platformSlugify (CrOrgName req) else slug)
      in case CreateOrgWithOrganizer env ctx (trimSpace (CrOrgName req)) slug
              (Lowercase env (trimSpace (CrOrganizerEmail req))) (trimSpace (CrOrganizerName req)) hash a of
           (Inl e, a) \<Rightarrow> (Inl e, a)
         | (Inr o', a) \<Rightarrow> (Inr o', RecordTx ctx (entry_zero\<lparr>ActorUserID := actor, OrgID := Some (O_id o'), Action := ''org.create'',
             TargetType := ''organization'', TargetID := uuid_str (O_id o'),
             Diff := Some [(''name'', DStr (O_name o')), (''organizer_email'', DStr (CrOrganizerEmail req))]\<rparr>) a))"

definition globalTournament :: "accounts \<Rightarrow> tournament_row \<Rightarrow> global_tournament option" where
  "globalTournament a t = map_option (\<lambda>o'. \<lparr>GtID = T_id t, GtName = T_name t, GtSlug = T_slug t, GtStatus = T_status t,
     GtOrgID = T_org_id t, GtOrgName = O_name o', GtCreatedAt = T_created_at t\<rparr>) (List.find (\<lambda>r. O_id r = T_org_id t) (organizations a))"

definition ListAllTournaments :: "accounts \<Rightarrow> nat \<Rightarrow> nat \<Rightarrow> global_tournament list \<times> int" where
  "ListAllTournaments a limit offset =
     page limit offset (List.map_filter (globalTournament a) (sort_key (\<lambda>t. - T_created_at t) (tournaments a)))"

definition GetTournamentStatus :: "accounts \<Rightarrow> uuid \<Rightarrow> platform_error + string" where
  "GetTournamentStatus a tid = (case List.find (\<lambda>t. T_id t = tid) (tournaments a) of None \<Rightarrow> Inl ErrPfNotFound | Some t \<Rightarrow> Inr (T_status t))"

text \<open>The join with the organization leaves a tournament without one alone.\<close>

definition SetTournamentStatusRow :: "uuid \<Rightarrow> string \<Rightarrow> accounts \<Rightarrow> global_tournament platform_result" where
  "SetTournamentStatusRow tid status a = (case List.find (\<lambda>t. T_id t = tid \<and> globalTournament a t \<noteq> None) (tournaments a) of
     None \<Rightarrow> (Inl ErrPfNotFound, a)
   | Some t \<Rightarrow> (Inr (the (globalTournament a (t\<lparr>T_status := status\<rparr>))),
       a\<lparr>tournaments := update_where (\<lambda>t. T_id t = tid \<and> globalTournament a t \<noteq> None) (T_status_update (\<lambda>_. status)) (tournaments a)\<rparr>))"

definition forceAction :: "string \<Rightarrow> (string \<times> string) option" where
  "forceAction action = map_of
     [(''publish'', (''published'', ''admin.tournament_force_published'')),
      (''unpublish'', (''draft'', ''admin.tournament_force_unpublished'')),
      (''archive'', (''archived'', ''admin.tournament_archived'')),
      (''restore'', (''draft'', ''admin.tournament_restored'')),
      (''suspend'', (''suspended'', ''tournament.suspend''))] action"

definition ForceTournament ::
  "ctx \<Rightarrow> attribution \<Rightarrow> uuid \<Rightarrow> string \<Rightarrow> string option \<Rightarrow> accounts \<Rightarrow> global_tournament platform_result" where
  "ForceTournament ctx by' tid action reason a =
     (if (case reason of None \<Rightarrow> True | Some r \<Rightarrow> trimSpace r = []) then (Inl ErrReasonRequired, a)
      else case forceAction action of
        None \<Rightarrow> (Inl ErrUnknownAction, a)
      | Some (status, auditAction) \<Rightarrow> (case GetTournamentStatus a tid of
          Inl e \<Rightarrow> (Inl e, a)
        | Inr before \<Rightarrow> (case SetTournamentStatusRow tid status a of
            (Inl e, a) \<Rightarrow> (Inl e, a)
          | (Inr t, a) \<Rightarrow> (Inr t, RecordTx ctx (byEntry by' (entry_zero\<lparr>OrgID := Some (GtOrgID t), TournamentID := Some (GtID t),
              Reason := reason, Action := auditAction, TargetType := ''tournament'', TargetID := uuid_str (GtID t),
              Diff := fromTo ''status'' before (GtStatus t)\<rparr>)) a))))"

subsection \<open>The audit query and the overview\<close>

record list_filter =
  LfAction :: string
  LfActor :: "uuid option"
  LfEffective :: "uuid option"
  LfTournament :: "uuid option"
  LfOrg :: "uuid option"
  LfImpersonatedOnly :: bool
  LfFrom :: "gotime option"
  LfTo :: "gotime option"

text \<open>An audit record with the people on it: actor and effective user as far as they have an account.\<close>

record audit_view = audit_row +
  AvActor :: "user_row option"
  AvEffective :: "user_row option"

definition userOf :: "accounts \<Rightarrow> uuid option \<Rightarrow> user_row option" where
  "userOf a uid = (case uid of None \<Rightarrow> None | Some x \<Rightarrow> List.find (\<lambda>u. U_id u = x) (users a))"

definition auditView :: "accounts \<Rightarrow> audit_row \<Rightarrow> audit_view" where
  "auditView a r = audit_row.extend r (audit_view.fields (userOf a (A_actor r)) (userOf a (A_effective r)))"

definition auditMatches :: "list_filter \<Rightarrow> audit_row \<Rightarrow> bool" where
  "auditMatches f r \<longleftrightarrow> matchesText (nonEmpty (LfAction f)) (A_action r)
     \<and> (LfActor f = None \<or> A_actor r = LfActor f) \<and> (LfEffective f = None \<or> A_effective r = LfEffective f)
     \<and> (LfTournament f = None \<or> A_tournament_id r = LfTournament f) \<and> (LfOrg f = None \<or> A_org_id r = LfOrg f)
     \<and> (\<not> LfImpersonatedOnly f \<or> A_session r \<noteq> None)
     \<and> (case LfFrom f of None \<Rightarrow> True | Some t \<Rightarrow> t \<le> A_created_at r)
     \<and> (case LfTo f of None \<Rightarrow> True | Some t \<Rightarrow> A_created_at r < t)"

definition AuditList :: "accounts \<Rightarrow> list_filter \<Rightarrow> nat \<Rightarrow> nat \<Rightarrow> audit_view list \<times> int" where
  "AuditList a f limit offset = (let (p, total) = page limit offset (sort_key (\<lambda>r. - A_created_at r) (filter (auditMatches f) (audit_logs a)))
     in (map (auditView a) p, total))"

definition anyFilter :: list_filter where
  "anyFilter = \<lparr>LfAction = [], LfActor = None, LfEffective = None, LfTournament = None, LfOrg = None,
     LfImpersonatedOnly = False, LfFrom = None, LfTo = None\<rparr>"

record overview =
  OvOrganizers :: nat
  OvActiveUsers :: nat
  OvSuspendedUsers :: nat
  OvSuperAdmins :: nat
  OvPendingInvitations :: nat
  OvRevokedInvitations :: nat
  OvTournaments :: nat
  OvDraftTournaments :: nat
  OvPublishedTournaments :: nat
  OvArchivedTournaments :: nat
  OvLiveMatches :: nat
  OvActiveImpersonation :: nat
  OvRecentAuth :: "audit_view list"
  OvRecentAudit :: "audit_view list"

definition countWhere :: "('r \<Rightarrow> bool) \<Rightarrow> 'r list \<Rightarrow> nat" where
  "countWhere P rows = length (filter P rows)"

definition feedStep :: "audit_view \<Rightarrow> audit_view list \<times> audit_view list \<Rightarrow> audit_view list \<times> audit_view list" where
  "feedStep l feeds = (case feeds of (recentAuth, recentAudit) \<Rightarrow>
     if length (A_action l) > 5 \<and> take 5 (A_action l) = ''auth.'' then
       (if length recentAuth < 10 then (recentAuth @ [l], recentAudit) else (recentAuth, recentAudit))
     else if length recentAudit < 10 then (recentAuth, recentAudit @ [l]) else (recentAuth, recentAudit))"

definition Overview :: "ctx \<Rightarrow> accounts \<Rightarrow> overview" where
  "Overview ctx a = (let (recentAuth, recentAudit) = fold feedStep (fst (AuditList a anyFilter 40 0)) ([], []) in
     \<lparr>OvOrganizers = countWhere (\<lambda>u. U_role u = ''organizer'') (users a), OvActiveUsers = countWhere (\<lambda>u. U_status u = ''active'') (users a),
      OvSuspendedUsers = countWhere (\<lambda>u. U_status u = ''suspended'') (users a), OvSuperAdmins = countWhere isActiveSuperAdmin (users a),
      OvPendingInvitations = countWhere (\<lambda>i. I_status i = ''pending'' \<and> CtxNow ctx < I_expires_at i) (invitations a),
      OvRevokedInvitations = countWhere (\<lambda>i. I_status i = ''revoked'') (invitations a),
      OvTournaments = length (tournaments a), OvDraftTournaments = countWhere (\<lambda>t. T_status t = ''draft'') (tournaments a),
      OvPublishedTournaments = countWhere (\<lambda>t. T_status t = ''published'') (tournaments a),
      OvArchivedTournaments = countWhere (\<lambda>t. T_status t = ''archived'') (tournaments a),
      OvLiveMatches = countWhere (\<lambda>m. M_status m = ''live'') (matches a),
      OvActiveImpersonation = countWhere (\<lambda>s. IsImpersonation s \<and> liveAt (CtxNow ctx) s) (auth_sessions a),
      OvRecentAuth = recentAuth, OvRecentAudit = recentAudit\<rparr>)"

text \<open>The read-only settings page copies configuration values and no secret.\<close>

record settings_source =
  SrcTimezone :: string
  SrcPlunkConfigured :: bool
  SrcPlunkFromEmail :: string
  SrcPlunkFromName :: string
  SrcPasswordLoginOn :: bool
  SrcRealSendAllowed :: bool
  SrcEnvironment :: string

record platform_settings =
  SetTimezone :: string
  SetTimezoneNote :: string
  SetPlunkConfigured :: bool
  SetPlunkFromEmail :: string
  SetPlunkFromName :: string
  SetPasswordLoginOn :: bool
  SetRealSendAllowed :: bool
  SetEnvironment :: string

definition Settings :: "settings_source \<Rightarrow> platform_settings" where
  "Settings c = \<lparr>SetTimezone = SrcTimezone c,
     SetTimezoneNote = ''Applies only to new tournaments. Existing tournaments keep their own timezone.'',
     SetPlunkConfigured = SrcPlunkConfigured c, SetPlunkFromEmail = SrcPlunkFromEmail c, SetPlunkFromName = SrcPlunkFromName c,
     SetPasswordLoginOn = SrcPasswordLoginOn c, SetRealSendAllowed = SrcRealSendAllowed c, SetEnvironment = SrcEnvironment c\<rparr>"

text \<open>A test code goes through the normal request, to the caller's own address; \<open>None\<close> is success.\<close>

definition SendTestOTP ::
  "env \<Rightarrow> (string \<Rightarrow> string \<Rightarrow> bool) \<Rightarrow> ctx \<Rightarrow> string \<Rightarrow> attribution \<Rightarrow> string \<Rightarrow> string \<Rightarrow> limiter \<times> accounts
   \<Rightarrow> platform_error option \<times> limiter \<times> accounts" where
  "SendTestOTP env sendOTP ctx code by' ip ua st = (case st of (l, a) \<Rightarrow>
     (case List.find (\<lambda>u. U_id u = Actor by') (users a) of
        None \<Rightarrow> (Some ErrPfInternal, l, a)
      | Some u \<Rightarrow> (case RequestOTP env sendOTP ctx code \<lparr>RqEmail = U_email u, RqIP = ip, RqUserAgent = ua\<rparr> (l, a) of
          (Some e, l, a) \<Rightarrow> (Some (PfAuth e), l, a)
        | (None, l, a) \<Rightarrow> (None, l, RecordTx ctx (byEntry by' (entry_zero\<lparr>Action := ''admin.plunk_test_otp_sent'', TargetType := ''user'',
            TargetID := uuid_str (Actor by'), Diff := Some [(''email'', DStr (U_email u)), (''at'', DTime (CtxNow ctx))]\<rparr>)) a))))"

subsection \<open>Force actions and the public gates\<close>

lemma globalTournament_fields:
  "globalTournament a t = Some g \<Longrightarrow> GtID g = T_id t \<and> GtSlug g = T_slug t \<and> GtStatus g = T_status t"
  by (auto simp: globalTournament_def)

lemma globalTournament_status: "globalTournament a (t\<lparr>T_status := st\<rparr>) = None \<longleftrightarrow> globalTournament a t = None"
  by (simp add: globalTournament_def)

lemma SetTournamentStatusRow_Inr:
  assumes "SetTournamentStatusRow tid status a = (Inr g, b)" and "distinct (map T_id (tournaments a))"
  obtains t0 where "t0 \<in> set (tournaments a)" and "GtID g = tid" and "T_id t0 = tid" and "GtSlug g = T_slug t0" and "GtStatus g = status"
    and "b = a\<lparr>tournaments := update_where (\<lambda>t. T_id t = tid \<and> globalTournament a t \<noteq> None) (T_status_update (\<lambda>_. status)) (tournaments a)\<rparr>"
    and "\<And>u. u \<in> set (tournaments a) \<Longrightarrow> (T_id u = tid \<and> globalTournament a u \<noteq> None) \<longleftrightarrow> u = t0"
proof -
  obtain t0 where f: "List.find (\<lambda>t. T_id t = tid \<and> globalTournament a t \<noteq> None) (tournaments a) = Some t0"
    and g: "g = the (globalTournament a (t0\<lparr>T_status := status\<rparr>))"
    and b: "b = a\<lparr>tournaments := update_where (\<lambda>t. T_id t = tid \<and> globalTournament a t \<noteq> None) (T_status_update (\<lambda>_. status)) (tournaments a)\<rparr>"
    using assms(1) by (auto simp: SetTournamentStatusRow_def split: option.splits)
  have t0: "t0 \<in> set (tournaments a)" "T_id t0 = tid" "globalTournament a t0 \<noteq> None" using f by (auto simp: find_Some_iff)
  have "globalTournament a (t0\<lparr>T_status := status\<rparr>) = Some g" using t0(3) globalTournament_status [of a status t0] g by auto
  then have "GtID g = tid" "GtSlug g = T_slug t0" "GtStatus g = status" using globalTournament_fields t0(2) by fastforce+
  moreover have "(T_id u = tid \<and> globalTournament a u \<noteq> None) \<longleftrightarrow> u = t0" if "u \<in> set (tournaments a)" for u
    using that t0 assms(2) by (auto simp: distinct_map dest: inj_onD)
  ultimately show ?thesis using that t0(1,2) b by blast
qed

lemma ForceTournament_cases:
  obtains e where "ForceTournament ctx by' tid action reason a = (Inl e, a)"
  | status name before g b r where "forceAction action = Some (status, name)" and "reason = Some r" and "trimSpace r \<noteq> []"
      and "SetTournamentStatusRow tid status a = (Inr g, b)"
      and "ForceTournament ctx by' tid action reason a = (Inr g, RecordTx ctx (byEntry by' (entry_zero\<lparr>OrgID := Some (GtOrgID g), TournamentID := Some (GtID g),
              Reason := reason, Action := name, TargetType := ''tournament'', TargetID := uuid_str (GtID g),
              Diff := fromTo ''status'' before (GtStatus g)\<rparr>)) b)"
proof (cases "\<exists>r x before. reason = Some r \<and> trimSpace r \<noteq> [] \<and> forceAction action = Some x \<and> GetTournamentStatus a tid = Inr before")
  case False
  then have "\<exists>e. ForceTournament ctx by' tid action reason a = (Inl e, a)"
    by (cases reason; cases "forceAction action"; cases "GetTournamentStatus a tid") (auto simp: ForceTournament_def)
  then show ?thesis using that(1) by blast
next
  case True
  then obtain r status name before where *: "reason = Some r" "trimSpace r \<noteq> []" "forceAction action = Some (status, name)"
      "GetTournamentStatus a tid = Inr before" by auto
  show ?thesis
  proof (cases "SetTournamentStatusRow tid status a")
    case (Pair x b)
    show ?thesis
    proof (cases x)
      case (Inl e)
      then have "b = a" using Pair by (auto simp: SetTournamentStatusRow_def split: option.splits)
      then show ?thesis using that(1) * Pair Inl by (simp add: ForceTournament_def)
    next
      case (Inr g)
      show ?thesis by (rule that(2) [of status name r g b before]) (use * Pair Inr in \<open>simp_all add: ForceTournament_def\<close>)
    qed
  qed
qed


definition exBy :: attribution where
  "exBy = \<lparr>Actor = 1, Effective = None, Session = None\<rparr>"

definition exForce :: accounts where
  "exForce = exAccounts\<lparr>tournaments := tournaments (sample_db ''single_elim''),
     organizations := [\<lparr>O_id = 2, O_name = ''Org'', O_slug = ''org'', O_status = ''active'', O_created_at = 0\<rparr>]\<rparr>"


end
