(* ===== verification/AccountRun.thy ===== *)
theory AccountRun
  imports Platform
begin

section \<open>Runs of the account services\<close>

text \<open>
  One step relation for the operations the HTTP handlers of internal/auth and internal/platform
  call, over the clock, the limiter and the tables, in any order and with any arguments, the clock
  never going back. The invariants of the account tables hold along every run
  (\<open>accounts_ok\<close>, an instance of the locale \<open>transitions\<close>), and with them the properties that span
  the components: what was signed out stays out, and the platform keeps an active super admin.
\<close>

subsection \<open>Operations that leave users and codes alone\<close>

definition touched :: "user_row \<Rightarrow> user_row \<Rightarrow> bool" where
  "touched u u' \<longleftrightarrow> u' = u\<lparr>U_last_login_at := U_last_login_at u'\<rparr>"

definition quiet :: "accounts \<Rightarrow> accounts \<Rightarrow> bool" where
  "quiet a a' \<longleftrightarrow> UuidGen a' = UuidGen a \<and> Drawn a \<le> Drawn a' \<and> otp_challenges a' = otp_challenges a
     \<and> list_all2 touched (users a) (users a')"

lemma touched_refl [simp]: "touched u u"
  by (simp add: touched_def)

lemma touched_fields:
  "touched u u' \<Longrightarrow> U_id u' = U_id u \<and> U_email u' = U_email u \<and> U_role u' = U_role u \<and> U_org_id u' = U_org_id u \<and> U_status u' = U_status u"
  by (cases u; cases u') (simp add: touched_def)

lemma touched_trans: "touched u v \<Longrightarrow> touched v w \<Longrightarrow> touched u w"
  by (cases u; cases v; cases w) (simp add: touched_def)

lemma quiet_refl [simp]: "quiet a a"
  by (simp add: quiet_def list_all2_refl)

lemma quiet_trans: "quiet a b \<Longrightarrow> quiet b c \<Longrightarrow> quiet a c"
  unfolding quiet_def by (auto intro: list_all2_trans [of touched touched touched, OF touched_trans])

lemma quiet_same:
  "UuidGen a' = UuidGen a \<Longrightarrow> Drawn a \<le> Drawn a' \<Longrightarrow> otp_challenges a' = otp_challenges a \<Longrightarrow> users a' = users a \<Longrightarrow> quiet a a'"
  by (simp add: quiet_def list_all2_refl)

lemma quiet_RecordTx: "quiet a (RecordTx ctx e a)"
  by (rule quiet_same) simp_all

lemma quiet_revokes:
  "quiet a (Revoke ctx sid reason a)" "quiet a (RevokeChildren ctx sid reason a)" "quiet a (RevokeAllForUser ctx uid reason a)"
  by (simp_all add: quiet_same Revoke_def RevokeChildren_def RevokeAllForUser_def)

lemma quiet_invitations: "quiet a (a\<lparr>invitations := is\<rparr>)"
  by (rule quiet_same) simp_all

lemma quiet_setHash: "quiet a (snd (setHash ctx sid h a))"
  by (simp add: setHash_def quiet_same)

lemma quiet_CreateSession: "quiet a (snd (CreateSession ctx p a))"
  using CreateSession_cases [of ctx p a] by (elim disjE exE conjE) (simp_all add: quiet_same)

lemma quiet_TouchLastLogin: "quiet a (TouchLastLogin ctx uid a)"
  by (auto simp: quiet_def TouchLastLogin_def touched_def intro!: list_all2_update_where)

lemma quiet_Rotate: "quiet a (snd (Rotate env ctx newRaw raw a))"
proof -
  have "snd (Rotate env ctx newRaw raw a) = a \<or> (\<exists>f P. snd (Rotate env ctx newRaw raw a) = a\<lparr>auth_sessions := update_where P f (auth_sessions a)\<rparr>)"
    by (auto simp: Rotate_def setHash_def Let_def split: option.split)
  then show ?thesis using quiet_same by fastforce
qed

lemma quiet_Refresh: "quiet a (snd (Refresh env ctx newRaw raw a))"
  using quiet_Rotate [of a env ctx newRaw raw] by (auto simp: Refresh_def split: prod.splits sum.splits)

lemma quiet_openSession: "quiet a (snd (openSession env ctx raw user a))"
  using quiet_CreateSession by (auto simp: openSession_def split: prod.splits sum.splits) (metis snd_conv)+

lemma quiet_Logout: "quiet a (Logout ctx sid a)"
  by (auto simp: Logout_def Let_def split: sum.split option.split
      intro: quiet_trans [OF quiet_revokes(2) quiet_revokes(1)] quiet_trans [OF quiet_revokes(1)]
        quiet_trans [OF quiet_revokes(1) quiet_trans [OF quiet_revokes(2) quiet_revokes(1)]])

lemma quiet_RevokeInvitation: "quiet a (snd (RevokeInvitation env ctx iid reason a))"
  using quiet_invitations [of a] quiet_revokes(3) quiet_trans
  by (auto simp: RevokeInvitation_def RevokeInvitationRow_def split: sum.splits) blast+


lemma quiet_Login: "quiet a (snd (Login env ctx raw email password a))"
proof (cases "snd (Login env ctx raw email password a) = a")
  case False
  then obtain user where "snd (Login env ctx raw email password a) = snd (openSession env ctx raw user a)
      \<or> snd (Login env ctx raw email password a) = TouchLastLogin ctx (U_id user) (snd (openSession env ctx raw user a))"
    by (auto simp: Login_def split: if_splits sum.splits option.splits prod.splits) (metis snd_conv)+
  then show ?thesis using quiet_openSession quiet_TouchLastLogin quiet_trans by metis
qed simp

lemma quiet_StartImpersonation: "quiet a (snd (StartImpersonation env ctx raw sid target reason a))"
  using StartImpersonation_cases [OF refl, of env ctx raw sid target reason a]
  by (elim disjE exE conjE) (simp_all add: quiet_same quiet_RecordTx)

lemma quiet_ExitImpersonation: "quiet a (snd (ExitImpersonation env ctx raw sid a))"
proof -
  have "snd (ExitImpersonation env ctx raw sid a) = a \<or> (\<exists>s x. snd (ExitImpersonation env ctx raw sid a) = Revoke ctx s x a)
      \<or> (\<exists>p h e s x. snd (ExitImpersonation env ctx raw sid a) = snd (setHash ctx p h (RecordTx ctx e (Revoke ctx s x a))))"
    by (auto simp: ExitImpersonation_def Let_def split: sum.splits bool.splits option.splits if_splits prod.splits) (metis snd_conv)+
  then show ?thesis
    using quiet_revokes(1) quiet_trans [OF quiet_trans [OF quiet_revokes(1) quiet_RecordTx] quiet_setHash] by auto
qed

lemma quiet_LogoutByRefreshToken: "quiet a (snd (LogoutByRefreshToken env ctx raw a))"
  by (auto simp: LogoutByRefreshToken_def intro: quiet_Logout split: sum.splits)

lemma quiet_CreateInvitation: "quiet a (snd (CreateInvitation env ctx send by' p a)) \<and> evolves a (snd (CreateInvitation env ctx send by' p a))"
proof -
  have "snd (CreateInvitation env ctx send by' p a) = a
      \<or> (\<exists>n is x iid. snd (CreateInvitation env ctx send by' p a) = RecordTx ctx x (a\<lparr>Drawn := Suc n, invitations := is\<rparr>) \<and> n = Drawn a
          \<or> snd (CreateInvitation env ctx send by' p a) = TouchLastSent ctx iid (RecordTx ctx x (a\<lparr>Drawn := Suc n, invitations := is\<rparr>)) \<and> n = Drawn a)"
    by (auto simp: CreateInvitation_def CreateInvitationRow_def gen_random_uuid_def Let_def) blast+
  then show ?thesis by (auto simp: TouchLastSent_def RecordTx_def quiet_same evolves_def hashes_distinct_def)
qed

lemma quiet_ResendInvitation: "quiet a (snd (ResendInvitation ctx send by' iid a)) \<and> evolves a (snd (ResendInvitation ctx send by' iid a))"
  by (auto simp: ResendInvitation_def TouchLastSent_def RecordTx_def Let_def quiet_same evolves_def hashes_distinct_def split: sum.split)

lemma evolves_quiet_record: "quiet a b \<and> evolves a b \<Longrightarrow> quiet a (RecordTx ctx e b) \<and> evolves a (RecordTx ctx e b)"
  using quiet_trans [OF _ quiet_RecordTx] evolves_trans [OF _ evolves_RecordTx] by blast

lemma quiet_WithdrawInvitation: "quiet a (snd (WithdrawInvitation env ctx by' iid reason a)) \<and> evolves a (snd (WithdrawInvitation env ctx by' iid reason a))"
proof -
  obtain x b where b: "RevokeInvitation env ctx iid ''invitation_revoked'' a = (x, b)"
    by (cases "RevokeInvitation env ctx iid ''invitation_revoked'' a")
  then have q: "quiet a b \<and> evolves a b"
    using quiet_RevokeInvitation [of a env ctx iid "''invitation_revoked''"] evolves_RevokeInvitation [of a env ctx iid "''invitation_revoked''"] by simp
  then show ?thesis using b evolves_quiet_record [OF q]
    by (cases x) (auto simp: WithdrawInvitation_def Let_def split: sum.split)
qed

lemma quiet_ForceTournament: "quiet a (snd (ForceTournament ctx by' tid action reason a)) \<and> evolves a (snd (ForceTournament ctx by' tid action reason a))"
  by (auto simp: ForceTournament_def SetTournamentStatusRow_def RecordTx_def quiet_same evolves_def hashes_distinct_def split: option.split sum.split)


subsection \<open>Operations on accounts\<close>

definition accounts_ok :: "env \<Rightarrow> gotime \<Rightarrow> accounts \<Rightarrow> bool" where
  "accounts_ok env t a \<longleftrightarrow> sessions_ok t a \<and> users_ok env a \<and> otp_ok a \<and> (\<exists>u \<in> set (users a). isActiveSuperAdmin u)"

lemma accounts_ok_parts:
  assumes "accounts_ok env t a"
  shows "sessions_ok t a" and "users_ok env a" and "otp_ok a" and "\<exists>u \<in> set (users a). isActiveSuperAdmin u"
    and "distinct (map As_id (auth_sessions a))"
  using assms sessions_ok_ids by (auto simp: accounts_ok_def)

lemma touched_users_ok:
  assumes "users_ok env a" and "quiet a a'"
  shows "users_ok env a'"
proof -
  have k: "list_all2 touched (users a) (users a')" and e: "UuidGen a' = UuidGen a" "Drawn a \<le> Drawn a'"
    using assms(2) by (simp_all add: quiet_def)
  have m: "map U_id (users a') = map U_id (users a)" "map (\<lambda>u. PgLower env (U_email u)) (users a') = map (\<lambda>u. PgLower env (U_email u)) (users a)"
    using k by (induction rule: list_all2_induct) (auto dest: touched_fields)
  then have "U_id ` set (users a') = U_id ` set (users a)" by (metis list.set_map)
  moreover have "\<forall>u' \<in> set (users a'). \<exists>u \<in> set (users a). touched u u'"
    using k by (induction rule: list_all2_induct) auto
  then have "\<forall>u \<in> set (users a'). orgScope (U_role u) (U_org_id u) \<and> U_id u \<noteq> uuid_Nil"
    using assms(1) touched_fields unfolding users_ok_def by metis
  ultimately show ?thesis using assms(1) e m unfolding users_ok_def by auto
qed

lemma admin_touched:
  assumes "list_all2 touched (users a) (users b)" and "\<exists>u \<in> set (users a). isActiveSuperAdmin u"
  shows "\<exists>u \<in> set (users b). isActiveSuperAdmin u"
proof -
  obtain u where u: "u \<in> set (users a)" "isActiveSuperAdmin u" using assms(2) by blast
  have "\<exists>u' \<in> set (users b). touched u u'" using assms(1) u(1) by (induction rule: list_all2_induct) auto
  then show ?thesis using u(2) touched_fields unfolding isActiveSuperAdmin_def by metis
qed

lemma accounts_ok_quiet:
  assumes "accounts_ok env t a" and "quiet a a'" and "sessions_ok t' a'"
  shows "accounts_ok env t' a'"
proof -
  have "\<exists>u \<in> set (users a'). isActiveSuperAdmin u"
    using admin_touched [of a a'] accounts_ok_parts(4) [OF assms(1)] assms(2) by (simp add: quiet_def)
  moreover have "otp_ok a'" using otp_ok_cong [of a' a] accounts_ok_parts(3) [OF assms(1)] assms(2) by (simp add: quiet_def)
  ultimately show ?thesis using touched_users_ok [OF accounts_ok_parts(2) [OF assms(1)] assms(2)] assms(3) by (simp add: accounts_ok_def)
qed

lemma accounts_ok_evolves:
  "accounts_ok env t a \<Longrightarrow> quiet a a' \<Longrightarrow> evolves a a' \<Longrightarrow> t \<le> t' \<Longrightarrow> accounts_ok env t' a'"
  by (rule accounts_ok_quiet [OF _ _ sessions_ok_evolves]) (auto simp: accounts_ok_def)

text \<open>The outcome of the two operations that can take an admin away.\<close>

definition roleChanged :: "ctx \<Rightarrow> attribution \<Rightarrow> user_row \<Rightarrow> string \<Rightarrow> uuid option \<Rightarrow> string option \<Rightarrow> accounts \<Rightarrow> accounts" where
  "roleChanged ctx by' cur newRole orgID reason a =
     (let a = updateUser (U_id cur) (\<lambda>u. u\<lparr>U_role := newRole, U_org_id := orgID\<rparr>) a;
          a = (if U_role cur = ''super_admin'' \<and> newRole \<noteq> ''super_admin'' then RevokeAllForUser ctx (U_id cur) ''role_changed'' a else a)
      in RecordTx ctx (byEntry by' (entry_zero\<lparr>Action := ''admin.user_role_changed'', TargetType := ''user'',
           TargetID := uuid_str (U_id cur), Reason := reason, OrgID := orgID, Diff := fromTo ''role'' (U_role cur) newRole\<rparr>)) a)"

lemma ChangeRole_cases:
  "snd (ChangeRole env ctx by' uid newRole orgID reason a) = a
   \<or> (\<exists>cur \<in> set (users a). U_id cur = uid \<and> orgScope newRole orgID
      \<and> \<not> (isActiveSuperAdmin cur \<and> newRole \<noteq> ''super_admin'' \<and> otherActiveSuperAdmins a uid = 0)
      \<and> snd (ChangeRole env ctx by' uid newRole orgID reason a) = roleChanged ctx by' cur newRole orgID reason a)"
proof (cases "List.find (\<lambda>u. U_id u = uid) (users a)")
  case (Some cur)
  then have "cur \<in> set (users a)" "U_id cur = uid" by (auto dest: find_Some_in)
  then show ?thesis using Some by (auto simp: ChangeRole_def roleChanged_def orgScope_def Let_def)
qed (simp add: ChangeRole_def)

definition statusChanged :: "ctx \<Rightarrow> attribution \<Rightarrow> user_row \<Rightarrow> string \<Rightarrow> string option \<Rightarrow> accounts \<Rightarrow> accounts" where
  "statusChanged ctx by' cur status reason a =
     (let a = updateUser (U_id cur) (U_status_update (\<lambda>_. status)) a;
          a = (if status = ''suspended'' then RevokeAllForUser ctx (U_id cur) ''suspended'' a else a)
      in RecordTx ctx (byEntry by' (entry_zero\<lparr>
           Action := (if status = ''suspended'' then ''admin.user_suspended'' else ''admin.user_reactivated''),
           TargetType := ''user'', TargetID := uuid_str (U_id cur), Reason := reason,
           Diff := fromTo ''status'' (U_status cur) status\<rparr>)) a)"

lemma SetUserStatus_cases:
  "snd (SetUserStatus env ctx by' uid status reason a) = a
   \<or> (\<exists>cur \<in> set (users a). U_id cur = uid \<and> status \<in> {''active'', ''suspended''}
      \<and> \<not> (isActiveSuperAdmin cur \<and> status = ''suspended'' \<and> otherActiveSuperAdmins a uid = 0)
      \<and> snd (SetUserStatus env ctx by' uid status reason a) = statusChanged ctx by' cur status reason a)"
proof (cases "List.find (\<lambda>u. U_id u = uid) (users a)")
  case (Some cur)
  then have "cur \<in> set (users a)" "U_id cur = uid" by (auto dest: find_Some_in)
  then show ?thesis using Some by (auto simp: SetUserStatus_def statusChanged_def Let_def)
qed (simp add: SetUserStatus_def)

lemma evolves_updateUser: "(\<And>u. U_id (f u) = U_id u) \<Longrightarrow> evolves a (updateUser uid f a)"
  unfolding updateUser_def by (rule evolves_users) (simp add: image_update_where)

lemma evolves_changed:
  assumes "\<And>u. U_id (f u) = U_id u"
  shows "evolves a (RecordTx ctx e (if c then RevokeAllForUser ctx uid x (updateUser uid f a) else updateUser uid f a))"
proof -
  have "evolves a (updateUser uid f a)" by (rule evolves_updateUser [OF assms])
  then have "evolves a (if c then RevokeAllForUser ctx uid x (updateUser uid f a) else updateUser uid f a)"
    using evolves_trans [OF _ evolves_RevokeAllForUser] by auto
  then show ?thesis by (rule evolves_trans [OF _ evolves_RecordTx])
qed

lemma evolves_roleChanged: "evolves a (roleChanged ctx by' cur newRole orgID reason a)"
  unfolding roleChanged_def Let_def by (rule evolves_changed) simp

lemma evolves_statusChanged: "evolves a (statusChanged ctx by' cur status reason a)"
  unfolding statusChanged_def Let_def by (rule evolves_changed) simp

lemma changed_users:
  "users (roleChanged ctx by' cur newRole orgID reason a) = update_where (\<lambda>u. U_id u = U_id cur) (\<lambda>u. u\<lparr>U_role := newRole, U_org_id := orgID\<rparr>) (users a)"
  "users (statusChanged ctx by' cur status reason a) = update_where (\<lambda>u. U_id u = U_id cur) (U_status_update (\<lambda>_. status)) (users a)"
  by (simp_all add: roleChanged_def statusChanged_def updateUser_def RevokeAllForUser_def Let_def)

lemma changed_frame:
  "UuidGen (roleChanged ctx by' cur newRole orgID reason a) = UuidGen a" "Drawn (roleChanged ctx by' cur newRole orgID reason a) = Drawn a"
  "otp_challenges (roleChanged ctx by' cur newRole orgID reason a) = otp_challenges a"
  "UuidGen (statusChanged ctx by' cur status reason a) = UuidGen a" "Drawn (statusChanged ctx by' cur status reason a) = Drawn a"
  "otp_challenges (statusChanged ctx by' cur status reason a) = otp_challenges a"
  by (simp_all add: roleChanged_def statusChanged_def updateUser_def RevokeAllForUser_def Let_def)

lemma admin_left:
  assumes "\<exists>u \<in> set (users a). isActiveSuperAdmin u" and "distinct (map U_id (users a))" and "cur \<in> set (users a)"
    and "\<not> (isActiveSuperAdmin cur \<and> \<not> isActiveSuperAdmin (f cur) \<and> otherActiveSuperAdmins a (U_id cur) = 0)"
  shows "\<exists>u \<in> set (update_where (\<lambda>u. U_id u = U_id cur) f (users a)). isActiveSuperAdmin u"
proof (cases "\<exists>u \<in> set (users a). isActiveSuperAdmin u \<and> U_id u \<noteq> U_id cur")
  case True
  then show ?thesis by (auto simp: set_update_where)
next
  case False
  then have "otherActiveSuperAdmins a (U_id cur) = 0" by (auto simp: otherActiveSuperAdmins_def filter_empty_conv)
  moreover have "u = cur" if "u \<in> set (users a)" "U_id u = U_id cur" for u
    using assms(2,3) that by (simp add: distinct_map inj_on_def)
  then have "isActiveSuperAdmin cur" using False assms(1) by blast
  ultimately show ?thesis using assms(3,4) by (auto simp: set_update_where)
qed

lemma ChangeRole_ok:
  assumes "accounts_ok env t a" and "t \<le> CtxNow ctx"
  shows "accounts_ok env (CtxNow ctx) (snd (ChangeRole env ctx by' uid newRole orgID reason a))"
  using ChangeRole_cases [of env ctx by' uid newRole orgID reason a]
proof (elim disjE bexE conjE)
  fix cur assume cur: "cur \<in> set (users a)" "U_id cur = uid" "orgScope newRole orgID"
    and g: "\<not> (isActiveSuperAdmin cur \<and> newRole \<noteq> ''super_admin'' \<and> otherActiveSuperAdmins a uid = 0)"
    and r: "snd (ChangeRole env ctx by' uid newRole orgID reason a) = roleChanged ctx by' cur newRole orgID reason a"
  let ?a = "roleChanged ctx by' cur newRole orgID reason a"
  have "sessions_ok (CtxNow ctx) ?a" by (rule sessions_ok_evolves [OF accounts_ok_parts(1) [OF assms(1)] evolves_roleChanged assms(2)])
  moreover have "users_ok env ?a"
    by (rule users_ok_keeps [OF accounts_ok_parts(2) [OF assms(1)] _ _ changed_users(1)]) (simp_all add: changed_frame cur(3))
  moreover have "otp_ok ?a" by (rule otp_ok_cong [of _ a]) (simp_all add: changed_frame accounts_ok_parts(3) [OF assms(1)])
  moreover have "\<exists>u \<in> set (users ?a). isActiveSuperAdmin u"
    unfolding changed_users
    by (rule admin_left) (use assms(1) cur g in \<open>auto simp: accounts_ok_def users_ok_def isActiveSuperAdmin_def\<close>)
  ultimately show ?thesis unfolding r accounts_ok_def by blast
qed (use accounts_ok_evolves [OF assms(1) quiet_refl evolves_refl assms(2)] in simp)

lemma SetUserStatus_ok:
  assumes "accounts_ok env t a" and "t \<le> CtxNow ctx"
  shows "accounts_ok env (CtxNow ctx) (snd (SetUserStatus env ctx by' uid status reason a))"
  using SetUserStatus_cases [of env ctx by' uid status reason a]
proof (elim disjE bexE conjE)
  fix cur assume cur: "cur \<in> set (users a)" "U_id cur = uid" "status \<in> {''active'', ''suspended''}"
    and g: "\<not> (isActiveSuperAdmin cur \<and> status = ''suspended'' \<and> otherActiveSuperAdmins a uid = 0)"
    and r: "snd (SetUserStatus env ctx by' uid status reason a) = statusChanged ctx by' cur status reason a"
  let ?a = "statusChanged ctx by' cur status reason a"
  have "sessions_ok (CtxNow ctx) ?a" by (rule sessions_ok_evolves [OF accounts_ok_parts(1) [OF assms(1)] evolves_statusChanged assms(2)])
  moreover have "users_ok env ?a"
    by (rule users_ok_keeps [OF accounts_ok_parts(2) [OF assms(1)] _ _ changed_users(2)]) (simp_all add: changed_frame)
  moreover have "otp_ok ?a" by (rule otp_ok_cong [of _ a]) (simp_all add: changed_frame accounts_ok_parts(3) [OF assms(1)])
  moreover have "\<exists>u \<in> set (users ?a). isActiveSuperAdmin u"
    unfolding changed_users
    by (rule admin_left) (use assms(1) cur g in \<open>auto simp: accounts_ok_def users_ok_def isActiveSuperAdmin_def\<close>)
  ultimately show ?thesis unfolding r accounts_ok_def by blast
qed (use accounts_ok_evolves [OF assms(1) quiet_refl evolves_refl assms(2)] in simp)


lemma CreateOrgWithOrganizer_cases:
  "(\<exists>e. CreateOrgWithOrganizer env ctx nm slug email name hash a = (Inl e, a))
   \<or> (\<exists>o'. (\<forall>v \<in> set (users a). PgLower env (U_email v) \<noteq> PgLower env email)
      \<and> CreateOrgWithOrganizer env ctx nm slug email name hash a = (Inr (orgWith 1 0 o'),
          a\<lparr>Drawn := Suc (Suc (Drawn a)), organizations := organizations a @ [o'],
            users := users a @ [newOrganizer ctx email name hash (UuidGen a (Drawn a)) (UuidGen a (Suc (Drawn a)))]\<rparr>))"
  by (auto simp: CreateOrgWithOrganizer_def gen_random_uuid_def Let_def)

lemma CreateOrg_cases:
  "snd (CreateOrg env ctx hash actor req a) = a
   \<or> (\<exists>o' u e. U_id u = UuidGen a (Suc (Drawn a)) \<and> orgScope (U_role u) (U_org_id u)
      \<and> (\<forall>v \<in> set (users a). PgLower env (U_email v) \<noteq> PgLower env (U_email u))
      \<and> snd (CreateOrg env ctx hash actor req a)
        = RecordTx ctx e (a\<lparr>Drawn := Suc (Suc (Drawn a)), organizations := organizations a @ [o'], users := users a @ [u]\<rparr>))"
proof -
  let ?slug = "if platformSlugify (CrSlug req) = [] then platformSlugify (CrOrgName req) else platformSlugify (CrSlug req)"
  let ?email = "Lowercase env (trimSpace (CrOrganizerEmail req))" and ?name = "trimSpace (CrOrganizerName req)"
  let ?r = "CreateOrgWithOrganizer env ctx (trimSpace (CrOrgName req)) ?slug ?email ?name hash a"
  let ?u = "newOrganizer ctx ?email ?name hash (UuidGen a (Drawn a)) (UuidGen a (Suc (Drawn a)))"
  have c: "CreateOrg env ctx hash actor req a = (case ?r of
           (Inl e, a) \<Rightarrow> (Inl e, a)
         | (Inr o', a) \<Rightarrow> (Inr o', RecordTx ctx (entry_zero\<lparr>ActorUserID := actor, OrgID := Some (O_id o'), Action := ''org.create'',
             TargetType := ''organization'', TargetID := uuid_str (O_id o'),
             Diff := Some [(''name'', DStr (O_name o')), (''organizer_email'', DStr (CrOrganizerEmail req))]\<rparr>) a))"
    by (simp add: CreateOrg_def Let_def)
  have u: "U_id ?u = UuidGen a (Suc (Drawn a))" "orgScope (U_role ?u) (U_org_id ?u)" "U_email ?u = ?email"
    by (simp_all add: newOrganizer_def orgScope_def)
  show ?thesis
    using CreateOrgWithOrganizer_cases [of env ctx "trimSpace (CrOrgName req)" ?slug ?email ?name hash a]
  proof (elim disjE exE conjE)
    fix o' assume "\<forall>v \<in> set (users a). PgLower env (U_email v) \<noteq> PgLower env ?email"
      "?r = (Inr (orgWith 1 0 o'), a\<lparr>Drawn := Suc (Suc (Drawn a)), organizations := organizations a @ [o'], users := users a @ [?u]\<rparr>)"
    then show ?thesis unfolding c using u by (intro disjI2 exI [of _ o'] exI [of _ ?u]) auto
  qed (simp add: c)
qed

lemma CreateOrg_ok:
  assumes "accounts_ok env t a" and "t \<le> CtxNow ctx"
  shows "accounts_ok env (CtxNow ctx) (snd (CreateOrg env ctx hash actor req a)) \<and> evolves a (snd (CreateOrg env ctx hash actor req a))"
  using CreateOrg_cases [of env ctx hash actor req a]
proof (elim disjE exE conjE)
  fix o' u e assume u: "U_id u = UuidGen a (Suc (Drawn a))" "orgScope (U_role u) (U_org_id u)"
      "\<forall>v \<in> set (users a). PgLower env (U_email v) \<noteq> PgLower env (U_email u)"
    and r: "snd (CreateOrg env ctx hash actor req a)
      = RecordTx ctx e (a\<lparr>Drawn := Suc (Suc (Drawn a)), organizations := organizations a @ [o'], users := users a @ [u]\<rparr>)" (is "_ = ?a")
  have ev: "evolves a ?a" by (auto simp: evolves_def hashes_distinct_def)
  have us: "users_ok env a" using accounts_ok_parts(2) [OF assms(1)] .
  then have "UuidGen a n \<noteq> UuidGen a (Suc (Drawn a))" if "Suc (Suc (Drawn a)) \<le> n" for n
    using that unfolding users_ok_def by (metis inj_eq not_less_eq_eq order_refl)
  then have "users_ok env ?a" using us u unfolding users_ok_def by (auto intro: Suc_leD)
  moreover have "otp_ok ?a" by (rule otp_ok_cong [of _ a]) (simp_all add: accounts_ok_parts(3) [OF assms(1)])
  moreover have "\<exists>u \<in> set (users ?a). isActiveSuperAdmin u" using accounts_ok_parts(4) [OF assms(1)] by auto
  ultimately show ?thesis unfolding r
    using sessions_ok_evolves [OF accounts_ok_parts(1) [OF assms(1)] ev assms(2)] ev by (simp add: accounts_ok_def)
qed (use accounts_ok_evolves [OF assms(1) quiet_refl evolves_refl assms(2)] in simp)

subsection \<open>Sessions sessionsKept\<close>

definition sessionsKept :: "accounts \<Rightarrow> accounts \<Rightarrow> bool" where
  "sessionsKept a a' \<longleftrightarrow> (\<forall>s \<in> set (auth_sessions a). \<exists>s' \<in> set (auth_sessions a'). keeps s s')"

lemma persist_evolves: "evolves a a' \<Longrightarrow> sessionsKept a a'"
  unfolding sessionsKept_def evolves_def using keeps_forth by metis

lemma persist_refl: "sessionsKept a a"
  by (rule persist_evolves) simp

lemma persist_trans: "sessionsKept a b \<Longrightarrow> sessionsKept b c \<Longrightarrow> sessionsKept a c"
  unfolding sessionsKept_def using keeps_trans by meson

lemma persist_append: "set (auth_sessions a) \<subseteq> set (auth_sessions a') \<Longrightarrow> sessionsKept a a'"
  unfolding sessionsKept_def using keeps_refl by blast

lemma CreateSession_sessions: "CreateSession ctx p a = (x, b) \<Longrightarrow> set (auth_sessions a) \<subseteq> set (auth_sessions b)"
  using CreateSession_cases [of ctx p a] by auto

lemma openSession_sessions: "set (auth_sessions a) \<subseteq> set (auth_sessions (snd (openSession env ctx raw user a)))"
  unfolding openSession_def
  by (simp split: prod.split sum.split) (use CreateSession_sessions in blast)

lemma persist_Login: "sessionsKept a (snd (Login env ctx raw email password a))"
proof (cases "snd (Login env ctx raw email password a) = a")
  case False
  then obtain user where "snd (Login env ctx raw email password a) = snd (openSession env ctx raw user a)
      \<or> snd (Login env ctx raw email password a) = TouchLastLogin ctx (U_id user) (snd (openSession env ctx raw user a))"
    by (auto simp: Login_def split: if_splits sum.splits option.splits prod.splits) (metis snd_conv)+
  then show ?thesis
    using persist_append [OF openSession_sessions] persist_trans [OF _ persist_evolves [OF evolves_TouchLastLogin]] by metis
qed (simp add: persist_refl)

lemma persist_StartImpersonation: "sessionsKept a (snd (StartImpersonation env ctx raw sid target reason a))"
  using StartImpersonation_cases [OF refl, of env ctx raw sid target reason a]
  by (elim disjE exE conjE) (auto intro!: persist_append)

lemma persist_VerifyAndSignIn:
  assumes "VerifyAndSignIn env ctx raw email code ip ua (l, a) = (res, l', a')"
  shows "sessionsKept a a' \<and> ((\<exists>u \<in> set (users a). isActiveSuperAdmin u) \<longrightarrow> (\<exists>u \<in> set (users a'). isActiveSuperAdmin u))"
proof (cases res)
  case (Inl e)
  have "auth_sessions a' = auth_sessions a \<and> users a' = users a"
    using VerifyAndSignIn_Inl [OF assms [unfolded Inl]] by (auto simp: RecordFailure_frame)
  then show ?thesis by (auto intro: persist_append)
next
  case (Inr r)
  obtain pair u where r: "r = (pair, u)" by (cases r)
  obtain i ch where sg: "signInTx env ctx raw ip ua ch i a = (Inr (pair, u), a')"
    using VerifyAndSignIn_Inr [OF assms [unfolded Inr r] refl] by metis
  from signInTx_Inr [OF sg] obtain a1 s where t: "upsertFromInvitation env ctx i (Consume ctx (Oc_id ch) a) = (Inr u, a1)"
      "auth_sessions a' = auth_sessions a @ [s]" "users a' = users (TouchLastLogin ctx (U_id u) a1)" by metis
  have "set (users a) \<subseteq> set (users a1)" using upsertFromInvitation_Inr [OF t(1)] by (auto simp: Consume_def)
  moreover have "list_all2 touched (users a1) (users (TouchLastLogin ctx (U_id u) a1))"
    using quiet_TouchLastLogin [of a1] by (simp add: quiet_def)
  ultimately show ?thesis using t(2,3) admin_touched [of a1 "TouchLastLogin ctx (U_id u) a1"]
    by (auto intro!: persist_append)
qed

lemma persist_RequestOTP:
  assumes "RequestOTP env sendOTP ctx code p (l, a) = (e, l', a')"
  shows "auth_sessions a' = auth_sessions a \<and> users a' = users a"
proof -
  obtain b where b: "b = a \<or> (\<exists>c q. b = snd (Issue env ctx c q a))" "a' = b \<or> (\<exists>x. a' = RecordTx ctx x b)"
    using RequestOTP_shape [OF assms] by blast
  then show ?thesis by (auto simp: Issue_def gen_random_uuid_def Let_def)
qed


subsection \<open>Runs\<close>

inductive account_step ::
  "env \<Rightarrow> (string \<Rightarrow> string \<Rightarrow> bool) \<Rightarrow> (string \<Rightarrow> string \<Rightarrow> bool) \<Rightarrow> gotime \<times> limiter \<times> accounts \<Rightarrow> gotime \<times> limiter \<times> accounts \<Rightarrow> bool"
  for env sendOTP send where
  login: "t \<le> CtxNow ctx \<Longrightarrow> account_step env sendOTP send (t, l, a) (CtxNow ctx, l, snd (Login env ctx raw email password a))"
| refresh: "t \<le> CtxNow ctx \<Longrightarrow> account_step env sendOTP send (t, l, a) (CtxNow ctx, l, snd (Refresh env ctx raw token a))"
| logout: "t \<le> CtxNow ctx \<Longrightarrow> account_step env sendOTP send (t, l, a) (CtxNow ctx, l, Logout ctx sid a)"
| logout_by_token: "t \<le> CtxNow ctx \<Longrightarrow> account_step env sendOTP send (t, l, a) (CtxNow ctx, l, snd (LogoutByRefreshToken env ctx token a))"
| start: "t \<le> CtxNow ctx \<Longrightarrow> account_step env sendOTP send (t, l, a) (CtxNow ctx, l, snd (StartImpersonation env ctx raw sid uid reason a))"
| exit: "t \<le> CtxNow ctx \<Longrightarrow> account_step env sendOTP send (t, l, a) (CtxNow ctx, l, snd (ExitImpersonation env ctx raw sid a))"
| request: "t \<le> CtxNow ctx \<Longrightarrow> RequestOTP env sendOTP ctx code rp (l, a) = (e, l', a')
    \<Longrightarrow> account_step env sendOTP send (t, l, a) (CtxNow ctx, l', a')"
| verify: "t \<le> CtxNow ctx \<Longrightarrow> VerifyAndSignIn env ctx raw email code ip ua (l, a) = (res, l', a')
    \<Longrightarrow> account_step env sendOTP send (t, l, a) (CtxNow ctx, l', a')"
| role: "t \<le> CtxNow ctx \<Longrightarrow> account_step env sendOTP send (t, l, a) (CtxNow ctx, l, snd (ChangeRole env ctx by' uid newRole org reason a))"
| status: "t \<le> CtxNow ctx \<Longrightarrow> account_step env sendOTP send (t, l, a) (CtxNow ctx, l, snd (SetUserStatus env ctx by' uid st reason a))"
| invite: "t \<le> CtxNow ctx \<Longrightarrow> account_step env sendOTP send (t, l, a) (CtxNow ctx, l, snd (CreateInvitation env ctx send by' cp a))"
| resend: "t \<le> CtxNow ctx \<Longrightarrow> account_step env sendOTP send (t, l, a) (CtxNow ctx, l, snd (ResendInvitation ctx send by' iid a))"
| withdraw: "t \<le> CtxNow ctx \<Longrightarrow> account_step env sendOTP send (t, l, a) (CtxNow ctx, l, snd (WithdrawInvitation env ctx by' iid reason a))"
| org: "t \<le> CtxNow ctx \<Longrightarrow> account_step env sendOTP send (t, l, a) (CtxNow ctx, l, snd (CreateOrg env ctx hash actor req a))"
| force: "t \<le> CtxNow ctx \<Longrightarrow> account_step env sendOTP send (t, l, a) (CtxNow ctx, l, snd (ForceTournament ctx by' tid action reason a))"

text \<open>A state in order whose sessions descend from those of \<open>a0\<close>.\<close>

definition accounts_run :: "env \<Rightarrow> accounts \<Rightarrow> gotime \<times> limiter \<times> accounts \<Rightarrow> bool" where
  "accounts_run env a0 s \<longleftrightarrow> (case s of (t, l, a) \<Rightarrow> accounts_ok env t a \<and> sessionsKept a0 a)"

lemma runI:
  assumes "accounts_run env a0 (t, l, a)" and "accounts_ok env t' a'" and "sessionsKept a a'"
  shows "accounts_run env a0 (t', l', a')"
  using assms persist_trans by (auto simp: accounts_run_def)

lemma run_evolves:
  assumes "accounts_run env a0 (t, l, a)" and "quiet a a'" and "evolves a a'" and "t \<le> t'"
  shows "accounts_run env a0 (t', l', a')"
  by (rule runI [OF assms(1) accounts_ok_evolves [OF _ assms(2-4)] persist_evolves [OF assms(3)]])
    (use assms(1) in \<open>simp add: accounts_run_def\<close>)

lemma account_step_run:
  assumes "account_step env sendOTP send s s'" and "accounts_run env a0 s"
  shows "accounts_run env a0 s'"
  using assms(1)
proof (cases rule: account_step.cases)
  case (login t ctx l a raw email password)
  have r: "accounts_run env a0 (t, l, a)" using assms(2) login by simp
  then have ok: "accounts_ok env t a" by (simp add: accounts_run_def)
  show ?thesis unfolding login(2)
    by (rule runI [OF r accounts_ok_quiet [OF ok quiet_Login Login_ok [OF accounts_ok_parts(1) [OF ok] login(3) refl]] persist_Login])
next
  case (refresh t ctx l a raw token)
  have r: "accounts_run env a0 (t, l, a)" using assms(2) refresh by simp
  then have ok: "accounts_ok env t a" by (simp add: accounts_run_def)
  show ?thesis unfolding refresh(2)
    by (rule run_evolves [OF r quiet_Refresh evolves_Refresh [OF accounts_ok_parts(5) [OF ok] refl] refresh(3)])
next
  case (logout t ctx l a sid)
  have r: "accounts_run env a0 (t, l, a)" using assms(2) logout by simp
  show ?thesis unfolding logout(2) by (rule run_evolves [OF r quiet_Logout evolves_Logout logout(3)])
next
  case (logout_by_token t ctx l a token)
  have r: "accounts_run env a0 (t, l, a)" using assms(2) logout_by_token by simp
  show ?thesis unfolding logout_by_token(2) by (rule run_evolves [OF r quiet_LogoutByRefreshToken evolves_LogoutByRefreshToken logout_by_token(3)])
next
  case (start t ctx l a raw sid uid reason)
  have r: "accounts_run env a0 (t, l, a)" using assms(2) start by simp
  then have ok: "accounts_ok env t a" by (simp add: accounts_run_def)
  show ?thesis unfolding start(2)
    by (rule runI [OF r accounts_ok_quiet [OF ok quiet_StartImpersonation StartImpersonation_ok [OF accounts_ok_parts(1) [OF ok] start(3) refl]]
        persist_StartImpersonation])
next
  case (exit t ctx l a raw sid)
  have r: "accounts_run env a0 (t, l, a)" using assms(2) exit by simp
  then have ok: "accounts_ok env t a" by (simp add: accounts_run_def)
  show ?thesis unfolding exit(2)
    by (rule run_evolves [OF r quiet_ExitImpersonation evolves_ExitImpersonation [OF accounts_ok_parts(5) [OF ok] refl] exit(3)])
next
  case (request t ctx code rp l a e l' a')
  have r: "accounts_run env a0 (t, l, a)" using assms(2) request by simp
  then have ok: "accounts_ok env t a" by (simp add: accounts_run_def)
  have same: "auth_sessions a' = auth_sessions a" "users a' = users a" using persist_RequestOTP [OF request(4)] by auto
  then have "accounts_ok env (CtxNow ctx) a'"
    using RequestOTP_ok [OF accounts_ok_parts(1-3) [OF ok] request(3,4)] accounts_ok_parts(4) [OF ok] by (simp add: accounts_ok_def)
  then show ?thesis unfolding request(2) by (rule runI [OF r]) (rule persist_append, simp add: same)
next
  case (verify t ctx raw email code ip ua l a res l' a')
  have r: "accounts_run env a0 (t, l, a)" using assms(2) verify by simp
  then have ok: "accounts_ok env t a" by (simp add: accounts_run_def)
  have "accounts_ok env (CtxNow ctx) a'"
    using VerifyAndSignIn_ok [OF accounts_ok_parts(1-3) [OF ok] verify(3,4)] persist_VerifyAndSignIn [OF verify(4)] accounts_ok_parts(4) [OF ok]
    by (simp add: accounts_ok_def)
  then show ?thesis unfolding verify(2) by (rule runI [OF r]) (use persist_VerifyAndSignIn [OF verify(4)] in simp)
next
  case (role t ctx l a by' uid newRole org reason)
  have r: "accounts_run env a0 (t, l, a)" using assms(2) role by simp
  then have ok: "accounts_ok env t a" by (simp add: accounts_run_def)
  have "sessionsKept a (snd (ChangeRole env ctx by' uid newRole org reason a))"
    using ChangeRole_cases [of env ctx by' uid newRole org reason a] persist_refl persist_evolves [OF evolves_roleChanged] by metis
  then show ?thesis unfolding role(2) by (rule runI [OF r ChangeRole_ok [OF ok role(3)]])
next
  case (status t ctx l a by' uid st reason)
  have r: "accounts_run env a0 (t, l, a)" using assms(2) status by simp
  then have ok: "accounts_ok env t a" by (simp add: accounts_run_def)
  have "sessionsKept a (snd (SetUserStatus env ctx by' uid st reason a))"
    using SetUserStatus_cases [of env ctx by' uid st reason a] persist_refl persist_evolves [OF evolves_statusChanged] by metis
  then show ?thesis unfolding status(2) by (rule runI [OF r SetUserStatus_ok [OF ok status(3)]])
next
  case (invite t ctx l a by' cp)
  have r: "accounts_run env a0 (t, l, a)" using assms(2) invite by simp
  show ?thesis unfolding invite(2) by (rule run_evolves [OF r quiet_CreateInvitation [THEN conjunct1] quiet_CreateInvitation [THEN conjunct2] invite(3)])
next
  case (resend t ctx l a by' iid)
  have r: "accounts_run env a0 (t, l, a)" using assms(2) resend by simp
  show ?thesis unfolding resend(2) by (rule run_evolves [OF r quiet_ResendInvitation [THEN conjunct1] quiet_ResendInvitation [THEN conjunct2] resend(3)])
next
  case (withdraw t ctx l a by' iid reason)
  have r: "accounts_run env a0 (t, l, a)" using assms(2) withdraw by simp
  show ?thesis unfolding withdraw(2) by (rule run_evolves [OF r quiet_WithdrawInvitation [THEN conjunct1] quiet_WithdrawInvitation [THEN conjunct2] withdraw(3)])
next
  case (org t ctx l a hash actor req)
  have r: "accounts_run env a0 (t, l, a)" using assms(2) org by simp
  then have ok: "accounts_ok env t a" by (simp add: accounts_run_def)
  note org_ok = CreateOrg_ok [OF ok org(3), of hash actor req]
  show ?thesis unfolding org(2) by (rule runI [OF r org_ok [THEN conjunct1] persist_evolves [OF org_ok [THEN conjunct2]]])
next
  case (force t ctx l a by' tid action reason)
  have r: "accounts_run env a0 (t, l, a)" using assms(2) force by simp
  show ?thesis unfolding force(2) by (rule run_evolves [OF r quiet_ForceTournament [THEN conjunct1] quiet_ForceTournament [THEN conjunct2] force(3)])
qed

interpretation accountRuns: transitions "account_step env sendOTP send" "accounts_run env a0" for env sendOTP send a0
  by unfold_locales (rule account_step_run)

lemma run_from:
  assumes "(account_step env sendOTP send)\<^sup>*\<^sup>* (t, l, a) (t', l', a')" and "accounts_ok env t a"
  shows "accounts_ok env t' a' \<and> sessionsKept a a'"
  using accountRuns.run_inv [OF assms(1), of a] assms(2) persist_refl by (simp add: accounts_run_def)



subsection \<open>What was signed out stays out\<close>

lemma revoked_not_live: "sessions_ok t a \<Longrightarrow> s \<in> set (auth_sessions a) \<Longrightarrow> As_revoked_at s \<noteq> None
  \<Longrightarrow> r \<in> set (auth_sessions a) \<Longrightarrow> liveAt now r \<Longrightarrow> As_id r \<noteq> As_id s"
  using session_by_id by (fastforce simp: liveAt_def)

lemma revoked_locked_out:
  assumes "accounts_ok env t a" and "s \<in> set (auth_sessions a)" and "As_revoked_at s \<noteq> None"
    and "(account_step env sendOTP send)\<^sup>*\<^sup>* (t, l, a) (t', l', a')"
  shows "VerifyAccessToken env later a' raw = Inr c \<Longrightarrow> ClSessionID c \<noteq> As_id s"
    and "Rotate env later n raw a' = (Inr (r, tok), a'') \<Longrightarrow> As_id r \<noteq> As_id s"
proof -
  have ok: "accounts_ok env t' a'" and p: "sessionsKept a a'" using run_from [OF assms(4,1)] by auto
  obtain s' where s': "s' \<in> set (auth_sessions a')" "keeps s s'" using p assms(2) unfolding sessionsKept_def by blast
  then have "As_revoked_at s' \<noteq> None" "As_id s' = As_id s" using assms(3) by (auto simp: keeps_def)
  then have dead: "As_id r \<noteq> As_id s" if "r \<in> set (auth_sessions a')" "liveAt now r" for r now
    using revoked_not_live [OF accounts_ok_parts(1) [OF ok] s'(1) _ that] by simp
  have d: "distinct (map U_id (users a'))" using accounts_ok_parts(2) [OF ok] by (simp add: users_ok_def)
  show "ClSessionID c \<noteq> As_id s" if "VerifyAccessToken env later a' raw = Inr c"
    using that dead unfolding VerifyAccessToken_iff [OF accounts_ok_parts(5) [OF ok] d] by auto
  show "As_id r \<noteq> As_id s" if "Rotate env later n raw a' = (Inr (r, tok), a'')" using Rotate_Inr [OF that] dead by auto
qed

text \<open>The sessions a sign-out of \<open>sid\<close> ends: itself, its impersonations, and the session it was started from.\<close>

definition endsWith :: "ctx \<Rightarrow> accounts \<Rightarrow> uuid \<Rightarrow> session_row \<Rightarrow> bool" where
  "endsWith ctx a sid s \<longleftrightarrow> As_id s = sid \<or> As_parent s = Some sid
     \<or> (\<exists>r \<in> set (auth_sessions a). As_id r = sid \<and> liveAt (CtxNow ctx) r \<and> As_parent r = Some (As_id s))"

lemma revoked_by_update:
  assumes "s \<in> set t" and "P s \<or> As_revoked_at s \<noteq> None"
  shows "\<exists>s' \<in> set (update_where (\<lambda>s. P s \<and> As_revoked_at s = None) (endSession ctx reason) t). As_id s' = As_id s \<and> As_revoked_at s' \<noteq> None"
proof (cases "As_revoked_at s = None")
  case True
  then have "endSession ctx reason s \<in> set (update_where (\<lambda>s. P s \<and> As_revoked_at s = None) (endSession ctx reason) t)"
    using assms by (auto simp: set_update_where)
  then show ?thesis by (rule bexI [rotated]) (simp add: endSession_def)
next
  case False
  then have "s \<in> set (update_where (\<lambda>s. P s \<and> As_revoked_at s = None) (endSession ctx reason) t)"
    using assms(1) by (auto simp: set_update_where)
  then show ?thesis by (rule bexI [rotated]) (simp add: False)
qed

definition revokedIn :: "accounts \<Rightarrow> uuid \<Rightarrow> bool" where
  "revokedIn a sid \<longleftrightarrow> (\<exists>s \<in> set (auth_sessions a). As_id s = sid \<and> As_revoked_at s \<noteq> None)"

lemma revokedIn_evolves: "revokedIn a sid \<Longrightarrow> evolves a a' \<Longrightarrow> revokedIn a' sid"
  unfolding revokedIn_def using persist_evolves by (fastforce simp: sessionsKept_def keeps_def)

lemma revokedIn_Revoke: "s \<in> set (auth_sessions a) \<Longrightarrow> revokedIn (Revoke ctx (As_id s) reason a) (As_id s)"
  unfolding revokedIn_def Revoke_def using revoked_by_update [of s "auth_sessions a" "\<lambda>r. As_id r = As_id s"] by simp

lemma revokedIn_RevokeChildren:
  "s \<in> set (auth_sessions a) \<Longrightarrow> As_parent s = Some p \<Longrightarrow> revokedIn (RevokeChildren ctx p reason a) (As_id s)"
  unfolding revokedIn_def RevokeChildren_def using revoked_by_update [of s "auth_sessions a" "\<lambda>r. As_parent r = Some p"] by simp

lemma revokedIn_RevokeAllForUser:
  "s \<in> set (auth_sessions a) \<Longrightarrow> As_user_id s = uid \<or> As_actor_user_id s = Some uid \<Longrightarrow> revokedIn (RevokeAllForUser ctx uid reason a) (As_id s)"
  using revoked_by_update [of s "auth_sessions a" "\<lambda>r. As_user_id r = uid \<or> As_actor_user_id r = Some uid" ctx reason]
  by (auto simp: revokedIn_def RevokeAllForUser_def conj_commute)

lemma Logout_revokes:
  assumes "accounts_ok env t a" and "s \<in> set (auth_sessions a)" and "endsWith ctx a sid s" and "sid \<noteq> uuid_Nil"
  shows "revokedIn (Logout ctx sid a) (As_id s)"
proof -
  define b where "b = (case FindActive ctx a sid of
                Inr sess \<Rightarrow> (case As_parent sess of
                    Some p \<Rightarrow> if IsImpersonation sess then Revoke ctx p ''logout'' a else a
                  | None \<Rightarrow> a)
              | Inl _ \<Rightarrow> a)"
  have L: "Logout ctx sid a = Revoke ctx sid ''logout'' (RevokeChildren ctx sid ''parent_logout'' b)"
    using assms(4) by (simp add: Logout_def b_def Let_def)
  have eb: "evolves a b" by (auto simp: b_def evolves_Revoke split: sum.split option.split)
  have eL: "evolves b (Logout ctx sid a)" unfolding L by (rule evolves_trans [OF evolves_RevokeChildren evolves_Revoke])
  obtain s' where s': "s' \<in> set (auth_sessions b)" "keeps s s'" using persist_evolves [OF eb] assms(2) by (auto simp: sessionsKept_def)
  consider (self) "As_id s = sid" | (child) "As_parent s = Some sid"
    | (parent) r where "r \<in> set (auth_sessions a)" "As_id r = sid" "liveAt (CtxNow ctx) r" "As_parent r = Some (As_id s)"
    using assms(3) unfolding endsWith_def by blast
  then show ?thesis
  proof cases
    case self
    have e: "evolves a (RevokeChildren ctx sid ''parent_logout'' b)" by (rule evolves_trans [OF eb evolves_RevokeChildren])
    obtain r where "r \<in> set (auth_sessions (RevokeChildren ctx sid ''parent_logout'' b))" "As_id r = As_id s"
      using persist_evolves [OF e] assms(2) by (auto simp: sessionsKept_def keeps_def)
    then show ?thesis using revokedIn_Revoke [of r "RevokeChildren ctx sid ''parent_logout'' b" ctx "''logout''"] self by (simp add: L)
  next
    case child
    then have "revokedIn (RevokeChildren ctx sid ''parent_logout'' b) (As_id s)"
      using revokedIn_RevokeChildren [OF s'(1), of sid] s'(2) by (simp add: keeps_def)
    then show ?thesis unfolding L by (rule revokedIn_evolves [OF _ evolves_Revoke])
  next
    case parent
    have "sessionShape r" using accounts_ok_parts(1) [OF assms(1)] parent(1) by (auto simp: sessions_ok_def)
    then have "IsImpersonation r" using parent(4) by (auto simp: sessionShape_def IsImpersonation_def)
    moreover have "FindActive ctx a sid = Inr r" using FindActive_iff [OF accounts_ok_parts(5) [OF assms(1)]] parent by blast
    ultimately have "b = Revoke ctx (As_id s) ''logout'' a" using parent(4) by (simp add: b_def)
    then have "revokedIn b (As_id s)" using revokedIn_Revoke [OF assms(2)] by simp
    then show ?thesis by (rule revokedIn_evolves [OF _ eL])
  qed
qed

lemma suspension_revokes:
  assumes "s \<in> set (auth_sessions a)" and "As_user_id s = U_id cur \<or> As_actor_user_id s = Some (U_id cur)"
  shows "revokedIn (statusChanged ctx by' cur ''suspended'' reason a) (As_id s)"
  using revokedIn_RevokeAllForUser [of s "updateUser (U_id cur) (U_status_update (\<lambda>_. ''suspended'')) a" "U_id cur" ctx "''suspended''"] assms
  by (simp add: statusChanged_def Let_def updateUser_def revokedIn_def)

lemma lastAdmin:
  assumes "distinct (map U_id (users a))" and "u \<in> set (users a)"
  shows "otherActiveSuperAdmins a (U_id u) = 0 \<longleftrightarrow> (\<forall>v \<in> set (users a). isActiveSuperAdmin v \<longrightarrow> v = u)"
proof -
  have "v = u" if "v \<in> set (users a)" "U_id v = U_id u" for v using assms that by (auto simp: distinct_map inj_on_def)
  then show ?thesis by (auto simp: otherActiveSuperAdmins_def filter_empty_conv)
qed

lemma SetUserStatus_suspends:
  assumes "distinct (map U_id (users a))" and "u \<in> set (users a)" and "IsActiveUser u"
  shows "SetUserStatus env ctx by' (U_id u) ''suspended'' reason a =
    (if isActiveSuperAdmin u \<and> otherActiveSuperAdmins a (U_id u) = 0 then (Inl ErrLastSuperAdmin, a)
     else (GetUser env (statusChanged ctx by' u ''suspended'' reason a) (U_id u), statusChanged ctx by' u ''suspended'' reason a))"
proof -
  have f: "List.find (\<lambda>x. U_id x = U_id u) (users a) = Some u" by (rule find_by_key [OF assms(1,2)])
  show ?thesis using assms(3) by (simp add: SetUserStatus_def f IsActiveUser_def statusChanged_def Let_def)
qed

lemma ChangeRole_last:
  assumes "distinct (map U_id (users a))" and "u \<in> set (users a)" and "isActiveSuperAdmin u" and "otherActiveSuperAdmins a (U_id u) = 0"
  shows "ChangeRole env ctx by' (U_id u) ''organizer'' (Some g) reason a = (Inl ErrLastSuperAdmin, a)"
proof -
  have f: "List.find (\<lambda>x. U_id x = U_id u) (users a) = Some u" by (rule find_by_key [OF assms(1,2)])
  show ?thesis using assms(3,4) by (simp add: ChangeRole_def f)
qed

text \<open>C36. Signing out and suspension are final. After a sign-out the session, every impersonation opened
  from it and, when it is a live impersonation, the admin's own session are out; after a suspension
  that went through, so are all sessions of the account and all it was acting in. Whatever the
  handlers do afterwards, and even if the account is reactivated, no access token of such a session is
  accepted again and no refresh token renews it.\<close>

theorem signed_out_stays_out:
  assumes "accounts_ok env t a" and "t \<le> CtxNow ctx" and "s \<in> set (auth_sessions a)"
    and out: "(sid \<noteq> uuid_Nil \<and> a1 = Logout ctx sid a \<and> endsWith ctx a sid s)
      \<or> (SetUserStatus env ctx by' uid ''suspended'' reason a = (Inr v, a1) \<and> (\<exists>u \<in> set (users a). U_id u = uid \<and> IsActiveUser u)
         \<and> (As_user_id s = uid \<or> As_actor_user_id s = Some uid))"
    and run: "(account_step env sendOTP send)\<^sup>*\<^sup>* (CtxNow ctx, l, a1) (t', l', a')"
  shows "(\<forall>later raw c. VerifyAccessToken env later a' raw = Inr c \<longrightarrow> ClSessionID c \<noteq> As_id s)
    \<and> (\<forall>later n raw r tok a''. Rotate env later n raw a' = (Inr (r, tok), a'') \<longrightarrow> As_id r \<noteq> As_id s)"
proof -
  consider (logout) "sid \<noteq> uuid_Nil" "a1 = Logout ctx sid a" "endsWith ctx a sid s"
    | (suspended) u where "SetUserStatus env ctx by' uid ''suspended'' reason a = (Inr v, a1)" "u \<in> set (users a)" "U_id u = uid" "IsActiveUser u"
        "As_user_id s = uid \<or> As_actor_user_id s = Some uid"
    using out by blast
  then have "accounts_ok env (CtxNow ctx) a1 \<and> revokedIn a1 (As_id s)"
  proof cases
    case logout
    then show ?thesis using Logout_revokes [OF assms(1,3)] accounts_ok_evolves [OF assms(1) quiet_Logout evolves_Logout assms(2)] by simp
  next
    case suspended
    have d: "distinct (map U_id (users a))" using accounts_ok_parts(2) [OF assms(1)] by (simp add: users_ok_def)
    have a1: "snd (SetUserStatus env ctx by' uid ''suspended'' reason a) = a1" using suspended(1) by simp
    have "a1 = statusChanged ctx by' u ''suspended'' reason a"
      using SetUserStatus_suspends [OF d suspended(2,4), of env ctx by' reason] suspended(1,3) by (simp split: if_splits)
    then show ?thesis
      using suspension_revokes [OF assms(3), of u] suspended(3,5) SetUserStatus_ok [OF assms(1,2), of by' uid "''suspended''" reason] a1 by simp
  qed
  then obtain s1 where "accounts_ok env (CtxNow ctx) a1" "s1 \<in> set (auth_sessions a1)" "As_revoked_at s1 \<noteq> None" "As_id s1 = As_id s"
    by (auto simp: revokedIn_def)
  then show ?thesis using revoked_locked_out [OF _ _ _ run] by metis
qed

subsection \<open>The last super admin\<close>

text \<open>C39. The platform is never locked out. Whatever the handlers do, some super admin is active; and
  when one admin is left, demoting or suspending that account is refused and changes nothing, while
  with another active admin a suspension goes through.\<close>

theorem platform_keeps_an_admin:
  assumes "accounts_ok env t a" and "(account_step env sendOTP send)\<^sup>*\<^sup>* (t, l, a) (t', l', a')"
  shows "(\<exists>v \<in> set (users a'). isActiveSuperAdmin v)
    \<and> (\<forall>u \<in> set (users a'). isActiveSuperAdmin u \<longrightarrow>
        ((\<forall>v \<in> set (users a'). isActiveSuperAdmin v \<longrightarrow> v = u) \<longrightarrow>
          ChangeRole env ctx by' (U_id u) ''organizer'' (Some g) reason a' = (Inl ErrLastSuperAdmin, a')
          \<and> SetUserStatus env ctx by' (U_id u) ''suspended'' reason a' = (Inl ErrLastSuperAdmin, a'))
        \<and> ((\<exists>v \<in> set (users a'). isActiveSuperAdmin v \<and> v \<noteq> u) \<longrightarrow>
          snd (SetUserStatus env ctx by' (U_id u) ''suspended'' reason a') = statusChanged ctx by' u ''suspended'' reason a'))"
proof (intro conjI ballI impI)
  have ok: "accounts_ok env t' a'" using run_from [OF assms(2,1)] by blast
  have d: "distinct (map U_id (users a'))" using accounts_ok_parts(2) [OF ok] by (simp add: users_ok_def)
  show "\<exists>v \<in> set (users a'). isActiveSuperAdmin v" by (rule accounts_ok_parts(4) [OF ok])
  fix u assume u: "u \<in> set (users a')" and admin: "isActiveSuperAdmin u"
  have act: "IsActiveUser u" using admin by (simp add: IsActiveUser_def isActiveSuperAdmin_def)
  note suspend = SetUserStatus_suspends [OF d u act, of env ctx by' reason]
  show "snd (SetUserStatus env ctx by' (U_id u) ''suspended'' reason a') = statusChanged ctx by' u ''suspended'' reason a'"
    if "\<exists>v \<in> set (users a'). isActiveSuperAdmin v \<and> v \<noteq> u"
    using suspend that lastAdmin [OF d u] by auto
  assume "\<forall>v \<in> set (users a'). isActiveSuperAdmin v \<longrightarrow> v = u"
  then have 0: "otherActiveSuperAdmins a' (U_id u) = 0" using lastAdmin [OF d u] by blast
  show "ChangeRole env ctx by' (U_id u) ''organizer'' (Some g) reason a' = (Inl ErrLastSuperAdmin, a')"
    by (rule ChangeRole_last [OF d u admin 0])
  show "SetUserStatus env ctx by' (U_id u) ''suspended'' reason a' = (Inl ErrLastSuperAdmin, a')"
    using suspend 0 admin by simp
qed

subsection \<open>An example run\<close>

lemma exAccounts_run_ok: "accounts_ok exEnv 5 exSignIn"
proof -
  have "sessions_ok 5 exSignIn" using sessions_ok_cong [of exSignIn exAccounts 5] exAccounts_ok(1) by (simp add: exSignIn_def)
  moreover have "exUser 1 ''a@x.y'' ''super_admin'' None \<in> set (users exSignIn)" by (simp add: exSignIn_def exAccounts_def)
  then have "\<exists>u \<in> set (users exSignIn). isActiveSuperAdmin u" by (rule bexI [rotated]) (simp add: isActiveSuperAdmin_def exUser_def)
  ultimately show ?thesis using exSignIn_ok by (simp add: accounts_ok_def)
qed

lemma exLogout_step:
  "(account_step exEnv sendOTP send)\<^sup>*\<^sup>* (5, l, exSignIn) (6, l, Logout (exCtx 6) 12 exSignIn)"
proof -
  have "account_step exEnv sendOTP send (5, l, exSignIn) (CtxNow (exCtx 6), l, Logout (exCtx 6) 12 exSignIn)"
    by (rule account_step.logout) (simp add: exCtx_def)
  then show ?thesis by (simp add: exCtx_def r_into_rtranclp)
qed

lemma exLogout_users: "users (Logout (exCtx 6) 12 exSignIn) = users exSignIn"
  by (simp add: Logout_def Let_def Revoke_def RevokeChildren_def split: sum.split option.split)


theorem signed_out_stays_out_witness:
  "\<not> (\<exists>c. VerifyAccessToken exEnv (exCtx 7) (Logout (exCtx 6) 12 exSignIn) ''t'' = Inr c \<and> ClSessionID c = 12)"
proof -
  have s: "exSession 12 2 (Some (1, 11)) ''h2'' \<in> set (auth_sessions exSignIn)" by (simp add: exSignIn_def exAccounts_def)
  have t: "5 \<le> CtxNow (exCtx 6)" by (simp add: exCtx_def)
  have e: "endsWith (exCtx 6) exSignIn 12 (exSession 12 2 (Some (1, 11)) ''h2'')" by (simp add: endsWith_def exSession_def)
  have "(12::uuid) \<noteq> uuid_Nil" by (simp add: uuid_Nil_def)
  with e have o: "(12 \<noteq> uuid_Nil \<and> Logout (exCtx 6) 12 exSignIn = Logout (exCtx 6) 12 exSignIn \<and> endsWith (exCtx 6) exSignIn 12 (exSession 12 2 (Some (1, 11)) ''h2''))
      \<or> (SetUserStatus exEnv (exCtx 6) exBy 12 ''suspended'' None exSignIn = (Inr undefined, Logout (exCtx 6) 12 exSignIn)
         \<and> (\<exists>u \<in> set (users exSignIn). U_id u = 12 \<and> IsActiveUser u)
         \<and> (As_user_id (exSession 12 2 (Some (1, 11)) ''h2'') = 12 \<or> As_actor_user_id (exSession 12 2 (Some (1, 11)) ''h2'') = Some 12))"
    by simp
  from signed_out_stays_out [OF exAccounts_run_ok t s o rtranclp.rtrancl_refl]
  show ?thesis by (auto simp: exSession_def)
qed

theorem platform_keeps_an_admin_witness:
  "SetUserStatus exEnv (exCtx 7) exBy 1 ''suspended'' None (Logout (exCtx 6) 12 exSignIn)
    = (Inl ErrLastSuperAdmin, Logout (exCtx 6) 12 exSignIn)"
proof -
  let ?u = "exUser 1 ''a@x.y'' ''super_admin'' None"
  have u: "?u \<in> set (users (Logout (exCtx 6) 12 exSignIn))" unfolding exLogout_users by (simp add: exSignIn_def exAccounts_def)
  have a: "isActiveSuperAdmin ?u" by (simp add: isActiveSuperAdmin_def exUser_def)
  have "\<forall>v \<in> set (users (Logout (exCtx 6) 12 exSignIn)). isActiveSuperAdmin v \<longrightarrow> v = ?u"
    unfolding exLogout_users by (auto simp: exSignIn_def exAccounts_def isActiveSuperAdmin_def exUser_def)
  then have "SetUserStatus exEnv (exCtx 7) exBy (U_id ?u) ''suspended'' None (Logout (exCtx 6) 12 exSignIn)
    = (Inl ErrLastSuperAdmin, Logout (exCtx 6) 12 exSignIn)"
    using platform_keeps_an_admin [OF exAccounts_run_ok exLogout_step [of "\<lambda>_ _. True" "\<lambda>_ _. True" NewLimiter]] u a by blast
  then show ?thesis by (simp add: exUser_def)
qed

end
