(* ===== verification/Cleanup.thy ===== *)
theory Cleanup
  imports DrawBuild
begin

section \<open>Reversible removal of known rows (cmd/cleanup)\<close>

text \<open>
  The maintenance command that archives a fixed list of fixtures and can put them back. \<open>run\<close> without
  a flag reports, \<open>-archive\<close> snapshots and deletes, \<open>-restore\<close> re-inserts. The table
  \<open>cleanup_archive\<close> stands beside the database, as far as it concerns rows of \<open>matches\<close>; a payload is
  the rows it was built from. An \<open>INSERT\<close> of an archived row checks the foreign keys of the row and
  the uniqueness of (match, slot).
\<close>

subsection \<open>The targets and their fingerprint\<close>

record target =
  TgMatchID :: uuid
  TgMatchNo :: int

definition womensEventID :: uuid where
  "womensEventID = 0xc052ae2296ea43269e75072340e25e91"

definition targets :: "target list" where
  "targets = map (\<lambda>(i, n). \<lparr>TgMatchID = i, TgMatchNo = n\<rparr>)
    [(0x3abab90f0d3741cbabf46e851157e663, 1), (0xcc43227a9ab841e0a8d33397479c3cfb, 2),
     (0xb4d1a57cdede4df182c1b4e17273742e, 3), (0x1fc7b864904149a7a75194267f6ff800, 4),
     (0xd8c05eabeb96416984e10596a04d060c, 5), (0xe4e7b1f9f42b4b7e9e23c00b688ae8e0, 6),
     (0x04579fea2d93470b903b845020bba144, 7), (0x05fce0837ed04acf8c072d482d4d529d, 8),
     (0x2655ef8d10604266837fce2512e4ed2e, 9), (0x1c7d7f3932bd4e738eafc36996ba7d5f, 10),
     (0x4db1643394e346bc96e56e3a20b2997d, 11), (0x3beec65d72e84815a2b4663c60f1be45, 12),
     (0x62877e8fbc954cebb796436256d8c9ff, 13), (0x7d1a58dcac1e46b6b346d590f0ae9cb8, 14)]"

datatype skip_reason = NoSuchRow | OtherEvent | NumberDrifted int | MaybePlayed string | HasScoreRows | HasScheduleSlots

text \<open>\<open>None\<close> is the empty reason: the row still matches.\<close>

definition verifyFingerprint :: "db \<Rightarrow> target \<Rightarrow> skip_reason option" where
  "verifyFingerprint d t = (case List.find (\<lambda>m. M_id m = TgMatchID t) (matches d) of
     None \<Rightarrow> Some NoSuchRow
   | Some m \<Rightarrow>
       if M_event_id m \<noteq> womensEventID then Some OtherEvent
       else if M_match_no m \<noteq> TgMatchNo t then Some (NumberDrifted (M_match_no m))
       else if M_status m \<noteq> ''pending'' \<and> M_status m \<noteq> ''scheduled'' then Some (MaybePlayed (M_status m))
       else if \<exists>s \<in> set (match_scores d). Sc_match_id s = TgMatchID t then Some HasScoreRows
       else if \<exists>s \<in> set (schedule_slots d). Sl_match_id s = Some (TgMatchID t) then Some HasScheduleSlots
       else None)"

subsection \<open>The three modes\<close>

record archive_row =
  Ca_src_id :: uuid
  Ca_match :: match_row
  Ca_slots :: "slot_row list"
  Ca_archived_at :: gotime
  Ca_restored_at :: "gotime option"

definition archivedNow :: "archive_row list \<Rightarrow> uuid \<Rightarrow> bool" where
  "archivedNow arch i \<longleftrightarrow> (\<exists>r \<in> set arch. Ca_src_id r = i \<and> Ca_restored_at r = None)"

datatype row_state = Eligible | AlreadyArchived | SkippedFor skip_reason

definition reportTarget :: "db \<Rightarrow> archive_row list \<Rightarrow> target \<Rightarrow> row_state" where
  "reportTarget d arch t = (if archivedNow arch (TgMatchID t) then AlreadyArchived
     else case verifyFingerprint d t of None \<Rightarrow> Eligible | Some r \<Rightarrow> SkippedFor r)"

definition report :: "db \<Rightarrow> archive_row list \<Rightarrow> target list \<Rightarrow> row_state list" where
  "report d arch ts = map (reportTarget d arch) ts"

text \<open>\<open>ON CONFLICT (src_table, src_id) DO UPDATE\<close> resets the times and keeps the old payload.\<close>

definition snapshot :: "ctx \<Rightarrow> db \<Rightarrow> match_row \<Rightarrow> archive_row" where
  "snapshot ctx d m = \<lparr>Ca_src_id = M_id m, Ca_match = m,
     Ca_slots = filter (\<lambda>s. S_match_id s = M_id m) (match_participants d), Ca_archived_at = CtxNow ctx, Ca_restored_at = None\<rparr>"

definition storeSnapshot :: "ctx \<Rightarrow> db \<Rightarrow> uuid \<Rightarrow> archive_row list \<Rightarrow> archive_row list" where
  "storeSnapshot ctx d i arch = (case List.find (\<lambda>m. M_id m = i) (matches d) of
     None \<Rightarrow> arch
   | Some m \<Rightarrow> if \<exists>r \<in> set arch. Ca_src_id r = i
       then update_where (\<lambda>r. Ca_src_id r = i) (\<lambda>r. r\<lparr>Ca_restored_at := None, Ca_archived_at := CtxNow ctx\<rparr>) arch
       else arch @ [snapshot ctx d m])"

type_synonym cleanup = "nat \<times> nat \<times> db \<times> archive_row list"

definition archiveTarget :: "ctx \<Rightarrow> target \<Rightarrow> cleanup \<Rightarrow> cleanup" where
  "archiveTarget ctx t st = (case st of (archived, skipped, d, arch) \<Rightarrow>
     if archivedNow arch (TgMatchID t) \<or> verifyFingerprint d t \<noteq> None then (archived, Suc skipped, d, arch)
     else let arch = storeSnapshot ctx d (TgMatchID t) arch;
              d = d\<lparr>match_participants := delete_where (\<lambda>s. S_match_id s = TgMatchID t) (match_participants d)\<rparr>;
              d = deleteMatches (\<lambda>m. M_id m = TgMatchID t) d
          in (Suc archived, skipped, d, arch))"

definition archiveTargets :: "ctx \<Rightarrow> target list \<Rightarrow> db \<Rightarrow> archive_row list \<Rightarrow> cleanup" where
  "archiveTargets ctx ts d arch = fold (archiveTarget ctx) ts (0, 0, d, arch)"

definition matchKeys :: "db \<Rightarrow> match_row \<Rightarrow> bool" where
  "matchKeys d m \<longleftrightarrow> M_event_id m \<in> E_id ` set (events d) \<and> optionIn (M_stage_id m) (St_id ` set (stages d))
     \<and> optionIn (M_group_id m) (G_id ` set (groups d)) \<and> optionIn (M_court_id m) (C_id ` set (courts d))
     \<and> optionIn (M_winner m) (P_id ` set (participants d)) \<and> optionIn (M_next_match_id m) (M_id ` set (matches d))
     \<and> M_next_match_id m \<noteq> Some (M_id m)"

definition slotKeys :: "db \<Rightarrow> slot_row \<Rightarrow> bool" where
  "slotKeys d s \<longleftrightarrow> S_match_id s \<in> M_id ` set (matches d) \<and> optionIn (S_participant_id s) (P_id ` set (participants d))
     \<and> optionIn (S_source_group_id s) (G_id ` set (groups d)) \<and> optionIn (S_source_match_id s) (M_id ` set (matches d))"

datatype cleanup_error = RestoreMatch uuid | RestoreParticipants uuid

definition restoreMatchRow :: "match_row \<Rightarrow> db \<Rightarrow> cleanup_error + db" where
  "restoreMatchRow m d = (if \<exists>x \<in> set (matches d). M_id x = M_id m then Inr d
     else if \<not> matchKeys d m then Inl (RestoreMatch (M_id m))
     else Inr (d\<lparr>matches := matches d @ [m]\<rparr>))"

definition restoreSlotRow :: "slot_row \<Rightarrow> db \<Rightarrow> cleanup_error + db" where
  "restoreSlotRow s d = (if \<exists>x \<in> set (match_participants d). S_id x = S_id s then Inr d
     else if \<not> slotKeys d s \<or> (\<exists>x \<in> set (match_participants d). S_match_id x = S_match_id s \<and> S_slot x = S_slot s)
     then Inl (RestoreParticipants (S_match_id s))
     else Inr (d\<lparr>match_participants := match_participants d @ [s]\<rparr>))"

definition restoreTarget :: "ctx \<Rightarrow> target \<Rightarrow> cleanup \<Rightarrow> cleanup_error + cleanup" where
  "restoreTarget ctx t st = (case st of (restored, skipped, d, arch) \<Rightarrow>
     (case List.find (\<lambda>r. Ca_src_id r = TgMatchID t \<and> Ca_restored_at r = None) arch of
        None \<Rightarrow> Inr (restored, Suc skipped, d, arch)
      | Some r \<Rightarrow> (case restoreMatchRow (Ca_match r) d of
          Inl e \<Rightarrow> Inl e
        | Inr d \<Rightarrow> (case forM restoreSlotRow (Ca_slots r) d of
            Inl e \<Rightarrow> Inl e
          | Inr d \<Rightarrow> Inr (Suc restored, skipped, d,
              update_where (\<lambda>r. Ca_src_id r = TgMatchID t) (Ca_restored_at_update (\<lambda>_. Some (CtxNow ctx))) arch)))))"

definition restoreTargets :: "ctx \<Rightarrow> target list \<Rightarrow> db \<Rightarrow> archive_row list \<Rightarrow> cleanup_error + cleanup" where
  "restoreTargets ctx ts d arch = forM (restoreTarget ctx) ts (0, 0, d, arch)"

subsection \<open>The archive as a set of removed matches\<close>

definition without :: "uuid set \<Rightarrow> db \<Rightarrow> db" where
  "without E d = d\<lparr>matches := filter (\<lambda>m. M_id m \<notin> E) (matches d),
     match_participants := filter (\<lambda>s. S_match_id s \<notin> E) (match_participants d)\<rparr>"

text \<open>No row of another match points at the matches \<open>E\<close>.\<close>

definition standalone :: "uuid set \<Rightarrow> db \<Rightarrow> bool" where
  "standalone E d \<longleftrightarrow> (\<forall>m \<in> set (matches d). \<forall>i \<in> E. M_next_match_id m \<noteq> Some i)
     \<and> (\<forall>s \<in> set (match_participants d). \<forall>i \<in> E. S_source_match_id s \<noteq> Some i)"

definition eligible :: "db \<Rightarrow> target list \<Rightarrow> target list" where
  "eligible d ts = filter (\<lambda>t. verifyFingerprint d t = None) ts"

definition rowOf :: "db \<Rightarrow> uuid \<Rightarrow> match_row" where
  "rowOf d i = the (List.find (\<lambda>m. M_id m = i) (matches d))"

lemma without_none [simp]: "without {} d = d"
  by (simp add: without_def)

lemma find_without: "i \<notin> E \<Longrightarrow> List.find (\<lambda>m. M_id m = i) (filter (\<lambda>m. M_id m \<notin> E) ms) = List.find (\<lambda>m. M_id m = i) ms"
  by (induction ms) auto

lemma verify_without: "TgMatchID t \<notin> E \<Longrightarrow> verifyFingerprint (without E d) t = verifyFingerprint d t"
  by (simp add: verifyFingerprint_def without_def find_without split: option.split)

lemma verify_None:
  assumes "verifyFingerprint d t = None"
  shows "List.find (\<lambda>m. M_id m = TgMatchID t) (matches d) = Some (rowOf d (TgMatchID t))"
    and "rowOf d (TgMatchID t) \<in> set (matches d)" and "M_id (rowOf d (TgMatchID t)) = TgMatchID t"
    and "\<forall>s \<in> set (match_scores d). Sc_match_id s \<noteq> TgMatchID t"
    and "\<forall>s \<in> set (schedule_slots d). Sl_match_id s \<noteq> Some (TgMatchID t)"
proof -
  obtain m where m: "List.find (\<lambda>m. M_id m = TgMatchID t) (matches d) = Some m" "\<forall>s \<in> set (match_scores d). Sc_match_id s \<noteq> TgMatchID t"
    "\<forall>s \<in> set (schedule_slots d). Sl_match_id s \<noteq> Some (TgMatchID t)"
    using assms by (auto simp: verifyFingerprint_def split: option.splits if_splits)
  show "List.find (\<lambda>m. M_id m = TgMatchID t) (matches d) = Some (rowOf d (TgMatchID t))" using m(1) by (simp add: rowOf_def)
  then show "rowOf d (TgMatchID t) \<in> set (matches d)" "M_id (rowOf d (TgMatchID t)) = TgMatchID t" by (auto dest: find_Some_in)
qed (use assms in \<open>auto simp: verifyFingerprint_def split: option.splits if_splits\<close>)

lemma nullIfIn_other: "x \<noteq> Some i \<Longrightarrow> nullIfIn {i} x = x"
  by (cases x) (auto simp: nullIfIn_def)

lemma deleteMatches_gone:
  "M_id ` set (filter P (matches d)) = gone \<Longrightarrow> deleteMatches P d =
      d\<lparr>matches := map (\<lambda>m. m\<lparr>M_next_match_id := nullIfIn gone (M_next_match_id m)\<rparr>) (delete_where P (matches d)),
        match_participants := map (\<lambda>s. s\<lparr>S_source_match_id := nullIfIn gone (S_source_match_id s)\<rparr>)
                     (delete_where (\<lambda>s. S_match_id s \<in> gone) (match_participants d)),
        match_scores := delete_where (\<lambda>s. Sc_match_id s \<in> gone) (match_scores d),
        schedule_slots := map (\<lambda>s. s\<lparr>Sl_match_id := nullIfIn gone (Sl_match_id s)\<rparr>) (schedule_slots d)\<rparr>"
  by (simp only: deleteMatches_def Let_def)

lemma delete_eligible:
  assumes "verifyFingerprint d t = None" and "TgMatchID t \<notin> E" and "standalone {TgMatchID t} d"
  shows "deleteMatches (\<lambda>m. M_id m = TgMatchID t)
      ((without E d)\<lparr>match_participants := delete_where (\<lambda>s. S_match_id s = TgMatchID t) (match_participants (without E d))\<rparr>)
    = without (insert (TgMatchID t) E) d"
proof -
  note v = verify_None [OF assms(1)]
  let ?i = "TgMatchID t" let ?ms = "filter (\<lambda>m. M_id m \<notin> E) (matches d)"
  have gone: "M_id ` set (filter (\<lambda>m. M_id m = ?i) ?ms) = {?i}" using v(2,3) assms(2) by force
  have nxt: "M_next_match_id m \<noteq> Some ?i" if "m \<in> set (matches d)" for m using assms(3) that by (simp add: standalone_def)
  have src: "S_source_match_id s \<noteq> Some ?i" if "s \<in> set (match_participants d)" for s using assms(3) that by (simp add: standalone_def)
  have m: "map (\<lambda>m. m\<lparr>M_next_match_id := nullIfIn {?i} (M_next_match_id m)\<rparr>) (delete_where (\<lambda>m. M_id m = ?i) ?ms)
      = filter (\<lambda>m. M_id m \<notin> insert ?i E) (matches d)"
    by (rule trans [OF map_idI]) (auto simp: delete_where_def nullIfIn_other nxt intro: filter_cong)
  have p: "map (\<lambda>s. s\<lparr>S_source_match_id := nullIfIn {?i} (S_source_match_id s)\<rparr>)
       (delete_where (\<lambda>s. S_match_id s \<in> {?i}) (delete_where (\<lambda>s. S_match_id s = ?i) (filter (\<lambda>s. S_match_id s \<notin> E) (match_participants d))))
      = filter (\<lambda>s. S_match_id s \<notin> insert ?i E) (match_participants d)"
    by (rule trans [OF map_idI]) (auto simp: delete_where_def nullIfIn_other src intro: filter_cong)
  have sc: "delete_where (\<lambda>s. Sc_match_id s \<in> {?i}) (match_scores d) = match_scores d"
    using v(4) by (auto simp: delete_where_def intro: filter_True)
  have sl: "map (\<lambda>s. s\<lparr>Sl_match_id := nullIfIn {?i} (Sl_match_id s)\<rparr>) (schedule_slots d) = schedule_slots d"
    using v(5) by (intro map_idI) (simp add: nullIfIn_other)
  let ?D = "(without E d)\<lparr>match_participants := delete_where (\<lambda>s. S_match_id s = ?i) (match_participants (without E d))\<rparr>"
  have g: "M_id ` set (filter (\<lambda>m. M_id m = ?i) (matches ?D)) = {?i}" using gone by (simp add: without_def)
  show ?thesis unfolding deleteMatches_gone [OF g] using m p sc sl by (simp add: without_def)
qed

lemma archive_step:
  assumes "TgMatchID t \<notin> E" and "standalone {TgMatchID t} d" and "\<forall>r \<in> set arch. Ca_src_id r \<noteq> TgMatchID t"
  shows "archiveTarget ctx t (a, k, without E d, arch) = (if verifyFingerprint d t = None
    then (Suc a, k, without (insert (TgMatchID t) E) d, arch @ [snapshot ctx d (rowOf d (TgMatchID t))])
    else (a, Suc k, without E d, arch))"
proof (cases "verifyFingerprint d t = None")
  case True
  note v = verify_None [OF True]
  have "List.find (\<lambda>m. M_id m = TgMatchID t) (matches (without E d)) = Some (rowOf d (TgMatchID t))"
    using v(1) assms(1) by (simp add: without_def find_without)
  moreover have "snapshot ctx (without E d) (rowOf d (TgMatchID t)) = snapshot ctx d (rowOf d (TgMatchID t))"
    using v(3) assms(1) by (auto simp: snapshot_def without_def intro: filter_cong)
  ultimately have st: "storeSnapshot ctx (without E d) (TgMatchID t) arch = arch @ [snapshot ctx d (rowOf d (TgMatchID t))]"
    using assms(3) by (auto simp: storeSnapshot_def)
  have "\<not> archivedNow arch (TgMatchID t)" using assms(3) by (auto simp: archivedNow_def)
  then show ?thesis
    unfolding archiveTarget_def using True verify_without [OF assms(1), of d] delete_eligible [OF True assms(1,2)]
    by (simp add: st Let_def)
next
  case False
  then show ?thesis by (simp add: archiveTarget_def verify_without [OF assms(1)])
qed

lemma archive_run:
  assumes "distinct (map TgMatchID ts)" and "E \<inter> TgMatchID ` set ts = {}" and "standalone (TgMatchID ` set ts) d"
    and "\<forall>r \<in> set arch. Ca_src_id r \<notin> TgMatchID ` set ts"
  shows "fold (archiveTarget ctx) ts (a, k, without E d, arch) =
    (a + length (eligible d ts), k + (length ts - length (eligible d ts)), without (E \<union> TgMatchID ` set (eligible d ts)) d,
     arch @ map (\<lambda>t. snapshot ctx d (rowOf d (TgMatchID t))) (eligible d ts))"
  using assms
proof (induction ts arbitrary: E a k arch)
  case (Cons t ts)
  have st: "standalone {TgMatchID t} d" "standalone (TgMatchID ` set ts) d" using Cons.prems(3) by (auto simp: standalone_def)
  have le: "length (eligible d ts) \<le> length ts" by (simp add: eligible_def)
  note step = archive_step [of t E d arch ctx a k]
  show ?case
  proof (cases "verifyFingerprint d t = None")
    case True
    have id: "Ca_src_id (snapshot ctx d (rowOf d (TgMatchID t))) = TgMatchID t" using verify_None(3) [OF True] by (simp add: snapshot_def)
    show ?thesis
      using step st(1) Cons.prems True
      by (simp add: Cons.IH [OF _ _ st(2)] id) (auto simp: eligible_def image_iff insert_commute Un_commute)
  next
    case False
    have "archiveTarget ctx t (a, k, without E d, arch) = (a, Suc k, without E d, arch)" using step st(1) Cons.prems False by simp
    moreover have "eligible d (t # ts) = eligible d ts" using False by (simp add: eligible_def)
    ultimately show ?thesis using Cons.prems le by (simp add: Cons.IH [OF _ _ st(2)])
  qed
qed (simp add: eligible_def)

subsection \<open>Putting the rows back\<close>

definition slotsOfMatch :: "db \<Rightarrow> uuid \<Rightarrow> slot_row list" where
  "slotsOfMatch d i = filter (\<lambda>s. S_match_id s = i) (match_participants d)"

text \<open>The database with the matches \<open>E\<close> removed and those of the list \<open>bk\<close> appended again.\<close>

definition restored :: "uuid set \<Rightarrow> uuid list \<Rightarrow> db \<Rightarrow> db" where
  "restored E bk d = d\<lparr>matches := filter (\<lambda>m. M_id m \<notin> E) (matches d) @ map (rowOf d) bk,
     match_participants := filter (\<lambda>s. S_match_id s \<notin> E) (match_participants d) @ concat (map (slotsOfMatch d) bk)\<rparr>"

definition keysOk :: "db \<Rightarrow> bool" where
  "keysOk d \<longleftrightarrow> distinct (map M_id (matches d)) \<and> distinct (map S_id (match_participants d))
     \<and> distinct (map (\<lambda>s. (S_match_id s, S_slot s)) (match_participants d))
     \<and> (\<forall>m \<in> set (matches d). matchKeys d m) \<and> (\<forall>s \<in> set (match_participants d). slotKeys d s)"

lemma restore_slots:
  assumes "distinct (map S_id ss)" and "distinct (map (\<lambda>s. (S_match_id s, S_slot s)) ss)"
    and "\<And>s x. s \<in> set ss \<Longrightarrow> x \<in> set (match_participants d) \<Longrightarrow> S_id x \<noteq> S_id s \<and> (S_match_id x, S_slot x) \<noteq> (S_match_id s, S_slot s)"
    and "\<And>s. s \<in> set ss \<Longrightarrow> slotKeys d s"
  shows "forM restoreSlotRow ss d = Inr (d\<lparr>match_participants := match_participants d @ ss\<rparr>)"
  using assms
proof (induction ss arbitrary: d)
  case (Cons s ss)
  let ?d = "d\<lparr>match_participants := match_participants d @ [s]\<rparr>"
  have s: "restoreSlotRow s d = Inr ?d" using Cons.prems(3,4) [of s] by (fastforce simp: restoreSlotRow_def)
  have "forM restoreSlotRow ss ?d = Inr (?d\<lparr>match_participants := match_participants ?d @ ss\<rparr>)"
  proof (rule Cons.IH)
    fix y x assume y: "y \<in> set ss" and x: "x \<in> set (match_participants ?d)"
    then show "S_id x \<noteq> S_id y \<and> (S_match_id x, S_slot x) \<noteq> (S_match_id y, S_slot y)"
      using Cons.prems(1,2) Cons.prems(3) [of y x] by (auto simp: image_iff)
  qed (use Cons.prems in \<open>auto simp: slotKeys_def\<close>)
  then show ?case by (simp add: s)
qed simp

lemma restored_rows:
  assumes "keysOk d" and "set bk \<subseteq> E" and "\<And>i. i \<in> E \<Longrightarrow> rowOf d i \<in> set (matches d) \<and> M_id (rowOf d i) = i" and "i \<in> E" and "i \<notin> set bk"
  shows "x \<in> set (matches (restored E bk d)) \<Longrightarrow> M_id x \<noteq> i"
    and "s \<in> set (match_participants (restored E bk d)) \<Longrightarrow> s \<in> set (match_participants d) \<and> S_match_id s \<noteq> i"
  using assms by (auto simp: restored_def slotsOfMatch_def)

lemma restore_rows:
  assumes ok: "keysOk d" and "set bk \<subseteq> E" and E: "\<And>i. i \<in> E \<Longrightarrow> rowOf d i \<in> set (matches d) \<and> M_id (rowOf d i) = i"
    and i: "i \<in> E" "i \<notin> set bk" and alone: "standalone E d"
  shows "restoreMatchRow (rowOf d i) (restored E bk d) = Inr ((restored E bk d)\<lparr>matches := matches (restored E bk d) @ [rowOf d i]\<rparr>)"
    and "forM restoreSlotRow (slotsOfMatch d i) ((restored E bk d)\<lparr>matches := matches (restored E bk d) @ [rowOf d i]\<rparr>)
      = Inr (restored E (bk @ [i]) d)"
proof -
  let ?D = "restored E bk d" let ?D' = "?D\<lparr>matches := matches ?D @ [rowOf d i]\<rparr>"
  note rows = restored_rows [OF assms(1,2) E i]
  have m: "rowOf d i \<in> set (matches d)" "M_id (rowOf d i) = i" using E i(1) by auto
  have left: "j \<in> M_id ` set (matches ?D)" if "j \<in> M_id ` set (matches d)" "j \<notin> E" for j
    using that by (auto simp: restored_def)
  have mk: "matchKeys d (rowOf d i)" using ok m(1) by (simp add: keysOk_def)
  have "optionIn (M_next_match_id (rowOf d i)) (M_id ` set (matches ?D))"
  proof (cases "M_next_match_id (rowOf d i)")
    case (Some j)
    then have "j \<in> M_id ` set (matches d)" "j \<notin> E" using mk m(1) alone by (auto simp: matchKeys_def standalone_def)
    then show ?thesis using left Some by simp
  qed simp
  then have "matchKeys ?D (rowOf d i)" using mk by (simp add: matchKeys_def restored_def)
  then show "restoreMatchRow (rowOf d i) ?D = Inr ?D'" using rows(1) m(2) by (auto simp: restoreMatchRow_def)
  have part: "match_participants ?D' = match_participants ?D" by simp
  have "forM restoreSlotRow (slotsOfMatch d i) ?D' = Inr (?D'\<lparr>match_participants := match_participants ?D' @ slotsOfMatch d i\<rparr>)"
  proof (rule restore_slots)
    show "distinct (map S_id (slotsOfMatch d i))" "distinct (map (\<lambda>s. (S_match_id s, S_slot s)) (slotsOfMatch d i))"
      using ok by (auto simp: keysOk_def slotsOfMatch_def distinct_map intro: inj_on_subset)
    fix s assume s: "s \<in> set (slotsOfMatch d i)"
    then have sd: "s \<in> set (match_participants d)" "S_match_id s = i" by (auto simp: slotsOfMatch_def)
    { fix x assume "x \<in> set (match_participants ?D')"
      then have "x \<in> set (match_participants d)" "S_match_id x \<noteq> i" using rows(2) by (auto simp: part)
      then show "S_id x \<noteq> S_id s \<and> (S_match_id x, S_slot x) \<noteq> (S_match_id s, S_slot s)"
        using ok sd by (auto simp: keysOk_def distinct_map inj_on_def) }
    have sk: "slotKeys d s" using ok sd by (simp add: keysOk_def)
    have "optionIn (S_source_match_id s) (M_id ` set (matches ?D))"
    proof (cases "S_source_match_id s")
      case (Some j)
      then have "j \<in> M_id ` set (matches d)" "j \<notin> E" using sk sd(1) alone by (auto simp: slotKeys_def standalone_def)
      then show ?thesis using left Some by simp
    qed simp
    then show "slotKeys ?D' s"
      using sk sd(2) m(2) by (auto simp: slotKeys_def restored_def elim!: optionIn_mono)
  qed
  also have "?D'\<lparr>match_participants := match_participants ?D' @ slotsOfMatch d i\<rparr> = restored E (bk @ [i]) d"
    by (simp add: restored_def)
  finally show "forM restoreSlotRow (slotsOfMatch d i) ?D' = Inr (restored E (bk @ [i]) d)" .
qed

text \<open>The archive after the matches \<open>bk\<close> were put back at time \<open>now\<close>.\<close>

definition archiveOf :: "ctx \<Rightarrow> gotime \<Rightarrow> uuid set \<Rightarrow> db \<Rightarrow> target list \<Rightarrow> archive_row list" where
  "archiveOf ctx now bk d el = map (\<lambda>t. (snapshot ctx d (rowOf d (TgMatchID t)))
     \<lparr>Ca_restored_at := if TgMatchID t \<in> bk then Some now else None\<rparr>) el"

lemma find_unique:
  "x \<in> set xs \<Longrightarrow> P x \<Longrightarrow> (\<And>y. y \<in> set xs \<Longrightarrow> P y \<Longrightarrow> y = x) \<Longrightarrow> List.find P xs = Some x"
proof (induction xs)
  case (Cons a xs)
  show ?case
  proof (cases "P a")
    case True
    then show ?thesis using Cons.prems(3) [of a] by simp
  next
    case False
    then have "x \<in> set xs" using Cons.prems(1,2) by auto
    then have "List.find P xs = Some x" by (rule Cons.IH) (use Cons.prems(2,3) in \<open>simp_all\<close>)
    then show ?thesis using False by simp
  qed
qed simp

lemma find_append_skip: "(\<And>x. x \<in> set xs \<Longrightarrow> \<not> P x) \<Longrightarrow> List.find P (xs @ ys) = List.find P ys"
  by (induction xs) auto

lemma archiveOf_update:
  assumes "\<And>t. t \<in> set el \<Longrightarrow> M_id (rowOf d (TgMatchID t)) = TgMatchID t"
  shows "update_where (\<lambda>r. Ca_src_id r = i) (Ca_restored_at_update (\<lambda>_. Some now)) (archiveOf ctx now bk d el)
    = archiveOf ctx now (insert i bk) d el"
  using assms by (auto simp: archiveOf_def update_where_def snapshot_def)

lemma restore_run:
  fixes ctx' :: ctx
  defines "now \<equiv> CtxNow ctx'"
  assumes ok: "keysOk d" and alone: "standalone (TgMatchID ` set ts) d" and d: "distinct (map TgMatchID ts)"
    and arch0: "\<forall>r \<in> set arch0. Ca_src_id r \<notin> TgMatchID ` set ts"
    and "set us \<subseteq> set ts" and "distinct (map TgMatchID us)" and "set bk \<subseteq> TgMatchID ` set (eligible d ts)" and "set bk \<inter> TgMatchID ` set us = {}"
  shows "forM (restoreTarget ctx') us (r, k, restored (TgMatchID ` set (eligible d ts)) bk d, arch0 @ archiveOf ctx now (set bk) d (eligible d ts)) =
    Inr (r + length (eligible d us), k + (length us - length (eligible d us)),
      restored (TgMatchID ` set (eligible d ts)) (bk @ map TgMatchID (eligible d us)) d,
      arch0 @ archiveOf ctx now (set bk \<union> TgMatchID ` set (eligible d us)) d (eligible d ts))"
  using assms(6-9)
proof (induction us arbitrary: r k bk)
  case (Cons t us)
  let ?el = "eligible d ts" let ?E = "TgMatchID ` set ?el" let ?i = "TgMatchID t"
  have E: "rowOf d i \<in> set (matches d) \<and> M_id (rowOf d i) = i" if "i \<in> ?E" for i
    using that verify_None(2,3) by (auto simp: eligible_def)
  have aloneE: "standalone ?E d" using alone by (auto simp: standalone_def eligible_def)
  have t: "t \<in> set ts" "?i \<notin> set bk" using Cons.prems by auto
  have same: "t' = t" if "t' \<in> set ts" "TgMatchID t' = ?i" for t' using that t(1) d by (auto simp: distinct_map inj_on_def)
  have skip: "\<not> (Ca_src_id x = ?i \<and> Ca_restored_at x = None)" if "x \<in> set arch0" for x using arch0 t(1) that by auto
  have src: "Ca_src_id (snapshot ctx d (rowOf d (TgMatchID t'))) = TgMatchID t'" if "t' \<in> set ?el" for t'
    using E that by (simp add: snapshot_def)
  have le: "length (eligible d us) \<le> length us" by (simp add: eligible_def)
  show ?case
  proof (cases "verifyFingerprint d t = None")
    case True
    let ?row = "(snapshot ctx d (rowOf d ?i))\<lparr>Ca_restored_at := None\<rparr>"
    have el: "t \<in> set ?el" using True t(1) by (simp add: eligible_def)
    then have iE: "?i \<in> ?E" by simp
    let ?P = "\<lambda>x. Ca_src_id x = ?i \<and> Ca_restored_at x = None"
    have "List.find ?P (archiveOf ctx now (set bk) d ?el) = Some ?row"
    proof (rule find_unique [where P = ?P])
      show "?row \<in> set (archiveOf ctx now (set bk) d ?el)" using el t(2) by (force simp: archiveOf_def)
      show "Ca_src_id ?row = ?i \<and> Ca_restored_at ?row = None" using src [OF el] by simp
      fix y assume "y \<in> set (archiveOf ctx now (set bk) d ?el)" and y: "Ca_src_id y = ?i \<and> Ca_restored_at y = None"
      then obtain t' where t': "t' \<in> set ?el" "y = (snapshot ctx d (rowOf d (TgMatchID t')))\<lparr>Ca_restored_at := if TgMatchID t' \<in> set bk then Some now else None\<rparr>"
        by (auto simp: archiveOf_def)
      then have "TgMatchID t' = ?i" using y src [OF t'(1)] by simp
      then show "y = ?row" using t'(2) t(2) by simp
    qed
    then have "List.find ?P (arch0 @ archiveOf ctx now (set bk) d ?el) = Some ?row"
      using find_append_skip [of arch0 ?P "archiveOf ctx now (set bk) d ?el"] skip by simp
    moreover have "Ca_match ?row = rowOf d ?i" "Ca_slots ?row = slotsOfMatch d ?i"
      using E [OF iE] by (simp_all add: snapshot_def slotsOfMatch_def)
    moreover note restore_rows [OF ok Cons.prems(3) E iE t(2) aloneE]
    moreover have "update_where (\<lambda>x. Ca_src_id x = ?i) (Ca_restored_at_update (\<lambda>_. Some now)) (arch0 @ archiveOf ctx now (set bk) d ?el)
        = arch0 @ archiveOf ctx now (insert ?i (set bk)) d ?el"
    proof -
      have "update_where (\<lambda>x. Ca_src_id x = ?i) (Ca_restored_at_update (\<lambda>_. Some now)) arch0 = arch0"
        using arch0 t(1) by (intro update_where_none) auto
      then show ?thesis using archiveOf_update [of ?el d ?i now ctx "set bk"] E by (auto simp: update_where_def)
    qed
    ultimately have step: "restoreTarget ctx' t (r, k, restored ?E bk d, arch0 @ archiveOf ctx now (set bk) d ?el)
        = Inr (Suc r, k, restored ?E (bk @ [?i]) d, arch0 @ archiveOf ctx now (set (bk @ [?i])) d ?el)"
      by (simp add: restoreTarget_def now_def)
    have "eligible d (t # us) = t # eligible d us" using True by (simp add: eligible_def)
    then show ?thesis using Cons.prems iE Cons.IH [of "bk @ [?i]" "Suc r" k] by (simp add: step)
  next
    case False
    have "List.find (\<lambda>x. Ca_src_id x = ?i \<and> Ca_restored_at x = None) (arch0 @ archiveOf ctx now (set bk) d ?el) = None"
      unfolding find_None_iff_all
    proof
      fix x assume "x \<in> set (arch0 @ archiveOf ctx now (set bk) d ?el)"
      then consider "x \<in> set arch0" | t' where "t' \<in> set ?el" "Ca_src_id x = TgMatchID t'"
        using src by (auto simp: archiveOf_def)
      then show "\<not> (Ca_src_id x = ?i \<and> Ca_restored_at x = None)"
      proof cases
        case 1
        then show ?thesis by (rule skip)
      next
        case 2
        then have "TgMatchID t' \<noteq> ?i" using same [of t'] False by (auto simp: eligible_def)
        then show ?thesis using 2 by simp
      qed
    qed
    then have step: "restoreTarget ctx' t (r, k, restored ?E bk d, arch0 @ archiveOf ctx now (set bk) d ?el)
        = Inr (r, Suc k, restored ?E bk d, arch0 @ archiveOf ctx now (set bk) d ?el)"
      by (simp add: restoreTarget_def)
    have "eligible d (t # us) = eligible d us" using False by (simp add: eligible_def)
    then show ?thesis using Cons.prems le Cons.IH [of bk r "Suc k"] by (simp add: step)
  qed
qed (simp add: eligible_def)

lemma archiveOf_none: "map (\<lambda>t. snapshot ctx d (rowOf d (TgMatchID t))) el = archiveOf ctx now {} d el"
  by (simp add: archiveOf_def snapshot_def)

lemma mset_removed:
  assumes "distinct (map key xs)" and "distinct is" and "\<And>i. i \<in> set is \<Longrightarrow> f i \<in> set xs \<and> key (f i) = i"
  shows "mset (filter (\<lambda>x. key x \<notin> set is) xs @ map f is) = mset xs"
proof (rule set_eq_iff_mset_eq_distinct [THEN iffD1])
  have inj: "x = y" if "x \<in> set xs" "y \<in> set xs" "key x = key y" for x y using assms(1) that by (auto simp: distinct_map dest: inj_onD)
  show "distinct xs" using assms(1) by (simp add: distinct_map)
  have "inj_on f (set is)" using assms(3) by (metis inj_onI)
  then show "distinct (filter (\<lambda>x. key x \<notin> set is) xs @ map f is)"
    using assms \<open>distinct xs\<close> by (auto simp: distinct_map)
  have "x \<in> f ` set is" if "x \<in> set xs" "key x \<in> set is" for x using inj [OF that(1), of "f (key x)"] assms(3) that by fastforce
  then show "set (filter (\<lambda>x. key x \<notin> set is) xs @ map f is) = set xs" using assms(3) by auto
qed

lemma mset_removed_many:
  assumes "distinct is"
  shows "mset (filter (\<lambda>s. key s \<notin> set is) xs @ concat (map (\<lambda>i. filter (\<lambda>s. key s = i) xs) is)) = mset xs"
  using assms
proof (induction "is")
  case (Cons i "is")
  have "filter (\<lambda>s. key s = i) (filter (\<lambda>s. key s \<notin> set is) xs) = filter (\<lambda>s. key s = i) xs"
    using Cons.prems by (auto simp: filter_filter intro: filter_cong)
  moreover have "mset (filter (\<lambda>s. key s \<notin> set is) xs)
      = mset (filter (\<lambda>s. key s = i) (filter (\<lambda>s. key s \<notin> set is) xs)) + mset (filter (\<lambda>s. key s \<notin> set (i # is)) xs)"
  proof -
    have "mset (filter Q xs) = mset (filter P (filter Q xs)) + mset (filter (\<lambda>s. \<not> P s) (filter Q xs))" for P Q
      unfolding mset_filter by (rule multiset_partition)
    from this [of "\<lambda>s. key s \<notin> set is" "\<lambda>s. key s = i"] show ?thesis by (simp add: filter_filter conj_commute)
  qed
  ultimately show ?case using Cons by (simp add: ac_simps)
qed simp

text \<open>C38. Archiving is reversible. Over a database whose keys hold, with no row of another match pointing
  at a target and no target archived before, \<open>-archive\<close> removes exactly the targets that still match
  their fingerprint, with their slots, and touches nothing else; and \<open>-restore\<close> run after it succeeds,
  brings every removed row back as it was, and marks it restored.\<close>

theorem archive_restore_roundtrip:
  assumes ok: "keysOk d" and alone: "standalone (TgMatchID ` set ts) d" and ts: "distinct (map TgMatchID ts)"
    and arch: "\<forall>r \<in> set arch. Ca_src_id r \<notin> TgMatchID ` set ts"
    and "archiveTargets ctx ts d arch = (n, k, d1, arch1)"
  shows "n = length (filter (\<lambda>t. verifyFingerprint d t = None) ts) \<and> n + k = length ts
    \<and> (\<forall>m \<in> set (matches d). m \<in> set (matches d1) \<longleftrightarrow> (\<forall>t \<in> set ts. TgMatchID t = M_id m \<longrightarrow> verifyFingerprint d t \<noteq> None))
    \<and> (\<exists>d2 arch2. restoreTargets ctx' ts d1 arch1 = Inr (n, k, d2, arch2)
        \<and> mset (matches d2) = mset (matches d) \<and> mset (match_participants d2) = mset (match_participants d)
        \<and> d2\<lparr>matches := matches d, match_participants := match_participants d\<rparr> = d
        \<and> (\<forall>t \<in> set ts. \<not> archivedNow arch2 (TgMatchID t)))"
proof -
  let ?el = "eligible d ts" let ?ids = "map TgMatchID ?el"
  have le: "length ?el \<le> length ts" by (simp add: eligible_def)
  have r1: "n = length ?el" "k = length ts - length ?el" "d1 = without (set ?ids) d" "arch1 = arch @ archiveOf ctx (CtxNow ctx') {} d ?el"
    using archive_run [OF ts _ alone arch, of "{}" ctx 0 0] assms(5) by (auto simp: archiveTargets_def archiveOf_none)
  have E: "rowOf d i \<in> set (matches d) \<and> M_id (rowOf d i) = i" if "i \<in> set ?ids" for i
    using that verify_None(2,3) by (auto simp: eligible_def)
  have dist: "distinct ?ids" using ts by (auto simp: eligible_def distinct_map intro: inj_on_subset)
  let ?d2 = "restored (set ?ids) ?ids d" let ?arch2 = "arch @ archiveOf ctx (CtxNow ctx') (set ?ids) d ?el"
  have "d1 = restored (set ?ids) [] d" by (simp add: r1 restored_def without_def)
  then have "restoreTargets ctx' ts d1 arch1 = Inr (n, k, ?d2, ?arch2)"
    using restore_run [OF ok alone ts arch, of ts "[]" ctx' 0 0 ctx] ts r1 by (simp add: restoreTargets_def)
  moreover have "mset (matches ?d2) = mset (matches d)"
    using mset_removed [of M_id "matches d" ?ids "rowOf d"] ok dist E by (simp add: restored_def keysOk_def)
  moreover have "mset (match_participants ?d2) = mset (match_participants d)"
    using mset_removed_many [OF dist, of S_match_id "match_participants d"] by (simp add: restored_def slotsOfMatch_def [abs_def])
  moreover have "?d2\<lparr>matches := matches d, match_participants := match_participants d\<rparr> = d" by (simp add: restored_def)
  moreover have "\<not> archivedNow ?arch2 (TgMatchID t)" if "t \<in> set ts" for t
    using arch that E by (fastforce simp: archivedNow_def archiveOf_def snapshot_def)
  moreover have "m \<in> set (matches d1) \<longleftrightarrow> (\<forall>t \<in> set ts. TgMatchID t = M_id m \<longrightarrow> verifyFingerprint d t \<noteq> None)" if "m \<in> set (matches d)" for m
    using that by (simp add: r1 without_def eligible_def image_iff) metis
  ultimately show ?thesis using r1(1,2) le by (auto simp: eligible_def)
qed

text \<open>The archive keeps one payload per match, the first: when a restored match has changed and is archived
  again, \<open>-restore\<close> brings back the row of the first archive.\<close>

lemma second_archive_keeps_first_payload:
  assumes "verifyFingerprint d t = None" and "Ca_src_id r = TgMatchID t" and "Ca_restored_at r = Some x"
  shows "\<exists>d1. archiveTargets ctx [t] d [r] = (1, 0, d1, [r\<lparr>Ca_restored_at := None, Ca_archived_at := CtxNow ctx\<rparr>])"
  using assms verify_None(1) [OF assms(1)]
  by (simp add: archiveTargets_def archiveTarget_def archivedNow_def storeSnapshot_def Let_def update_where_def)

subsection \<open>Witness\<close>

definition exFixture :: match_row where
  "exFixture = \<lparr>M_id = 50, M_event_id = womensEventID, M_stage_id = None, M_group_id = None, M_court_id = None, M_match_no = 1,
     M_status = ''pending'', M_scheduled_at = None, M_started_at = None, M_completed_at = None, M_winner = None,
     M_next_match_id = None, M_next_slot = None\<rparr>"

definition exSlot :: "uuid \<Rightarrow> int \<Rightarrow> uuid \<Rightarrow> slot_row" where
  "exSlot i n p = \<lparr>S_id = i, S_match_id = 50, S_participant_id = Some p, S_slot = n, S_source = None, S_source_type = ''manual'',
     S_source_group_id = None, S_source_rank = None, S_source_match_id = None\<rparr>"

definition exDebris :: db where
  "exDebris = (sample_db ''round_robin'')\<lparr>events := map (E_id_update (\<lambda>_. womensEventID)) (events (sample_db ''round_robin'')),
     matches := [exFixture], match_participants := [exSlot 51 1 11, exSlot 52 2 12]\<rparr>"

theorem archive_restore_roundtrip_witness:
  "\<exists>d1 arch1 d2 arch2. archiveTargets sample_ctx [\<lparr>TgMatchID = 50, TgMatchNo = 1\<rparr>] exDebris [] = (1, 0, d1, arch1) \<and> matches d1 = []
     \<and> restoreTargets sample_ctx [\<lparr>TgMatchID = 50, TgMatchNo = 1\<rparr>] d1 arch1 = Inr (1, 0, d2, arch2) \<and> mset (matches d2) = {#exFixture#}"
proof -
  let ?ts = "[\<lparr>TgMatchID = 50, TgMatchNo = 1\<rparr>]"
  have ok: "keysOk exDebris"
    by (simp add: keysOk_def exDebris_def sample_db_def matchKeys_def slotKeys_def exFixture_def exSlot_def)
  have alone: "standalone (TgMatchID ` set ?ts) exDebris" by (simp add: standalone_def exDebris_def exFixture_def exSlot_def)
  have v: "verifyFingerprint exDebris \<lparr>TgMatchID = 50, TgMatchNo = 1\<rparr> = None"
    by (simp add: verifyFingerprint_def exDebris_def sample_db_def exFixture_def)
  obtain n k d1 arch1 where a: "archiveTargets sample_ctx ?ts exDebris [] = (n, k, d1, arch1)"
    by (cases "archiveTargets sample_ctx ?ts exDebris []") auto
  have d1: "matches d1 = []"
    using a v verify_None(1) [OF v]
    by (auto simp: archiveTargets_def archiveTarget_def archivedNow_def Let_def deleteMatches_def delete_where_def exDebris_def exFixture_def)
  note r = archive_restore_roundtrip [OF ok alone _ _ a, of sample_ctx]
  have nk: "n = 1" "k = 0" using r v by auto
  obtain d2 arch2 where "restoreTargets sample_ctx ?ts d1 arch1 = Inr (n, k, d2, arch2)" "mset (matches d2) = mset (matches exDebris)"
    using r by auto
  then show ?thesis using a d1 nk by (auto simp: exDebris_def)
qed

end
