(* ===== verification/Realtime.thy ===== *)
theory Realtime
  imports Prelude "HOL-Library.Sublist"
begin

section \<open>The live event stream (internal/realtime)\<close>

text \<open>
  The in-process hub that fans events out to the connected clients of a topic (hub.go) and the stream
  handler that holds a client's subscription (handler.go). A subscriber is its channel, named by
  a number: a buffer of 16 events and whether it is closed. A send on a closed channel and a second
  close panic, which is \<open>None\<close>.

  The hub is shared by the goroutines of all requests. \<open>hub_step\<close> is their interleaving: the critical
  sections of \<open>Subscribe\<close> and \<open>unsubscribe\<close> hold the write lock and run while no publisher holds the
  read lock, \<open>close\<close> comes after the lock is released, publishers send one channel at a time and
  overlap each other, and clients receive at any moment.
\<close>

subsection \<open>The hub\<close>

record 'e channel =
  Buffer :: "'e list"
  Closed :: bool

record 'e hub =
  Topics :: "string \<rightharpoonup> nat set"
  Channels :: "nat \<rightharpoonup> 'e channel"

definition bufferSize :: nat where
  "bufferSize = 16"

definition NewHub :: "'e hub" where
  "NewHub = \<lparr>Topics = (\<lambda>_. None), Channels = (\<lambda>_. None)\<rparr>"

definition subscribersOf :: "'e hub \<Rightarrow> string \<Rightarrow> nat set" where
  "subscribersOf h topic = (case Topics h topic of None \<Rightarrow> {} | Some subs \<Rightarrow> subs)"

definition Subscribe :: "string \<Rightarrow> nat \<Rightarrow> 'e hub \<Rightarrow> 'e hub" where
  "Subscribe topic c h = h\<lparr>Topics := (Topics h)(topic \<mapsto> insert c (subscribersOf h topic)),
     Channels := (Channels h)(c \<mapsto> \<lparr>Buffer = [], Closed = False\<rparr>)\<rparr>"

text \<open>The critical section of \<open>unsubscribe\<close>, and the \<open>close\<close> that follows it.\<close>

definition detach :: "string \<Rightarrow> nat \<Rightarrow> 'e hub \<Rightarrow> 'e hub" where
  "detach topic c h = (case Topics h topic of
     None \<Rightarrow> h
   | Some subs \<Rightarrow> let subs = subs - {c} in h\<lparr>Topics := (Topics h)(topic := if subs = {} then None else Some subs)\<rparr>)"

definition closeChannel :: "nat \<Rightarrow> 'e hub \<Rightarrow> 'e hub option" where
  "closeChannel c h = (case Channels h c of
     None \<Rightarrow> None
   | Some ch \<Rightarrow> if Closed ch then None else Some (h\<lparr>Channels := (Channels h)(c \<mapsto> ch\<lparr>Closed := True\<rparr>)\<rparr>))"

text \<open>The non-blocking send: the event and whether the buffer took it.\<close>

definition trySend :: "nat \<Rightarrow> 'e \<Rightarrow> 'e hub \<Rightarrow> (bool \<times> 'e hub) option" where
  "trySend c e h = (case Channels h c of
     None \<Rightarrow> None
   | Some ch \<Rightarrow> if Closed ch then None
       else if length (Buffer ch) < bufferSize then Some (True, h\<lparr>Channels := (Channels h)(c \<mapsto> ch\<lparr>Buffer := Buffer ch @ [e]\<rparr>)\<rparr>)
       else Some (False, h))"

text \<open>\<open>PublishEvent\<close> on its own: \<open>range\<close> visits the subscribers in some order.\<close>

fun PublishEvent :: "nat list \<Rightarrow> 'e \<Rightarrow> 'e hub \<Rightarrow> 'e hub option" where
  "PublishEvent [] e h = Some h"
| "PublishEvent (c # order) e h = (case trySend c e h of None \<Rightarrow> None | Some (_, h) \<Rightarrow> PublishEvent order e h)"

definition waiting :: "nat \<Rightarrow> 'e hub \<Rightarrow> 'e list" where
  "waiting c h = (case Channels h c of None \<Rightarrow> [] | Some ch \<Rightarrow> Buffer ch)"

definition receive :: "nat \<Rightarrow> 'e hub \<Rightarrow> ('e \<times> 'e hub) option" where
  "receive c h = (case Channels h c of
     None \<Rightarrow> None
   | Some ch \<Rightarrow> (case Buffer ch of
       [] \<Rightarrow> None
     | e # es \<Rightarrow> Some (e, h\<lparr>Channels := (Channels h)(c \<mapsto> ch\<lparr>Buffer := es\<rparr>)\<rparr>)))"

subsection \<open>The stream handler's gate\<close>

datatype stream_response = StreamInternal | StreamNotFound | Streaming

definition streamGate :: "(string \<Rightarrow> bool option) \<Rightarrow> string \<Rightarrow> stream_response" where
  "streamGate isPublished slug = (case isPublished slug of
     None \<Rightarrow> StreamInternal | Some ok \<Rightarrow> if \<not> ok then StreamNotFound else Streaming)"

subsection \<open>Goroutines\<close>

datatype 'e hub_label = Subscribed string nat | Detached nat | ClosedChan nat | Publishing nat string 'e
  | Sent nat nat 'e bool | Published nat | Received nat 'e | Panicked

text \<open>\<open>Attached c\<close> is the topic a handler subscribed \<open>c\<close> to and has not left, \<open>Leaving\<close> the channels
  between the critical section and the \<open>close\<close>, \<open>Active p\<close> what publisher \<open>p\<close> has left to send.\<close>

record 'e hub_sys =
  Hub :: "'e hub"
  Attached :: "nat \<rightharpoonup> string"
  Leaving :: "nat set"
  Active :: "nat \<rightharpoonup> string \<times> 'e \<times> nat set"

definition idle :: "'e hub_sys" where
  "idle = \<lparr>Hub = NewHub, Attached = (\<lambda>_. None), Leaving = {}, Active = (\<lambda>_. None)\<rparr>"

inductive hub_step :: "'e hub_sys \<Rightarrow> 'e hub_label \<Rightarrow> 'e hub_sys \<Rightarrow> bool" where
  subscribe: "Active s = (\<lambda>_. None) \<Longrightarrow> Channels (Hub s) c = None
    \<Longrightarrow> hub_step s (Subscribed topic c) (s\<lparr>Hub := Subscribe topic c (Hub s), Attached := (Attached s)(c \<mapsto> topic)\<rparr>)"
| leave: "Active s = (\<lambda>_. None) \<Longrightarrow> Attached s c = Some topic
    \<Longrightarrow> hub_step s (Detached c) (s\<lparr>Hub := detach topic c (Hub s), Attached := (Attached s)(c := None), Leaving := insert c (Leaving s)\<rparr>)"
| shut: "c \<in> Leaving s \<Longrightarrow> closeChannel c (Hub s) = Some h
    \<Longrightarrow> hub_step s (ClosedChan c) (s\<lparr>Hub := h, Leaving := Leaving s - {c}\<rparr>)"
| shut_panic: "c \<in> Leaving s \<Longrightarrow> closeChannel c (Hub s) = None \<Longrightarrow> hub_step s Panicked s"
| publish: "Active s p = None
    \<Longrightarrow> hub_step s (Publishing p topic e) (s\<lparr>Active := (Active s)(p \<mapsto> (topic, e, subscribersOf (Hub s) topic))\<rparr>)"
| send: "Active s p = Some (topic, e, rest) \<Longrightarrow> c \<in> rest \<Longrightarrow> trySend c e (Hub s) = Some (ok, h)
    \<Longrightarrow> hub_step s (Sent p c e ok) (s\<lparr>Hub := h, Active := (Active s)(p \<mapsto> (topic, e, rest - {c}))\<rparr>)"
| send_panic: "Active s p = Some (topic, e, rest) \<Longrightarrow> c \<in> rest \<Longrightarrow> trySend c e (Hub s) = None \<Longrightarrow> hub_step s Panicked s"
| finish: "Active s p = Some (topic, e, {}) \<Longrightarrow> hub_step s (Published p) (s\<lparr>Active := (Active s)(p := None)\<rparr>)"
| take: "receive c (Hub s) = Some (e, h) \<Longrightarrow> hub_step s (Received c e) (s\<lparr>Hub := h\<rparr>)"

inductive hub_run :: "'e hub_label list \<Rightarrow> 'e hub_sys \<Rightarrow> bool" where
  start: "hub_run [] idle"
| more: "hub_run ls s \<Longrightarrow> hub_step s l s' \<Longrightarrow> hub_run (ls @ [l]) s'"

inductive_cases hub_panicE: "hub_step s Panicked s'"

subsection \<open>The invariant of the shared state\<close>

definition openChannel :: "nat \<Rightarrow> 'e hub \<Rightarrow> bool" where
  "openChannel c h \<longleftrightarrow> (\<exists>ch. Channels h c = Some ch \<and> \<not> Closed ch)"

definition sys_ok :: "'e hub_sys \<Rightarrow> bool" where
  "sys_ok s \<longleftrightarrow> (\<forall>c topic. c \<in> subscribersOf (Hub s) topic \<longleftrightarrow> Attached s c = Some topic)
     \<and> (\<forall>topic. Topics (Hub s) topic \<noteq> Some {})
     \<and> (\<forall>c. Attached s c \<noteq> None \<or> c \<in> Leaving s \<longrightarrow> openChannel c (Hub s))
     \<and> (\<forall>c \<in> Leaving s. Attached s c = None)
     \<and> (\<forall>p topic e rest. Active s p = Some (topic, e, rest) \<longrightarrow> (\<forall>c \<in> rest. Attached s c = Some topic))
     \<and> (\<forall>c. length (waiting c (Hub s)) \<le> bufferSize)"

lemma sys_okD:
  assumes "sys_ok s"
  shows "c \<in> subscribersOf (Hub s) topic \<longleftrightarrow> Attached s c = Some topic" and "Topics (Hub s) topic \<noteq> Some {}"
    and "Attached s c \<noteq> None \<Longrightarrow> openChannel c (Hub s)" and "c \<in> Leaving s \<Longrightarrow> openChannel c (Hub s)"
    and "c \<in> Leaving s \<Longrightarrow> Attached s c = None"
    and "Active s p = Some (topic, e, rest) \<Longrightarrow> c \<in> rest \<Longrightarrow> Attached s c = Some topic"
    and "length (waiting c (Hub s)) \<le> bufferSize"
  using assms unfolding sys_ok_def by blast+

lemma open_send: "openChannel c h \<Longrightarrow> trySend c e h \<noteq> None"
  by (auto simp: openChannel_def trySend_def)

lemma open_close: "openChannel c h \<Longrightarrow> closeChannel c h \<noteq> None"
  by (auto simp: openChannel_def closeChannel_def)

text \<open>What each operation does to the three things the invariant reads.\<close>

lemma Subscribe_hub:
  "subscribersOf (Subscribe topic c h) t = (if t = topic then insert c (subscribersOf h t) else subscribersOf h t)"
  "openChannel d (Subscribe topic c h) \<longleftrightarrow> d = c \<or> openChannel d h"
  "waiting d (Subscribe topic c h) = (if d = c then [] else waiting d h)"
  "Topics (Subscribe topic c h) t = Some {} \<Longrightarrow> Topics h t = Some {}"
  "Channels (Subscribe topic c h) d = None \<longleftrightarrow> d \<noteq> c \<and> Channels h d = None"
  by (auto simp: Subscribe_def subscribersOf_def openChannel_def waiting_def split: if_splits)

lemma detach_hub:
  "subscribersOf (detach topic c h) t = (if t = topic then subscribersOf h t - {c} else subscribersOf h t)"
  "openChannel d (detach topic c h) \<longleftrightarrow> openChannel d h"
  "waiting d (detach topic c h) = waiting d h"
  "Channels (detach topic c h) = Channels h"
  "Topics (detach topic c h) t = Some {} \<Longrightarrow> Topics h t = Some {}"
  by (auto simp: detach_def subscribersOf_def openChannel_def waiting_def Let_def split: option.splits if_splits)

lemma closeChannel_hub:
  assumes "closeChannel c h = Some h'"
  shows "subscribersOf h' t = subscribersOf h t" and "Topics h' = Topics h" and "waiting d h' = waiting d h"
    and "d \<noteq> c \<Longrightarrow> openChannel d h' \<longleftrightarrow> openChannel d h" and "Channels h' d = None \<longleftrightarrow> Channels h d = None"
  using assms by (auto simp: closeChannel_def subscribersOf_def openChannel_def waiting_def split: option.splits if_splits)

lemma trySend_hub:
  assumes "trySend c e h = Some (ok, h')"
  shows "subscribersOf h' t = subscribersOf h t" and "Topics h' = Topics h" and "openChannel d h' \<longleftrightarrow> openChannel d h"
    and "waiting d h' = (if d = c \<and> ok then waiting c h @ [e] else waiting d h)" and "ok \<longleftrightarrow> length (waiting c h) < bufferSize"
    and "Channels h' d = None \<longleftrightarrow> Channels h d = None"
  using assms by (auto simp: trySend_def subscribersOf_def openChannel_def waiting_def split: option.splits if_splits)

lemma receive_hub:
  assumes "receive c h = Some (e, h')"
  shows "subscribersOf h' t = subscribersOf h t" and "Topics h' = Topics h" and "openChannel d h' \<longleftrightarrow> openChannel d h"
    and "waiting c h = e # waiting c h'" and "d \<noteq> c \<Longrightarrow> waiting d h' = waiting d h" and "Channels h' d = None \<longleftrightarrow> Channels h d = None"
  using assms by (auto simp: receive_def subscribersOf_def openChannel_def waiting_def split: option.splits list.splits if_splits)

lemma sys_ok_idle: "sys_ok idle"
  by (simp add: sys_ok_def idle_def NewHub_def subscribersOf_def waiting_def)

lemma sys_ok_step:
  assumes "hub_step s l s'" and "sys_ok s"
  shows "sys_ok s'"
  using assms(1)
proof (cases rule: hub_step.cases)
  case (subscribe c topic)
  have "\<not> openChannel c (Hub s)" using subscribe(4) by (simp add: openChannel_def)
  then have "Attached s c = None" "c \<notin> Leaving s" using sys_okD(3,4) [OF assms(2), of c] by blast+
  then show ?thesis using subscribe assms(2) Subscribe_hub(4) [of topic c "Hub s"] by (auto simp: sys_ok_def Subscribe_hub(1-3))
next
  case (leave c topic)
  then show ?thesis using assms(2) detach_hub(5) [of topic c "Hub s"] by (auto simp: sys_ok_def detach_hub(1-3))
next
  case (shut c h)
  have "openChannel d h" if "Attached s d \<noteq> None \<or> d \<in> Leaving s - {c}" for d
  proof -
    have "d \<noteq> c" using that sys_okD(5) [OF assms(2) shut(3)] by blast
    then show ?thesis using closeChannel_hub(4) [OF shut(4)] sys_okD(3,4) [OF assms(2), of d] that by blast
  qed
  then show ?thesis using shut assms(2) by (auto simp: sys_ok_def closeChannel_hub(1-3) [OF shut(4)])
next
  case (send p topic e rest c ok h)
  have "length (waiting d h) \<le> bufferSize" for d
    using trySend_hub(4) [OF send(5), of d] trySend_hub(5) [OF send(5)] sys_okD(7) [OF assms(2), of d] by auto
  then show ?thesis using send assms(2) by (auto simp: sys_ok_def trySend_hub(1-3) [OF send(5)] split: if_splits)
next
  case (take c e h)
  have "length (waiting d h) \<le> bufferSize" for d
    using receive_hub(4) [OF take(3)] receive_hub(5) [OF take(3), of d] sys_okD(7) [OF assms(2), of d] by (cases "d = c") auto
  then show ?thesis using take assms(2) by (auto simp: sys_ok_def receive_hub(1-3) [OF take(3)])
qed (use assms(2) in \<open>auto simp: sys_ok_def split: if_splits\<close>)

lemma no_panic: "sys_ok s \<Longrightarrow> \<not> hub_step s Panicked s'"
proof
  assume ok: "sys_ok s" and "hub_step s Panicked s'"
  from this(2) show False
  proof (cases rule: hub_step.cases)
    case (shut_panic c)
    then show False using open_close sys_okD(4) [OF ok] by blast
  next
    case (send_panic p topic e rest c)
    have "Attached s c = Some topic" by (rule sys_okD(6) [OF ok send_panic(2,3)])
    then have "openChannel c (Hub s)" using sys_okD(3) [OF ok, of c] by simp
    then show False using send_panic(4) open_send [of c "Hub s" e] by simp
  qed
qed

subsection \<open>What a client sees\<close>

definition receivedBy :: "nat \<Rightarrow> 'e hub_label list \<Rightarrow> 'e list" where
  "receivedBy c ls = concat (map (\<lambda>l. case l of Received d e \<Rightarrow> if d = c then [e] else [] | _ \<Rightarrow> []) ls)"

definition takenBy :: "nat \<Rightarrow> 'e hub_label list \<Rightarrow> 'e list" where
  "takenBy c ls = concat (map (\<lambda>l. case l of Sent p d e ok \<Rightarrow> if d = c \<and> ok then [e] else [] | _ \<Rightarrow> []) ls)"

definition offeredTo :: "nat \<Rightarrow> 'e hub_label list \<Rightarrow> 'e list" where
  "offeredTo c ls = concat (map (\<lambda>l. case l of Sent p d e ok \<Rightarrow> if d = c then [e] else [] | _ \<Rightarrow> []) ls)"

lemma history_Nil [simp]: "receivedBy c [] = []" "takenBy c [] = []" "offeredTo c [] = []"
  by (simp_all add: receivedBy_def takenBy_def offeredTo_def)

lemma history_snoc [simp]:
  "receivedBy c (ls @ [l]) = receivedBy c ls @ (case l of Received d e \<Rightarrow> if d = c then [e] else [] | _ \<Rightarrow> [])"
  "takenBy c (ls @ [l]) = takenBy c ls @ (case l of Sent p d e ok \<Rightarrow> if d = c \<and> ok then [e] else [] | _ \<Rightarrow> [])"
  "offeredTo c (ls @ [l]) = offeredTo c ls @ (case l of Sent p d e ok \<Rightarrow> if d = c then [e] else [] | _ \<Rightarrow> [])"
  by (simp_all add: receivedBy_def takenBy_def offeredTo_def)

text \<open>What the labels of a run say about the state it ends in.\<close>

definition history_ok :: "'e hub_label list \<Rightarrow> 'e hub_sys \<Rightarrow> bool" where
  "history_ok ls s \<longleftrightarrow> (\<forall>c. receivedBy c ls @ waiting c (Hub s) = takenBy c ls)
     \<and> (\<forall>c topic. Attached s c = Some topic \<longleftrightarrow> Subscribed topic c \<in> set ls \<and> Detached c \<notin> set ls)
     \<and> (\<forall>c topic. Subscribed topic c \<in> set ls \<or> Detached c \<in> set ls \<longrightarrow> Channels (Hub s) c \<noteq> None)
     \<and> (\<forall>p topic e rest. Active s p = Some (topic, e, rest) \<longrightarrow> Publishing p topic e \<in> set ls
          \<and> (\<forall>c. Attached s c = Some topic \<longrightarrow> c \<in> rest \<or> (\<exists>ok. Sent p c e ok \<in> set ls)))
     \<and> (\<forall>p c e ok. Sent p c e ok \<in> set ls \<longrightarrow> (\<exists>topic. Publishing p topic e \<in> set ls \<and> Subscribed topic c \<in> set ls))"

lemma history_okD:
  assumes "history_ok ls s"
  shows "receivedBy c ls @ waiting c (Hub s) = takenBy c ls"
    and "Attached s c = Some topic \<longleftrightarrow> Subscribed topic c \<in> set ls \<and> Detached c \<notin> set ls"
    and "Subscribed topic c \<in> set ls \<or> Detached c \<in> set ls \<Longrightarrow> Channels (Hub s) c \<noteq> None"
    and "Active s p = Some (topic, e, rest) \<Longrightarrow> Publishing p topic e \<in> set ls"
    and "Active s p = Some (topic, e, rest) \<Longrightarrow> Attached s c = Some topic \<Longrightarrow> c \<in> rest \<or> (\<exists>ok. Sent p c e ok \<in> set ls)"
    and "Sent p c e ok \<in> set ls \<Longrightarrow> \<exists>topic. Publishing p topic e \<in> set ls \<and> Subscribed topic c \<in> set ls"
proof -
  show "receivedBy c ls @ waiting c (Hub s) = takenBy c ls"
    and "Attached s c = Some topic \<longleftrightarrow> Subscribed topic c \<in> set ls \<and> Detached c \<notin> set ls"
    using assms by (simp_all add: history_ok_def)
  show "Subscribed topic c \<in> set ls \<or> Detached c \<in> set ls \<Longrightarrow> Channels (Hub s) c \<noteq> None"
    using assms [unfolded history_ok_def, THEN conjunct2, THEN conjunct2, THEN conjunct1] by blast
  note rest = assms [unfolded history_ok_def, THEN conjunct2, THEN conjunct2, THEN conjunct2]
  show "Active s p = Some (topic, e, rest) \<Longrightarrow> Publishing p topic e \<in> set ls"
    and "Active s p = Some (topic, e, rest) \<Longrightarrow> Attached s c = Some topic \<Longrightarrow> c \<in> rest \<or> (\<exists>ok. Sent p c e ok \<in> set ls)"
    using rest [THEN conjunct1] by blast+
  show "Sent p c e ok \<in> set ls \<Longrightarrow> \<exists>topic. Publishing p topic e \<in> set ls \<and> Subscribed topic c \<in> set ls"
    using rest [THEN conjunct2] by blast
qed

lemma history_okI:
  assumes "\<And>c. receivedBy c ls @ waiting c (Hub s) = takenBy c ls"
    and "\<And>c topic. Attached s c = Some topic \<longleftrightarrow> Subscribed topic c \<in> set ls \<and> Detached c \<notin> set ls"
    and "\<And>c topic. Subscribed topic c \<in> set ls \<or> Detached c \<in> set ls \<Longrightarrow> Channels (Hub s) c \<noteq> None"
    and "\<And>p topic e rest. Active s p = Some (topic, e, rest) \<Longrightarrow> Publishing p topic e \<in> set ls"
    and "\<And>p topic e rest c. Active s p = Some (topic, e, rest) \<Longrightarrow> Attached s c = Some topic \<Longrightarrow> c \<in> rest \<or> (\<exists>ok. Sent p c e ok \<in> set ls)"
    and "\<And>p c e ok. Sent p c e ok \<in> set ls \<Longrightarrow> \<exists>topic. Publishing p topic e \<in> set ls \<and> Subscribed topic c \<in> set ls"
  shows "history_ok ls s"
  unfolding history_ok_def using assms by blast

lemma history_ok_step:
  assumes "hub_step s l s'" and ok: "sys_ok s" and h: "history_ok ls s"
  shows "history_ok (ls @ [l]) s'"
  using assms(1)
proof (cases rule: hub_step.cases)
  case (subscribe c topic)
  have fresh: "Subscribed t c \<notin> set ls" "Detached c \<notin> set ls" for t using history_okD(3) [OF h, of t c] subscribe(4) by auto
  then have "Attached s c = None" using history_okD(2) [OF h, of c] by (cases "Attached s c") auto
  moreover have "receivedBy c ls = takenBy c ls"
    using history_okD(1) [OF h, of c] subscribe(4) by (simp add: waiting_def)
  ultimately show ?thesis using subscribe h fresh
    by (auto simp: history_ok_def Subscribe_hub(3,5) split: if_splits) blast+
next
  case (leave c topic)
  have "Channels (Hub s) c \<noteq> None" using history_okD(2) [OF h, of c topic] history_okD(3) [OF h, of topic c] leave(4) by blast
  then show ?thesis using leave h by (auto simp: history_ok_def detach_hub(3,4))
next
  case (shut c hb)
  then show ?thesis using h by (auto simp: history_ok_def closeChannel_hub(3,5) [OF shut(4)])
next
  case (publish p topic e)
  show ?thesis
  proof (rule history_okI)
    fix q d x b assume "Sent q d x b \<in> set (ls @ [l])"
    then have "Sent q d x b \<in> set ls" using publish(1) by simp
    then show "\<exists>t. Publishing q t x \<in> set (ls @ [l]) \<and> Subscribed t d \<in> set (ls @ [l])" using history_okD(6) [OF h] by fastforce
  next
    fix q t x xs d assume a: "Active s' q = Some (t, x, xs)" "Attached s' d = Some t"
    show "d \<in> xs \<or> (\<exists>ok. Sent q d x ok \<in> set (ls @ [l]))"
      using a publish sys_okD(1) [OF ok, of d t] history_okD(5) [OF h, of q t x xs d] by (cases "q = p") auto
  next
    fix q t x xs assume "Active s' q = Some (t, x, xs)"
    then show "Publishing q t x \<in> set (ls @ [l])" using publish history_okD(4) [OF h, of q t x xs] by (cases "q = p") auto
  next
    fix d t show "Attached s' d = Some t \<longleftrightarrow> Subscribed t d \<in> set (ls @ [l]) \<and> Detached d \<notin> set (ls @ [l])"
      using history_okD(2) [OF h, of d t] publish(1,2) by simp
    show "Subscribed t d \<in> set (ls @ [l]) \<or> Detached d \<in> set (ls @ [l]) \<Longrightarrow> Channels (Hub s') d \<noteq> None"
      using history_okD(3) [OF h, of t d] publish(1,2) by simp
    show "receivedBy d (ls @ [l]) @ waiting d (Hub s') = takenBy d (ls @ [l])"
      using history_okD(1) [OF h, of d] publish(1,2) by simp
  qed
next
  case (send p topic e rest c b hb)
  have "\<exists>topic. Publishing p topic e \<in> set ls \<and> Subscribed topic c \<in> set ls"
    using history_okD(4) [OF h send(3)] history_okD(2) [OF h] sys_okD(6) [OF ok send(3,4)] by blast
  note from_to = this
  show ?thesis
  proof (rule history_okI)
    fix d show "receivedBy d (ls @ [l]) @ waiting d (Hub s') = takenBy d (ls @ [l])"
      using history_okD(1) [OF h, of d] trySend_hub(4) [OF send(5), of d] send(1,2) by (cases "d = c"; cases b) simp_all
  next
    fix d t show "Attached s' d = Some t \<longleftrightarrow> Subscribed t d \<in> set (ls @ [l]) \<and> Detached d \<notin> set (ls @ [l])"
      using history_okD(2) [OF h, of d t] send(1,2) by simp
  next
    fix d t show "Subscribed t d \<in> set (ls @ [l]) \<or> Detached d \<in> set (ls @ [l]) \<Longrightarrow> Channels (Hub s') d \<noteq> None"
      using history_okD(3) [OF h, of t d] send(1,2) trySend_hub(6) [OF send(5), of d] by simp
  next
    fix q t x xs assume "Active s' q = Some (t, x, xs)"
    then show "Publishing q t x \<in> set (ls @ [l])"
      using history_okD(4) [OF h] send by (auto split: if_splits)
  next
    fix q t x xs d assume a: "Active s' q = Some (t, x, xs)" "Attached s' d = Some t"
    show "d \<in> xs \<or> (\<exists>ok. Sent q d x ok \<in> set (ls @ [l]))"
    proof (cases "q = p")
      case True
      then show ?thesis using a send(1,2) history_okD(5) [OF h send(3), of d] by auto
    next
      case False
      then show ?thesis using a send(1,2) history_okD(5) [OF h, of q t x xs d] by auto
    qed
  next
    fix q d x ok assume "Sent q d x ok \<in> set (ls @ [l])"
    then consider "Sent q d x ok \<in> set ls" | "q = p" "d = c" "x = e" using send(1) by auto
    then show "\<exists>t. Publishing q t x \<in> set (ls @ [l]) \<and> Subscribed t d \<in> set (ls @ [l])"
      using history_okD(6) [OF h] from_to by cases force+
  qed
next
  case (take c e hb)
  have "takenBy d ls = receivedBy d ls @ waiting d (Hub s)" for d using history_okD(1) [OF h, of d] by simp
  then have "receivedBy d (ls @ [l]) @ waiting d hb = takenBy d (ls @ [l])" for d
    using receive_hub(4) [OF take(3)] receive_hub(5) [OF take(3), of d] take(1) by (cases "d = c") (auto simp:)
  then show ?thesis using take h by (auto simp: history_ok_def receive_hub(6) [OF take(3)])
qed (use h no_panic [OF ok] in \<open>auto simp: history_ok_def\<close>)

lemma hub_run_ok: "hub_run ls s \<Longrightarrow> sys_ok s \<and> history_ok ls s \<and> Panicked \<notin> set ls"
proof (induction rule: hub_run.induct)
  case start
  show ?case by (simp add: sys_ok_idle history_ok_def) (simp add: idle_def NewHub_def waiting_def)
next
  case (more ls s l s')
  then have ok: "sys_ok s" "history_ok ls s" and np: "Panicked \<notin> set ls" by auto
  have "l \<noteq> Panicked" using no_panic [OF ok(1)] more(2) by blast
  then show ?case using sys_ok_step [OF more(2) ok(1)] history_ok_step [OF more(2) ok] np by simp
qed

lemma hub_run_split: "hub_run ls s \<Longrightarrow> ls = xs @ l # ys \<Longrightarrow> \<exists>s1 s2. hub_run xs s1 \<and> hub_step s1 l s2"
proof (induction arbitrary: ys rule: hub_run.induct)
  case (more ls s l' s')
  show ?case
  proof (cases ys rule: rev_cases)
    case Nil
    then show ?thesis using more by auto
  next
    case (snoc zs z)
    then show ?thesis using more.IH [of zs] more.prems by auto
  qed
qed simp

lemma dropped_when_full: "hub_step s (Sent p c e False) s' \<Longrightarrow> sys_ok s \<Longrightarrow> length (waiting c (Hub s)) = bufferSize"
  using trySend_hub(5) sys_okD(7) by (elim hub_step.cases) (fastforce simp: le_antisym not_less)+

lemma finished_when_sent: "hub_step s (Published p) s' \<Longrightarrow> \<exists>topic e. Active s p = Some (topic, e, {})"
  by (elim hub_step.cases) auto

lemma subseq_taken: "subseq (takenBy c ls) (offeredTo c ls)"
  by (induction ls rule: rev_induct) (auto intro!: list_emb_append_mono split: hub_label.split)

text \<open>C37. However the goroutines of the server interleave, the hub never panics: no event is sent to a
  closed channel and none is closed twice. A client receives, in the order the hub took them, events
  offered to it, at most 16 behind; every event offered to it was published on the topic it
  subscribed to, one is dropped only while 16 are waiting for that client, and a publisher that is
  done has offered its event to every client that had subscribed and not left. A topic is in the map
  exactly while it has subscribers.\<close>

theorem stream_delivers_in_order:
  assumes "hub_run ls s"
  shows "Panicked \<notin> set ls
    \<and> (\<forall>c. prefix (receivedBy c ls) (takenBy c ls) \<and> subseq (takenBy c ls) (offeredTo c ls)
         \<and> length (takenBy c ls) \<le> length (receivedBy c ls) + 16)
    \<and> (\<forall>p c e ok. Sent p c e ok \<in> set ls \<longrightarrow> (\<exists>topic. Publishing p topic e \<in> set ls \<and> Subscribed topic c \<in> set ls))
    \<and> (\<forall>xs ys p c e. ls = xs @ Sent p c e False # ys \<longrightarrow> length (takenBy c xs) = length (receivedBy c xs) + 16)
    \<and> (\<forall>xs ys p. ls = xs @ Published p # ys \<longrightarrow> (\<exists>topic e. Publishing p topic e \<in> set xs
         \<and> (\<forall>c. Subscribed topic c \<in> set xs \<and> Detached c \<notin> set xs \<longrightarrow> (\<exists>ok. Sent p c e ok \<in> set xs))))
    \<and> (\<forall>topic. Topics (Hub s) topic \<noteq> None \<longleftrightarrow> (\<exists>c. Subscribed topic c \<in> set ls \<and> Detached c \<notin> set ls))"
proof -
  have ok: "sys_ok s" "history_ok ls s" "Panicked \<notin> set ls" using hub_run_ok [OF assms] by auto
  have ahead: "length (takenBy c xs) = length (receivedBy c xs) + length (waiting c (Hub t))" if "history_ok xs t" for c xs t
    using arg_cong [OF history_okD(1) [OF that, of c], of length] by simp
  have "prefix (receivedBy c ls) (takenBy c ls)" for c using history_okD(1) [OF ok(2), of c] by (metis prefixI)
  moreover have "length (takenBy c ls) \<le> length (receivedBy c ls) + 16" for c
    using ahead [OF ok(2)] sys_okD(7) [OF ok(1), of c] by (simp add: bufferSize_def)
  moreover have "length (takenBy c xs) = length (receivedBy c xs) + 16" if split: "ls = xs @ Sent p c e False # ys" for xs ys p c e
  proof -
    obtain s1 s2 where r: "hub_run xs s1" "hub_step s1 (Sent p c e False) s2" using hub_run_split [OF assms split] by blast
    then show ?thesis using hub_run_ok [OF r(1)] dropped_when_full [OF r(2)] ahead [of xs s1 c] by (simp add: bufferSize_def)
  qed
  moreover have "\<exists>topic e. Publishing p topic e \<in> set xs
      \<and> (\<forall>c. Subscribed topic c \<in> set xs \<and> Detached c \<notin> set xs \<longrightarrow> (\<exists>ok. Sent p c e ok \<in> set xs))"
    if split: "ls = xs @ Published p # ys" for xs ys p
  proof -
    obtain s1 s2 where r: "hub_run xs s1" "hub_step s1 (Published p) s2" using hub_run_split [OF assms split] by blast
    have h: "history_ok xs s1" using hub_run_ok [OF r(1)] by blast
    obtain topic e where a: "Active s1 p = Some (topic, e, {})" using finished_when_sent [OF r(2)] by blast
    then show ?thesis using history_okD(4,5) [OF h a] history_okD(2) [OF h] by blast
  qed
  moreover have "Topics (Hub s) topic \<noteq> None \<longleftrightarrow> (\<exists>c. Subscribed topic c \<in> set ls \<and> Detached c \<notin> set ls)" for topic
  proof -
    have "Topics (Hub s) topic \<noteq> None \<longleftrightarrow> subscribersOf (Hub s) topic \<noteq> {}"
      using sys_okD(2) [OF ok(1), of topic] by (cases "Topics (Hub s) topic") (auto simp: subscribersOf_def)
    then show ?thesis using sys_okD(1) [OF ok(1)] history_okD(2) [OF ok(2)] by blast
  qed
  ultimately show ?thesis using ok(3) subseq_taken history_okD(6) [OF ok(2)] by blast
qed

text \<open>One publisher alone: every subscriber with room gets the event, once, and no other channel changes.\<close>

lemma PublishEvent_alone:
  assumes "distinct order" and "\<And>c. c \<in> set order \<Longrightarrow> openChannel c h"
  shows "\<exists>h'. PublishEvent order e h = Some h' \<and> Topics h' = Topics h
    \<and> (\<forall>c. waiting c h' = (if c \<in> set order \<and> length (waiting c h) < bufferSize then waiting c h @ [e] else waiting c h))"
  using assms
proof (induction order arbitrary: h)
  case (Cons c order)
  obtain ok h1 where s: "trySend c e h = Some (ok, h1)" using open_send [of c h e] Cons.prems(2) by fastforce
  have "\<exists>h'. PublishEvent order e h1 = Some h' \<and> Topics h' = Topics h1
    \<and> (\<forall>d. waiting d h' = (if d \<in> set order \<and> length (waiting d h1) < bufferSize then waiting d h1 @ [e] else waiting d h1))"
    by (rule Cons.IH) (use Cons.prems trySend_hub(3) [OF s] in auto)
  then show ?case using Cons.prems(1) trySend_hub(2,4,5) [OF s] by (auto simp: s)
qed simp

theorem stream_delivers_in_order_witness:
  "\<exists>s. hub_run [Subscribed ''cup'' 1, Publishing 7 ''cup'' (5::nat), Sent 7 1 5 True, Published 7, Received 1 5] s
    \<and> subseq (takenBy 1 [Subscribed ''cup'' 1, Publishing 7 ''cup'' (5::nat), Sent 7 1 5 True, Published 7, Received 1 5]) [5]"
proof -
  let ?ls = "[Subscribed ''cup'' 1, Publishing 7 ''cup'' (5::nat), Sent 7 1 5 True, Published 7, Received 1 5]"
  let ?i = "idle :: nat hub_sys"
  let ?s1 = "?i\<lparr>Hub := Subscribe ''cup'' 1 (Hub ?i), Attached := (Attached ?i)(1 \<mapsto> ''cup'')\<rparr>"
  have "hub_step ?i (Subscribed ''cup'' 1) ?s1" by (rule hub_step.subscribe) (simp_all add: idle_def NewHub_def)
  note 1 = hub_run.more [OF hub_run.start this]
  let ?s2 = "?s1\<lparr>Active := (Active ?s1)(7 \<mapsto> (''cup'', 5, subscribersOf (Hub ?s1) ''cup''))\<rparr>"
  have "hub_step ?s1 (Publishing 7 ''cup'' 5) ?s2" by (rule hub_step.publish) (simp add: idle_def)
  note 2 = hub_run.more [OF 1 this]
  obtain h where h: "trySend 1 5 (Hub ?s2) = Some (True, h)" "waiting 1 h = [5::nat]"
    by (simp add: trySend_def Subscribe_def bufferSize_def waiting_def)
  have a: "Active ?s2 7 = Some (''cup'', 5, subscribersOf (Hub ?s1) ''cup'')" "1 \<in> subscribersOf (Hub ?s1) ''cup''"
      "subscribersOf (Hub ?s1) ''cup'' - {1} = {}"
    by (simp_all add: Subscribe_hub(1)) (simp add: idle_def NewHub_def subscribersOf_def)
  note 3 = hub_run.more [OF 2 hub_step.send [OF a(1,2) h(1)]]
  let ?s3 = "?s2\<lparr>Hub := h, Active := (Active ?s2)(7 \<mapsto> (''cup'', 5, {}))\<rparr>"
  have "hub_step ?s3 (Published 7) (?s3\<lparr>Active := (Active ?s3)(7 := None)\<rparr>)" (is "hub_step _ _ ?s4")
    by (rule hub_step.finish [where topic = "''cup''" and e = 5]) simp
  note 4 = hub_run.more [OF 3 [unfolded a(3)] this]
  obtain h' where "receive 1 (Hub ?s4) = Some (5, h')" using h(2) by (auto simp: receive_def waiting_def split: option.splits)
  note 5 = hub_run.more [OF 4 hub_step.take [OF this]]
  have "\<exists>s. hub_run ?ls s" using 5 by auto
  then obtain s where "hub_run ?ls s" by blast
  moreover have "offeredTo 1 ?ls = [5]" by (simp add: offeredTo_def)
  ultimately show ?thesis using stream_delivers_in_order [of ?ls s] by metis
qed

end
