(* ===== verification/Web.thy ===== *)
theory Web
  imports GoText "HOL-Library.Word"
begin

section \<open>Responses, pagination, configuration and mail delivery\<close>

text \<open>
  What every handler shares: the error values and response shapes of internal/server (errors.go,
  response.go) and the pagination of lists; the start-up configuration (internal/config) with the
  choice of a mail sender in cmd/api/main.go, and the pure parts of internal/email. \<open>env.ParseAs\<close> is
  third-party: \<open>Load\<close> takes its result. Go's \<open>int\<close> has 64 bits.
\<close>

subsection \<open>Errors and replies (server/errors.go, server/response.go)\<close>

record 'd app_error =
  AeStatus :: nat
  AeCode :: string
  AeMessage :: string
  AeDetails :: "'d option"

definition WithDetails :: "'d \<Rightarrow> 'd app_error \<Rightarrow> 'd app_error" where
  "WithDetails details e = e\<lparr>AeDetails := Some details\<rparr>"

definition orElse :: "string \<Rightarrow> string \<Rightarrow> string" where
  "orElse msg dflt = (if msg = [] then dflt else msg)"

definition ErrBadRequest :: "string \<Rightarrow> 'd app_error" where
  "ErrBadRequest msg = \<lparr>AeStatus = 400, AeCode = ''bad_request'', AeMessage = msg, AeDetails = None\<rparr>"

definition ErrValidation :: "string \<Rightarrow> 'd app_error" where
  "ErrValidation msg = \<lparr>AeStatus = 422, AeCode = ''validation_error'', AeMessage = msg, AeDetails = None\<rparr>"

definition ErrUnauthorized :: "string \<Rightarrow> 'd app_error" where
  "ErrUnauthorized msg = \<lparr>AeStatus = 401, AeCode = ''unauthorized'', AeMessage = orElse msg ''authentication required'', AeDetails = None\<rparr>"

definition ErrForbidden :: "string \<Rightarrow> 'd app_error" where
  "ErrForbidden msg = \<lparr>AeStatus = 403, AeCode = ''forbidden'',
     AeMessage = orElse msg ''you do not have permission to perform this action'', AeDetails = None\<rparr>"

definition ErrNotFound :: "string \<Rightarrow> 'd app_error" where
  "ErrNotFound msg = \<lparr>AeStatus = 404, AeCode = ''not_found'', AeMessage = orElse msg ''resource not found'', AeDetails = None\<rparr>"

definition ErrConflict :: "string \<Rightarrow> 'd app_error" where
  "ErrConflict msg = \<lparr>AeStatus = 409, AeCode = ''conflict'', AeMessage = msg, AeDetails = None\<rparr>"

definition ErrInternal :: "string \<Rightarrow> 'd app_error" where
  "ErrInternal msg = \<lparr>AeStatus = 500, AeCode = ''internal_error'', AeMessage = orElse msg ''an unexpected error occurred'', AeDetails = None\<rparr>"

record list_meta =
  MetaPage :: int
  MetaPerPage :: int
  MetaTotal :: int

datatype 'a reply = OK 'a | Created 'a | ListReply 'a list_meta | NoContent

lemmas error_defs = ErrBadRequest_def ErrValidation_def ErrUnauthorized_def ErrForbidden_def ErrNotFound_def ErrConflict_def ErrInternal_def

subsection \<open>Pagination\<close>

definition isDigit :: "char \<Rightarrow> bool" where
  "isDigit c \<longleftrightarrow> 48 \<le> (of_char c :: nat) \<and> (of_char c :: nat) \<le> 57"

definition int64 :: "int \<Rightarrow> int" where
  "int64 n = sint (word_of_int n :: 64 word)"

text \<open>\<open>strconv.Atoi\<close>: an optional sign and decimal digits, within the range of \<open>int\<close>.\<close>

definition Atoi :: "string \<Rightarrow> int option" where
  "Atoi s =
     (let (neg, ds) = (case s of [] \<Rightarrow> (False, [])
          | c # cs \<Rightarrow> if c = CHR ''-'' then (True, cs) else if c = CHR ''+'' then (False, cs) else (False, s))
      in if ds = [] \<or> \<not> list_all isDigit ds then None
         else let n = (if neg then - int (dec_value ds 0) else int (dec_value ds 0))
              in if - (2 ^ 63) \<le> n \<and> n < 2 ^ 63 then Some n else None)"

definition atoiDefault :: "string \<Rightarrow> int \<Rightarrow> int" where
  "atoiDefault s def = (if s = [] then def else case Atoi s of None \<Rightarrow> def | Some n \<Rightarrow> n)"

definition Pagination :: "string \<Rightarrow> string \<Rightarrow> int \<times> int \<times> int" where
  "Pagination pageQuery perPageQuery =
     (let pg = atoiDefault pageQuery 1;
          pg = (if pg < 1 then 1 else pg);
          perPage = atoiDefault perPageQuery 20;
          perPage = (if perPage < 1 then 20 else perPage);
          perPage = (if perPage > 100 then 100 else perPage)
      in (pg, perPage, int64 (int64 (pg - 1) * perPage)))"

lemma int64_signed: "int64 n = signed_take_bit 63 n"
  by (simp add: int64_def signed_of_int)

lemma int64_id: "- (2 ^ 63) \<le> n \<Longrightarrow> n < 2 ^ 63 \<Longrightarrow> int64 n = n"
  by (simp add: int64_signed signed_take_bit_int_eq_self)

text \<open>The offset wraps: \<open>?page=9223372036854775807\<close> asks for offset -40.\<close>

lemma Atoi_max: "Atoi ''9223372036854775807'' = Some 9223372036854775807"
  by (simp add: Atoi_def isDigit_def)

lemma pagination_wraps: "Pagination ''9223372036854775807'' [] = (9223372036854775807, 20, - 40)"
proof -
  have "int64 9223372036854775806 = 9223372036854775806" by (rule int64_id) simp_all
  moreover have "int64 (9223372036854775806 * 20) = - 40"
    by (simp add: int64_signed)
  ultimately show ?thesis by (simp add: Pagination_def atoiDefault_def Atoi_max)
qed

text \<open>\<open>Atoi\<close> reads back what \<open>%d\<close> printed.\<close>

lemma dec_nat_all_digits: "list_all isDigit (dec_nat n) \<and> dec_nat n \<noteq> []"
proof (induction n rule: dec_nat.induct)
  case (1 n)
  have d: "isDigit (char_of (48 + k))" if "k < 10" for k :: nat using that by (simp add: isDigit_def of_char_of)
  show ?case using 1 d [of n] d [of "n mod 10"] by (subst (1 2) dec_nat.simps) simp
qed

lemma dec_nat_no_sign: "dec_nat n = c # cs \<Longrightarrow> c \<noteq> CHR ''-'' \<and> c \<noteq> CHR ''+''"
  using dec_nat_all_digits [of n] by (auto simp: isDigit_def)

lemma Atoi_dec:
  assumes "- (2 ^ 63) \<le> n" and "n < 2 ^ 63"
  shows "Atoi (dec n) = Some n"
proof (cases "n < 0")
  case True
  then show ?thesis using assms dec_nat_all_digits [of "nat (- n)"] by (simp add: Atoi_def dec_def dec_value_dec_nat Let_def)
next
  case False
  obtain c cs where c: "dec_nat (nat n) = c # cs" using dec_nat_all_digits [of "nat n"] by (cases "dec_nat (nat n)") auto
  then have "list_all isDigit (c # cs)" "dec_value (c # cs) 0 = nat n" using dec_nat_all_digits [of "nat n"] dec_value_dec_nat [of "nat n"] by simp_all
  then show ?thesis using assms False c dec_nat_no_sign [OF c] by (simp add: Atoi_def dec_def Let_def)
qed

lemma Pagination_bounds:
  assumes "Pagination pageQuery perPageQuery = (pg, perPage, offset)"
  shows "1 \<le> pg" and "1 \<le> perPage" and "perPage \<le> 100" and "(pg - 1) * perPage < 2 ^ 63 \<Longrightarrow> offset = (pg - 1) * perPage"
proof -
  have "- (2 ^ 63) \<le> atoiDefault q d \<and> atoiDefault q d < 2 ^ 63" if "- (2 ^ 63) \<le> d" "d < 2 ^ 63" for q d
    using that by (auto simp: atoiDefault_def Atoi_def Let_def split: option.splits if_splits prod.splits)
  from this [of 1 pageQuery] have r: "atoiDefault pageQuery 1 < 2 ^ 63" by simp
  show b: "1 \<le> pg" "1 \<le> perPage" "perPage \<le> 100" using assms by (auto simp: Pagination_def Let_def split: if_splits)
  have "pg < 2 ^ 63" using assms r by (auto simp: Pagination_def Let_def split: if_splits)
  then have "int64 (pg - 1) = pg - 1" using b(1) by (intro int64_id) simp_all
  moreover have "offset = int64 (int64 (pg - 1) * perPage)" using assms by (auto simp: Pagination_def Let_def)
  moreover assume "(pg - 1) * perPage < 2 ^ 63"
  moreover have "0 \<le> (pg - 1) * perPage" using b(1,2) by simp
  ultimately show "offset = (pg - 1) * perPage" using int64_id [of "(pg - 1) * perPage"] by simp
qed

lemma Pagination_dec:
  assumes "1 \<le> pg" and "1 \<le> perPage" and "perPage \<le> 100" and "pg * perPage < 2 ^ 63"
  shows "Pagination (dec pg) (dec perPage) = (pg, perPage, (pg - 1) * perPage)"
proof -
  have "pg \<le> pg * perPage" using assms(1,2) by (simp add: mult_le_cancel_left1)
  then have "pg < 2 ^ 63" using assms(4) by simp
  then have at: "Atoi (dec pg) = Some pg" "Atoi (dec perPage) = Some perPage" using assms by (auto intro: Atoi_dec)
  have ne: "dec n \<noteq> []" for n using dec_nat_all_digits by (simp add: dec_def)
  have "(pg - 1) * perPage < 2 ^ 63" using assms(2,4) by (simp add: algebra_simps)
  moreover have "fst (Pagination (dec pg) (dec perPage)) = pg" "fst (snd (Pagination (dec pg) (dec perPage))) = perPage"
    using assms at ne by (simp_all add: Pagination_def atoiDefault_def Let_def)
  ultimately show ?thesis
    using Pagination_bounds(4) [of "dec pg" "dec perPage" pg perPage "snd (snd (Pagination (dec pg) (dec perPage)))"]
    by (simp add: prod_eq_iff)
qed

subsection \<open>Configuration (internal/config)\<close>

record config =
  CfgEnv :: string
  CfgPort :: int
  DatabaseURL :: string
  MigrationDatabaseURL :: string
  DBMaxConns :: int
  JWTSecret :: string
  AccessTokenTTL :: int
  RefreshTokenTTL :: int
  CORSOrigins :: "string list"
  LogLevel :: string
  OTPPepper :: string
  PlunkAPIKey :: string
  PlunkFromEmail :: string
  PlunkFromName :: string
  PlunkSendURL :: string
  PlunkAllowRealSend :: bool
  E2ETestMode :: bool
  CfgPasswordLogin :: bool

datatype config_error = EnvUnreadable | ShortJWTSecret | ShortOTPPepper | E2EInProduction

definition IsProduction :: "config \<Rightarrow> bool" where
  "IsProduction c \<longleftrightarrow> CfgEnv c = ''production''"

definition LoadConfig :: "config option \<Rightarrow> config_error + config" where
  "LoadConfig parsed = (case parsed of
     None \<Rightarrow> Inl EnvUnreadable
   | Some c \<Rightarrow>
       let c = (if MigrationDatabaseURL c = [] then c\<lparr>MigrationDatabaseURL := DatabaseURL c\<rparr> else c)
       in if length (JWTSecret c) < 16 then Inl ShortJWTSecret
          else if \<not> CfgPasswordLogin c \<and> length (OTPPepper c) < 16 then Inl ShortOTPPepper
          else if E2ETestMode c \<and> IsProduction c then Inl E2EInProduction
          else Inr c)"

subsection \<open>Mail (internal/email)\<close>

record plunk_sender =
  PkAPIKey :: string
  PkFromEmail :: string
  PkFromName :: string
  PkSendURL :: string

definition DefaultPlunkSendURL :: string where
  "DefaultPlunkSendURL = ''https://next-api.useplunk.com/v1/send''"

datatype sender_refusal = RealSendRefused | SenderUnconfigured

definition NewPlunkSender :: "string \<Rightarrow> string \<Rightarrow> string \<Rightarrow> string \<Rightarrow> bool \<Rightarrow> bool \<Rightarrow> sender_refusal + plunk_sender" where
  "NewPlunkSender apiKey fromEmail fromName sendURL isProd allowRealSend =
     (if \<not> isProd \<and> \<not> allowRealSend then Inl RealSendRefused
      else if apiKey = [] \<or> fromEmail = [] then Inl SenderUnconfigured
      else Inr \<lparr>PkAPIKey = apiKey, PkFromEmail = fromEmail, PkFromName = fromName,
        PkSendURL = (if sendURL = [] then DefaultPlunkSendURL else sendURL)\<rparr>)"

datatype mail_sender = Fake | Plunk plunk_sender

text \<open>The choice of cmd/api/main.go.\<close>

definition chooseSender :: "config \<Rightarrow> mail_sender" where
  "chooseSender c = (if E2ETestMode c then Fake
     else case NewPlunkSender (PlunkAPIKey c) (PlunkFromEmail c) (PlunkFromName c) (PlunkSendURL c) (IsProduction c) (PlunkAllowRealSend c) of
       Inr p \<Rightarrow> Plunk p | Inl _ \<Rightarrow> Fake)"

text \<open>The fake sender: what it recorded, and whether the next send fails.\<close>

datatype message = OtpMessage string string | InvitationMessage string string

record fake_sender =
  SentMessages :: "message list"
  FailNext :: bool

definition recordMessage :: "message \<Rightarrow> fake_sender \<Rightarrow> bool \<times> fake_sender" where
  "recordMessage m f = (if FailNext f then (False, f\<lparr>FailNext := False\<rparr>)
     else (True, f\<lparr>SentMessages := SentMessages f @ [m]\<rparr>))"

fun newestCode :: "string \<Rightarrow> message list \<Rightarrow> string" where
  "newestCode to [] = []"
| "newestCode to (m # ms) = (case m of OtpMessage t code \<Rightarrow> if t = to then code else newestCode to ms
     | InvitationMessage _ _ \<Rightarrow> newestCode to ms)"

definition LastCodeFor :: "string \<Rightarrow> fake_sender \<Rightarrow> string" where
  "LastCodeFor to f = newestCode to (rev (SentMessages f))"

definition ResetSender :: "fake_sender \<Rightarrow> fake_sender" where
  "ResetSender f = f\<lparr>SentMessages := [], FailNext := False\<rparr>"

definition roleArticle :: "string \<Rightarrow> string" where
  "roleArticle role = (if role = ''super_admin'' then ''a super admin'' else if role = ''organizer'' then ''an organizer''
     else ''a '' @ map (\<lambda>c. if c = CHR ''_'' then CHR '' '' else c) role)"

text \<open>\<open>html.EscapeString\<close>.\<close>

definition EscapeString :: "string \<Rightarrow> string" where
  "EscapeString s = concat (map (\<lambda>c. if c = CHR ''<'' then ''&lt;'' else if c = CHR ''>'' then ''&gt;''
     else if c = CHR ''&'' then ''&amp;'' else if c = CHR 0x27 then ''&#39;'' else if c = CHR 0x22 then ''&#34;'' else [c]) s)"

text \<open>The answer of the provider: \<open>None\<close> is delivered, \<open>Some\<close> the status of a \<open>DeliveryError\<close>.\<close>

definition deliveryResult :: "nat \<Rightarrow> nat option" where
  "deliveryResult status = (if status < 200 \<or> status \<ge> 300 then Some status else None)"

lemma EscapeString_inert: "set (EscapeString s) \<inter> {CHR ''<'', CHR ''>'', CHR 0x22, CHR 0x27} = {}"
  by (auto simp: EscapeString_def split: if_splits)

lemma LastCodeFor_sent:
  "\<not> FailNext f \<Longrightarrow> LastCodeFor to (snd (recordMessage (OtpMessage t code) f)) = (if t = to then code else LastCodeFor to f)"
  by (simp add: LastCodeFor_def recordMessage_def)

text \<open>Real mail is sent only where the configuration asks for it: in production or with the explicit
  switch, never in end-to-end test mode, and with a key and a sender address.\<close>

lemma real_mail_only_where_asked:
  assumes "chooseSender c = Plunk p"
  shows "\<not> E2ETestMode c" and "IsProduction c \<or> PlunkAllowRealSend c" and "PkAPIKey p \<noteq> []" and "PkFromEmail p \<noteq> []" and "PkSendURL p \<noteq> []"
  using assms by (auto simp: chooseSender_def NewPlunkSender_def DefaultPlunkSendURL_def split: if_splits sum.splits)

lemma LoadConfig_Inr:
  assumes "LoadConfig parsed = Inr c"
  shows "16 \<le> length (JWTSecret c)" and "CfgPasswordLogin c \<or> 16 \<le> length (OTPPepper c)" and "\<not> (E2ETestMode c \<and> IsProduction c)"
    and "DatabaseURL c \<noteq> [] \<Longrightarrow> MigrationDatabaseURL c \<noteq> []"
  using assms by (auto simp: LoadConfig_def Let_def IsProduction_def split: option.splits if_splits)

end
