(* ===== verification/Spec2Isabelle.thy ===== *)
theory Spec2Isabelle
  imports RoundRobin Knockout Fixtures BracketView Schedule Event AccountRun Cleanup Realtime Web
begin

text \<open>Verification development for the tournament API.\<close>

end
